(* ===== verification/Prelude.thy ===== *)
theory Prelude
  imports Main "HOL-Library.Signed_Division"
begin

text \<open>
  What every component theory shares: the ways a run of the simulator can abort (a failed
  \<^verbatim>\<open>assert\<close>, a call of \<^verbatim>\<open>Module::Error\<close>, \<^verbatim>\<open>exit(-1)\<close>, or undefined behaviour such as an
  access outside a \<^verbatim>\<open>std::vector\<close>), the sum type that carries them, C++ vectors indexed by
  \<^verbatim>\<open>int\<close>, \<^verbatim>\<open>for\<close> loops whose bodies may abort with the invariant rules used on them, C++
  integer division, and \<^verbatim>\<open>std::map\<close> / \<^verbatim>\<open>std::set\<close> as sorted lists.
  A C++ \<^verbatim>\<open>int\<close> is an \<open>int\<close>: signed overflow is undefined behaviour and the values kept here
  (ports, virtual channels, priorities, occupancies, node numbers) are far from it. Where the code stores a
  wider value (a time, a packet number) in an \<^verbatim>\<open>int\<close>, the conversion is \<open>int32\<close>.
\<close>

section \<open>Aborting runs\<close>

datatype err =
    AssertFail string     \<comment> \<open>a failed assert\<close>
  | ErrorMsg string       \<comment> \<open>Module::Error, which prints the text and exits\<close>
  | ExitFailure string    \<comment> \<open>exit(-1) after a message\<close>
  | OutOfBounds           \<comment> \<open>an access outside a vector\<close>
  | BadIterator           \<comment> \<open>a dereference of an end() iterator\<close>
  | Uninitialized         \<comment> \<open>a read of a local that was never written\<close>
  | DivByZero
  | UseAfterFree         \<comment> \<open>an access to a deleted object\<close>
  | NullPointer          \<comment> \<open>a call through a null pointer\<close>
  | DoubleFree            \<comment> \<open>a second delete of one object\<close>

type_synonym 'a res = "err + 'a"

definition bnd :: "'a res \<Rightarrow> ('a \<Rightarrow> 'b res) \<Rightarrow> 'b res" where
  "bnd m f = (case m of Inl e \<Rightarrow> Inl e | Inr x \<Rightarrow> f x)"

definition assert_that :: "bool \<Rightarrow> string \<Rightarrow> unit res" where
  "assert_that b msg = (if b then Inr () else Inl (AssertFail msg))"

lemma bnd_simps [simp]:
  "bnd (Inr x) f = f x"
  "bnd (Inl e) f = Inl e"
  by (simp_all add: bnd_def)

lemma bnd_Inr_iff: "bnd m f = Inr y \<longleftrightarrow> (\<exists>x. m = Inr x \<and> f x = Inr y)"
  by (cases m) (auto simp: bnd_def)

lemma bnd_cong [fundef_cong]:
  assumes "m = m'" and "\<And>x. m' = Inr x \<Longrightarrow> f x = g x"
  shows "bnd m f = bnd m' g"
  using assms by (cases m') (auto simp: bnd_def)

lemma bnd_assoc: "bnd (bnd m f) g = bnd m (\<lambda>x. bnd (f x) g)"
  by (cases m) (simp_all add: bnd_def)

lemma assert_that_simps [simp]:
  "b \<Longrightarrow> assert_that b msg = Inr ()"
  "\<not> b \<Longrightarrow> assert_that b msg = Inl (AssertFail msg)"
  by (simp_all add: assert_that_def)

lemma assert_that_Inr_iff [simp]: "assert_that b msg = Inr u \<longleftrightarrow> b"
  by (cases b) auto

section \<open>Loops\<close>

text \<open>\<^verbatim>\<open>for (x : xs) body\<close> where the body may abort.\<close>

primrec for_each :: "('a \<Rightarrow> 's \<Rightarrow> 's res) \<Rightarrow> 'a list \<Rightarrow> 's \<Rightarrow> 's res" where
  "for_each f [] s = Inr s"
| "for_each f (x # xs) s = bnd (f x s) (for_each f xs)"

lemma for_each_append: "for_each f (xs @ ys) s = bnd (for_each f xs s) (for_each f ys)"
  by (induction xs arbitrary: s) (auto simp: bnd_assoc intro: bnd_cong)

text \<open>
  The rule for a loop that never aborts: the invariant is indexed by the part of the list
  already processed.
\<close>

lemma for_each_prefix:
  assumes step: "\<And>done x rest s. xs = done @ x # rest \<Longrightarrow> P done s \<Longrightarrow>
      \<exists>s'. f x s = Inr s' \<and> P (done @ [x]) s'"
    and init: "P [] s"
  shows "\<exists>s'. for_each f xs s = Inr s' \<and> P xs s'"
proof -
  have "\<exists>s'. for_each f zs t = Inr s' \<and> P (ys @ zs) s'" if "xs = ys @ zs" "P ys t" for ys zs t
    using that
  proof (induction zs arbitrary: ys t)
    case Nil
    then show ?case by simp
  next
    case (Cons z zs)
    from step [OF Cons.prems(1,2)] obtain t' where t': "f z t = Inr t'" "P (ys @ [z]) t'"
      by blast
    from Cons.IH [of "ys @ [z]" t'] Cons.prems(1) t'(2) show ?case
      by (auto simp: t'(1))
  qed
  from this [of "[]" xs s] init show ?thesis by simp
qed

lemma for_each_inv:
  assumes "\<And>x s. x \<in> set xs \<Longrightarrow> P s \<Longrightarrow> \<exists>s'. f x s = Inr s' \<and> P s'" and "P s"
  shows "\<exists>s'. for_each f xs s = Inr s' \<and> P s'"
  by (rule for_each_prefix [where P = "\<lambda>_. P"]) (use assms in auto)

text \<open>The partial-correctness rule: if the loop returned, the invariant holds.\<close>

lemma for_each_post:
  assumes "for_each f xs s = Inr s'"
    and "\<And>x s s'. x \<in> set xs \<Longrightarrow> P s \<Longrightarrow> f x s = Inr s' \<Longrightarrow> P s'" and "P s"
  shows "P s'"
  using assms
  by (induction xs arbitrary: s) (auto simp: bnd_Inr_iff)

text \<open>Loops whose bodies cannot abort are \<open>fold\<close>s.\<close>

lemma fold_prefix:
  assumes step: "\<And>done x rest s. xs = done @ x # rest \<Longrightarrow> P done s \<Longrightarrow> P (done @ [x]) (f x s)"
    and init: "P [] s"
  shows "P xs (fold f xs s)"
proof -
  have "P (ys @ zs) (fold f zs t)" if "xs = ys @ zs" "P ys t" for ys zs t
    using that
  proof (induction zs arbitrary: ys t)
    case (Cons z zs)
    from Cons.IH [of "ys @ [z]" "f z t"] step [OF Cons.prems(1,2)] Cons.prems(1) show ?case
      by simp
  qed simp
  from this [of "[]" xs s] init show ?thesis by simp
qed

lemma fold_inv:
  assumes "\<And>x s. x \<in> set xs \<Longrightarrow> P s \<Longrightarrow> P (f x s)" and "P s"
  shows "P (fold f xs s)"
  by (rule fold_prefix [where P = "\<lambda>_. P"]) (use assms in auto)

section \<open>Vectors\<close>

text \<open>
  \<^verbatim>\<open>v[i]\<close> with an \<^verbatim>\<open>int\<close> index. \<open>vget\<close> and \<open>vset\<close> check the index and are used where it comes
  from a caller or from data; \<open>vat\<close> and \<open>vupd\<close> are used where the enclosing loop bounds it.
\<close>

definition vlen :: "'a list \<Rightarrow> int" where
  "vlen xs = int (length xs)"

definition vat :: "'a list \<Rightarrow> int \<Rightarrow> 'a" where
  "vat xs i = xs ! nat i"

definition vupd :: "'a list \<Rightarrow> int \<Rightarrow> 'a \<Rightarrow> 'a list" where
  "vupd xs i v = xs[nat i := v]"

definition vget :: "'a list \<Rightarrow> int \<Rightarrow> 'a res" where
  "vget xs i = (if 0 \<le> i \<and> i < vlen xs then Inr (vat xs i) else Inl OutOfBounds)"

definition vset :: "'a list \<Rightarrow> int \<Rightarrow> 'a \<Rightarrow> 'a list res" where
  "vset xs i v = (if 0 \<le> i \<and> i < vlen xs then Inr (vupd xs i v) else Inl OutOfBounds)"

lemma vlen_simps [simp]:
  "vlen [] = 0" "vlen (x # xs) = 1 + vlen xs" "vlen (xs @ ys) = vlen xs + vlen ys"
  "vlen (vupd xs i v) = vlen xs" "vlen (map f xs) = vlen xs" "vlen (replicate n v) = int n"
  by (simp_all add: vlen_def vupd_def)

lemma vlen_nonneg [simp]: "0 \<le> vlen xs"
  by (simp add: vlen_def)

lemma length_vupd [simp]: "length (vupd xs i v) = length xs"
  by (simp add: vupd_def)

lemma vat_vupd [simp]:
  "0 \<le> i \<Longrightarrow> i < vlen xs \<Longrightarrow> 0 \<le> j \<Longrightarrow> vat (vupd xs i v) j = (if j = i then v else vat xs j)"
  by (auto simp: vat_def vupd_def vlen_def nth_list_update eq_nat_nat_iff)

lemma vat_vupd_neq: "i \<noteq> j \<Longrightarrow> 0 \<le> i \<Longrightarrow> 0 \<le> j \<Longrightarrow> vat (vupd xs i v) j = vat xs j"
  by (simp add: vat_def vupd_def nth_list_update_neq)

lemma vget_ok [simp]: "0 \<le> i \<Longrightarrow> i < vlen xs \<Longrightarrow> vget xs i = Inr (vat xs i)"
  by (simp add: vget_def)

lemma vset_ok [simp]: "0 \<le> i \<Longrightarrow> i < vlen xs \<Longrightarrow> vset xs i v = Inr (vupd xs i v)"
  by (simp add: vset_def)

lemma vget_Inr_iff: "vget xs i = Inr x \<longleftrightarrow> 0 \<le> i \<and> i < vlen xs \<and> x = vat xs i"
  by (auto simp: vget_def)

lemma vset_Inr_iff: "vset xs i v = Inr ys \<longleftrightarrow> 0 \<le> i \<and> i < vlen xs \<and> ys = vupd xs i v"
  by (auto simp: vset_def)

text \<open>Updating an element of a vector, with the check of the index.\<close>

definition upd_at :: "int \<Rightarrow> ('a \<Rightarrow> 'a res) \<Rightarrow> 'a list \<Rightarrow> 'a list res" where
  "upd_at i g xs = bnd (vget xs i) (\<lambda>x. bnd (g x) (\<lambda>y. Inr (vupd xs i y)))"

lemma upd_at_Inr: "0 \<le> i \<Longrightarrow> i < vlen xs \<Longrightarrow> g (vat xs i) = Inr y \<Longrightarrow> upd_at i g xs = Inr (vupd xs i y)"
  by (simp add: upd_at_def)

lemma vat_replicate [simp]: "0 \<le> i \<Longrightarrow> i < int n \<Longrightarrow> vat (replicate n v) i = v"
  by (simp add: vat_def)

lemma vat_map [simp]: "0 \<le> i \<Longrightarrow> i < vlen xs \<Longrightarrow> vat (map f xs) i = f (vat xs i)"
  by (simp add: vat_def vlen_def)

lemma vat_in_set [intro]: "0 \<le> i \<Longrightarrow> i < vlen xs \<Longrightarrow> vat xs i \<in> set xs"
  by (simp add: vat_def vlen_def)

lemma ball_vat: "\<forall>x \<in> set xs. P x \<Longrightarrow> 0 \<le> i \<Longrightarrow> i < vlen xs \<Longrightarrow> P (vat xs i)"
  by auto

lemma set_vupd: "x \<in> set (vupd xs i v) \<Longrightarrow> x = v \<or> x \<in> set xs"
  using set_update_subset_insert by (fastforce simp: vupd_def)

lemma ball_vupd: "\<forall>x \<in> set xs. P x \<Longrightarrow> P v \<Longrightarrow> \<forall>x \<in> set (vupd xs i v). P x"
  using set_vupd by fastforce

lemma in_set_vat: "x \<in> set xs \<Longrightarrow> \<exists>i. 0 \<le> i \<and> i < vlen xs \<and> x = vat xs i"
  by (auto simp: in_set_conv_nth vat_def vlen_def) (metis nat_int of_nat_0_le_iff of_nat_less_iff)

lemma vec_eqI: "vlen xs = vlen ys \<Longrightarrow> (\<And>i. 0 \<le> i \<Longrightarrow> i < vlen xs \<Longrightarrow> vat xs i = vat ys i) \<Longrightarrow> xs = ys"
  by (rule nth_equalityI) (auto simp: vlen_def vat_def, metis nat_int of_nat_0_le_iff of_nat_less_iff)

section \<open>C++ integer division\<close>

text \<open>
  \<^verbatim>\<open>/\<close> and \<^verbatim>\<open>%\<close> truncate towards zero: \<open>sdiv\<close> and \<open>smod\<close> of the library. On the operands
  that occur here, which are not negative, they are \<open>div\<close> and \<open>mod\<close>.
\<close>

lemma sdiv_nonneg [simp]: "0 \<le> (a::int) \<Longrightarrow> 0 \<le> b \<Longrightarrow> a sdiv b = a div b"
  by (cases "b = 0") (auto simp: signed_divide_int_def sgn_if)

lemma smod_nonneg [simp]: "0 \<le> (a::int) \<Longrightarrow> 0 \<le> b \<Longrightarrow> a smod b = a mod b"
  by (cases "a = 0") (auto simp: signed_modulo_int_def sgn_if)

lemma smod_range: "0 \<le> (a::int) \<Longrightarrow> 0 < b \<Longrightarrow> 0 \<le> a smod b \<and> a smod b < b"
  by simp

text \<open>Mixed-radix indices: \<open>k * n + j\<close> with a digit \<open>j\<close> below the radix \<open>n\<close>.\<close>

lemma radix_index:
  assumes "0 \<le> k" "k < (m::int)" "0 \<le> j" "j < n"
  shows "0 \<le> k * n + j" "k * n + j < n * m" "(k * n + j) div n = k" "(k * n + j) mod n = j"
proof -
  show "0 \<le> k * n + j" using assms by simp
  have "k * n + j < (k + 1) * n" using assms by (simp add: algebra_simps)
  also have "\<dots> \<le> m * n" using assms by (intro mult_right_mono) auto
  finally show "k * n + j < n * m" by (simp add: mult.commute)
  show "(k * n + j) div n = k" "(k * n + j) mod n = j" using assms by simp_all
qed

lemma radix_div_less:
  assumes "0 < (n::int)" "i < n * m"
  shows "i div n < m"
proof (rule ccontr)
  assume "\<not> i div n < m"
  then have "n * m \<le> n * (i div n)" using assms by simp
  also have "\<dots> \<le> i" using assms by (simp add: minus_mod_eq_mult_div [symmetric])
  finally show False using assms by simp
qed

lemma radix_split:
  assumes "0 \<le> i" "i < n * m" "0 < (n::int)"
  shows "0 \<le> i div n" "i div n < m" "0 \<le> i mod n" "i mod n < n" "i div n * n + i mod n = i"
  using assms radix_div_less [of n i m] by (auto simp: pos_imp_zdiv_nonneg_iff)

definition INT_MIN :: int where
  "INT_MIN = - 2147483648"

definition INT_MAX :: int where
  "INT_MAX = 2147483647"

text \<open>Conversion of a wider integer to a 32-bit \<^verbatim>\<open>int\<close>.\<close>

definition int32 :: "int \<Rightarrow> int" where
  "int32 x = (x + 2147483648) mod 4294967296 - 2147483648"

lemma int32_id [simp]: "- 2147483648 \<le> x \<Longrightarrow> x < 2147483648 \<Longrightarrow> int32 x = x"
  by (simp add: int32_def)

lemma int32_range: "- 2147483648 \<le> int32 x" "int32 x < 2147483648"
  by (simp_all add: int32_def)

text \<open>The low 32 bits, read with the highest as the sign.\<close>

lemma int32_low: "int32 x = (let r = x mod 4294967296 in if r < 2147483648 then r else r - 4294967296)"
proof -
  have "(x + 2147483648) mod 4294967296 = (x mod 4294967296 + 2147483648) mod 4294967296" by (simp add: mod_add_left_eq)
  also have "\<dots> = (if x mod 4294967296 < 2147483648 then x mod 4294967296 + 2147483648 else x mod 4294967296 - 2147483648)"
  proof (cases "x mod 4294967296 < 2147483648")
    case False
    then show ?thesis using pos_mod_bound [of 4294967296 x] minus_mod_self2 [of "x mod 4294967296 + 2147483648" 4294967296] by simp
  qed simp
  finally show ?thesis by (simp add: int32_def Let_def)
qed

section \<open>Integer ranges\<close>

text \<open>The indices of \<^verbatim>\<open>for (int i = 0; i < n; ++i)\<close>.\<close>

definition range0 :: "int \<Rightarrow> int list" where
  "range0 n = [0..n - 1]"

lemma set_range0 [simp]: "set (range0 n) = {0..<n}"
  by (auto simp: range0_def)

lemma distinct_range0 [simp]: "distinct (range0 n)"
  by (simp add: range0_def)

lemma sorted_range0 [simp]: "sorted (range0 n)"
  by (simp add: range0_def)

lemma vat_range0: "0 \<le> i \<Longrightarrow> i < n \<Longrightarrow> vat (range0 n) i = i"
  by (simp add: vat_def range0_def)

lemma vlen_range0 [simp]: "0 \<le> n \<Longrightarrow> vlen (range0 n) = n"
  by (simp add: vlen_def range0_def)

lemma find_SomeD: "List.find P xs = Some x \<Longrightarrow> x \<in> set xs \<and> P x"
  by (auto simp: find_Some_iff)

end
