(* ===== verification/Arbiters.thy ===== *)
theory Arbiters
  imports Prelude
begin

text \<open>
  The arbiters of \<^verbatim>\<open>booksim2/src/arbiters\<close>: the base class \<^verbatim>\<open>Arbiter\<close>, \<^verbatim>\<open>RoundRobinArbiter\<close>,
  \<^verbatim>\<open>MatrixArbiter\<close> and \<^verbatim>\<open>TreeArbiter\<close>. A subclass is a record that extends the record of the
  base class; the class hierarchy behind an \<^verbatim>\<open>Arbiter*\<close> is the datatype \<open>arb\<close>, and a virtual
  call is one of \<open>arb_AddRequest\<close>, \<open>arb_Arbitrate\<close>, \<open>arb_UpdateState\<close>, \<open>arb_Clear\<close>. This
  theory holds the definitions; \<^verbatim>\<open>Arbiter_Laws\<close> states the contract and proves it for each
  class.
\<close>

section \<open>The base class\<close>

record entry =
  e_valid :: bool
  e_id :: int
  e_pri :: int

record arbiter =
  arb_request :: "entry list"
  arb_size :: int
  arb_selected :: int
  arb_highest_pri :: int
  arb_best_input :: int
  arb_num_reqs :: int

definition new_Arbiter :: "int \<Rightarrow> arbiter" where
  "new_Arbiter n =
     \<lparr>arb_request = replicate (nat n) \<lparr>e_valid = False, e_id = 0, e_pri = 0\<rparr>,
      arb_size = n, arb_selected = - 1, arb_highest_pri = INT_MIN,
      arb_best_input = - 1, arb_num_reqs = 0\<rparr>"

definition Arbiter_AddRequest ::
    "int \<Rightarrow> int \<Rightarrow> int \<Rightarrow> 'a arbiter_scheme \<Rightarrow> 'a arbiter_scheme res" where
  "Arbiter_AddRequest input rid pri a =
     bnd (assert_that (0 \<le> input \<and> input < arb_size a) ''0 <= input && input < _size'') (\<lambda>_.
     bnd (vget (arb_request a) input) (\<lambda>r.
     bnd (assert_that (\<not> e_valid r) ''!_request[input].valid'') (\<lambda>_.
     Inr (a\<lparr>arb_num_reqs := arb_num_reqs a + 1,
            arb_request := vupd (arb_request a) input
              \<lparr>e_valid = True, e_id = rid, e_pri = pri\<rparr>\<rparr>))))"

text \<open>
  \<^verbatim>\<open>Arbitrate(int* id, int* pri)\<close> returns the selected input and writes the winner's id and
  priority through the pointers; the model returns what it would write, \<open>None\<close> where it leaves
  the caller's variables alone.
\<close>

definition Arbiter_Arbitrate :: "'a arbiter_scheme \<Rightarrow> (int \<times> (int \<times> int) option) res" where
  "Arbiter_Arbitrate a =
     bnd (if arb_selected a \<noteq> - 1
          then bnd (vget (arb_request a) (arb_selected a)) (\<lambda>r. Inr (Some (e_id r, e_pri r)))
          else Inr None) (\<lambda>out.
     bnd (assert_that (arb_selected a \<ge> 0 \<or> arb_num_reqs a = 0)
            ''(_selected >= 0) || (_num_reqs == 0)'') (\<lambda>_.
     Inr (arb_selected a, out)))"

definition Arbiter_Clear :: "'a arbiter_scheme \<Rightarrow> 'a arbiter_scheme" where
  "Arbiter_Clear a =
     (if arb_num_reqs a > 0
      then a\<lparr>arb_request := map (\<lambda>r. r\<lparr>e_valid := False\<rparr>) (arb_request a),
             arb_num_reqs := 0, arb_selected := - 1\<rparr>
      else a)"

section \<open>Round robin\<close>

record rr_arbiter = arbiter +
  rr_pointer :: int

definition new_RoundRobinArbiter :: "int \<Rightarrow> rr_arbiter" where
  "new_RoundRobinArbiter n = arbiter.extend (new_Arbiter n) \<lparr>rr_pointer = 0\<rparr>"

definition Supersedes :: "int \<Rightarrow> int \<Rightarrow> int \<Rightarrow> int \<Rightarrow> int \<Rightarrow> int \<Rightarrow> bool" where
  "Supersedes input1 pri1 input2 pri2 offset n \<longleftrightarrow>
     pri1 > pri2 \<or>
     (pri1 = pri2 \<and> (input1 - offset + n) smod n < (input2 - offset + n) smod n)"

definition RR_UpdateState :: "rr_arbiter \<Rightarrow> rr_arbiter" where
  "RR_UpdateState a =
     (if arb_selected a > - 1 then a\<lparr>rr_pointer := (arb_selected a + 1) smod arb_size a\<rparr> else a)"

definition RR_AddRequest :: "int \<Rightarrow> int \<Rightarrow> int \<Rightarrow> rr_arbiter \<Rightarrow> rr_arbiter res" where
  "RR_AddRequest input rid pri a =
     bnd (vget (arb_request a) input) (\<lambda>r.
     Arbiter_AddRequest input rid pri
       (if (\<not> e_valid r \<or> e_pri r < pri) \<and>
           (arb_num_reqs a = 0 \<or>
            Supersedes input pri (arb_best_input a) (arb_highest_pri a) (rr_pointer a) (arb_size a))
        then a\<lparr>arb_highest_pri := pri, arb_best_input := input\<rparr> else a))"

definition RR_Arbitrate :: "rr_arbiter \<Rightarrow> (rr_arbiter \<times> int \<times> (int \<times> int) option) res" where
  "RR_Arbitrate a =
     (let a = a\<lparr>arb_selected := arb_best_input a\<rparr>
      in bnd (Arbiter_Arbitrate a) (\<lambda>r. Inr (a, r)))"

definition RR_Clear :: "rr_arbiter \<Rightarrow> rr_arbiter" where
  "RR_Clear a = Arbiter_Clear (a\<lparr>arb_highest_pri := INT_MIN, arb_best_input := - 1\<rparr>)"

section \<open>Matrix\<close>

record matrix_arbiter = arbiter +
  mx_matrix :: "int list list"
  mx_last_req :: int

definition new_MatrixArbiter :: "int \<Rightarrow> matrix_arbiter" where
  "new_MatrixArbiter n = arbiter.extend (new_Arbiter n)
     \<lparr>mx_matrix = map (\<lambda>i. map (\<lambda>j. if j < i then 1 else 0) (range0 n)) (range0 n),
      mx_last_req = - 1\<rparr>"

definition MX_UpdateState :: "matrix_arbiter \<Rightarrow> matrix_arbiter" where
  "MX_UpdateState a =
     (let s = arb_selected a in
      if s > - 1 then
        a\<lparr>mx_matrix := fold (\<lambda>i M.
            if s \<noteq> i then
              let M = vupd M s (vupd (vat M s) i 0)
              in vupd M i (vupd (vat M i) s 1)
            else M) (range0 (arb_size a)) (mx_matrix a)\<rparr>
      else a)"

definition MX_AddRequest :: "int \<Rightarrow> int \<Rightarrow> int \<Rightarrow> matrix_arbiter \<Rightarrow> matrix_arbiter res" where
  "MX_AddRequest input rid pri a = Arbiter_AddRequest input rid pri (a\<lparr>mx_last_req := input\<rparr>)"

text \<open>The inner loop: request \<open>i\<close> takes the grant away from \<open>input\<close>.\<close>

definition MX_beats :: "matrix_arbiter \<Rightarrow> int \<Rightarrow> int \<Rightarrow> bool" where
  "MX_beats a i input \<longleftrightarrow>
     e_valid (vat (arb_request a) i) \<and>
     (e_pri (vat (arb_request a) i) = e_pri (vat (arb_request a) input) \<and>
        vat (vat (mx_matrix a) i) input \<noteq> 0 \<or>
      e_pri (vat (arb_request a) i) > e_pri (vat (arb_request a) input))"

definition MX_select :: "matrix_arbiter \<Rightarrow> int" where
  "MX_select a =
     (if arb_num_reqs a < 2 then mx_last_req a
      else case find (\<lambda>input. e_valid (vat (arb_request a) input) \<and>
                 \<not> list_ex (\<lambda>i. MX_beats a i input) (range0 (arb_size a))) (range0 (arb_size a)) of
             None \<Rightarrow> - 1 | Some input \<Rightarrow> input)"

definition MX_Arbitrate :: "matrix_arbiter \<Rightarrow> (matrix_arbiter \<times> int \<times> (int \<times> int) option) res" where
  "MX_Arbitrate a =
     (let a = a\<lparr>arb_selected := MX_select a\<rparr>
      in bnd (Arbiter_Arbitrate a) (\<lambda>r. Inr (a, r)))"

definition MX_Clear :: "matrix_arbiter \<Rightarrow> matrix_arbiter" where
  "MX_Clear a = Arbiter_Clear (a\<lparr>mx_last_req := - 1\<rparr>)"

section \<open>Trees of arbiters and dynamic dispatch\<close>

text \<open>
  \<open>Tree b n gs g rs\<close> is a \<^verbatim>\<open>TreeArbiter\<close>: the base-class part \<open>b\<close>, \<^verbatim>\<open>_group_size\<close>,
  \<^verbatim>\<open>_group_arbiters\<close>, \<^verbatim>\<open>_global_arbiter\<close> and \<^verbatim>\<open>_group_reqs\<close>.
\<close>

datatype arb =
    RoundRobin rr_arbiter
  | Matrix matrix_arbiter
  | Tree arbiter int "arb list" arb "int list"

fun arb_height :: "arb \<Rightarrow> nat" where
  "arb_height (RoundRobin _) = 0"
| "arb_height (Matrix _) = 0"
| "arb_height (Tree _ _ gs g _) = Suc (sum_list (map arb_height gs) + arb_height g)"

fun LastWinner :: "arb \<Rightarrow> int" where
  "LastWinner (RoundRobin a) = arb_selected a"
| "LastWinner (Matrix a) = arb_selected a"
| "LastWinner (Tree b _ _ _ _) = arb_selected b"

fun arb_nreqs :: "arb \<Rightarrow> int" where
  "arb_nreqs (RoundRobin a) = arb_num_reqs a"
| "arb_nreqs (Matrix a) = arb_num_reqs a"
| "arb_nreqs (Tree b _ _ _ _) = arb_num_reqs b"

lemma height_member: "g \<in> set gs \<Longrightarrow> arb_height g < Suc (sum_list (map arb_height gs) + k)"
  by (rule le_imp_less_Suc, rule trans_le_add1, rule member_le_sum_list) auto

lemma height_vat:
  "0 \<le> i \<Longrightarrow> i < vlen gs \<Longrightarrow> arb_height (vat gs i) < Suc (sum_list (map arb_height gs) + k)"
  by (rule height_member) auto

lemma height_group: "vget gs i = Inr g \<Longrightarrow> arb_height g < arb_height (Tree b n gs gl rs)"
  by (auto simp: vget_Inr_iff intro: height_vat)

function arb_AddRequest :: "int \<Rightarrow> int \<Rightarrow> int \<Rightarrow> arb \<Rightarrow> arb res" where
  "arb_AddRequest input rid pri (RoundRobin a) =
     bnd (RR_AddRequest input rid pri a) (\<lambda>a. Inr (RoundRobin a))"
| "arb_AddRequest input rid pri (Matrix a) =
     bnd (MX_AddRequest input rid pri a) (\<lambda>a. Inr (Matrix a))"
| "arb_AddRequest input rid pri (Tree b n gs gl rs) =
     bnd (Arbiter_AddRequest input rid pri b) (\<lambda>b.
     (let gi = input sdiv n in
      bnd (vget gs gi) (\<lambda>g.
      bnd (arb_AddRequest (input smod n) rid pri g) (\<lambda>g.
      bnd (vget rs gi) (\<lambda>r.
      Inr (Tree b n (vupd gs gi g) gl (vupd rs gi (r + 1))))))))"
  by pat_completeness auto
termination
  by (relation "measure (\<lambda>(_, _, _, a). arb_height a)") (auto dest: height_group)

lemma height_AddRequest: "arb_AddRequest i rid pri a = Inr a' \<Longrightarrow> arb_height a' = arb_height a"
proof (induction i rid pri a arbitrary: a' rule: arb_AddRequest.induct)
  case (3 input rid pri b n gs gl rs)
  let ?gi = "input sdiv n"
  from "3.prems" obtain b' g g' where g: "vget gs ?gi = Inr g"
      and g': "arb_AddRequest (input smod n) rid pri g = Inr g'"
      and b': "Arbiter_AddRequest input rid pri b = Inr b'"
      and a': "a' = Tree b' n (vupd gs ?gi g') gl (vupd rs ?gi (vat rs ?gi + 1))"
    by (auto simp: bnd_Inr_iff Let_def vget_Inr_iff)
  have "arb_height g' = arb_height (gs ! nat ?gi)"
    using "3.IH" [OF b' refl g g'] g by (auto simp: vget_Inr_iff vat_def)
  then have "map arb_height (vupd gs ?gi g') = map arb_height gs"
    by (simp add: vupd_def map_update) (metis list_update_id map_update)
  then show ?case by (simp add: a')
qed (auto simp: bnd_Inr_iff)

text \<open>
  The loop of \<^verbatim>\<open>TreeArbiter::Arbitrate\<close>: \<open>res\<close> holds what arbitration in each group yields.
  \<^verbatim>\<open>group_id\<close> and \<^verbatim>\<open>group_pri\<close> are uninitialised locals, so a group that selects nothing would
  hand garbage to the global arbiter.
\<close>

definition tree_visit ::
    "int list \<Rightarrow> (arb \<times> int \<times> (int \<times> int) option) res list \<Rightarrow> int \<Rightarrow> arb list \<times> arb \<Rightarrow> (arb list \<times> arb) res" where
  "tree_visit rs res i s =
     (if vat rs i \<noteq> 0 then
        bnd (vat res i) (\<lambda>(g, _, out).
        case out of None \<Rightarrow> Inl Uninitialized
        | Some (gid, gpri) \<Rightarrow>
            bnd (arb_AddRequest i gid gpri (snd s)) (\<lambda>gl. Inr (vupd (fst s) i g, gl)))
      else Inr s)"

definition tree_collect ::
    "int list \<Rightarrow> (arb \<times> int \<times> (int \<times> int) option) res list \<Rightarrow> arb list \<Rightarrow> arb \<Rightarrow> (arb list \<times> arb) res" where
  "tree_collect rs res gs gl = for_each (tree_visit rs res) (range0 (vlen gs)) (gs, gl)"

lemma height_collect: "tree_collect rs res gs gl = Inr (gs', gl') \<Longrightarrow> arb_height gl' = arb_height gl"
proof -
  assume *: "tree_collect rs res gs gl = Inr (gs', gl')"
  have "(\<lambda>s. arb_height (snd s) = arb_height gl) (gs', gl')"
    by (rule for_each_post [OF * [unfolded tree_collect_def]])
      (auto simp: tree_visit_def bnd_Inr_iff height_AddRequest split: if_splits option.splits)
  then show ?thesis by simp
qed

function arb_Arbitrate :: "arb \<Rightarrow> (arb \<times> int \<times> (int \<times> int) option) res" where
  "arb_Arbitrate (RoundRobin a) = bnd (RR_Arbitrate a) (\<lambda>(a, r). Inr (RoundRobin a, r))"
| "arb_Arbitrate (Matrix a) = bnd (MX_Arbitrate a) (\<lambda>(a, r). Inr (Matrix a, r))"
| "arb_Arbitrate (Tree b n gs gl rs) =
     (if arb_num_reqs b = 0 then Inr (Tree b n gs gl rs, - 1, None)
      else
        bnd (tree_collect rs (map arb_Arbitrate gs) gs gl) (\<lambda>s.
        bnd (arb_Arbitrate (snd s)) (\<lambda>(gl, group, _).
        bnd (assert_that (group \<ge> 0 \<and> group < vlen (fst s)) ''group in range'') (\<lambda>_.
        (let group_sel = LastWinner (vat (fst s) group) in
         bnd (assert_that (group_sel \<ge> 0 \<and> group_sel < n) ''group_sel in range'') (\<lambda>_.
         (let b = b\<lparr>arb_selected := group * n + group_sel\<rparr> in
          bnd (assert_that (arb_selected b \<ge> 0 \<and> arb_selected b < arb_size b) ''_selected in range'') (\<lambda>_.
          bnd (Arbiter_Arbitrate b) (\<lambda>r. Inr (Tree b n (fst s) gl rs, r))))))))))"
  by pat_completeness auto
termination
proof (relation "measure arb_height", goal_cases)
  case (2 b n gs gl rs g)
  then show ?case by (simp add: height_member)
next
  case (3 b n gs gl rs s)
  then show ?case by (cases s) (auto dest: height_collect)
qed simp

function arb_UpdateState :: "arb \<Rightarrow> arb res" where
  "arb_UpdateState (RoundRobin a) = Inr (RoundRobin (RR_UpdateState a))"
| "arb_UpdateState (Matrix a) = Inr (Matrix (MX_UpdateState a))"
| "arb_UpdateState (Tree b n gs gl rs) =
     (if arb_selected b > - 1 then
        let last_winner = LastWinner gl in
        bnd (assert_that (last_winner \<ge> 0 \<and> last_winner < vlen gs) ''last_winner in range'') (\<lambda>_.
        bnd (vget gs last_winner) (\<lambda>g.
        bnd (arb_UpdateState g) (\<lambda>g.
        bnd (arb_UpdateState gl) (\<lambda>gl.
        Inr (Tree b n (vupd gs last_winner g) gl rs)))))
      else Inr (Tree b n gs gl rs))"
  by pat_completeness auto
termination
  by (relation "measure arb_height") (auto intro: height_vat)

fun arb_Clear :: "arb \<Rightarrow> arb" where
  "arb_Clear (RoundRobin a) = RoundRobin (RR_Clear a)"
| "arb_Clear (Matrix a) = Matrix (MX_Clear a)"
| "arb_Clear (Tree b n gs gl rs) =
     (if arb_num_reqs b = 0 then Tree b n gs gl rs
      else Tree (Arbiter_Clear b) n (map arb_Clear gs) (arb_Clear gl) (map (\<lambda>_. 0) rs))"

end
