(* ===== verification/Arbiter_Laws.thy ===== *)
theory Arbiter_Laws
  imports Arbiters
begin

text \<open>
  The contract of an arbiter as a locale, and its proof for the round-robin, matrix and tree
  arbiters. The allocators use an arbiter through this contract only: requests accumulate in a
  table, arbitration grants a requester of the highest priority (or nothing when the table is
  empty) and never aborts, \<^verbatim>\<open>UpdateState\<close> keeps the table, \<^verbatim>\<open>Clear\<close> empties it.
\<close>

section \<open>The contract\<close>

definition grants :: "(int \<Rightarrow> (int \<times> int) option) \<Rightarrow> int \<Rightarrow> (int \<times> int) option \<Rightarrow> bool" where
  "grants R w out \<longleftrightarrow>
     (if R = Map.empty then w = - 1 \<and> out = None
      else \<exists>rid p. out = Some (rid, p) \<and> R w = Some (rid, p) \<and>
             (\<forall>i rid' p'. R i = Some (rid', p') \<longrightarrow> p' \<le> p))"

lemma grants_nonempty:
  "grants R w out \<Longrightarrow> R i = Some (rid', p') \<Longrightarrow>
     \<exists>rid p. out = Some (rid, p) \<and> R w = Some (rid, p) \<and> p' \<le> p"
  by (fastforce simp: grants_def split: if_splits)

locale arbiter_contract =
  fixes inv :: "'a \<Rightarrow> bool"
    and fresh :: "'a \<Rightarrow> bool"
    and sz :: "'a \<Rightarrow> int"
    and nreqs :: "'a \<Rightarrow> int"
    and reqs :: "'a \<Rightarrow> int \<Rightarrow> (int \<times> int) option"
    and winner :: "'a \<Rightarrow> int"
    and add :: "int \<Rightarrow> int \<Rightarrow> int \<Rightarrow> 'a \<Rightarrow> 'a res"
    and arbitrate :: "'a \<Rightarrow> ('a \<times> int \<times> (int \<times> int) option) res"
    and update :: "'a \<Rightarrow> 'a res"
    and clear :: "'a \<Rightarrow> 'a"
  assumes nreqs_nonneg: "inv a \<Longrightarrow> 0 \<le> nreqs a"
    and nreqs_empty: "inv a \<Longrightarrow> nreqs a = 0 \<longleftrightarrow> reqs a = Map.empty"
    and nreqs_fresh: "inv a \<Longrightarrow> nreqs a = 0 \<Longrightarrow> fresh a"
    and reqs_range: "inv a \<Longrightarrow> reqs a i = Some r \<Longrightarrow> 0 \<le> i \<and> i < sz a"
    and add_ok: "inv a \<Longrightarrow> fresh a \<Longrightarrow> 0 \<le> i \<Longrightarrow> i < sz a \<Longrightarrow> reqs a i = None \<Longrightarrow>
      \<exists>a'. add i rid p a = Inr a' \<and> inv a' \<and> fresh a' \<and> sz a' = sz a \<and>
        reqs a' = (reqs a)(i \<mapsto> (rid, p)) \<and> nreqs a' = nreqs a + 1 \<and> winner a' = winner a"
    and arbitrate_ok: "inv a \<Longrightarrow> fresh a \<Longrightarrow>
      \<exists>a' w out. arbitrate a = Inr (a', w, out) \<and> inv a' \<and> sz a' = sz a \<and>
        reqs a' = reqs a \<and> nreqs a' = nreqs a \<and> winner a' = w \<and> grants (reqs a) w out"
    and update_ok: "inv a \<Longrightarrow>
      \<exists>a'. update a = Inr a' \<and> inv a' \<and> sz a' = sz a \<and> reqs a' = reqs a \<and>
        nreqs a' = nreqs a \<and> winner a' = winner a"
    and clear_ok: "inv a \<Longrightarrow>
      inv (clear a) \<and> sz (clear a) = sz a \<and> reqs (clear a) = Map.empty"
begin

lemma clear_fresh: "inv a \<Longrightarrow> fresh (clear a)"
  using clear_ok nreqs_empty nreqs_fresh by blast

text \<open>A round as the allocators run it: add a batch of requests, then arbitrate once.\<close>

lemma add_all_ok:
  assumes "inv a" "fresh a" "distinct (map fst rs)"
    and "\<And>i r. (i, r) \<in> set rs \<Longrightarrow> 0 \<le> i \<and> i < sz a \<and> reqs a i = None"
  shows "\<exists>a'. for_each (\<lambda>(i, rid, p). add i rid p) rs a = Inr a' \<and> inv a' \<and> fresh a' \<and>
           sz a' = sz a \<and> reqs a' = reqs a ++ map_of rs"
  using assms
proof (induction rs arbitrary: a)
  case Nil
  then show ?case by simp
next
  case (Cons r rs)
  obtain i rid p where r: "r = (i, rid, p)" by (cases r) auto
  from Cons.prems r add_ok [of a i rid p] obtain a1 where
    a1: "add i rid p a = Inr a1" "inv a1" "fresh a1" "sz a1 = sz a"
      "reqs a1 = (reqs a)(i \<mapsto> (rid, p))"
    by fastforce
  have "\<exists>a'. for_each (\<lambda>(i, rid, p). add i rid p) rs a1 = Inr a' \<and> inv a' \<and> fresh a' \<and>
      sz a' = sz a1 \<and> reqs a' = reqs a1 ++ map_of rs"
    using Cons.prems r a1 by (intro Cons.IH) (auto simp: rev_image_eqI)
  moreover have "i \<notin> dom (map_of rs)"
    using Cons.prems(3) r by (auto simp: dom_map_of_conv_image_fst)
  then have "(reqs a)(i \<mapsto> (rid, p)) ++ map_of rs = reqs a ++ map_of (r # rs)"
    by (auto simp: r fun_eq_iff map_add_def split: option.splits)
  ultimately show ?case by (auto simp: r a1 simp del: map_of.simps)
qed

lemma round_ok:
  assumes "inv a" "reqs a = Map.empty" "distinct (map fst rs)"
    and "\<And>i r. (i, r) \<in> set rs \<Longrightarrow> 0 \<le> i \<and> i < sz a"
  shows "\<exists>a' w out. bnd (for_each (\<lambda>(i, rid, p). add i rid p) rs a) arbitrate = Inr (a', w, out) \<and>
           inv a' \<and> sz a' = sz a \<and> winner a' = w \<and> grants (map_of rs) w out"
proof -
  from assms nreqs_empty nreqs_fresh have "fresh a" by blast
  with assms add_all_ok [of a rs] obtain a1 where
    "for_each (\<lambda>(i, rid, p). add i rid p) rs a = Inr a1" "inv a1" "fresh a1" "sz a1 = sz a"
    "reqs a1 = map_of rs"
    by (auto simp: assms(2))
  then show ?thesis using arbitrate_ok [of a1] by fastforce
qed

end

section \<open>The request table of the base class\<close>

definition reqs_of :: "entry list \<Rightarrow> int \<Rightarrow> (int \<times> int) option" where
  "reqs_of rq i =
     (if 0 \<le> i \<and> i < vlen rq \<and> e_valid (vat rq i) then Some (e_id (vat rq i), e_pri (vat rq i)) else None)"

definition base_inv :: "'a arbiter_scheme \<Rightarrow> bool" where
  "base_inv a \<longleftrightarrow>
     0 < arb_size a \<and> vlen (arb_request a) = arb_size a \<and>
     arb_num_reqs a = int (length (filter e_valid (arb_request a))) \<and>
     - 1 \<le> arb_selected a \<and> arb_selected a < arb_size a \<and>
     (arb_num_reqs a = 0 \<longrightarrow> arb_selected a = - 1)"

lemma length_filter_upd:
  "i < length xs \<Longrightarrow> \<not> P (xs ! i) \<Longrightarrow> P v \<Longrightarrow> length (filter P (xs[i := v])) = Suc (length (filter P xs))"
proof (induction xs arbitrary: i)
  case (Cons x xs)
  then show ?case by (cases i) auto
qed simp

lemma reqs_of_upd:
  "0 \<le> i \<Longrightarrow> i < vlen rq \<Longrightarrow>
     reqs_of (vupd rq i \<lparr>e_valid = True, e_id = rid, e_pri = p\<rparr>) = (reqs_of rq)(i \<mapsto> (rid, p))"
  by (rule ext) (auto simp: reqs_of_def split: if_splits)

lemma reqs_of_clear: "reqs_of (map (\<lambda>r. r\<lparr>e_valid := False\<rparr>) rq) = Map.empty"
  by (rule ext) (auto simp: reqs_of_def)

lemma reqs_of_SomeD:
  "reqs_of rq i = Some (rid, p) \<Longrightarrow>
     0 \<le> i \<and> i < vlen rq \<and> e_valid (vat rq i) \<and> rid = e_id (vat rq i) \<and> p = e_pri (vat rq i)"
  by (auto simp: reqs_of_def split: if_splits)

lemma reqs_of_Some_iff:
  "reqs_of rq i = Some (rid, p) \<longleftrightarrow>
     0 \<le> i \<and> i < vlen rq \<and> e_valid (vat rq i) \<and> rid = e_id (vat rq i) \<and> p = e_pri (vat rq i)"
  by (auto simp: reqs_of_def)

lemma reqs_of_empty_iff: "reqs_of rq = Map.empty \<longleftrightarrow> filter e_valid rq = []"
proof
  assume *: "reqs_of rq = Map.empty"
  show "filter e_valid rq = []"
  proof (rule ccontr)
    assume "filter e_valid rq \<noteq> []"
    then obtain x where "x \<in> set rq" "e_valid x" by (auto simp: filter_empty_conv)
    then obtain i where "0 \<le> i" "i < vlen rq" "e_valid (vat rq i)" using in_set_vat by metis
    then show False using fun_cong [OF *, of i] by (auto simp: reqs_of_def)
  qed
next
  assume "filter e_valid rq = []"
  then show "reqs_of rq = Map.empty"
    by (auto simp: fun_eq_iff reqs_of_def filter_empty_conv)
qed

lemma base_nreqs_empty: "base_inv a \<Longrightarrow> arb_num_reqs a = 0 \<longleftrightarrow> reqs_of (arb_request a) = Map.empty"
  by (simp add: base_inv_def reqs_of_empty_iff)

lemma base_new: "0 < n \<Longrightarrow> base_inv (new_Arbiter n) \<and> reqs_of (arb_request (new_Arbiter n)) = Map.empty"
  by (auto simp: base_inv_def new_Arbiter_def reqs_of_empty_iff)

lemma base_add:
  assumes "base_inv a" "0 \<le> i" "i < arb_size a" "reqs_of (arb_request a) i = None"
  shows "Arbiter_AddRequest i rid p a =
      Inr (a\<lparr>arb_num_reqs := arb_num_reqs a + 1,
             arb_request := vupd (arb_request a) i \<lparr>e_valid = True, e_id = rid, e_pri = p\<rparr>\<rparr>)"
    and "base_inv (a\<lparr>arb_num_reqs := arb_num_reqs a + 1,
             arb_request := vupd (arb_request a) i \<lparr>e_valid = True, e_id = rid, e_pri = p\<rparr>\<rparr>)"
proof -
  from assms have nv: "\<not> e_valid (vat (arb_request a) i)" and "i < vlen (arb_request a)"
    by (auto simp: base_inv_def reqs_of_def split: if_splits)
  with assms show "Arbiter_AddRequest i rid p a =
      Inr (a\<lparr>arb_num_reqs := arb_num_reqs a + 1,
             arb_request := vupd (arb_request a) i \<lparr>e_valid = True, e_id = rid, e_pri = p\<rparr>\<rparr>)"
    by (simp add: Arbiter_AddRequest_def)
  from assms nv show "base_inv (a\<lparr>arb_num_reqs := arb_num_reqs a + 1,
             arb_request := vupd (arb_request a) i \<lparr>e_valid = True, e_id = rid, e_pri = p\<rparr>\<rparr>)"
    by (auto simp: base_inv_def vupd_def vat_def vlen_def length_filter_upd nat_less_iff)
qed

lemma base_clear:
  assumes "base_inv a"
  shows "base_inv (Arbiter_Clear a)" "reqs_of (arb_request (Arbiter_Clear a)) = Map.empty"
    "arb_size (Arbiter_Clear a) = arb_size a"
  using assms base_nreqs_empty [OF assms]
  by (auto simp: Arbiter_Clear_def base_inv_def reqs_of_clear filter_map comp_def reqs_of_empty_iff)

lemma base_clear_num: "base_inv a \<Longrightarrow> arb_num_reqs (Arbiter_Clear a) = 0"
  using base_clear [of a] base_nreqs_empty by blast

text \<open>The assertion at the end of \<^verbatim>\<open>Arbiter::Arbitrate\<close> and what it returns.\<close>

lemma base_arbitrate:
  assumes "base_inv a" and "arb_num_reqs a = 0 \<or> reqs_of (arb_request a) (arb_selected a) = Some (rid, p)"
  shows "Arbiter_Arbitrate a =
    Inr (arb_selected a, if arb_num_reqs a = 0 then None else Some (rid, p))"
  using assms by (auto simp: Arbiter_Arbitrate_def base_inv_def reqs_of_Some_iff)

section \<open>Round robin\<close>

definition rr_inv :: "rr_arbiter \<Rightarrow> bool" where
  "rr_inv a \<longleftrightarrow>
     base_inv a \<and> 0 \<le> rr_pointer a \<and> rr_pointer a < arb_size a \<and>
     (arb_num_reqs a = 0 \<longrightarrow> arb_best_input a = - 1) \<and>
     (arb_num_reqs a \<noteq> 0 \<longrightarrow>
        (\<exists>rid. reqs_of (arb_request a) (arb_best_input a) = Some (rid, arb_highest_pri a)) \<and>
        (\<forall>i rid p. reqs_of (arb_request a) i = Some (rid, p) \<longrightarrow> p \<le> arb_highest_pri a))"

lemma base_inv_frame [simp]:
  "base_inv (a\<lparr>arb_highest_pri := h\<rparr>) = base_inv a"
  "base_inv (a\<lparr>arb_best_input := b\<rparr>) = base_inv a"
  "base_inv (r\<lparr>rr_pointer := k\<rparr>) = base_inv r"
  "base_inv (m\<lparr>mx_matrix := M\<rparr>) = base_inv m"
  "base_inv (m\<lparr>mx_last_req := k\<rparr>) = base_inv m"
  by (simp_all add: base_inv_def)

lemma rr_new: "0 < n \<Longrightarrow> rr_inv (new_RoundRobinArbiter n)"
  using base_new [of n]
  by (auto simp: rr_inv_def new_RoundRobinArbiter_def base_inv_def new_Arbiter_def arbiter.defs)

lemma rr_add:
  assumes inv: "rr_inv a" and i: "0 \<le> i" "i < arb_size a" "reqs_of (arb_request a) i = None"
  shows "\<exists>a'. RR_AddRequest i rid p a = Inr a' \<and> rr_inv a' \<and> arb_size a' = arb_size a \<and>
    reqs_of (arb_request a') = (reqs_of (arb_request a))(i \<mapsto> (rid, p)) \<and>
    arb_num_reqs a' = arb_num_reqs a + 1 \<and> arb_selected a' = arb_selected a"
proof -
  let ?c = "arb_num_reqs a = 0 \<or>
    Supersedes i p (arb_best_input a) (arb_highest_pri a) (rr_pointer a) (arb_size a)"
  define a1 where "a1 = (if ?c then a\<lparr>arb_highest_pri := p, arb_best_input := i\<rparr> else a)"
  define a' where "a' = a1\<lparr>arb_num_reqs := arb_num_reqs a1 + 1,
    arb_request := vupd (arb_request a1) i \<lparr>e_valid = True, e_id = rid, e_pri = p\<rparr>\<rparr>"
  from inv have b: "base_inv a" and len: "i < vlen (arb_request a)" and n: "0 \<le> arb_num_reqs a"
    using i by (auto simp: rr_inv_def base_inv_def)
  have a1: "base_inv a1" "arb_size a1 = arb_size a" "arb_request a1 = arb_request a"
    "arb_num_reqs a1 = arb_num_reqs a" "arb_selected a1 = arb_selected a" "rr_pointer a1 = rr_pointer a"
    using b by (auto simp: a1_def)
  have eq: "RR_AddRequest i rid p a = Inr a'" and b': "base_inv a'"
    using base_add [OF a1(1), of i rid p] i a1 b len
    by (auto simp: RR_AddRequest_def a'_def a1_def reqs_of_def split: if_splits)
  have rq: "reqs_of (arb_request a') = (reqs_of (arb_request a))(i \<mapsto> (rid, p))"
    using i len by (simp add: a'_def a1 reqs_of_upd)
  have "rr_inv a'"
  proof (cases ?c)
    case True
    have "q \<le> p" if "reqs_of (arb_request a) j = Some (r, q)" for j r q
      using True inv that base_nreqs_empty [OF b] by (fastforce simp: rr_inv_def Supersedes_def)
    then show ?thesis
      using inv b' rq True n by (auto simp: rr_inv_def a'_def a1_def split: if_splits)
  next
    case False
    then show ?thesis
      using inv b' rq n i(3) by (auto simp: rr_inv_def a'_def a1_def Supersedes_def split: if_splits)
  qed
  then show ?thesis using eq rq by (simp add: a'_def a1)
qed

lemma rr_arbitrate:
  assumes inv: "rr_inv a"
  shows "\<exists>a' w out. RR_Arbitrate a = Inr (a', w, out) \<and> rr_inv a' \<and> arb_size a' = arb_size a \<and>
    reqs_of (arb_request a') = reqs_of (arb_request a) \<and> arb_num_reqs a' = arb_num_reqs a \<and>
    arb_selected a' = w \<and> grants (reqs_of (arb_request a)) w out"
proof -
  let ?a = "a\<lparr>arb_selected := arb_best_input a\<rparr>"
  from inv have b: "base_inv a" by (simp add: rr_inv_def)
  have inv': "rr_inv ?a"
    using inv by (auto simp: rr_inv_def base_inv_def reqs_of_Some_iff)
  then have b': "base_inv ?a" by (simp add: rr_inv_def)
  show ?thesis
  proof (cases "arb_num_reqs a = 0")
    case True
    with inv base_arbitrate [OF b'] base_nreqs_empty [OF b] inv' show ?thesis
      by (simp add: RR_Arbitrate_def grants_def rr_inv_def)
  next
    case False
    with inv obtain rid where
      "reqs_of (arb_request a) (arb_best_input a) = Some (rid, arb_highest_pri a)"
      by (auto simp: rr_inv_def)
    with False inv base_arbitrate [OF b', of rid "arb_highest_pri a"] inv' show ?thesis
      by (auto simp: RR_Arbitrate_def grants_def rr_inv_def)
  qed
qed

interpretation rr: arbiter_contract rr_inv "\<lambda>_. True" arb_size arb_num_reqs
  "\<lambda>a. reqs_of (arb_request a)" arb_selected RR_AddRequest RR_Arbitrate
  "\<lambda>a. Inr (RR_UpdateState a)" RR_Clear
proof (unfold_locales, goal_cases)
  case (5 a i rid p)
  then show ?case using rr_add [of a i rid p] by blast
next
  case (6 a)
  then show ?case using rr_arbitrate [of a] by blast
next
  case (7 a)
  then show ?case
    by (auto simp: rr_inv_def RR_UpdateState_def base_inv_def)
next
  case (8 a)
  then show ?case
    using base_clear [of "a\<lparr>arb_highest_pri := INT_MIN, arb_best_input := - 1\<rparr>"]
      base_clear_num [of "a\<lparr>arb_highest_pri := INT_MIN, arb_best_input := - 1\<rparr>"]
    by (auto simp: rr_inv_def RR_Clear_def Arbiter_Clear_def split: if_splits)
qed (auto simp: rr_inv_def base_nreqs_empty dest!: reqs_of_SomeD, auto simp: base_inv_def)

section \<open>Matrix\<close>

definition mat :: "int \<Rightarrow> int list list \<Rightarrow> bool" where
  "mat n M \<longleftrightarrow> vlen M = n \<and> (\<forall>i. 0 \<le> i \<and> i < n \<longrightarrow> vlen (vat M i) = n)"

definition ahead :: "int list list \<Rightarrow> int \<Rightarrow> int \<Rightarrow> bool" where
  "ahead M i j \<longleftrightarrow> vat (vat M i) j \<noteq> 0"

definition mx_order :: "int \<Rightarrow> int list list \<Rightarrow> bool" where
  "mx_order n M \<longleftrightarrow> mat n M \<and> asymp_on {0..<n} (ahead M) \<and> transp_on {0..<n} (ahead M) \<and>
     totalp_on {0..<n} (ahead M)"

definition mx_inv :: "matrix_arbiter \<Rightarrow> bool" where
  "mx_inv a \<longleftrightarrow>
     base_inv a \<and> mx_order (arb_size a) (mx_matrix a) \<and>
     (arb_num_reqs a = 0 \<longrightarrow> mx_last_req a = - 1) \<and>
     (arb_num_reqs a \<noteq> 0 \<longrightarrow> reqs_of (arb_request a) (mx_last_req a) \<noteq> None)"

lemma mx_new: "0 < n \<Longrightarrow> mx_inv (new_MatrixArbiter n)"
  using base_new [of n]
  by (auto simp: mx_inv_def new_MatrixArbiter_def base_inv_def new_Arbiter_def arbiter.defs
      mx_order_def mat_def ahead_def vat_range0 asymp_on_def transp_on_def totalp_on_def)

lemma mat_upd:
  assumes "mat n M" "0 \<le> i" "i < n" "0 \<le> j" "j < n"
  shows "mat n (vupd M i (vupd (vat M i) j v))"
    and "0 \<le> k \<Longrightarrow> k < n \<Longrightarrow> 0 \<le> l \<Longrightarrow>
      vat (vat (vupd M i (vupd (vat M i) j v)) k) l = (if k = i \<and> l = j then v else vat (vat M k) l)"
  using assms by (auto simp: mat_def)

text \<open>What the update loop leaves in the matrix: the winner's row is cleared, its column set.\<close>

definition mx_demote :: "int \<Rightarrow> int \<Rightarrow> int list list \<Rightarrow> int list list" where
  "mx_demote n s M = fold (\<lambda>i M. if s \<noteq> i then
              let M = vupd M s (vupd (vat M s) i 0) in vupd M i (vupd (vat M i) s 1)
            else M) (range0 n) M"

lemma mx_demote_step:
  assumes "mat n M" "0 \<le> s" "s < n" "0 \<le> x" "x < n" "s \<noteq> x"
  defines "M' \<equiv> let M = vupd M s (vupd (vat M s) x 0) in vupd M x (vupd (vat M x) s 1)"
  shows "mat n M'"
    and "0 \<le> i \<Longrightarrow> i < n \<Longrightarrow> 0 \<le> j \<Longrightarrow>
      vat (vat M' i) j = (if i = s \<and> j = x then 0 else if i = x \<and> j = s then 1 else vat (vat M i) j)"
proof -
  let ?N = "vupd M s (vupd (vat M s) x 0)"
  have N: "mat n ?N" by (rule mat_upd(1)) (use assms in auto)
  have M': "M' = vupd ?N x (vupd (vat ?N x) s 1)" by (simp add: M'_def Let_def)
  show "mat n M'" unfolding M' by (rule mat_upd(1) [OF N]) (use assms in auto)
  assume "0 \<le> i" "i < n" "0 \<le> j"
  then show "vat (vat M' i) j = (if i = s \<and> j = x then 0 else if i = x \<and> j = s then 1 else vat (vat M i) j)"
    unfolding M' using assms(2-6) mat_upd(2) [OF N, of x s i j 1] mat_upd(2) [OF assms(1), of s x i j 0]
    by auto
qed

lemma mx_demote_entries:
  assumes M: "mat n M" and s: "0 \<le> s" "s < n"
  shows "mat n (mx_demote n s M)"
    and "\<And>i j. 0 \<le> i \<Longrightarrow> i < n \<Longrightarrow> 0 \<le> j \<Longrightarrow> j < n \<Longrightarrow> vat (vat (mx_demote n s M) i) j =
       (if i = s \<and> j \<noteq> s then 0 else if j = s \<and> i \<noteq> s then 1 else vat (vat M i) j)"
proof -
  define P where "P = (\<lambda>dn M'. mat n M' \<and> (\<forall>i j. 0 \<le> i \<and> i < n \<and> 0 \<le> j \<and> j < n \<longrightarrow>
     vat (vat M' i) j =
       (if i = s \<and> j \<noteq> s \<and> j \<in> set dn then 0 else if j = s \<and> i \<noteq> s \<and> i \<in> set dn then 1
        else vat (vat M i) j)))"
  have "P (range0 n) (mx_demote n s M)"
    unfolding mx_demote_def
  proof (rule fold_prefix)
    show "P [] M" using M by (simp add: P_def)
  next
    fix dn x rest N
    assume xs: "range0 n = dn @ x # rest" and N: "P dn N"
    have "x \<in> set (range0 n)" by (simp add: xs)
    then have x: "0 \<le> x" "x < n" by auto
    show "P (dn @ [x]) (if s \<noteq> x then
        let M = vupd N s (vupd (vat N s) x 0) in vupd M x (vupd (vat M x) s 1) else N)"
    proof (cases "s = x")
      case True
      with N show ?thesis by (auto simp: P_def)
    next
      case False
      with N x s mx_demote_step [of n N s x] show ?thesis by (auto simp: P_def)
    qed
  qed
  then show "mat n (mx_demote n s M)"
    and "\<And>i j. 0 \<le> i \<Longrightarrow> i < n \<Longrightarrow> 0 \<le> j \<Longrightarrow> j < n \<Longrightarrow> vat (vat (mx_demote n s M) i) j =
       (if i = s \<and> j \<noteq> s then 0 else if j = s \<and> i \<noteq> s then 1 else vat (vat M i) j)"
    by (auto simp: P_def)
qed

lemma ahead_demote:
  assumes "mat n M" "0 \<le> s" "s < n" "i \<in> {0..<n}" "j \<in> {0..<n}"
  shows "ahead (mx_demote n s M) i j \<longleftrightarrow> (i \<noteq> s \<or> j = s) \<and> (j = s \<and> i \<noteq> s \<or> ahead M i j)"
  using assms by (auto simp: ahead_def mx_demote_entries)

lemma mx_order_demote:
  assumes M: "mx_order n M" and s: "0 \<le> s" "s < n"
  shows "mx_order n (mx_demote n s M)"
proof -
  from M have m: "mat n M" by (simp add: mx_order_def)
  note ah = ahead_demote [OF m s]
  show ?thesis
    unfolding mx_order_def
  proof (intro conjI)
    show "mat n (mx_demote n s M)" by (rule mx_demote_entries [OF m s])
    show "asymp_on {0..<n} (ahead (mx_demote n s M))"
    proof (rule asymp_onI)
      fix i j assume ij: "i \<in> {0..<n}" "j \<in> {0..<n}" "ahead (mx_demote n s M) i j"
      from M have "ahead M i j \<Longrightarrow> \<not> ahead M j i"
        using ij(1,2) by (simp add: mx_order_def asymp_on_def)
      with ij show "\<not> ahead (mx_demote n s M) j i"
        by (auto simp: ah)
    qed
    show "transp_on {0..<n} (ahead (mx_demote n s M))"
    proof (rule transp_onI)
      fix i j k assume ijk: "i \<in> {0..<n}" "j \<in> {0..<n}" "k \<in> {0..<n}"
        "ahead (mx_demote n s M) i j" "ahead (mx_demote n s M) j k"
      from M have "ahead M i j \<Longrightarrow> ahead M j k \<Longrightarrow> ahead M i k"
        using ijk(1-3) unfolding mx_order_def transp_on_def by blast
      moreover from M have "ahead M k k \<Longrightarrow> False"
        using ijk(3) unfolding mx_order_def asymp_on_def by blast
      ultimately show "ahead (mx_demote n s M) i k"
        using ijk by (auto simp: ah)
    qed
    show "totalp_on {0..<n} (ahead (mx_demote n s M))"
    proof (rule totalp_onI)
      fix i j assume ij: "i \<in> {0..<n}" "j \<in> {0..<n}" "i \<noteq> j"
      from M have "ahead M i j \<or> ahead M j i"
        using ij unfolding mx_order_def totalp_on_def by blast
      with ij show "ahead (mx_demote n s M) i j \<or> ahead (mx_demote n s M) j i"
        by (auto simp: ah)
    qed
  qed
qed

text \<open>
  The selected input exists: on the requesting inputs, "higher priority, or equal priority and
  ahead in the matrix" is a strict order, so some requester is beaten by none.
\<close>

definition mx_valid :: "matrix_arbiter \<Rightarrow> int set" where
  "mx_valid a = {i. 0 \<le> i \<and> i < arb_size a \<and> e_valid (vat (arb_request a) i)}"

lemma MX_beats_alt: "i \<in> mx_valid a \<Longrightarrow>
   MX_beats a i j \<longleftrightarrow> e_pri (vat (arb_request a) i) > e_pri (vat (arb_request a) j) \<or>
     e_pri (vat (arb_request a) i) = e_pri (vat (arb_request a) j) \<and> ahead (mx_matrix a) i j"
  by (auto simp: MX_beats_def ahead_def mx_valid_def)

lemma mx_beats_order:
  assumes "mx_inv a"
  shows "asymp_on (mx_valid a) (MX_beats a)" "transp_on (mx_valid a) (MX_beats a)"
proof -
  have V: "mx_valid a \<subseteq> {0..<arb_size a}" by (auto simp: mx_valid_def)
  from assms have o: "asymp_on (mx_valid a) (ahead (mx_matrix a))" "transp_on (mx_valid a) (ahead (mx_matrix a))"
    using V unfolding mx_inv_def mx_order_def by (blast intro: asymp_on_subset transp_on_subset)+
  show "asymp_on (mx_valid a) (MX_beats a)"
    using o(1) by (auto simp: asymp_on_def MX_beats_alt)
  show "transp_on (mx_valid a) (MX_beats a)"
  proof (rule transp_onI)
    fix i j k assume "i \<in> mx_valid a" "j \<in> mx_valid a" "k \<in> mx_valid a" "MX_beats a i j" "MX_beats a j k"
    moreover from this o(2) have "ahead (mx_matrix a) i j \<Longrightarrow> ahead (mx_matrix a) j k \<Longrightarrow> ahead (mx_matrix a) i k"
      unfolding transp_on_def by blast
    ultimately show "MX_beats a i k" by (auto simp: MX_beats_alt)
  qed
qed

lemma finite_mx_valid [simp]: "finite (mx_valid a)"
  by (rule finite_subset [of _ "{0..<arb_size a}"]) (auto simp: mx_valid_def)

lemma unique_valid:
  assumes "int (length (filter P xs)) < 2" "0 \<le> i" "i < vlen xs" "0 \<le> j" "j < vlen xs"
    "P (vat xs i)" "P (vat xs j)"
  shows "i = j"
proof -
  have "finite {k. k < length xs \<and> P (xs ! k)}" by simp
  moreover have "card {k. k < length xs \<and> P (xs ! k)} \<le> 1"
    using assms(1) by (simp add: length_filter_conv_card)
  ultimately have "nat i = nat j"
    using assms by (auto simp: card_le_Suc0_iff_eq vat_def vlen_def)
  with assms show ?thesis by simp
qed

lemma mx_select:
  assumes inv: "mx_inv a" and n: "arb_num_reqs a \<noteq> 0"
  shows "\<exists>rid p. reqs_of (arb_request a) (MX_select a) = Some (rid, p) \<and>
    (\<forall>i rid' p'. reqs_of (arb_request a) i = Some (rid', p') \<longrightarrow> p' \<le> p)"
proof (cases "arb_num_reqs a < 2")
  case True
  obtain rid p where w: "reqs_of (arb_request a) (mx_last_req a) = Some (rid, p)"
    using inv n by (auto simp: mx_inv_def)
  have u: "i = mx_last_req a" if "reqs_of (arb_request a) i = Some (rid', p')" for i rid' p'
    using True inv that w
    by (intro unique_valid [of e_valid "arb_request a"])
      (auto simp: mx_inv_def base_inv_def reqs_of_Some_iff)
  have "p' \<le> p" if "reqs_of (arb_request a) i = Some (rid', p')" for i rid' p'
    using u [OF that] that w by simp
  moreover have "MX_select a = mx_last_req a" using True by (simp add: MX_select_def)
  ultimately show ?thesis using w by auto
next
  case False
  have len: "vlen (arb_request a) = arb_size a" using inv by (simp add: mx_inv_def base_inv_def)
  have "reqs_of (arb_request a) \<noteq> Map.empty"
    using inv n base_nreqs_empty [of a] by (auto simp: mx_inv_def)
  then have "mx_valid a \<noteq> {}"
    by (auto simp: fun_eq_iff mx_valid_def reqs_of_def len split: if_splits)
  then obtain m where m: "m \<in> mx_valid a" "\<forall>x \<in> mx_valid a. x \<noteq> m \<longrightarrow> \<not> MX_beats a x m"
    using Finite_Set.bex_min_element [OF finite_mx_valid mx_beats_order [OF inv]] by blast
  moreover have "\<not> MX_beats a m m"
    using mx_beats_order(1) [OF inv] m(1) by (auto simp: asymp_on_def)
  ultimately have "\<not> list_ex (\<lambda>i. MX_beats a i m) (range0 (arb_size a))"
    by (auto simp: list_ex_iff mx_valid_def MX_beats_def)
  with m obtain w where w: "List.find (\<lambda>input. e_valid (vat (arb_request a) input) \<and>
      \<not> list_ex (\<lambda>i. MX_beats a i input) (range0 (arb_size a))) (range0 (arb_size a)) = Some w"
    by (cases "List.find (\<lambda>input. e_valid (vat (arb_request a) input) \<and>
      \<not> list_ex (\<lambda>i. MX_beats a i input) (range0 (arb_size a))) (range0 (arb_size a))")
      (auto simp: find_None_iff mx_valid_def)
  then have s: "MX_select a = w" using False by (simp add: MX_select_def)
  from find_SomeD [OF w] have "w \<in> mx_valid a" and nb: "\<And>i. i \<in> mx_valid a \<Longrightarrow> \<not> MX_beats a i w"
    by (auto simp: mx_valid_def list_ex_iff)
  moreover have "e_pri (vat (arb_request a) i) \<le> e_pri (vat (arb_request a) w)" if "i \<in> mx_valid a" for i
    using nb [OF that] that by (auto simp: MX_beats_alt)
  ultimately show ?thesis
    by (auto simp: s reqs_of_Some_iff len mx_valid_def)
qed

lemma mx_add:
  assumes inv: "mx_inv a" and i: "0 \<le> i" "i < arb_size a" "reqs_of (arb_request a) i = None"
  shows "\<exists>a'. MX_AddRequest i rid p a = Inr a' \<and> mx_inv a' \<and> arb_size a' = arb_size a \<and>
    reqs_of (arb_request a') = (reqs_of (arb_request a))(i \<mapsto> (rid, p)) \<and>
    arb_num_reqs a' = arb_num_reqs a + 1 \<and> arb_selected a' = arb_selected a"
proof -
  let ?a = "a\<lparr>mx_last_req := i\<rparr>"
  from inv have b: "base_inv ?a" "vlen (arb_request a) = arb_size a" "0 \<le> arb_num_reqs a"
    by (auto simp: mx_inv_def base_inv_def)
  then show ?thesis
    using base_add [OF b(1), of i rid p] i inv reqs_of_upd [of i "arb_request a" rid p]
    by (auto simp: MX_AddRequest_def mx_inv_def)
qed

lemma mx_arbitrate:
  assumes inv: "mx_inv a"
  shows "\<exists>a' w out. MX_Arbitrate a = Inr (a', w, out) \<and> mx_inv a' \<and> arb_size a' = arb_size a \<and>
    reqs_of (arb_request a') = reqs_of (arb_request a) \<and> arb_num_reqs a' = arb_num_reqs a \<and>
    arb_selected a' = w \<and> grants (reqs_of (arb_request a)) w out"
proof -
  let ?a = "a\<lparr>arb_selected := MX_select a\<rparr>"
  from inv have b: "base_inv a" by (simp add: mx_inv_def)
  show ?thesis
  proof (cases "arb_num_reqs a = 0")
    case True
    then have s: "MX_select a = - 1" using inv by (simp add: MX_select_def mx_inv_def)
    then have "base_inv ?a" using b by (simp add: base_inv_def)
    from base_arbitrate [OF this] True s base_nreqs_empty [OF b] inv this show ?thesis
      by (simp add: MX_Arbitrate_def grants_def mx_inv_def)
  next
    case False
    with mx_select [OF inv] obtain rid p where w: "reqs_of (arb_request a) (MX_select a) = Some (rid, p)"
      "\<And>i rid' p'. reqs_of (arb_request a) i = Some (rid', p') \<Longrightarrow> p' \<le> p" by blast
    then have "base_inv ?a" using b False by (auto simp: base_inv_def reqs_of_Some_iff)
    from base_arbitrate [OF this, of rid p] False w inv this show ?thesis
      by (auto simp: MX_Arbitrate_def grants_def mx_inv_def)
  qed
qed

interpretation mx: arbiter_contract mx_inv "\<lambda>_. True" arb_size arb_num_reqs
  "\<lambda>a. reqs_of (arb_request a)" arb_selected MX_AddRequest MX_Arbitrate
  "\<lambda>a. Inr (MX_UpdateState a)" MX_Clear
proof (unfold_locales, goal_cases)
  case (5 a i rid p)
  then show ?case using mx_add [of a i rid p] by blast
next
  case (6 a)
  then show ?case using mx_arbitrate [of a] by blast
next
  case (7 a)
  then show ?case
    using mx_order_demote [of "arb_size a" "mx_matrix a" "arb_selected a"]
    by (auto simp: mx_inv_def MX_UpdateState_def base_inv_def mx_demote_def Let_def)
next
  case (8 a)
  then show ?case
    using base_clear [of "a\<lparr>mx_last_req := - 1\<rparr>"] base_clear_num [of "a\<lparr>mx_last_req := - 1\<rparr>"]
    by (auto simp: mx_inv_def MX_Clear_def Arbiter_Clear_def split: if_splits)
qed (auto simp: mx_inv_def base_nreqs_empty dest!: reqs_of_SomeD, auto simp: base_inv_def)

end
