(* ===== verification/Tree_Arbiter.thy ===== *)
theory Tree_Arbiter
  imports Arbiter_Laws
begin

text \<open>
  The arbiter contract for \<^verbatim>\<open>TreeArbiter\<close> and for every arbiter \<^verbatim>\<open>Arbiter::NewArbiter\<close> can
  build, by induction over the tree. A tree must be cleared between two arbitrations, which the
  predicate \<open>arb_fresh\<close> records: the global arbiter of a tree that has arbitrated still holds
  the requests of its groups.
\<close>

section \<open>Invariant\<close>

fun arb_sz :: "arb \<Rightarrow> int" where
  "arb_sz (RoundRobin a) = arb_size a"
| "arb_sz (Matrix a) = arb_size a"
| "arb_sz (Tree b _ _ _ _) = arb_size b"

fun arb_reqs :: "arb \<Rightarrow> int \<Rightarrow> (int \<times> int) option" where
  "arb_reqs (RoundRobin a) = reqs_of (arb_request a)"
| "arb_reqs (Matrix a) = reqs_of (arb_request a)"
| "arb_reqs (Tree b _ _ _ _) = reqs_of (arb_request b)"

fun arb_fresh :: "arb \<Rightarrow> bool" where
  "arb_fresh (RoundRobin a) = True"
| "arb_fresh (Matrix a) = True"
| "arb_fresh (Tree b n gs gl rs) \<longleftrightarrow> arb_nreqs gl = 0 \<and> (\<forall>g \<in> set gs. arb_fresh g) \<and> arb_fresh gl"

fun arb_inv :: "arb \<Rightarrow> bool" where
  "arb_inv (RoundRobin a) = rr_inv a"
| "arb_inv (Matrix a) = mx_inv a"
| "arb_inv (Tree b n gs gl rs) \<longleftrightarrow>
     base_inv b \<and> 0 < n \<and> arb_size b = n * vlen gs \<and> vlen rs = vlen gs \<and>
     (\<forall>g \<in> set gs. arb_inv g \<and> arb_sz g = n) \<and> arb_inv gl \<and> arb_sz gl = vlen gs \<and>
     (\<forall>k. 0 \<le> k \<and> k < vlen gs \<longrightarrow> vat rs k = arb_nreqs (vat gs k)) \<and>
     (\<forall>i. 0 \<le> i \<and> i < arb_size b \<longrightarrow>
        reqs_of (arb_request b) i = arb_reqs (vat gs (i div n)) (i mod n)) \<and>
     (arb_selected b > - 1 \<longrightarrow> 0 \<le> LastWinner gl \<and> LastWinner gl < vlen gs) \<and>
     (arb_num_reqs b = 0 \<longrightarrow> arb_nreqs gl = 0)"

lemma arb_nreqs_nonneg: "arb_inv a \<Longrightarrow> 0 \<le> arb_nreqs a"
  by (cases a) (auto simp: rr_inv_def mx_inv_def base_inv_def)

lemma arb_nreqs_empty: "arb_inv a \<Longrightarrow> arb_nreqs a = 0 \<longleftrightarrow> arb_reqs a = Map.empty"
  by (cases a) (auto simp: rr_inv_def mx_inv_def base_nreqs_empty)

lemma arb_reqs_range: "arb_inv a \<Longrightarrow> arb_reqs a i = Some r \<Longrightarrow> 0 \<le> i \<and> i < arb_sz a"
  by (cases a) (auto simp: rr_inv_def mx_inv_def base_inv_def reqs_of_def split: if_splits)

lemma tree_groups:
  assumes "arb_inv (Tree b n gs gl rs)" "0 \<le> k" "k < vlen gs"
  shows "arb_inv (vat gs k)" "arb_sz (vat gs k) = n" "0 < n" "vat rs k = arb_nreqs (vat gs k)"
  using assms by auto

text \<open>The request table of a tree is the concatenation of those of its groups.\<close>

lemma tree_reqs_group:
  assumes "arb_inv (Tree b n gs gl rs)" "0 \<le> k" "k < vlen gs" "0 \<le> j" "j < n"
  shows "reqs_of (arb_request b) (k * n + j) = arb_reqs (vat gs k) j"
proof -
  note ix = radix_index [OF assms(2-5)]
  from assms(1) have "k * n + j < arb_size b" using ix(2) by simp
  with assms(1) ix show ?thesis by simp
qed

lemma tree_reqs_total:
  assumes "arb_inv (Tree b n gs gl rs)" "reqs_of (arb_request b) i = Some r"
  shows "0 \<le> i div n \<and> i div n < vlen gs \<and> arb_reqs (vat gs (i div n)) (i mod n) = Some r"
proof -
  from assms have i: "0 \<le> i" "i < n * vlen gs" "0 < n"
    by (auto simp: base_inv_def reqs_of_def split: if_splits)
  with assms radix_split [OF i] show ?thesis by simp
qed

lemma tree_group_empty:
  assumes "arb_inv (Tree b n gs gl rs)" "arb_num_reqs b = 0" "0 \<le> k" "k < vlen gs"
  shows "arb_nreqs (vat gs k) = 0"
proof -
  note g = tree_groups [OF assms(1,3,4)]
  have "reqs_of (arb_request b) = Map.empty"
    using assms(1,2) base_nreqs_empty [of b] by simp
  then have "arb_reqs (vat gs k) j = None" for j
    using tree_reqs_group [OF assms(1,3,4), of j] arb_reqs_range [OF g(1), of j] g(2)
    by (cases "arb_reqs (vat gs k) j") auto
  then have "arb_reqs (vat gs k) = Map.empty" by (rule ext)
  with arb_nreqs_empty [OF g(1)] show ?thesis by simp
qed

lemma arb_nreqs_fresh: "arb_inv a \<Longrightarrow> arb_nreqs a = 0 \<Longrightarrow> arb_fresh a"
proof (induction a)
  case (Tree b n gs gl rs)
  have "arb_fresh g" if "g \<in> set gs" for g
  proof -
    from in_set_vat [OF that] obtain k where k: "0 \<le> k" "k < vlen gs" "g = vat gs k" by blast
    with Tree.prems tree_group_empty [of b n gs gl rs k] have "arb_nreqs g = 0" by simp
    with Tree.IH(1) [OF that] Tree.prems that show ?thesis by simp
  qed
  with Tree show ?case by simp
qed simp_all

section \<open>Adding a request\<close>

lemma arb_add:
  assumes "arb_inv a" "arb_fresh a" "0 \<le> i" "i < arb_sz a" "arb_reqs a i = None"
  shows "\<exists>a'. arb_AddRequest i rid p a = Inr a' \<and> arb_inv a' \<and> arb_fresh a' \<and>
    arb_sz a' = arb_sz a \<and> arb_reqs a' = (arb_reqs a)(i \<mapsto> (rid, p)) \<and>
    arb_nreqs a' = arb_nreqs a + 1 \<and> LastWinner a' = LastWinner a"
  using assms
proof (induction i rid p a rule: arb_AddRequest.induct)
  case (1 i rid p a)
  then show ?case using rr_add [of a i rid p] by (auto simp: fun_eq_iff)
next
  case (2 i rid p a)
  then show ?case using mx_add [of a i rid p] by (auto simp: fun_eq_iff)
next
  case (3 i rid p b n gs gl rs)
  let ?k = "i div n" and ?j = "i mod n"
  define b' where "b' = b\<lparr>arb_num_reqs := arb_num_reqs b + 1,
     arb_request := vupd (arb_request b) i \<lparr>e_valid = True, e_id = rid, e_pri = p\<rparr>\<rparr>"
  from "3.prems" have b: "base_inv b" and n: "0 < n" and sz: "arb_size b = n * vlen gs"
    and rs: "vlen rs = vlen gs" and len: "i < vlen (arb_request b)" and nn: "0 \<le> arb_num_reqs b"
    by (auto simp: base_inv_def)
  have i: "0 \<le> i" "i < n * vlen gs" using "3.prems" sz by (auto simp: fun_eq_iff)
  note ij = radix_split [OF i n]
  have sd: "i sdiv n = ?k" "i smod n = ?j" using i n by (auto simp: fun_eq_iff)
  note g = tree_groups [OF "3.prems"(1) ij(1,2)]
  have add_b: "Arbiter_AddRequest i rid p b = Inr b'" and b': "base_inv b'"
    using base_add [OF b] "3.prems" by (auto simp: b'_def)
  have rq: "reqs_of (arb_request b') = (reqs_of (arb_request b))(i \<mapsto> (rid, p))"
    using i len by (simp add: b'_def reqs_of_upd)
  have get: "vget gs (i sdiv n) = Inr (vat gs ?k)" using ij by (simp add: sd)
  have "arb_fresh (vat gs ?k)" using "3.prems"(2) ij by auto
  moreover have "arb_reqs (vat gs ?k) ?j = None"
    using tree_reqs_group [OF "3.prems"(1) ij(1-4)] "3.prems"(5) ij(5) by simp
  moreover have "?j < arb_sz (vat gs ?k)" using ij g(2) by simp
  ultimately obtain g' where
    g': "arb_AddRequest ?j rid p (vat gs ?k) = Inr g'" "arb_inv g'" "arb_fresh g'" "arb_sz g' = n"
      "arb_reqs g' = (arb_reqs (vat gs ?k))(?j \<mapsto> (rid, p))" "arb_nreqs g' = arb_nreqs (vat gs ?k) + 1"
    using "3.IH" [OF add_b refl get, unfolded sd, OF g(1) _ ij(3)] unfolding g(2) by blast
  define a' where "a' = Tree b' n (vupd gs ?k g') gl (vupd rs ?k (vat rs ?k + 1))"
  have eq: "arb_AddRequest i rid p (Tree b n gs gl rs) = Inr a'"
    using add_b get g'(1) ij rs by (simp add: sd a'_def Let_def)
  have grp: "vat (vupd gs ?k g') k = (if k = ?k then g' else vat gs k)" if "0 \<le> k" for k
    using ij that by simp
  have mem: "P g'" if "\<And>g. g \<in> set gs \<Longrightarrow> P g" "P g'" for P :: "arb \<Rightarrow> bool" using that by blast
  have set': "g = g' \<or> g \<in> set gs" if "g \<in> set (vupd gs ?k g')" for g
    using that set_update_subset_insert by (fastforce simp: vupd_def)
  have table: "reqs_of (arb_request b') l = arb_reqs (vat (vupd gs ?k g') (l div n)) (l mod n)"
    if l: "0 \<le> l" "l < arb_size b" for l
  proof -
    have l': "l < n * vlen gs" using l sz by simp
    note ls = radix_split [OF l(1) l' n]
    have "l = i \<longleftrightarrow> l div n = ?k \<and> l mod n = ?j" using ls(5) ij(5) by metis
    moreover have "reqs_of (arb_request b) l = arb_reqs (vat gs (l div n)) (l mod n)"
      using "3.prems"(1) l by simp
    ultimately show ?thesis using ls g'(5) by (auto simp: rq grp)
  qed
  have "arb_inv a'"
    using "3.prems"(1,2) b' g' table rs ij g(4) set' nn
    by (auto simp: a'_def b'_def grp)
  moreover have "arb_fresh a'"
    using "3.prems"(2) g'(3) set' by (auto simp: a'_def)
  ultimately show ?case
    using eq rq by (intro exI [of _ a']) (simp add: a'_def b'_def fun_eq_iff)
qed

section \<open>Arbitration\<close>

definition arbitrates :: "arb \<Rightarrow> arb \<Rightarrow> int \<Rightarrow> (int \<times> int) option \<Rightarrow> bool" where
  "arbitrates a a' w out \<longleftrightarrow>
     arb_inv a' \<and> arb_sz a' = arb_sz a \<and> arb_reqs a' = arb_reqs a \<and> arb_nreqs a' = arb_nreqs a \<and>
     LastWinner a' = w \<and> grants (arb_reqs a) w out"

lemma idle_arbitrates: "arb_inv a \<Longrightarrow> arb_nreqs a = 0 \<Longrightarrow> arbitrates a a (- 1) None"
  using arb_nreqs_empty [of a]
  by (cases a) (auto simp: arbitrates_def grants_def rr_inv_def mx_inv_def base_inv_def)

lemma tree_collect_step:
  assumes inv: "arb_inv (Tree b n gs gl rs)" and i: "0 \<le> i" "i < vlen gs"
    and IH: "\<exists>a' w out. arb_Arbitrate (vat gs i) = Inr (a', w, out) \<and> arbitrates (vat gs i) a' w out"
    and gl: "arb_inv gl'" "arb_fresh gl'" "arb_sz gl' = vlen gs" "arb_reqs gl' i = None"
    and gs: "vat gs' i = vat gs i" "vlen gs' = vlen gs"
  shows "\<exists>gs'' gl''. tree_visit rs (map arb_Arbitrate gs) i (gs', gl') = Inr (gs'', gl'') \<and>
     vlen gs'' = vlen gs \<and> arb_inv gl'' \<and> arb_fresh gl'' \<and> arb_sz gl'' = vlen gs \<and>
     arbitrates (vat gs i) (vat gs'' i) (LastWinner (vat gs'' i)) (arb_reqs gl'' i) \<and>
     (\<forall>k. 0 \<le> k \<and> k \<noteq> i \<longrightarrow> vat gs'' k = vat gs' k \<and> arb_reqs gl'' k = arb_reqs gl' k)"
proof (cases "vat rs i = 0")
  case True
  note g = tree_groups [OF inv i]
  then have "arbitrates (vat gs i) (vat gs i) (- 1) None" using True by (intro idle_arbitrates) auto
  then show ?thesis using True gl gs by (auto simp: arbitrates_def tree_visit_def)
next
  case False
  note g = tree_groups [OF inv i]
  from IH obtain g' w out where g': "arb_Arbitrate (vat gs i) = Inr (g', w, out)"
    and arb: "arbitrates (vat gs i) g' w out" by blast
  have "arb_reqs (vat gs i) \<noteq> Map.empty" using arb_nreqs_empty [OF g(1)] g(4) False by simp
  then obtain rid p where out: "out = Some (rid, p)"
    using arb by (auto simp: arbitrates_def grants_def)
  obtain gl'' where gl'': "arb_AddRequest i rid p gl' = Inr gl''" "arb_inv gl''" "arb_fresh gl''"
      "arb_sz gl'' = arb_sz gl'" "arb_reqs gl'' = (arb_reqs gl')(i \<mapsto> (rid, p))"
    using arb_add [OF gl(1,2) i(1) _ gl(4)] i(2) gl(3) by metis
  have "LastWinner g' = w" using arb by (simp add: arbitrates_def)
  then show ?thesis
    using False i g' out gl'' arb gs gl 
    by (intro exI [of _ "vupd gs' i g'"] exI [of _ gl'']) (auto simp: tree_visit_def)
qed

lemma tree_collect_ok:
  assumes inv: "arb_inv (Tree b n gs gl rs)" and fresh: "arb_fresh (Tree b n gs gl rs)"
    and IH: "\<And>g. g \<in> set gs \<Longrightarrow> \<exists>a' w out. arb_Arbitrate g = Inr (a', w, out) \<and> arbitrates g a' w out"
  shows "\<exists>gs' gl'. tree_collect rs (map arb_Arbitrate gs) gs gl = Inr (gs', gl') \<and>
     vlen gs' = vlen gs \<and> arb_inv gl' \<and> arb_fresh gl' \<and> arb_sz gl' = vlen gs \<and>
     (\<forall>k. 0 \<le> k \<and> k < vlen gs \<longrightarrow>
        arbitrates (vat gs k) (vat gs' k) (LastWinner (vat gs' k)) (arb_reqs gl' k))"
proof -
  define P where "P seen s \<longleftrightarrow>
     vlen (fst s) = vlen gs \<and> arb_inv (snd s) \<and> arb_fresh (snd s) \<and> arb_sz (snd s) = vlen gs \<and>
     (\<forall>k. 0 \<le> k \<and> k < vlen gs \<longrightarrow>
        (if k \<in> set seen
         then arbitrates (vat gs k) (vat (fst s) k) (LastWinner (vat (fst s) k)) (arb_reqs (snd s) k)
         else vat (fst s) k = vat gs k \<and> arb_reqs (snd s) k = None))" for seen :: "int list" and s :: "arb list \<times> arb"
  have "\<exists>s'. tree_collect rs (map arb_Arbitrate gs) gs gl = Inr s' \<and> P (range0 (vlen gs)) s'"
    unfolding tree_collect_def
  proof (rule for_each_prefix)
    have "arb_reqs gl = Map.empty" using inv fresh arb_nreqs_empty [of gl] by simp
    then show "P [] (gs, gl)" using inv fresh by (simp add: P_def)
  next
    fix seen i rest s
    assume split: "range0 (vlen gs) = seen @ i # rest" and P: "P seen s"
    obtain gs' gl' where s: "s = (gs', gl')" by (cases s)
    have "i \<in> set (range0 (vlen gs))" using split by simp
    then have i: "0 \<le> i" "i < vlen gs" by auto
    have new: "i \<notin> set seen" using split distinct_range0 [of "vlen gs"] by simp
    from P i new have old: "vat gs' i = vat gs i" "arb_reqs gl' i = None" by (auto simp: P_def s)
    from P have q: "arb_inv gl'" "arb_fresh gl'" "arb_sz gl' = vlen gs" "vlen gs' = vlen gs"
      by (auto simp: P_def s)
    have mem: "vat gs i \<in> set gs" using i by (rule vat_in_set)
    obtain gs'' gl'' where step:
      "tree_visit rs (map arb_Arbitrate gs) i (gs', gl') = Inr (gs'', gl'')"
      "vlen gs'' = vlen gs" "arb_inv gl''" "arb_fresh gl''" "arb_sz gl'' = vlen gs"
      "arbitrates (vat gs i) (vat gs'' i) (LastWinner (vat gs'' i)) (arb_reqs gl'' i)"
      "\<forall>k. 0 \<le> k \<and> k \<noteq> i \<longrightarrow> vat gs'' k = vat gs' k \<and> arb_reqs gl'' k = arb_reqs gl' k"
      using tree_collect_step [OF inv i IH [OF mem] q(1-3) old(2,1) q(4)] by blast
    have "P (seen @ [i]) (gs'', gl'')"
      unfolding P_def fst_conv snd_conv
    proof (intro conjI allI impI)
      fix k assume k: "0 \<le> k \<and> k < vlen gs"
      show "if k \<in> set (seen @ [i])
         then arbitrates (vat gs k) (vat gs'' k) (LastWinner (vat gs'' k)) (arb_reqs gl'' k)
         else vat gs'' k = vat gs k \<and> arb_reqs gl'' k = None"
        using P k step(6,7) by (cases "k = i") (auto simp: P_def s)
    qed (use step in auto)
    with step(1) show "\<exists>s'. tree_visit rs (map arb_Arbitrate gs) i s = Inr s' \<and> P (seen @ [i]) s'"
      by (auto simp: s)
  qed
  then show ?thesis by (auto simp: P_def)
qed

text \<open>A requester of the group the global arbiter chose beats every other requester.\<close>

lemma tree_grants:
  assumes inv: "arb_inv (Tree b n gs gl rs)"
    and grp: "\<And>k. 0 \<le> k \<Longrightarrow> k < vlen gs \<Longrightarrow> grants (arb_reqs (vat gs k)) (w k) (R k)"
    and top: "grants R g out" and g: "0 \<le> g" "g < vlen gs" and out: "out = Some (rid, p)"
  shows "0 \<le> w g \<and> w g < n \<and> reqs_of (arb_request b) (g * n + w g) = Some (rid, p) \<and>
    (\<forall>i rid' p'. reqs_of (arb_request b) i = Some (rid', p') \<longrightarrow> p' \<le> p)"
proof -
  from top out have Rg: "R g = Some (rid, p)" by (auto simp: grants_def split: if_splits)
  with grp [OF g] have win: "arb_reqs (vat gs g) (w g) = Some (rid, p)"
    by (auto simp: grants_def split: if_splits)
  note gg = tree_groups [OF inv g]
  from arb_reqs_range [OF gg(1) win] gg(2) have w: "0 \<le> w g" "w g < n" by auto
  have "p' \<le> p" if i: "reqs_of (arb_request b) i = Some (rid', p')" for i rid' p'
  proof -
    from tree_reqs_total [OF inv i] have k: "0 \<le> i div n" "i div n < vlen gs"
      and r: "arb_reqs (vat gs (i div n)) (i mod n) = Some (rid', p')" by auto
    from grants_nonempty [OF grp [OF k] r] obtain rid2 p2 where
      "R (i div n) = Some (rid2, p2)" "p' \<le> p2" by blast
    with grants_nonempty [OF top] out show ?thesis by fastforce
  qed
  with w win tree_reqs_group [OF inv g w] show ?thesis by auto
qed

lemma arb_arbitrate:
  "arb_inv a \<Longrightarrow> arb_fresh a \<Longrightarrow>
     \<exists>a' w out. arb_Arbitrate a = Inr (a', w, out) \<and> arbitrates a a' w out"
proof (induction a rule: arb_Arbitrate.induct)
  case (1 a)
  then show ?case using rr_arbitrate [of a] by (fastforce simp: arbitrates_def)
next
  case (2 a)
  then show ?case using mx_arbitrate [of a] by (fastforce simp: arbitrates_def)
next
  case (3 b n gs gl rs)
  show ?case
  proof (cases "arb_num_reqs b = 0")
    case True
    then show ?thesis
      using idle_arbitrates [OF "3.prems"(1)]
      by (intro exI [of _ "Tree b n gs gl rs"] exI [of _ "- 1"] exI [of _ None]) simp
  next
    case False
    have IHg: "\<exists>a' w out. arb_Arbitrate g = Inr (a', w, out) \<and> arbitrates g a' w out"
      if "g \<in> set gs" for g
      using "3.IH"(1) [OF False that] "3.prems" that by auto
    from tree_collect_ok [OF "3.prems" IHg] obtain gs' gl1 where
      col: "tree_collect rs (map arb_Arbitrate gs) gs gl = Inr (gs', gl1)" "vlen gs' = vlen gs"
        "arb_inv gl1" "arb_fresh gl1" "arb_sz gl1 = vlen gs"
      and grp: "\<And>k. 0 \<le> k \<Longrightarrow> k < vlen gs \<Longrightarrow>
        arbitrates (vat gs k) (vat gs' k) (LastWinner (vat gs' k)) (arb_reqs gl1 k)"
      by blast
    from "3.IH"(2) [OF False col(1)] col obtain gl2 g out where
      gl2: "arb_Arbitrate gl1 = Inr (gl2, g, out)" and arb2: "arbitrates gl1 gl2 g out" by auto
    define sel where "sel = LastWinner (vat gs' g)"
    define b' where "b' = b\<lparr>arb_selected := g * n + sel\<rparr>"
    have gr: "grants (arb_reqs (vat gs k)) (LastWinner (vat gs' k)) (arb_reqs gl1 k)"
      if "0 \<le> k" "k < vlen gs" for k using grp [OF that] by (simp add: arbitrates_def)
    have top: "grants (arb_reqs gl1) g out" using arb2 by (simp add: arbitrates_def)
    have "reqs_of (arb_request b) \<noteq> Map.empty"
      using False "3.prems"(1) base_nreqs_empty [of b] by simp
    then obtain i rid0 p0 where i: "reqs_of (arb_request b) i = Some (rid0, p0)"
      by (metis (no_types, opaque_lifting) not_None_eq old.prod.exhaust ext)
    from tree_reqs_total [OF "3.prems"(1) i] have k: "0 \<le> i div n" "i div n < vlen gs"
      "arb_reqs (vat gs (i div n)) (i mod n) = Some (rid0, p0)" by auto
    from grants_nonempty [OF gr [OF k(1,2)] k(3)] obtain rid1 p1 where
      "arb_reqs gl1 (i div n) = Some (rid1, p1)" by blast
    from grants_nonempty [OF top this] obtain rid p where out: "out = Some (rid, p)"
      "arb_reqs gl1 g = Some (rid, p)" by blast
    have g: "0 \<le> g" "g < vlen gs" using arb_reqs_range [OF col(3) out(2)] col(5) by auto
    from tree_grants [OF "3.prems"(1) gr top g out(1)] have
      sel: "0 \<le> sel" "sel < n" "reqs_of (arb_request b) (g * n + sel) = Some (rid, p)" and
      best: "\<forall>i rid' p'. reqs_of (arb_request b) i = Some (rid', p') \<longrightarrow> p' \<le> p"
      by (auto simp: sel_def)
    note ix = radix_index [OF g sel(1,2)]
    have b: "base_inv b" "arb_size b = n * vlen gs" using "3.prems"(1) by auto
    then have b': "base_inv b'" using ix False by (auto simp: b'_def base_inv_def)
    have arb_b: "Arbiter_Arbitrate b' = Inr (g * n + sel, Some (rid, p))"
      using base_arbitrate [OF b', of rid p] sel(3) False by (simp add: b'_def)
    have eq: "arb_Arbitrate (Tree b n gs gl rs) = Inr (Tree b' n gs' gl2 rs, g * n + sel, Some (rid, p))"
      using False col gl2 g sel ix b arb_b by (simp add: Let_def b'_def sel_def)
    have gs': "arb_inv (vat gs' k) \<and> arb_sz (vat gs' k) = n \<and> arb_reqs (vat gs' k) = arb_reqs (vat gs k) \<and>
        arb_nreqs (vat gs' k) = arb_nreqs (vat gs k)" if "0 \<le> k" "k < vlen gs" for k
      using grp [OF that] tree_groups [OF "3.prems"(1) that] by (simp add: arbitrates_def)
    have "\<forall>x \<in> set gs'. arb_inv x \<and> arb_sz x = n" using gs' col(2) by (metis in_set_vat)
    moreover have "reqs_of (arb_request b) l = arb_reqs (vat gs' (l div n)) (l mod n)"
      if "0 \<le> l" "l < arb_size b" for l
      using "3.prems"(1) that gs' radix_split [of l n "vlen gs"] b by simp
    ultimately have "arb_inv (Tree b' n gs' gl2 rs)"
      using "3.prems"(1) b' col arb2 g False gs' by (auto simp: b'_def arbitrates_def)
    then have "arbitrates (Tree b n gs gl rs) (Tree b' n gs' gl2 rs) (g * n + sel) (Some (rid, p))"
      using i sel(3) best by (auto simp: arbitrates_def b'_def grants_def)
    with eq show ?thesis by blast
  qed
qed

section \<open>State update and clearing\<close>

definition same_table :: "arb \<Rightarrow> arb \<Rightarrow> bool" where
  "same_table a a' \<longleftrightarrow> arb_inv a' \<and> arb_sz a' = arb_sz a \<and> arb_reqs a' = arb_reqs a \<and>
     arb_nreqs a' = arb_nreqs a \<and> LastWinner a' = LastWinner a"

lemma arb_update: "arb_inv a \<Longrightarrow> \<exists>a'. arb_UpdateState a = Inr a' \<and> same_table a a'"
proof (induction a rule: arb_UpdateState.induct)
  case (1 a)
  then show ?case using rr.update_ok [of a] by (simp add: same_table_def)
next
  case (2 a)
  then show ?case using mx.update_ok [of a] by (simp add: same_table_def)
next
  case (3 b n gs gl rs)
  let ?w = "LastWinner gl"
  show ?case
  proof (cases "arb_selected b > - 1")
    case True
    from "3.prems" True have w: "0 \<le> ?w" "?w < vlen gs" by auto
    note g = tree_groups [OF "3.prems" w]
    have as: "assert_that (0 \<le> ?w \<and> ?w < vlen gs) ''last_winner in range'' = Inr ()"
      and get: "vget gs ?w = Inr (vat gs ?w)" using w by auto
    from "3.IH"(1) [OF True refl as get g(1)] obtain g' where
      g': "arb_UpdateState (vat gs ?w) = Inr g'" "same_table (vat gs ?w) g'" by blast
    from "3.IH"(2) [OF True refl as get g'(1)] "3.prems" obtain gl' where
      gl': "arb_UpdateState gl = Inr gl'" "same_table gl gl'" by auto
    have eq: "arb_UpdateState (Tree b n gs gl rs) = Inr (Tree b n (vupd gs ?w g') gl' rs)"
      using True w g'(1) gl'(1) by (simp add: Let_def)
    have grp: "arb_reqs (vat (vupd gs ?w g') k) = arb_reqs (vat gs k) \<and>
        arb_nreqs (vat (vupd gs ?w g') k) = arb_nreqs (vat gs k)" if "0 \<le> k" for k
      using that w g'(2) by (auto simp: same_table_def)
    have mem: "x = g' \<or> x \<in> set gs" if "x \<in> set (vupd gs ?w g')" for x
      using that set_update_subset_insert by (fastforce simp: vupd_def)
    have "arb_inv (Tree b n (vupd gs ?w g') gl' rs)"
      using "3.prems" g'(2) gl'(2) g grp mem
      by (fastforce simp: same_table_def pos_imp_zdiv_nonneg_iff)
    with eq show ?thesis by (simp add: same_table_def)
  qed (use "3.prems" in \<open>simp add: same_table_def\<close>)
qed

lemma arb_clear:
  "arb_inv a \<Longrightarrow> arb_inv (arb_Clear a) \<and> arb_sz (arb_Clear a) = arb_sz a \<and>
     arb_reqs (arb_Clear a) = Map.empty \<and> arb_nreqs (arb_Clear a) = 0"
proof (induction a)
  case (RoundRobin a)
  then show ?case using rr.clear_ok [of a] rr.nreqs_empty [of "RR_Clear a"] by simp
next
  case (Matrix a)
  then show ?case using mx.clear_ok [of a] mx.nreqs_empty [of "MX_Clear a"] by simp
next
  case (Tree b n gs gl rs)
  show ?case
  proof (cases "arb_num_reqs b = 0")
    case True
    with Tree.prems show ?thesis using arb_nreqs_empty [of "Tree b n gs gl rs"] by simp
  next
    case False
    let ?b = "Arbiter_Clear b"
    from Tree.prems have b: "base_inv b" by simp
    note cb = base_clear [OF b] base_clear_num [OF b]
    have grp: "arb_inv (arb_Clear g) \<and> arb_sz (arb_Clear g) = n \<and> arb_reqs (arb_Clear g) = Map.empty \<and>
        arb_nreqs (arb_Clear g) = 0" if "g \<in> set gs" for g
      using Tree.IH(1) [OF that] Tree.prems that by simp
    have gl: "arb_inv (arb_Clear gl)" "arb_sz (arb_Clear gl) = vlen gs" "arb_nreqs (arb_Clear gl) = 0"
      using Tree.IH(2) Tree.prems by auto
    have "arb_reqs (vat (map arb_Clear gs) (i div n)) (i mod n) = None"
      if "0 \<le> i" "i < arb_size b" for i
      using that Tree.prems radix_split [of i n "vlen gs"] grp [OF vat_in_set] by simp
    moreover have "arb_selected ?b = - 1" using cb by (auto simp: base_inv_def)
    ultimately show ?thesis
      using Tree.prems False cb grp grp [OF vat_in_set] gl by simp
  qed
qed

interpretation tr: arbiter_contract arb_inv arb_fresh arb_sz arb_nreqs arb_reqs LastWinner
  arb_AddRequest arb_Arbitrate arb_UpdateState arb_Clear
proof (unfold_locales, goal_cases)
  case (5 a i rid p)
  then show ?case by (rule arb_add)
next
  case (6 a)
  then show ?case using arb_arbitrate [of a] unfolding arbitrates_def by blast
next
  case (7 a)
  then show ?case using arb_update [of a] unfolding same_table_def by blast
next
  case (8 a)
  then show ?case using arb_clear [of a] by blast
qed (auto simp: arb_nreqs_nonneg arb_nreqs_empty arb_nreqs_fresh dest: arb_reqs_range)

end
