(* ===== verification/Arbiter_Fairness.thy ===== *)
theory Arbiter_Fairness
  imports Tree_Arbiter
begin

text \<open>
  Rounds of arbitration as the allocators run them (clear, add the requests, arbitrate, update the
  state), over any number of rounds, and fairness: the round-robin pointer and the priority matrix
  each give every input a rank below the number of inputs that falls whenever the input loses a
  round in which nobody has a higher priority.
\<close>

section \<open>Rounds\<close>

definition arb_round ::
    "(int \<Rightarrow> int \<Rightarrow> int \<Rightarrow> 'a \<Rightarrow> 'a res) \<Rightarrow> ('a \<Rightarrow> ('a \<times> int \<times> (int \<times> int) option) res) \<Rightarrow> ('a \<Rightarrow> 'a res) \<Rightarrow>
     ('a \<Rightarrow> 'a) \<Rightarrow> (int \<times> int \<times> int) list \<Rightarrow> 'a \<Rightarrow> ('a \<times> int \<times> (int \<times> int) option) res" where
  "arb_round add arbitrate update clear rs a =
     bnd (for_each (\<lambda>(i, rid, p). add i rid p) rs (clear a)) (\<lambda>a.
     bnd (arbitrate a) (\<lambda>(a, out).
     bnd (update a) (\<lambda>a. Inr (a, out))))"

primrec arb_rounds ::
    "((int \<times> int \<times> int) list \<Rightarrow> 'a \<Rightarrow> ('a \<times> int \<times> (int \<times> int) option) res) \<Rightarrow>
     (int \<times> int \<times> int) list list \<Rightarrow> 'a \<Rightarrow> ('a \<times> (int \<times> (int \<times> int) option) list) res" where
  "arb_rounds round [] a = Inr (a, [])"
| "arb_rounds round (rs # rss) a =
     bnd (round rs a) (\<lambda>(a, out). bnd (arb_rounds round rss a) (\<lambda>(a, outs). Inr (a, out # outs)))"

definition good_reqs :: "int \<Rightarrow> (int \<times> int \<times> int) list \<Rightarrow> bool" where
  "good_reqs n rs \<longleftrightarrow> distinct (map fst rs) \<and> (\<forall>(i, r) \<in> set rs. 0 \<le> i \<and> i < n)"

text \<open>The input \<open>i\<close> is among the requests and no request has a higher priority.\<close>

definition tops :: "int \<Rightarrow> (int \<times> int \<times> int) list \<Rightarrow> bool" where
  "tops i rs \<longleftrightarrow> (\<exists>rid p. (i, rid, p) \<in> set rs \<and> (\<forall>(j, rid', p') \<in> set rs. p' \<le> p))"

context arbiter_contract
begin

lemma run_round:
  assumes "inv a" "good_reqs (sz a) rs"
  shows "\<exists>a' w out. arb_round add arbitrate update clear rs a = Inr (a', w, out) \<and> inv a' \<and>
    sz a' = sz a \<and> grants (map_of rs) w out"
proof -
  have c: "inv (clear a)" "sz (clear a) = sz a" "reqs (clear a) = Map.empty"
    using clear_ok [OF assms(1)] by auto
  have "\<exists>a' w out. bnd (for_each (\<lambda>(i, rid, p). add i rid p) rs (clear a)) arbitrate = Inr (a', w, out) \<and>
      inv a' \<and> sz a' = sz (clear a) \<and> winner a' = w \<and> grants (map_of rs) w out"
    using assms c by (intro round_ok) (auto simp: good_reqs_def)
  then obtain a1 a2 w out where "for_each (\<lambda>(i, rid, p). add i rid p) rs (clear a) = Inr a1"
    "arbitrate a1 = Inr (a2, w, out)" "inv a2" "sz a2 = sz a" "grants (map_of rs) w out"
    by (auto simp: bnd_Inr_iff c)
  then show ?thesis using update_ok [of a2] by (fastforce simp: arb_round_def)
qed

lemma run_rounds:
  assumes "inv a" "\<And>rs. rs \<in> set rss \<Longrightarrow> good_reqs (sz a) rs"
  shows "\<exists>a' outs. arb_rounds (arb_round add arbitrate update clear) rss a = Inr (a', outs) \<and>
    inv a' \<and> sz a' = sz a \<and> list_all2 (\<lambda>rs (w, out). grants (map_of rs) w out) rss outs"
  using assms
proof (induction rss arbitrary: a)
  case (Cons rs rss)
  from run_round [of a rs] Cons.prems obtain a1 w out where
    a1: "arb_round add arbitrate update clear rs a = Inr (a1, w, out)" "inv a1" "sz a1 = sz a"
      "grants (map_of rs) w out" by auto
  from Cons.IH [of a1] Cons.prems a1 obtain a' outs where
    "arb_rounds (arb_round add arbitrate update clear) rss a1 = Inr (a', outs)" "inv a'" "sz a' = sz a1"
    "list_all2 (\<lambda>rs (w, out). grants (map_of rs) w out) rss outs" by auto
  with a1 show ?case by simp
qed simp

end

section \<open>Fair arbiters\<close>

locale fair_arbiter = arbiter_contract +
  fixes ready :: "'a \<Rightarrow> bool"
    and rank :: "'a \<Rightarrow> int \<Rightarrow> nat"
  assumes ready_empty: "inv a \<Longrightarrow> reqs a = Map.empty \<Longrightarrow> ready a"
    and ready_add: "inv a \<Longrightarrow> fresh a \<Longrightarrow> ready a \<Longrightarrow> 0 \<le> i \<Longrightarrow> i < sz a \<Longrightarrow> reqs a i = None \<Longrightarrow>
      add i rid p a = Inr a' \<Longrightarrow> ready a' \<and> rank a' = rank a"
    and rank_clear: "rank (clear a) = rank a"
    and rank_bound: "inv a \<Longrightarrow> 0 \<le> i \<Longrightarrow> i < sz a \<Longrightarrow> rank a i < nat (sz a)"
    and rank_lost: "inv a \<Longrightarrow> fresh a \<Longrightarrow> ready a \<Longrightarrow> reqs a i = Some (rid, p) \<Longrightarrow>
      (\<And>j rid' p'. reqs a j = Some (rid', p') \<Longrightarrow> p' \<le> p) \<Longrightarrow>
      arbitrate a = Inr (a1, w, out) \<Longrightarrow> w \<noteq> i \<Longrightarrow> update a1 = Inr a2 \<Longrightarrow> rank a2 i < rank a i"
begin

lemma ready_adds:
  assumes "inv a" "fresh a" "ready a" "distinct (map fst rs)"
    and "\<And>i r. (i, r) \<in> set rs \<Longrightarrow> 0 \<le> i \<and> i < sz a \<and> reqs a i = None"
    and "for_each (\<lambda>(i, rid, p). add i rid p) rs a = Inr a'"
  shows "ready a' \<and> rank a' = rank a"
  using assms
proof (induction rs arbitrary: a)
  case (Cons r rs)
  obtain i rid p where r: "r = (i, rid, p)" by (cases r) auto
  have i: "0 \<le> i" "i < sz a" "reqs a i = None" using Cons.prems(5) [of i "(rid, p)"] r by auto
  obtain a1 where a1: "add i rid p a = Inr a1" "inv a1" "fresh a1" "sz a1 = sz a"
      "reqs a1 = (reqs a)(i \<mapsto> (rid, p))"
    using add_ok [OF Cons.prems(1,2) i] by blast
  have "ready a1 \<and> rank a1 = rank a" using ready_add [OF Cons.prems(1-3) i a1(1)] .
  moreover have "for_each (\<lambda>(i, rid, p). add i rid p) rs a1 = Inr a'"
    using Cons.prems(6) r a1(1) by simp
  then have "ready a' \<and> rank a' = rank a1"
    using Cons.prems(4,5) r a1 calculation by (intro Cons.IH) (auto simp: rev_image_eqI)
  ultimately show ?case by simp
qed simp

text \<open>One round: a top-priority requester wins or its rank falls.\<close>

lemma round_rank:
  assumes inv: "inv a" and rs: "good_reqs (sz a) rs" and top: "tops i rs"
    and run: "arb_round add arbitrate update clear rs a = Inr (a', w, out)" and lost: "w \<noteq> i"
  shows "rank a' i < rank a i"
proof -
  have c: "inv (clear a)" "sz (clear a) = sz a" "reqs (clear a) = Map.empty" "fresh (clear a)"
    using clear_ok [OF inv] clear_fresh [OF inv] by auto
  have rg: "distinct (map fst rs)" "\<And>i r. (i, r) \<in> set rs \<Longrightarrow> 0 \<le> i \<and> i < sz (clear a) \<and> reqs (clear a) i = None"
    using rs c by (auto simp: good_reqs_def)
  have "\<exists>a'. for_each (\<lambda>(i, rid, p). add i rid p) rs (clear a) = Inr a' \<and> inv a' \<and> fresh a' \<and>
      sz a' = sz (clear a) \<and> reqs a' = reqs (clear a) ++ map_of rs"
    by (rule add_all_ok [OF c(1,4) rg])
  then obtain a1 where
    a1: "for_each (\<lambda>(i, rid, p). add i rid p) rs (clear a) = Inr a1" "inv a1" "fresh a1"
      "reqs a1 = reqs (clear a) ++ map_of rs" by blast
  then have reqs1: "reqs a1 = map_of rs" by (simp add: c)
  from ready_adds [OF c(1,4) ready_empty [OF c(1,3)] rg a1(1)] rank_clear
  have rdy: "ready a1" "rank a1 = rank a" by auto
  from run a1(1) obtain a2 where a2: "arbitrate a1 = Inr (a2, w, out)" "update a2 = Inr a'"
    by (auto simp: arb_round_def bnd_Inr_iff)
  from top obtain rid p where i: "(i, rid, p) \<in> set rs" and max: "\<forall>(j, rid', p') \<in> set rs. p' \<le> p"
    by (auto simp: tops_def)
  have "reqs a1 i = Some (rid, p)" using i rg(1) by (simp add: reqs1)
  moreover have "p' \<le> p" if "reqs a1 j = Some (rid', p')" for j rid' p'
    using that max by (auto simp: reqs1 dest: map_of_SomeD)
  ultimately have "rank a' i < rank a1 i"
    by (rule rank_lost [OF a1(2,3) rdy(1) _ _ a2(1) lost a2(2)])
  then show ?thesis by (simp add: rdy)
qed

lemma served:
  assumes "inv a" "\<And>rs. rs \<in> set rss \<Longrightarrow> good_reqs (sz a) rs \<and> tops i rs"
    and "arb_rounds (arb_round add arbitrate update clear) rss a = Inr (a', outs)"
    and "rank a i < length rss"
  shows "i \<in> fst ` set outs"
  using assms
proof (induction rss arbitrary: a outs)
  case (Cons rs rss)
  from Cons.prems(3) obtain a1 w out outs' where
    a1: "arb_round add arbitrate update clear rs a = Inr (a1, w, out)"
      "arb_rounds (arb_round add arbitrate update clear) rss a1 = Inr (a', outs')"
      "outs = (w, out) # outs'" by (auto simp: bnd_Inr_iff)
  have rs: "good_reqs (sz a) rs" "tops i rs" using Cons.prems(2) [of rs] by auto
  from run_round [OF Cons.prems(1) rs(1)] a1(1) have i1: "inv a1" "sz a1 = sz a" by auto
  show ?case
  proof (cases "w = i")
    case False
    have "rank a1 i < rank a i" by (rule round_rank [OF Cons.prems(1) rs a1(1) False])
    with Cons.IH [of a1 outs'] Cons.prems i1 a1 show ?thesis by auto
  qed (simp add: a1)
qed simp

lemma starvation_free:
  assumes "inv a" "0 \<le> i" "i < sz a" "\<And>rs. rs \<in> set rss \<Longrightarrow> good_reqs (sz a) rs \<and> tops i rs"
    and "sz a \<le> vlen rss"
  shows "\<exists>a' outs. arb_rounds (arb_round add arbitrate update clear) rss a = Inr (a', outs) \<and>
    i \<in> fst ` set outs"
proof -
  have good: "good_reqs (sz a) rs" if "rs \<in> set rss" for rs using assms(4) [OF that] by blast
  obtain a' outs where run: "arb_rounds (arb_round add arbitrate update clear) rss a = Inr (a', outs)"
    using run_rounds [OF assms(1) good] by blast
  have "rank a i < length rss" using rank_bound [OF assms(1-3)] assms(5) by (simp add: vlen_def)
  from served [OF assms(1,4) run this] run show ?thesis by blast
qed

end

section \<open>Round robin is fair\<close>

text \<open>Among the requests of the highest priority, the recorded one is the next after the pointer.\<close>

definition rr_dist :: "rr_arbiter \<Rightarrow> int \<Rightarrow> int" where
  "rr_dist a i = (i - rr_pointer a) mod arb_size a"

definition rr_best :: "rr_arbiter \<Rightarrow> bool" where
  "rr_best a \<longleftrightarrow> (\<forall>i rid. reqs_of (arb_request a) i = Some (rid, arb_highest_pri a) \<longrightarrow>
     rr_dist a (arb_best_input a) \<le> rr_dist a i)"

lemma smod_offset:
  assumes "0 \<le> i" "i < (n::int)" "0 \<le> k" "k < n"
  shows "(i - k + n) smod n = (i - k) mod n"
  using assms smod_nonneg [of "i - k + n" n] by simp

lemma mod_diff_unique:
  assumes "(i - k) mod n = (j - k) mod n" "0 \<le> i" "i < (n::int)" "0 \<le> j" "j < n"
  shows "i = j"
proof -
  have "((i - k) + k) mod n = ((j - k) + k) mod n" by (rule mod_add_cong [OF assms(1) refl])
  then show ?thesis using assms by simp
qed

lemma rr_add_best:
  assumes inv: "rr_inv a" and best: "rr_best a"
    and i: "0 \<le> i" "i < arb_size a" "reqs_of (arb_request a) i = None"
    and add: "RR_AddRequest i rid p a = Inr a'"
  shows "rr_best a' \<and> rr_pointer a' = rr_pointer a \<and> arb_size a' = arb_size a"
proof -
  let ?c = "arb_num_reqs a = 0 \<or>
    Supersedes i p (arb_best_input a) (arb_highest_pri a) (rr_pointer a) (arb_size a)"
  have len: "vlen (arb_request a) = arb_size a" "i < vlen (arb_request a)"
    "\<not> e_valid (vat (arb_request a) i)" and ptr: "0 \<le> rr_pointer a" "rr_pointer a < arb_size a"
    using inv i by (auto simp: rr_inv_def base_inv_def reqs_of_def split: if_splits)
  define a1 where "a1 = (if ?c then a\<lparr>arb_highest_pri := p, arb_best_input := i\<rparr> else a)"
  have a': "a' = a1\<lparr>arb_num_reqs := arb_num_reqs a1 + 1,
      arb_request := vupd (arb_request a1) i \<lparr>e_valid = True, e_id = rid, e_pri = p\<rparr>\<rparr>"
    using add i len by (simp add: RR_AddRequest_def Arbiter_AddRequest_def a1_def split: if_splits)
  have frame: "rr_pointer a' = rr_pointer a" "arb_size a' = arb_size a" "arb_request a1 = arb_request a"
    by (auto simp: a' a1_def)
  have rq: "reqs_of (arb_request a') = (reqs_of (arb_request a))(i \<mapsto> (rid, p))"
    using i len by (simp add: a' frame reqs_of_upd)
  have sup: "Supersedes i p (arb_best_input a) (arb_highest_pri a) (rr_pointer a) (arb_size a) \<longleftrightarrow>
      p > arb_highest_pri a \<or> p = arb_highest_pri a \<and> rr_dist a i < rr_dist a (arb_best_input a)"
    if n: "arb_num_reqs a \<noteq> 0"
  proof -
    from inv n have "0 \<le> arb_best_input a" "arb_best_input a < arb_size a"
      by (auto simp: rr_inv_def base_inv_def reqs_of_Some_iff)
    with i ptr show ?thesis by (auto simp: Supersedes_def rr_dist_def smod_offset)
  qed
  have "rr_best a'"
  proof (cases "arb_num_reqs a = 0")
    case True
    with inv have "reqs_of (arb_request a) = Map.empty" using base_nreqs_empty [of a] by (simp add: rr_inv_def)
    then have "j = i" if "reqs_of (arb_request a') j = Some r" for j r
      using that by (auto simp: rq split: if_splits)
    moreover have "arb_best_input a' = i" using True by (simp add: a' a1_def)
    ultimately show ?thesis unfolding rr_best_def by fastforce
  next
    case False
    from inv False have top: "q \<le> arb_highest_pri a" if "reqs_of (arb_request a) j = Some (r, q)" for j r q
      using that by (auto simp: rr_inv_def)
    show ?thesis
    proof (cases ?c)
      case True
      then have "arb_highest_pri a' = p" "arb_best_input a' = i" by (auto simp: a' a1_def)
      moreover have "rr_dist a i \<le> rr_dist a j" if "reqs_of (arb_request a) j = Some (r, p)" for j r
        using True False that top [OF that] best by (fastforce simp: sup rr_best_def)
      ultimately show ?thesis by (auto simp: rr_best_def rq rr_dist_def frame split: if_splits)
    next
      case c: False
      then have "arb_highest_pri a' = arb_highest_pri a" "arb_best_input a' = arb_best_input a"
        by (auto simp: a' a1_def)
      then show ?thesis
        using c False best by (auto simp: rr_best_def rq rr_dist_def frame sup split: if_splits)
    qed
  qed
  with frame show ?thesis by blast
qed

lemma rr_rank_lost:
  assumes inv: "rr_inv a" and best: "rr_best a" and i: "reqs_of (arb_request a) i = Some (rid, p)"
    and max: "\<And>j rid' p'. reqs_of (arb_request a) j = Some (rid', p') \<Longrightarrow> p' \<le> p"
    and arb: "RR_Arbitrate a = Inr (a1, w, out)" and lost: "w \<noteq> i"
  shows "0 \<le> rr_dist (RR_UpdateState a1) i \<and> rr_dist (RR_UpdateState a1) i < rr_dist a i"
proof -
  let ?n = "arb_size a" and ?k = "rr_pointer a"
  have b: "base_inv a" using inv by (simp add: rr_inv_def)
  have n: "arb_num_reqs a \<noteq> 0" using base_nreqs_empty [OF b] i by auto
  have a1: "a1 = a\<lparr>arb_selected := arb_best_input a\<rparr>" and w: "w = arb_best_input a"
    using arb by (auto simp: RR_Arbitrate_def Arbiter_Arbitrate_def bnd_Inr_iff Let_def)
  from inv n obtain r where r: "reqs_of (arb_request a) w = Some (r, arb_highest_pri a)"
    and hp: "p \<le> arb_highest_pri a" using i by (auto simp: rr_inv_def w)
  from max [OF r] hp have "p = arb_highest_pri a" by simp
  with i best have le: "rr_dist a w \<le> rr_dist a i" by (simp add: rr_best_def w)
  have rg: "0 \<le> i" "i < ?n" "0 \<le> w" "w < ?n" "0 < ?n"
    using i r b by (auto simp: reqs_of_Some_iff base_inv_def)
  have "rr_dist a w \<noteq> rr_dist a i" using mod_diff_unique [of w ?k ?n i] rg lost by (auto simp: rr_dist_def)
  have d: "0 \<le> rr_dist a w" "rr_dist a i < ?n" using rg by (simp_all add: rr_dist_def)
  from le \<open>rr_dist a w \<noteq> rr_dist a i\<close> have lt: "rr_dist a w < rr_dist a i" by simp
  have "rr_dist (RR_UpdateState a1) i = (i - (w + 1) mod ?n) mod ?n"
    using rg by (simp add: rr_dist_def RR_UpdateState_def a1 flip: w)
  also have "\<dots> = ((i - ?k) - (w - ?k) - 1) mod ?n" by (simp add: mod_simps algebra_simps)
  also have "\<dots> = ((i - ?k) mod ?n - (w - ?k) mod ?n - 1) mod ?n"
    by (intro mod_diff_cong) simp_all
  also have "\<dots> = rr_dist a i - rr_dist a w - 1"
    using lt d by (simp add: rr_dist_def)
  finally show ?thesis using lt d by simp
qed

interpretation rrf: fair_arbiter rr_inv "\<lambda>_. True" arb_size arb_num_reqs
  "\<lambda>a. reqs_of (arb_request a)" arb_selected RR_AddRequest RR_Arbitrate
  "\<lambda>a. Inr (RR_UpdateState a)" RR_Clear rr_best "\<lambda>a i. nat (rr_dist a i)"
proof (unfold_locales, goal_cases)
  case (1 a)
  then show ?case by (simp add: rr_best_def)
next
  case (2 a i rid p a')
  then show ?case using rr_add_best [of a i rid p a'] by (simp add: rr_dist_def)
next
  case (3 a)
  then show ?case by (simp add: rr_dist_def RR_Clear_def Arbiter_Clear_def)
next
  case (4 a i)
  then show ?case by (simp add: rr_dist_def rr_inv_def base_inv_def)
next
  case (5 a i rid p a1 w out a2)
  have "0 \<le> rr_dist (RR_UpdateState a1) i \<and> rr_dist (RR_UpdateState a1) i < rr_dist a i"
    by (rule rr_rank_lost [OF 5(1,3,4) _ 5(6,7)]) (rule 5(5))
  with 5(8) show ?case by simp
qed

section \<open>The matrix arbiter is fair\<close>

definition mx_rank :: "matrix_arbiter \<Rightarrow> int \<Rightarrow> nat" where
  "mx_rank a i = card {j \<in> {0..<arb_size a}. ahead (mx_matrix a) j i}"

lemma mx_select_unbeaten:
  assumes inv: "mx_inv a" and w: "reqs_of (arb_request a) (MX_select a) = Some (rid, p)"
    and i: "reqs_of (arb_request a) i = Some (rid', p)" "i \<noteq> MX_select a"
  shows "\<not> ahead (mx_matrix a) i (MX_select a)"
proof -
  have len: "vlen (arb_request a) = arb_size a" using inv by (simp add: mx_inv_def base_inv_def)
  have n: "\<not> arb_num_reqs a < 2"
  proof
    assume "arb_num_reqs a < 2"
    then have "i = MX_select a"
      using inv w i by (intro unique_valid [of e_valid "arb_request a"])
        (auto simp: mx_inv_def base_inv_def reqs_of_Some_iff)
    with i(2) show False ..
  qed
  have "MX_select a \<noteq> - 1" using w by (auto simp: reqs_of_Some_iff)
  then have "List.find (\<lambda>input. e_valid (vat (arb_request a) input) \<and>
      \<not> list_ex (\<lambda>i. MX_beats a i input) (range0 (arb_size a))) (range0 (arb_size a)) = Some (MX_select a)"
    using n by (auto simp: MX_select_def split: option.splits)
  from find_SomeD [OF this] have "\<not> MX_beats a i (MX_select a)"
    using i len by (auto simp: list_ex_iff reqs_of_Some_iff)
  then show ?thesis
    using i w len by (auto simp: MX_beats_def ahead_def reqs_of_Some_iff)
qed

lemma mx_rank_lost:
  assumes inv: "mx_inv a" and i: "reqs_of (arb_request a) i = Some (rid, p)"
    and max: "\<And>j rid' p'. reqs_of (arb_request a) j = Some (rid', p') \<Longrightarrow> p' \<le> p"
    and arb: "MX_Arbitrate a = Inr (a1, w, out)" and lost: "w \<noteq> i"
  shows "mx_rank (MX_UpdateState a1) i < mx_rank a i"
proof -
  let ?n = "arb_size a" and ?M = "mx_matrix a"
  have b: "base_inv a" and M: "mx_order ?n ?M" using inv by (auto simp: mx_inv_def)
  have n: "arb_num_reqs a \<noteq> 0" using base_nreqs_empty [OF b] i by auto
  have a1: "a1 = a\<lparr>arb_selected := MX_select a\<rparr>" and w: "w = MX_select a"
    using arb by (auto simp: MX_Arbitrate_def Arbiter_Arbitrate_def bnd_Inr_iff Let_def)
  from mx_select [OF inv n] obtain r q where r: "reqs_of (arb_request a) w = Some (r, q)" and "p \<le> q"
    using i unfolding w by blast
  with max [OF r] have wp: "reqs_of (arb_request a) w = Some (r, p)" by simp
  from mx_select_unbeaten [OF inv wp [unfolded w] i] lost have nah: "\<not> ahead ?M i w" by (simp add: w)
  have rg: "i \<in> {0..<?n}" "w \<in> {0..<?n}" using i r b by (auto simp: reqs_of_Some_iff base_inv_def)
  with M lost nah have ah: "ahead ?M w i" unfolding mx_order_def totalp_on_def by blast
  have "mx_matrix (MX_UpdateState a1) = mx_demote ?n w ?M" "arb_size (MX_UpdateState a1) = ?n"
    using rg by (simp_all add: MX_UpdateState_def a1 mx_demote_def Let_def flip: w)
  moreover have mat: "mat ?n ?M" using M unfolding mx_order_def by blast
  have "0 \<le> w" "w < ?n" using rg by simp_all
  have "{j \<in> {0..<?n}. ahead (mx_demote ?n w ?M) j i} = {j \<in> {0..<?n}. ahead ?M j i} - {w}"
    using ahead_demote [OF mat \<open>0 \<le> w\<close> \<open>w < ?n\<close> _ rg(1)] lost
    by (intro set_eqI) (simp, blast)
  moreover have fin: "finite {j \<in> {0..<?n}. ahead ?M j i}" by (rule finite_subset [of _ "{0..<?n}"]) auto
  ultimately have "mx_rank (MX_UpdateState a1) i = card ({j \<in> {0..<?n}. ahead ?M j i} - {w})"
    by (simp only: mx_rank_def)
  also have "\<dots> < mx_rank a i"
    unfolding mx_rank_def by (rule card_Diff1_less) (use ah rg fin in auto)
  finally show ?thesis .
qed

lemma mx_add_frame:
  "MX_AddRequest i rid p a = Inr a' \<Longrightarrow> mx_matrix a' = mx_matrix a \<and> arb_size a' = arb_size a"
  by (auto simp: MX_AddRequest_def Arbiter_AddRequest_def bnd_Inr_iff)

interpretation mxf: fair_arbiter mx_inv "\<lambda>_. True" arb_size arb_num_reqs
  "\<lambda>a. reqs_of (arb_request a)" arb_selected MX_AddRequest MX_Arbitrate
  "\<lambda>a. Inr (MX_UpdateState a)" MX_Clear "\<lambda>_. True" mx_rank
proof (unfold_locales, goal_cases)
  case (2 a i rid p a')
  from mx_add_frame [OF 2(7)] show ?case by (simp add: mx_rank_def fun_eq_iff)
next
  case (3 a)
  then show ?case by (simp add: mx_rank_def MX_Clear_def Arbiter_Clear_def fun_eq_iff)
next
  case (4 a i)
  have i: "i \<in> {0..<arb_size a}" using 4 by simp
  with 4(1) have "\<not> ahead (mx_matrix a) i i"
    unfolding mx_inv_def mx_order_def asymp_on_def by blast
  with i have "{j \<in> {0..<arb_size a}. ahead (mx_matrix a) j i} \<subset> {0..<arb_size a}" by blast
  from psubset_card_mono [OF _ this] show ?case by (simp add: mx_rank_def)
next
  case (5 a i rid p a1 w out a2)
  have "mx_rank (MX_UpdateState a1) i < mx_rank a i"
    by (rule mx_rank_lost [OF 5(1,4) _ 5(6,7)]) (rule 5(5))
  with 5(8) show ?case by simp
qed simp

end
