(* ===== verification/Arbiter_Factory.thy ===== *)
theory Arbiter_Factory
  imports Arbiter_Fairness
begin

text \<open>
  \<^verbatim>\<open>Arbiter::NewArbiter\<close> and the constructor of \<^verbatim>\<open>TreeArbiter\<close>: the arbiter described by a
  configuration string such as \<^verbatim>\<open>round_robin\<close>, \<^verbatim>\<open>matrix\<close> or \<^verbatim>\<open>tree(4,round_robin)\<close>, and the
  properties of the arbiters it returns.
\<close>

section \<open>C strings\<close>

fun find_first_of :: "char \<Rightarrow> string \<Rightarrow> nat option" where
  "find_first_of c [] = None"
| "find_first_of c (x # xs) = (if x = c then Some 0 else map_option Suc (find_first_of c xs))"

definition find_last_of :: "char \<Rightarrow> string \<Rightarrow> nat option" where
  "find_last_of c s = map_option (\<lambda>k. length s - Suc k) (find_first_of c (rev s))"

text \<open>\<^verbatim>\<open>substr(pos, n)\<close> for \<^verbatim>\<open>pos <= size()\<close>; a count that wrapped around takes the rest.\<close>

definition substr :: "nat \<Rightarrow> int \<Rightarrow> string \<Rightarrow> string" where
  "substr pos n s = (if n < 0 then drop pos s else take (nat n) (drop pos s))"

definition is_digit :: "char \<Rightarrow> bool" where
  "is_digit c \<longleftrightarrow> 48 \<le> (of_char c :: int) \<and> (of_char c :: int) \<le> 57"

definition is_space :: "char \<Rightarrow> bool" where
  "is_space c \<longleftrightarrow> (of_char c :: int) = 32 \<or> 9 \<le> (of_char c :: int) \<and> (of_char c :: int) \<le> 13"

definition digits_value :: "string \<Rightarrow> int" where
  "digits_value s = foldl (\<lambda>n c. 10 * n + (of_char c - 48)) 0 (takeWhile is_digit s)"

definition atoi :: "string \<Rightarrow> int" where
  "atoi s = (case dropWhile is_space s of
       [] \<Rightarrow> 0
     | c # r \<Rightarrow> if c = CHR ''-'' then - digits_value r
               else if c = CHR ''+'' then digits_value r else digits_value (c # r))"

lemma find_first_of_less: "find_first_of c s = Some k \<Longrightarrow> k < length s"
  by (induction s arbitrary: k) (auto split: if_splits)

lemma length_substr: "pos < length s \<Longrightarrow> length (substr (Suc pos) n s) < length s"
  by (auto simp: substr_def)

section \<open>The factory\<close>

text \<open>\<^verbatim>\<open>_request.resize(size)\<close> in the base-class constructor throws on a negative size.\<close>

definition sized :: "int \<Rightarrow> 'a \<Rightarrow> 'a res" where
  "sized n a = (if n < 0 then Inl (ExitFailure ''std::length_error'') else Inr a)"

function NewArbiter :: "string \<Rightarrow> int \<Rightarrow> arb res" where
  "NewArbiter arb_type n =
     (if arb_type = ''round_robin'' then sized n (RoundRobin (new_RoundRobinArbiter n))
      else if arb_type = ''matrix'' then sized n (Matrix (new_MatrixArbiter n))
      else if take 5 arb_type = ''tree('' then
        (case find_first_of (CHR '','') arb_type of
           None \<Rightarrow> Inl (AssertFail ''middle != string::npos'')
         | Some middle \<Rightarrow>
        (case find_last_of (CHR '')'') arb_type of
           None \<Rightarrow> Inl (AssertFail ''right != string::npos'')
         | Some right \<Rightarrow>
            let groups = atoi (substr 5 (int middle - 5) arb_type);
                sub_arb_type = substr (Suc middle) (int right - int middle - 1) arb_type
            in bnd (sized n (new_Arbiter n)) (\<lambda>b.
               if groups = 0 then Inl DivByZero
               else bnd (assert_that (n smod groups = 0) ''size % groups == 0'') (\<lambda>_.
               if groups < 0 then Inl (ExitFailure ''std::length_error'')
               else let group_size = n sdiv groups in
                 bnd (for_each (\<lambda>_ gs. bnd (NewArbiter sub_arb_type group_size) (\<lambda>g. Inr (gs @ [g])))
                        (range0 groups) []) (\<lambda>gs.
                 bnd (NewArbiter sub_arb_type groups) (\<lambda>gl.
                 Inr (Tree b group_size gs gl (replicate (nat groups) 0))))))))
      else Inl (AssertFail ''false''))"
  by pat_completeness auto
termination
  by (relation "measure (\<lambda>(s, _). length s)") (auto intro: length_substr dest: find_first_of_less)

declare NewArbiter.simps [simp del]

lemma build_groups:
  assumes "for_each (\<lambda>_ gs. bnd r (\<lambda>g. Inr (gs @ [g]))) xs s = Inr gs" "xs \<noteq> []"
  shows "\<exists>g. r = Inr g \<and> gs = s @ replicate (length xs) g"
  using assms
proof (induction xs arbitrary: s)
  case (Cons x xs)
  then obtain g where g: "r = Inr g" by (auto simp: bnd_Inr_iff)
  show ?case
  proof (cases "xs = []")
    case True
    with Cons.prems g show ?thesis by simp
  next
    case False
    with Cons.IH [of "s @ [g]"] Cons.prems g show ?thesis by (simp add: replicate_app_Cons_same)
  qed
qed simp

text \<open>What a new arbiter satisfies.\<close>

definition new_ok :: "int \<Rightarrow> arb \<Rightarrow> bool" where
  "new_ok n a \<longleftrightarrow> arb_inv a \<and> arb_sz a = n \<and> arb_reqs a = Map.empty \<and> arb_nreqs a = 0"

lemma new_base:
  "arb_size (new_Arbiter n) = n" "arb_num_reqs (new_Arbiter n) = 0" "arb_selected (new_Arbiter n) = - 1"
  "reqs_of (arb_request (new_Arbiter n)) = Map.empty"
  by (auto simp: new_Arbiter_def reqs_of_def fun_eq_iff)

lemma new_rr_ok: "0 < n \<Longrightarrow> new_ok n (RoundRobin (new_RoundRobinArbiter n))"
  using rr_new [of n] new_base [of n]
  by (simp add: new_ok_def new_RoundRobinArbiter_def arbiter.defs)

lemma new_mx_ok: "0 < n \<Longrightarrow> new_ok n (Matrix (new_MatrixArbiter n))"
  using mx_new [of n] new_base [of n]
  by (simp add: new_ok_def new_MatrixArbiter_def arbiter.defs)

lemma new_tree_ok:
  assumes "0 < n" "0 < g" "n mod g = 0" "new_ok (n div g) a" "new_ok g gl"
  shows "new_ok n (Tree (new_Arbiter n) (n div g) (replicate (nat g) a) gl (replicate (nat g) 0))"
proof -
  have n: "n = n div g * g" using assms(3) by auto
  with assms have pos: "0 < n div g" by (metis zero_less_mult_pos2)
  have none: "arb_reqs (vat (replicate (nat g) a) (i div (n div g))) (i mod (n div g)) = None"
    if "0 \<le> i" "i < n" for i
    using radix_split [of i "n div g" g] that n pos assms(4) by (simp add: new_ok_def)
  have "base_inv (new_Arbiter n)" using base_new [of n] assms(1) by simp
  then show ?thesis
    using assms pos n none by (simp add: new_ok_def new_base)
qed

lemma NewArbiter_ok: "NewArbiter arb_type n = Inr a \<Longrightarrow> 0 < n \<Longrightarrow> new_ok n a"
proof (induction "length arb_type" arbitrary: arb_type n a rule: less_induct)
  case less
  show ?case
  proof (cases "arb_type = ''round_robin'' \<or> arb_type = ''matrix''")
    case True
    with less.prems show ?thesis
      by (auto simp: NewArbiter.simps [of arb_type] sized_def intro: new_rr_ok new_mx_ok)
  next
    case False
    with less.prems obtain middle right where
      tree: "take 5 arb_type = ''tree(''" and
      middle: "find_first_of (CHR '','') arb_type = Some middle" and
      right: "find_last_of (CHR '')'') arb_type = Some right"
      by (auto simp: NewArbiter.simps [of arb_type] split: if_splits option.splits)
    define g where "g = atoi (substr 5 (int middle - 5) arb_type)"
    define sub where "sub = substr (Suc middle) (int right - int middle - 1) arb_type"
    from less.prems False tree middle right obtain gs gl where
      g: "\<not> g < 0" "g \<noteq> 0" "n smod g = 0" and
      gs: "for_each (\<lambda>_ gs. bnd (NewArbiter sub (n sdiv g)) (\<lambda>g. Inr (gs @ [g]))) (range0 g) [] = Inr gs" and
      gl: "NewArbiter sub g = Inr gl" and
      a: "a = Tree (new_Arbiter n) (n sdiv g) gs gl (replicate (nat g) 0)"
      by (auto simp: NewArbiter.simps [of arb_type] sized_def Let_def bnd_Inr_iff g_def sub_def
          split: if_splits)
    have len: "length sub < length arb_type"
      using find_first_of_less [OF middle] by (simp add: sub_def length_substr)
    have sd: "n sdiv g = n div g" "n mod g = 0" "0 < g" using g less.prems(2) by auto
    then have "n = n div g * g" by auto
    with sd(3) less.prems(2) have pos: "0 < n div g" by (metis zero_less_mult_pos2)
    obtain g0 where g0: "NewArbiter sub (n div g) = Inr g0" "gs = replicate (nat g) g0"
      using build_groups [OF gs] sd(3) by (auto simp: sd range0_def)
    from less.hyps [OF len g0(1) pos] less.hyps [OF len gl sd(3)] show ?thesis
      unfolding a sd(1) g0(2) using less.prems(2) sd by (intro new_tree_ok) auto
  qed
qed

section \<open>Properties\<close>

text \<open>
  C1: Whatever arbiter a configuration string describes (round robin, matrix, or a tree of them of
  any depth), every sequence of rounds (clear, add requests at distinct inputs, arbitrate, update)
  runs without failing an assertion or an index check, and each round grants a requester of the
  highest priority with the identifier it was registered under, or nothing when there is no
  request.
\<close>

theorem NewArbiter_rounds:
  assumes "NewArbiter arb_type n = Inr a" "0 < n" "\<forall>rs \<in> set rss. good_reqs n rs"
  shows "\<exists>a' outs. arb_rounds (arb_round arb_AddRequest arb_Arbitrate arb_UpdateState arb_Clear) rss a
      = Inr (a', outs) \<and> list_all2 (\<lambda>rs (w, out). grants (map_of rs) w out) rss outs"
proof -
  from NewArbiter_ok [OF assms(1,2)] have "arb_inv a" "arb_sz a = n" by (auto simp: new_ok_def)
  with tr.run_rounds [of a rss] assms(3) show ?thesis by auto
qed

theorem NewArbiter_rounds_witness:
  "\<exists>a a' outs. NewArbiter ''tree(2,matrix)'' 4 = Inr a \<and>
     arb_rounds (arb_round arb_AddRequest arb_Arbitrate arb_UpdateState arb_Clear)
       [[(1, 7, 3), (2, 8, 5)], []] a = Inr (a', outs) \<and>
     list_all2 (\<lambda>rs (w, out). grants (map_of rs) w out) [[(1, 7, 3), (2, 8, 5)], []] outs"
proof -
  have "\<not> isl (NewArbiter ''tree(2,matrix)'' 4)" by code_simp
  then obtain a where a: "NewArbiter ''tree(2,matrix)'' 4 = Inr a" 
    by (cases "NewArbiter ''tree(2,matrix)'' 4") auto
  from NewArbiter_rounds [OF a, of "[[(1, 7, 3), (2, 8, 5)], []]"] a show ?thesis
    by (auto simp: good_reqs_def)
qed

text \<open>
  C2: The round-robin arbiter starves nobody: an input that requests in at least as many
  consecutive rounds as there are inputs, never against a request of higher priority, is granted
  in one of them.
\<close>

theorem RoundRobin_starvation_free:
  assumes "rr_inv a" "0 \<le> i" "i < arb_size a"
    and "\<forall>rs \<in> set rss. good_reqs (arb_size a) rs \<and> tops i rs" and "arb_size a \<le> vlen rss"
  shows "\<exists>a' outs. arb_rounds (arb_round RR_AddRequest RR_Arbitrate (\<lambda>a. Inr (RR_UpdateState a)) RR_Clear)
      rss a = Inr (a', outs) \<and> i \<in> fst ` set outs"
  using assms by (intro rrf.starvation_free) auto

theorem RoundRobin_starvation_free_witness:
  "\<exists>a' outs. arb_rounds (arb_round RR_AddRequest RR_Arbitrate (\<lambda>a. Inr (RR_UpdateState a)) RR_Clear)
     [[(0, 5, 1), (1, 6, 1)], [(0, 5, 1), (1, 6, 1)]] (new_RoundRobinArbiter 2) = Inr (a', outs) \<and>
     1 \<in> fst ` set outs"
  using rr_new [of 2]
  by (intro RoundRobin_starvation_free)
    (auto simp: new_RoundRobinArbiter_def new_Arbiter_def arbiter.defs good_reqs_def tops_def)

text \<open>
  C3: The matrix arbiter starves nobody, under the same conditions: the priority matrix stays a
  strict total order, whose last element is the input served last.
\<close>

theorem Matrix_starvation_free:
  assumes "mx_inv a" "0 \<le> i" "i < arb_size a"
    and "\<forall>rs \<in> set rss. good_reqs (arb_size a) rs \<and> tops i rs" and "arb_size a \<le> vlen rss"
  shows "\<exists>a' outs. arb_rounds (arb_round MX_AddRequest MX_Arbitrate (\<lambda>a. Inr (MX_UpdateState a)) MX_Clear)
      rss a = Inr (a', outs) \<and> i \<in> fst ` set outs"
  using assms by (intro mxf.starvation_free) auto

theorem Matrix_starvation_free_witness:
  "\<exists>a' outs. arb_rounds (arb_round MX_AddRequest MX_Arbitrate (\<lambda>a. Inr (MX_UpdateState a)) MX_Clear)
     [[(0, 5, 1), (1, 6, 1)], [(0, 5, 1), (1, 6, 1)]] (new_MatrixArbiter 2) = Inr (a', outs) \<and>
     0 \<in> fst ` set outs"
  using mx_new [of 2]
  by (intro Matrix_starvation_free)
    (auto simp: new_MatrixArbiter_def new_Arbiter_def arbiter.defs good_reqs_def tops_def)

end
