(* ===== verification/Containers.thy ===== *)
theory Containers
  imports Prelude
begin

text \<open>
  The standard containers the program iterates over: \<^verbatim>\<open>std::map<int, T>\<close> and \<^verbatim>\<open>std::set<int>\<close> as
  lists in key order, and the loop with which \<^verbatim>\<open>iSLIP_Sparse\<close>, \<^verbatim>\<open>SelAlloc\<close> and
  \<^verbatim>\<open>PriorityArbiter\<close> walk such a container in round-robin order.
\<close>

section \<open>Ordered maps\<close>

type_synonym 'v omap = "(int \<times> 'v) list"

fun om_put :: "int \<Rightarrow> 'v \<Rightarrow> 'v omap \<Rightarrow> 'v omap" where
  "om_put k v [] = [(k, v)]"
| "om_put k v ((k', v') # m) =
     (if k < k' then (k, v) # (k', v') # m
      else if k = k' then (k, v) # m
      else (k', v') # om_put k v m)"

definition om_del :: "int \<Rightarrow> 'v omap \<Rightarrow> 'v omap" where
  "om_del k m = filter (\<lambda>e. fst e \<noteq> k) m"

definition om_ok :: "'v omap \<Rightarrow> bool" where
  "om_ok m \<longleftrightarrow> sorted_wrt (<) (map fst m)"

lemma om_ok_Nil [simp]: "om_ok []"
  by (simp add: om_ok_def)

lemma om_ok_Cons: "om_ok (e # m) \<longleftrightarrow> (\<forall>e' \<in> set m. fst e < fst e') \<and> om_ok m"
  by (auto simp: om_ok_def)

lemma map_of_om_put [simp]: "map_of (om_put k v m) = (map_of m)(k \<mapsto> v)"
  by (induction k v m rule: om_put.induct) auto

lemma om_put_not_Nil [simp]: "om_put k v m \<noteq> []"
  by (induction k v m rule: om_put.induct) auto

lemma set_om_put: "om_ok m \<Longrightarrow> set (om_put k v m) = insert (k, v) {e \<in> set m. fst e \<noteq> k}"
  by (induction k v m rule: om_put.induct) (auto simp: om_ok_Cons)

lemma om_ok_put [simp]: "om_ok m \<Longrightarrow> om_ok (om_put k v m)"
  by (induction k v m rule: om_put.induct) (auto simp: om_ok_Cons set_om_put)

lemma om_ok_del [simp]: "om_ok m \<Longrightarrow> om_ok (om_del k m)"
  by (induction m) (auto simp: om_ok_Cons om_del_def)

lemma map_of_om_del: "map_of (om_del k m) = (map_of m)(k := None)"
  by (induction m) (auto simp: om_del_def fun_eq_iff)

lemma om_distinct: "om_ok m \<Longrightarrow> distinct (map fst m)"
  by (auto simp: om_ok_def strict_sorted_iff)

lemma om_in_set_iff: "om_ok m \<Longrightarrow> (k, v) \<in> set m \<longleftrightarrow> map_of m k = Some v"
  by (simp add: om_distinct)

text \<open>Ordered sets are strictly sorted lists; insertion and erasure are the library's.\<close>

definition os_put :: "int \<Rightarrow> int list \<Rightarrow> int list" where
  "os_put k s = (if k \<in> set s then s else insort k s)"

definition os_del :: "int \<Rightarrow> int list \<Rightarrow> int list" where
  "os_del k s = filter (\<lambda>x. x \<noteq> k) s"

definition os_ok :: "int list \<Rightarrow> bool" where
  "os_ok s \<longleftrightarrow> sorted s \<and> distinct s"

lemma set_os_put [simp]: "set (os_put k s) = insert k (set s)"
  by (auto simp: os_put_def set_insort_key)

lemma set_os_del [simp]: "set (os_del k s) = set s - {k}"
  by (auto simp: os_del_def)

lemma os_ok_put [simp]: "os_ok s \<Longrightarrow> os_ok (os_put k s)"
  by (auto simp: os_ok_def os_put_def sorted_insort distinct_insort)

lemma os_ok_del [simp]: "os_ok s \<Longrightarrow> os_ok (os_del k s)"
  by (auto simp: os_ok_def os_del_def sorted_filter [of id, simplified])

lemma os_ok_Nil [simp]: "os_ok []"
  by (simp add: os_ok_def)

section \<open>The round-robin walk\<close>

text \<open>
  The loop starts at the first element whose key is not below the offset, wraps once at the end and
  stops when it is back at the offset or when the body breaks. \<open>p\<close> is the iterator (the rest of
  the container), the body returns whether it broke and the new state.
\<close>

function rr_walk ::
    "('e \<Rightarrow> int) \<Rightarrow> int \<Rightarrow> 'e list \<Rightarrow> ('e \<Rightarrow> 's \<Rightarrow> bool \<times> 's) \<Rightarrow> 'e list \<Rightarrow> bool \<Rightarrow> 's \<Rightarrow> 's" where
  "rr_walk key off xs body p wrapped s =
     (if \<not> wrapped \<or> (p \<noteq> [] \<and> key (hd p) < off) then
        if p = [] \<and> wrapped then s
        else
          let p' = (if p = [] then xs else p); wrapped' = (wrapped \<or> p = []);
              r = body (hd p') s
          in if fst r then snd r else rr_walk key off xs body (tl p') wrapped' (snd r)
      else s)"
  by pat_completeness auto
termination
  by (relation "measures [\<lambda>(key, off, xs, body, p, wrapped, s). if wrapped then 0 else 1,
        \<lambda>(key, off, xs, body, p, wrapped, s). length p]") (auto split: if_splits)

declare rr_walk.simps [simp del]

definition rr_start :: "('e \<Rightarrow> int) \<Rightarrow> int \<Rightarrow> 'e list \<Rightarrow> 'e list" where
  "rr_start key off xs = dropWhile (\<lambda>e. key e < off) xs"

fun until_break :: "('e \<Rightarrow> 's \<Rightarrow> bool \<times> 's) \<Rightarrow> 'e list \<Rightarrow> 's \<Rightarrow> 's" where
  "until_break body [] s = s"
| "until_break body (e # es) s =
     (if fst (body e s) then snd (body e s) else until_break body es (snd (body e s)))"

definition rr_order :: "('e \<Rightarrow> int) \<Rightarrow> int \<Rightarrow> 'e list \<Rightarrow> 'e list" where
  "rr_order key off xs = rr_start key off xs @ hd xs # takeWhile (\<lambda>e. key e < off) (tl xs)"

lemma rr_walk_wrapped:
  "rr_walk key off xs body p True s = until_break body (takeWhile (\<lambda>e. key e < off) p) s"
proof (induction p arbitrary: s)
  case Nil
  then show ?case by (simp add: rr_walk.simps)
next
  case (Cons e p)
  then show ?case by (subst rr_walk.simps) (simp add: Let_def)
qed

lemma rr_walk_first:
  "rr_walk key off xs body p False s =
     until_break body (p @ hd xs # takeWhile (\<lambda>e. key e < off) (tl xs)) s"
proof (induction p arbitrary: s)
  case Nil
  then show ?case by (subst rr_walk.simps) (simp add: Let_def rr_walk_wrapped)
next
  case (Cons e p)
  then show ?case by (subst rr_walk.simps) (simp add: Let_def)
qed

text \<open>The walk visits the elements from the offset on, then the first one and those below the offset.\<close>

lemma rr_walk_order:
  "rr_walk key off xs body (rr_start key off xs) False s = until_break body (rr_order key off xs) s"
  by (simp add: rr_walk_first rr_order_def)

text \<open>On a sorted container no element is missed.\<close>

lemma set_rr_order:
  assumes "sorted (map key xs)" "xs \<noteq> []"
  shows "set (rr_order key off xs) = set xs"
proof -
  have low: "e \<in> set (takeWhile (\<lambda>e. key e < off) ys)"
    if "sorted (map key ys)" "e \<in> set ys" "key e < off" for e ys
    using that by (induction ys) auto
  have high: "e \<in> set (dropWhile (\<lambda>e. key e < off) ys)" if "e \<in> set ys" "\<not> key e < off" for e ys
    using that by (induction ys) auto
  obtain x ys where xs: "xs = x # ys" using assms(2) by (cases xs) auto
  have "e \<in> set (rr_order key off xs)" if "e \<in> set xs" for e
    using that low [of ys e] high [of e xs] assms(1)
    by (cases "key e < off") (auto simp: rr_order_def rr_start_def xs)
  then have "set xs \<subseteq> set (rr_order key off xs)" by blast
  moreover have "set (rr_order key off xs) \<subseteq> set xs"
    by (auto simp: rr_order_def rr_start_def xs split: if_splits dest: set_dropWhileD set_takeWhileD)
  ultimately show ?thesis by blast
qed

lemma rr_order_not_Nil [simp]: "rr_order key off xs \<noteq> []"
  by (simp add: rr_order_def)

text \<open>A body that breaks at the first element of interest: the walk is a search.\<close>

lemma until_break_find:
  "until_break (\<lambda>e s. if P e s then (True, f e s) else (False, s)) es s =
     (case List.find (\<lambda>e. P e s) es of None \<Rightarrow> s | Some e \<Rightarrow> f e s)"
  by (induction es) auto

text \<open>A body that keeps the best element so far, first come first served on equal priority.\<close>

definition keep_best :: "('e \<Rightarrow> bool) \<Rightarrow> ('e \<Rightarrow> int) \<Rightarrow> ('e \<Rightarrow> int) \<Rightarrow> 'e \<Rightarrow> int \<times> int \<Rightarrow> bool \<times> int \<times> int" where
  "keep_best P pri idx e s =
     (False, if P e \<and> (pri e > snd s \<or> fst s = - 1) then (idx e, pri e) else s)"

definition best_ok :: "('e \<Rightarrow> bool) \<Rightarrow> ('e \<Rightarrow> int) \<Rightarrow> ('e \<Rightarrow> int) \<Rightarrow> 'e list \<Rightarrow> int \<times> int \<Rightarrow> bool" where
  "best_ok P pri idx es s \<longleftrightarrow>
     (if \<exists>e \<in> set es. P e
      then \<exists>e \<in> set es. P e \<and> s = (idx e, pri e) \<and> (\<forall>e' \<in> set es. P e' \<longrightarrow> pri e' \<le> pri e)
      else fst s = - 1)"

lemma until_break_never: "until_break (\<lambda>e s. (False, f e s)) es s = fold f es s"
  by (induction es arbitrary: s) auto

lemma until_break_best:
  assumes "\<And>e. e \<in> set es \<Longrightarrow> idx e \<noteq> - 1"
  shows "best_ok P pri idx es (until_break (keep_best P pri idx) es (- 1, 0))"
proof -
  define f where "f = (\<lambda>e s. if P e \<and> (pri e > snd s \<or> fst s = - 1) then (idx e, pri e) else s)"
  have "best_ok P pri idx es (fold f es (- 1, 0))"
  proof (rule fold_prefix [where P = "best_ok P pri idx"])
    show "best_ok P pri idx [] (- 1, 0)" by (simp add: best_ok_def)
  next
    fix seen x rest s assume es: "es = seen @ x # rest" and I: "best_ok P pri idx seen s"
    from es assms have idx: "idx e \<noteq> - 1" if "e \<in> set seen \<or> e = x" for e using that by auto
    show "best_ok P pri idx (seen @ [x]) (f x s)"
    proof (cases "\<exists>e \<in> set seen. P e")
      case True
      with I obtain e where e: "e \<in> set seen" "P e" "s = (idx e, pri e)"
        "\<forall>e' \<in> set seen. P e' \<longrightarrow> pri e' \<le> pri e" by (auto simp: best_ok_def)
      show ?thesis
      proof (cases "P x \<and> pri x > pri e")
        case True
        then show ?thesis using e by (fastforce simp: best_ok_def f_def)
      next
        case False
        then have "f x s = s" using e idx by (auto simp: f_def)
        then show ?thesis using e False unfolding best_ok_def by auto
      qed
    next
      case False
      then show ?thesis using I by (auto simp: best_ok_def f_def)
    qed
  qed
  moreover have "keep_best P pri idx = (\<lambda>e s. (False, f e s))" by (simp add: keep_best_def f_def fun_eq_iff)
  ultimately show ?thesis by (simp add: until_break_never)
qed

end
