(* ===== verification/Allocators.thy ===== *)
theory Allocators
  imports Containers
begin

text \<open>
  The base classes of \<^verbatim>\<open>booksim2/src/allocators/allocator.cpp\<close>: \<^verbatim>\<open>Allocator\<close> with the matching
  under construction, \<^verbatim>\<open>DenseAllocator\<close> with a full request matrix and \<^verbatim>\<open>SparseAllocator\<close> with a
  map of requests per port. The concrete allocators extend these records in their own theories.
  What an allocator promises to a router is the locale \<open>allocator_contract\<close>: a cycle of clearing,
  adding requests and allocating yields a matching of the requests.
\<close>

section \<open>The base class\<close>

record sRequest =
  rq_port :: int
  rq_label :: int
  rq_in_pri :: int
  rq_out_pri :: int

definition req_port :: "int \<times> sRequest \<Rightarrow> int" where
  "req_port e = rq_port (snd e)"

record allocator =
  al_inputs :: int
  al_outputs :: int
  al_dirty :: bool
  al_inmatch :: "int list"
  al_outmatch :: "int list"

definition unmatched :: "int \<Rightarrow> int list" where
  "unmatched n = replicate (nat n) (- 1)"

definition new_Allocator :: "int \<Rightarrow> int \<Rightarrow> allocator" where
  "new_Allocator n m =
     \<lparr>al_inputs = n, al_outputs = m, al_dirty = False, al_inmatch = unmatched n, al_outmatch = unmatched m\<rparr>"

definition Allocator_Clear :: "'a allocator_scheme \<Rightarrow> 'a allocator_scheme" where
  "Allocator_Clear a =
     (if al_dirty a
      then a\<lparr>al_inmatch := unmatched (al_inputs a), al_outmatch := unmatched (al_outputs a), al_dirty := False\<rparr>
      else a)"

definition Allocator_AddRequest ::
    "int \<Rightarrow> int \<Rightarrow> int \<Rightarrow> 'a allocator_scheme \<Rightarrow> 'a allocator_scheme res" where
  "Allocator_AddRequest i j label a =
     bnd (assert_that (i \<ge> 0 \<and> i < al_inputs a) ''( in >= 0 ) && ( in < _inputs )'') (\<lambda>_.
     bnd (assert_that (j \<ge> 0 \<and> j < al_outputs a) ''( out >= 0 ) && ( out < _outputs )'') (\<lambda>_.
     bnd (assert_that (label \<ge> 0) ''label >= 0'') (\<lambda>_.
     Inr (a\<lparr>al_dirty := True\<rparr>))))"

definition OutputAssigned :: "int \<Rightarrow> 'a allocator_scheme \<Rightarrow> int res" where
  "OutputAssigned i a =
     bnd (assert_that (i \<ge> 0 \<and> i < al_inputs a) ''( in >= 0 ) && ( in < _inputs )'') (\<lambda>_.
     vget (al_inmatch a) i)"

definition InputAssigned :: "int \<Rightarrow> 'a allocator_scheme \<Rightarrow> int res" where
  "InputAssigned j a =
     bnd (assert_that (j \<ge> 0 \<and> j < al_outputs a) ''( out >= 0 ) && ( out < _outputs )'') (\<lambda>_.
     vget (al_outmatch a) j)"

section \<open>Dense allocators\<close>

record dense = allocator +
  dn_request :: "sRequest list list"

definition no_request :: sRequest where
  "no_request = \<lparr>rq_port = 0, rq_label = - 1, rq_in_pri = 0, rq_out_pri = 0\<rparr>"

definition new_DenseAllocator :: "int \<Rightarrow> int \<Rightarrow> dense" where
  "new_DenseAllocator n m = allocator.extend (new_Allocator n m)
     \<lparr>dn_request = replicate (nat n) (replicate (nat m) no_request)\<rparr>"

definition dn_get :: "'a dense_scheme \<Rightarrow> int \<Rightarrow> int \<Rightarrow> sRequest" where
  "dn_get a i j = vat (vat (dn_request a) i) j"

definition dn_put :: "int \<Rightarrow> int \<Rightarrow> sRequest \<Rightarrow> 'a dense_scheme \<Rightarrow> 'a dense_scheme" where
  "dn_put i j r a = a\<lparr>dn_request := vupd (dn_request a) i (vupd (vat (dn_request a) i) j r)\<rparr>"

definition Dense_Clear :: "'a dense_scheme \<Rightarrow> 'a dense_scheme" where
  "Dense_Clear a =
     Allocator_Clear (a\<lparr>dn_request := map (map (\<lambda>r. r\<lparr>rq_label := - 1\<rparr>)) (dn_request a)\<rparr>)"

definition ports_ok :: "int \<Rightarrow> int \<Rightarrow> 'a allocator_scheme \<Rightarrow> unit res" where
  "ports_ok i j a =
     bnd (assert_that (i \<ge> 0 \<and> i < al_inputs a) ''( in >= 0 ) && ( in < _inputs )'') (\<lambda>_.
     assert_that (j \<ge> 0 \<and> j < al_outputs a) ''( out >= 0 ) && ( out < _outputs )'')"

definition Dense_ReadRequest :: "int \<Rightarrow> int \<Rightarrow> 'a dense_scheme \<Rightarrow> int res" where
  "Dense_ReadRequest i j a = bnd (ports_ok i j a) (\<lambda>_. Inr (rq_label (dn_get a i j)))"

definition Dense_ReadRequest_ref :: "int \<Rightarrow> int \<Rightarrow> 'a dense_scheme \<Rightarrow> (sRequest \<times> bool) res" where
  "Dense_ReadRequest_ref i j a =
     bnd (ports_ok i j a) (\<lambda>_. Inr (dn_get a i j, rq_label (dn_get a i j) \<ge> 0))"

definition Dense_AddRequest ::
    "int \<Rightarrow> int \<Rightarrow> int \<Rightarrow> int \<Rightarrow> int \<Rightarrow> 'a dense_scheme \<Rightarrow> 'a dense_scheme res" where
  "Dense_AddRequest i j label in_pri out_pri a =
     bnd (Allocator_AddRequest i j label a) (\<lambda>a.
     bnd (assert_that (rq_label (dn_get a i j) = - 1) ''_request[in][out].label == -1'') (\<lambda>_.
     Inr (dn_put i j ((dn_get a i j)\<lparr>rq_label := label, rq_in_pri := in_pri, rq_out_pri := out_pri\<rparr>) a)))"

definition Dense_RemoveRequest :: "int \<Rightarrow> int \<Rightarrow> 'a dense_scheme \<Rightarrow> 'a dense_scheme res" where
  "Dense_RemoveRequest i j a =
     bnd (ports_ok i j a) (\<lambda>_. Inr (dn_put i j ((dn_get a i j)\<lparr>rq_label := - 1\<rparr>) a))"

definition Dense_InputHasRequests :: "int \<Rightarrow> 'a dense_scheme \<Rightarrow> bool" where
  "Dense_InputHasRequests i a = list_ex (\<lambda>j. rq_label (dn_get a i j) \<ge> 0) (range0 (al_outputs a))"

definition Dense_OutputHasRequests :: "int \<Rightarrow> 'a dense_scheme \<Rightarrow> bool" where
  "Dense_OutputHasRequests j a = list_ex (\<lambda>i. rq_label (dn_get a i j) \<ge> 0) (range0 (al_inputs a))"

definition Dense_NumInputRequests :: "int \<Rightarrow> 'a dense_scheme \<Rightarrow> int" where
  "Dense_NumInputRequests i a =
     fold (\<lambda>j n. if rq_label (dn_get a i j) \<ge> 0 then n + 1 else n) (range0 (al_outputs a)) 0"

definition Dense_NumOutputRequests :: "int \<Rightarrow> 'a dense_scheme \<Rightarrow> int" where
  "Dense_NumOutputRequests j a =
     fold (\<lambda>i n. if rq_label (dn_get a i j) \<ge> 0 then n + 1 else n) (range0 (al_inputs a)) 0"

section \<open>Sparse allocators\<close>

record sparse = allocator +
  sp_in_occ :: "int list"
  sp_out_occ :: "int list"
  sp_in_req :: "sRequest omap list"
  sp_out_req :: "sRequest omap list"

definition new_SparseAllocator :: "int \<Rightarrow> int \<Rightarrow> sparse" where
  "new_SparseAllocator n m = allocator.extend (new_Allocator n m)
     \<lparr>sp_in_occ = [], sp_out_occ = [], sp_in_req = replicate (nat n) [], sp_out_req = replicate (nat m) []\<rparr>"

definition Sparse_Clear :: "'a sparse_scheme \<Rightarrow> 'a sparse_scheme" where
  "Sparse_Clear a = Allocator_Clear
     (a\<lparr>sp_in_req := map (\<lambda>_. []) (sp_in_req a), sp_out_req := map (\<lambda>_. []) (sp_out_req a),
        sp_in_occ := [], sp_out_occ := []\<rparr>)"

definition Sparse_ReadRequest_ref :: "int \<Rightarrow> int \<Rightarrow> 'a sparse_scheme \<Rightarrow> sRequest option res" where
  "Sparse_ReadRequest_ref i j a =
     bnd (ports_ok i j a) (\<lambda>_. Inr (map_of (vat (sp_in_req a) i) j))"

definition Sparse_ReadRequest :: "int \<Rightarrow> int \<Rightarrow> 'a sparse_scheme \<Rightarrow> int res" where
  "Sparse_ReadRequest i j a =
     bnd (Sparse_ReadRequest_ref i j a) (\<lambda>r.
     Inr (case r of None \<Rightarrow> - 1 | Some r \<Rightarrow> rq_label r))"

definition Sparse_AddRequest ::
    "int \<Rightarrow> int \<Rightarrow> int \<Rightarrow> int \<Rightarrow> int \<Rightarrow> 'a sparse_scheme \<Rightarrow> 'a sparse_scheme res" where
  "Sparse_AddRequest i j label in_pri out_pri a =
     bnd (Allocator_AddRequest i j label a) (\<lambda>a.
     let ir = vat (sp_in_req a) i; orq = vat (sp_out_req a) j;
         req = \<lparr>rq_port = j, rq_label = label, rq_in_pri = in_pri, rq_out_pri = out_pri\<rparr> in
     bnd (assert_that (map_of ir j = None) ''_in_req[in].count(out) == 0'') (\<lambda>_.
     bnd (assert_that (map_of orq i = None) ''_out_req[out].count(in) == 0'') (\<lambda>_.
     Inr (a\<lparr>sp_in_occ := if ir = [] then os_put i (sp_in_occ a) else sp_in_occ a,
            sp_out_occ := if orq = [] then os_put j (sp_out_occ a) else sp_out_occ a,
            sp_in_req := vupd (sp_in_req a) i (om_put j req ir),
            sp_out_req := vupd (sp_out_req a) j (om_put i (req\<lparr>rq_port := i\<rparr>) orq)\<rparr>))))"

definition Sparse_RemoveRequest :: "int \<Rightarrow> int \<Rightarrow> int \<Rightarrow> 'a sparse_scheme \<Rightarrow> 'a sparse_scheme res" where
  "Sparse_RemoveRequest i j label a =
     bnd (ports_ok i j a) (\<lambda>_.
     case map_of (vat (sp_in_req a) i) j of
       None \<Rightarrow> Inl (AssertFail ''_in_req[in].count( out ) > 0'')
     | Some r \<Rightarrow>
         bnd (assert_that (rq_label r = label) ''_in_req[in][out].label == label'') (\<lambda>_.
         let ir = om_del j (vat (sp_in_req a) i);
             a = a\<lparr>sp_in_req := vupd (sp_in_req a) i ir,
                   sp_in_occ := if ir = [] then os_del i (sp_in_occ a) else sp_in_occ a\<rparr> in
         case map_of (vat (sp_out_req a) j) i of
           None \<Rightarrow> Inl (AssertFail ''_out_req[out].count( in ) > 0'')
         | Some r' \<Rightarrow>
             bnd (assert_that (rq_label r' = label) ''_out_req[out][in].label == label'') (\<lambda>_.
             let orq = om_del i (vat (sp_out_req a) j) in
             Inr (a\<lparr>sp_out_req := vupd (sp_out_req a) j orq,
                    sp_out_occ := if orq = [] then os_del j (sp_out_occ a) else sp_out_occ a\<rparr>))))"

definition Sparse_InputHasRequests :: "int \<Rightarrow> 'a sparse_scheme \<Rightarrow> bool" where
  "Sparse_InputHasRequests i a \<longleftrightarrow> i \<in> set (sp_in_occ a)"

definition Sparse_OutputHasRequests :: "int \<Rightarrow> 'a sparse_scheme \<Rightarrow> bool" where
  "Sparse_OutputHasRequests j a \<longleftrightarrow> j \<in> set (sp_out_occ a)"

text \<open>\<^verbatim>\<open>std::set::count\<close> is 0 or 1.\<close>

definition Sparse_NumInputRequests :: "int \<Rightarrow> 'a sparse_scheme \<Rightarrow> int" where
  "Sparse_NumInputRequests i a = (if i \<in> set (sp_in_occ a) then 1 else 0)"

definition Sparse_NumOutputRequests :: "int \<Rightarrow> 'a sparse_scheme \<Rightarrow> int" where
  "Sparse_NumOutputRequests j a = (if j \<in> set (sp_out_occ a) then 1 else 0)"

end
