(* ===== verification/Allocator_Laws.thy ===== *)
theory Allocator_Laws
  imports Allocators
begin

text \<open>
  What a matching is, the contract of an allocator, and the part of the contract that the dense and
  the sparse base classes provide: adding, removing and clearing requests.
\<close>

section \<open>Matchings\<close>

definition matching :: "int \<Rightarrow> int \<Rightarrow> (int \<Rightarrow> int \<Rightarrow> bool) \<Rightarrow> int list \<Rightarrow> int list \<Rightarrow> bool" where
  "matching n m R im om \<longleftrightarrow>
     vlen im = n \<and> vlen om = m \<and>
     (\<forall>i. 0 \<le> i \<and> i < n \<longrightarrow> vat im i = - 1 \<or>
        (0 \<le> vat im i \<and> vat im i < m \<and> vat om (vat im i) = i \<and> R i (vat im i))) \<and>
     (\<forall>j. 0 \<le> j \<and> j < m \<longrightarrow> vat om j = - 1 \<or>
        (0 \<le> vat om j \<and> vat om j < n \<and> vat im (vat om j) = j))"

definition maximal :: "(int \<Rightarrow> int \<Rightarrow> bool) \<Rightarrow> int list \<Rightarrow> int list \<Rightarrow> bool" where
  "maximal R im om \<longleftrightarrow> (\<forall>i j. R i j \<longrightarrow> vat im i \<noteq> - 1 \<or> vat om j \<noteq> - 1)"

lemma vlen_unmatched [simp]: "0 \<le> n \<Longrightarrow> vlen (unmatched n) = n"
  by (simp add: unmatched_def vlen_def)

lemma vat_unmatched [simp]: "0 \<le> i \<Longrightarrow> i < n \<Longrightarrow> vat (unmatched n) i = - 1"
  by (simp add: unmatched_def)

lemma matching_unmatched: "0 \<le> n \<Longrightarrow> 0 \<le> m \<Longrightarrow> matching n m R (unmatched n) (unmatched m)"
  by (auto simp: matching_def)

lemma matching_no_requests:
  assumes "matching n m R im om" "\<And>i j. \<not> R i j"
  shows "im = unmatched n" "om = unmatched m"
proof -
  from assms have n: "0 \<le> n" "0 \<le> m" "vlen im = n" "vlen om = m" by (auto simp: matching_def)
  have im: "vat im i = - 1" if "0 \<le> i" "i < n" for i using assms that by (auto simp: matching_def)
  then show "im = unmatched n" using n by (intro vec_eqI) auto
  have "vat om j = - 1" if "0 \<le> j" "j < m" for j
    using assms(1) that im by (auto simp: matching_def)
  then show "om = unmatched m" using n by (intro vec_eqI) auto
qed

lemma matching_mono: "matching n m R im om \<Longrightarrow> (\<And>i j. R i j \<Longrightarrow> S i j) \<Longrightarrow> matching n m S im om"
  unfolding matching_def by blast

text \<open>Adding a pair of free ports to a matching.\<close>

lemma matching_add:
  assumes M: "matching n m R im om" and ij: "0 \<le> i" "i < n" "0 \<le> j" "j < m" "R i j"
    and free: "vat im i = - 1" "vat om j = - 1"
  shows "matching n m R (vupd im i j) (vupd om j i)"
proof -
  from M have len: "vlen im = n" "vlen om = m" by (auto simp: matching_def)
  have "vat im k \<noteq> j" if "0 \<le> k" "k < n" for k
    using M that ij free by (auto simp: matching_def)
  moreover have "vat om k \<noteq> i" if "0 \<le> k" "k < m" for k
    using M that ij free by (auto simp: matching_def)
  ultimately show ?thesis
    using M ij len unfolding matching_def by auto
qed

lemma matching_grows:
  assumes "0 \<le> i" "i < vlen im" "vat im i = - 1" "0 \<le> j" "0 \<le> k" "vat im k \<noteq> - 1"
  shows "vat (vupd im i j) k \<noteq> - 1"
  using assms by auto

section \<open>Growing a matching\<close>

text \<open>
  \<open>grows\<close>: every matched port stays matched. A sequence of steps that each grow the matching, and
  grow it strictly as long as two free ports request each other, is maximal after as many steps as
  there are ports on the smaller side.
\<close>

definition grows :: "int \<Rightarrow> int \<Rightarrow> int list \<Rightarrow> int list \<Rightarrow> int list \<Rightarrow> int list \<Rightarrow> bool" where
  "grows n m im om im' om' \<longleftrightarrow>
     (\<forall>i. 0 \<le> i \<and> i < n \<longrightarrow> vat im i \<noteq> - 1 \<longrightarrow> vat im' i \<noteq> - 1) \<and>
     (\<forall>j. 0 \<le> j \<and> j < m \<longrightarrow> vat om j \<noteq> - 1 \<longrightarrow> vat om' j \<noteq> - 1)"

definition matched :: "int \<Rightarrow> int list \<Rightarrow> int set" where
  "matched n im = {i. 0 \<le> i \<and> i < n \<and> vat im i \<noteq> - 1}"

lemma grows_refl [simp]: "grows n m im om im om"
  by (simp add: grows_def)

lemma grows_trans: "grows n m a b c d \<Longrightarrow> grows n m c d e f \<Longrightarrow> grows n m a b e f"
  by (simp add: grows_def)

lemma finite_matched [simp]: "finite (matched n im)"
  by (rule finite_subset [of _ "{0..<n}"]) (auto simp: matched_def)

lemma matched_full:
  assumes M: "matching n m R im om" and R: "\<And>i j. R i j \<Longrightarrow> 0 \<le> i \<and> i < n \<and> 0 \<le> j \<and> j < m"
    and many: "min n m \<le> int (card (matched n im))"
  shows "maximal R im om"
proof (cases "n \<le> m")
  case True
  then have "card {0..<n} \<le> card (matched n im)" using many by simp
  then have "matched n im = {0..<n}"
    by (intro card_seteq) (auto simp: matched_def)
  with R show ?thesis by (fastforce simp: maximal_def matched_def)
next
  case False
  have inj: "inj_on (vat im) (matched n im)"
    using M unfolding inj_on_def matched_def matching_def by (smt (verit) mem_Collect_eq)
  have img: "vat im ` matched n im \<subseteq> {0..<m}" using M by (auto simp: matched_def matching_def)
  have "card {0..<m} \<le> card (vat im ` matched n im)" using many False inj by (simp add: card_image)
  with img have all: "vat im ` matched n im = {0..<m}" by (intro card_seteq) auto
  have "vat om j \<noteq> - 1" if "0 \<le> j" "j < m" for j
  proof -
    from that all obtain i where "i \<in> matched n im" "vat im i = j" by (metis atLeastLessThan_iff imageE)
    with M show ?thesis by (auto simp: matched_def matching_def)
  qed
  with R show ?thesis by (auto simp: maximal_def)
qed

lemma maximal_grows:
  assumes "maximal R im om" "grows n m im om im' om'" "\<And>i j. R i j \<Longrightarrow> 0 \<le> i \<and> i < n \<and> 0 \<le> j \<and> j < m"
  shows "maximal R im' om'"
  using assms unfolding maximal_def grows_def by meson

lemma maximal_by_iteration:
  assumes step: "\<And>k s. I s \<Longrightarrow> I (f k s) \<and> grows n m (im s) (om s) (im (f k s)) (om (f k s)) \<and>
      (maximal R (im s) (om s) \<or> card (matched n (im s)) < card (matched n (im (f k s))))"
    and M: "\<And>s. I s \<Longrightarrow> matching n m R (im s) (om s)"
    and R: "\<And>i j. R i j \<Longrightarrow> 0 \<le> i \<and> i < n \<and> 0 \<le> j \<and> j < m"
    and init: "I s" and many: "min n m \<le> vlen ks"
  shows "maximal R (im (fold f ks s)) (om (fold f ks s))"
proof -
  define P where "P seen t \<longleftrightarrow> I t \<and> (maximal R (im t) (om t) \<or> length seen \<le> card (matched n (im t)))"
    for seen :: "'a list" and t
  have "P ks (fold f ks s)"
  proof (rule fold_prefix [where P = P])
    fix seen x rest t assume t: "P seen t"
    then have s: "I (f x t)" "grows n m (im t) (om t) (im (f x t)) (om (f x t))"
      "maximal R (im t) (om t) \<or> card (matched n (im t)) < card (matched n (im (f x t)))"
      using step [of t x] by (auto simp: P_def)
    have "maximal R (im t) (om t) \<Longrightarrow> maximal R (im (f x t)) (om (f x t))"
      by (rule maximal_grows [OF _ s(2) R])
    with s t show "P (seen @ [x]) (f x t)" by (auto simp: P_def)
  qed (use init in \<open>simp add: P_def\<close>)
  then show ?thesis
    using matched_full [OF M R] many by (fastforce simp: P_def vlen_def)
qed

section \<open>Grant and accept\<close>

text \<open>
  The shape iSLIP, PIM and the selecting allocator share: every free output grants one free
  requester if it has one, then every input accepts one of its grants if it has one.
\<close>

definition grant_ok :: "(int \<Rightarrow> int \<Rightarrow> bool) \<Rightarrow> int list \<Rightarrow> int list \<Rightarrow> int \<Rightarrow> int \<Rightarrow> bool" where
  "grant_ok R im om j v \<longleftrightarrow>
     (if v = - 1 then vat om j \<noteq> - 1 \<or> (\<forall>i. R i j \<longrightarrow> vat im i \<noteq> - 1)
      else R v j \<and> vat im v = - 1 \<and> vat om j = - 1)"

definition accepts :: "(int \<Rightarrow> int \<Rightarrow> bool) \<Rightarrow> int list \<Rightarrow> int \<Rightarrow> int list \<Rightarrow> int list \<Rightarrow> int list \<Rightarrow> int list \<Rightarrow> bool" where
  "accepts R g i im om im' om' \<longleftrightarrow>
     im' = im \<and> om' = om \<and> (\<forall>j. R i j \<longrightarrow> vat g j \<noteq> i) \<or>
     (\<exists>j. R i j \<and> vat g j = i \<and> im' = vupd im i j \<and> om' = vupd om j i)"

text \<open>The grant loop: each output's entry is written once.\<close>

lemma grant_phase:
  assumes m: "0 \<le> m" and I: "I s0" and g0: "G s0 = unmatched m"
    and step: "\<And>j s. I s \<Longrightarrow> 0 \<le> j \<Longrightarrow> j < m \<Longrightarrow> vlen (G s) = m \<Longrightarrow> vat (G s) j = - 1 \<Longrightarrow>
      I (f j s) \<and> (\<exists>v. G (f j s) = vupd (G s) j v \<and> P j v)"
  shows "I (fold f (range0 m) s0) \<and> vlen (G (fold f (range0 m) s0)) = m \<and>
    (\<forall>j. 0 \<le> j \<and> j < m \<longrightarrow> P j (vat (G (fold f (range0 m) s0)) j))"
proof -
  define Q where "Q seen s \<longleftrightarrow> I s \<and> vlen (G s) = m \<and> (\<forall>j. 0 \<le> j \<and> j < m \<longrightarrow>
     (if j \<in> set seen then P j (vat (G s) j) else vat (G s) j = - 1))" for seen s
  have "Q (range0 m) (fold f (range0 m) s0)"
  proof (rule fold_prefix [where P = Q])
    show "Q [] s0" using m I by (simp add: Q_def g0)
  next
    fix seen j rest s assume split: "range0 m = seen @ j # rest" and s: "Q seen s"
    have "j \<in> set (range0 m)" by (simp add: split)
    then have j: "0 \<le> j" "j < m" by auto
    have "j \<notin> set seen" using split distinct_range0 [of m] by simp
    with s j have len: "I s" "vlen (G s) = m" "vat (G s) j = - 1" by (auto simp: Q_def)
    from step [OF len(1) j len(2,3)] obtain v where v: "I (f j s)" "G (f j s) = vupd (G s) j v" "P j v"
      by blast
    show "Q (seen @ [j]) (f j s)" using s j v len by (auto simp: Q_def)
  qed
  then show ?thesis by (auto simp: Q_def)
qed

definition accepted :: "int \<Rightarrow> int \<Rightarrow> (int \<Rightarrow> int \<Rightarrow> bool) \<Rightarrow> int list \<Rightarrow> int list \<Rightarrow> int list \<Rightarrow> int list \<Rightarrow> int list \<Rightarrow> int list \<Rightarrow> bool" where
  "accepted n m R g im0 om0 seen im om \<longleftrightarrow>
     matching n m R im om \<and>
     (\<forall>i. 0 \<le> i \<and> i < n \<and> i \<notin> set seen \<longrightarrow> vat im i = vat im0 i) \<and>
     (\<forall>j. 0 \<le> j \<and> j < m \<and> vat g j \<notin> set seen \<longrightarrow> vat om j = vat om0 j) \<and>
     grows n m im0 om0 im om \<and>
     (\<forall>i j. i \<in> set seen \<and> R i j \<and> vat g j = i \<longrightarrow> vat im i \<noteq> - 1)"

lemma accepted_step:
  assumes A: "accepted n m R g im0 om0 seen im om" and acc: "accepts R g i im om im' om'"
    and i: "0 \<le> i" "i < n" "i \<notin> set seen" and R: "\<And>i j. R i j \<Longrightarrow> 0 \<le> i \<and> i < n \<and> 0 \<le> j \<and> j < m"
    and g: "\<And>j. 0 \<le> j \<Longrightarrow> j < m \<Longrightarrow> grant_ok R im0 om0 j (vat g j)"
  shows "accepted n m R g im0 om0 (seen @ [i]) im' om'"
  using acc unfolding accepts_def
proof (elim disjE exE conjE)
  assume "im' = im" "om' = om" "\<forall>j. R i j \<longrightarrow> vat g j \<noteq> i"
  with A show ?thesis by (auto simp: accepted_def)
next
  fix j assume j: "R i j" "vat g j = i" "im' = vupd im i j" "om' = vupd om j i"
  from R [OF j(1)] have jr: "0 \<le> j" "j < m" by auto
  have M: "matching n m R im om" and lens: "vlen im = n" "vlen om = m"
    using A by (auto simp: accepted_def matching_def)
  have "vat im i = vat im0 i" "vat om j = vat om0 j"
    using A i jr j(2) unfolding accepted_def by blast+
  with g [OF jr] j(2) i(1) have free: "vat im i = - 1" "vat om j = - 1" by (auto simp: grant_ok_def)
  have M': "matching n m R im' om'" unfolding j using M i jr j(1) free by (intro matching_add) auto
  have gr: "grows n m im0 om0 im' om'"
    using A i jr lens unfolding accepted_def grows_def j(3,4) by auto
  have "vat im' k \<noteq> - 1" if "k = i \<or> k \<in> set seen" "R k l" "vat g l = k" for k l
  proof (cases "k = i")
    case False
    have "vat im k \<noteq> - 1" using A that False unfolding accepted_def by blast
    with False R [OF that(2)] i lens show ?thesis by (simp add: j(3))
  qed (use i jr lens in \<open>simp add: j(3)\<close>)
  with M' gr A i jr lens j(2) show ?thesis unfolding accepted_def j(3,4) by (simp, blast)
qed

lemma accept_phase:
  assumes M: "matching n m R (IM s0) (OM s0)" and R: "\<And>i j. R i j \<Longrightarrow> 0 \<le> i \<and> i < n \<and> 0 \<le> j \<and> j < m"
    and g: "\<And>j. 0 \<le> j \<Longrightarrow> j < m \<Longrightarrow> grant_ok R (IM s0) (OM s0) j (vat g j)" and I: "I s0"
    and step: "\<And>i s. I s \<Longrightarrow> matching n m R (IM s) (OM s) \<Longrightarrow> 0 \<le> i \<Longrightarrow> i < n \<Longrightarrow>
      I (f i s) \<and> accepts R g i (IM s) (OM s) (IM (f i s)) (OM (f i s))"
  defines "s' \<equiv> fold f (range0 n) s0"
  shows "I s' \<and> matching n m R (IM s') (OM s') \<and> grows n m (IM s0) (OM s0) (IM s') (OM s') \<and>
    (maximal R (IM s0) (OM s0) \<or> card (matched n (IM s0)) < card (matched n (IM s')))"
proof -
  define P where "P seen s \<longleftrightarrow> I s \<and> accepted n m R g (IM s0) (OM s0) seen (IM s) (OM s)" for seen s
  have "P (range0 n) s'"
    unfolding s'_def
  proof (rule fold_prefix [where P = P])
    show "P [] s0" using M I by (simp add: P_def accepted_def)
  next
    fix seen i rest s assume split: "range0 n = seen @ i # rest" and s: "P seen s"
    have "i \<in> set (range0 n)" by (simp add: split)
    then have i: "0 \<le> i" "i < n" by auto
    have new: "i \<notin> set seen" using split distinct_range0 [of n] by simp
    have st: "I (f i s)" "accepts R g i (IM s) (OM s) (IM (f i s)) (OM (f i s))"
      using step [of s i] s i by (auto simp: P_def accepted_def)
    have A: "accepted n m R g (IM s0) (OM s0) seen (IM s) (OM s)" using s by (simp add: P_def)
    show "P (seen @ [i]) (f i s)"
      unfolding P_def using st(1) accepted_step [OF A st(2) i new R g] by blast
  qed
  then have A: "I s'" "accepted n m R g (IM s0) (OM s0) (range0 n) (IM s') (OM s')" by (auto simp: P_def)
  have gr: "grows n m (IM s0) (OM s0) (IM s') (OM s')" using A(2) by (simp add: accepted_def)
  have "card (matched n (IM s0)) < card (matched n (IM s'))" if "\<not> maximal R (IM s0) (OM s0)"
  proof -
    from that obtain i j where r: "R i j" "vat (IM s0) i = - 1" "vat (OM s0) j = - 1" by (auto simp: maximal_def)
    from R [OF r(1)] have j: "0 \<le> j" "j < m" by auto
    with g [of j] r have w: "R (vat g j) j" "vat (IM s0) (vat g j) = - 1"
      by (auto simp: grant_ok_def split: if_splits)
    from R [OF w(1)] have i: "0 \<le> vat g j" "vat g j < n" by auto
    then have "vat g j \<in> set (range0 n)" by simp
    with A(2) w(1) have "vat (IM s') (vat g j) \<noteq> - 1" unfolding accepted_def by blast
    with i w(2) have "vat g j \<in> matched n (IM s') - matched n (IM s0)" by (simp add: matched_def)
    moreover have "matched n (IM s0) \<subseteq> matched n (IM s')" using gr by (auto simp: matched_def grows_def)
    ultimately show ?thesis by (intro psubset_card_mono) auto
  qed
  with A gr show ?thesis by (auto simp: accepted_def)
qed

section \<open>The contract\<close>

text \<open>One allocation cycle of a router: clear, add the requests, allocate.\<close>

definition alloc_cycle ::
    "(int \<Rightarrow> int \<Rightarrow> int \<Rightarrow> int \<Rightarrow> int \<Rightarrow> 'a \<Rightarrow> 'a res) \<Rightarrow> ('a \<Rightarrow> 'a res) \<Rightarrow> ('a \<Rightarrow> 'a) \<Rightarrow>
     (int \<times> int \<times> int \<times> int \<times> int) list \<Rightarrow> 'a \<Rightarrow> 'a res" where
  "alloc_cycle add allocate clear rs a =
     bnd (for_each (\<lambda>(i, j, l, p, q). add i j l p q) rs (clear a)) allocate"

definition good_pairs :: "int \<Rightarrow> int \<Rightarrow> (int \<times> int \<times> int \<times> int \<times> int) list \<Rightarrow> bool" where
  "good_pairs n m rs \<longleftrightarrow> distinct (map (\<lambda>(i, j, r). (i, j)) rs) \<and>
     (\<forall>(i, j, l, p, q) \<in> set rs. 0 \<le> i \<and> i < n \<and> 0 \<le> j \<and> j < m \<and> 0 \<le> l)"

definition req_pairs :: "(int \<times> int \<times> int \<times> int \<times> int) list \<Rightarrow> int \<Rightarrow> int \<Rightarrow> bool" where
  "req_pairs rs i j \<longleftrightarrow> (i, j) \<in> (\<lambda>(i, j, r). (i, j)) ` set rs"

locale allocator_contract =
  fixes inv :: "'a \<Rightarrow> bool"
    and settled :: "'a \<Rightarrow> bool"
    and nin :: "'a \<Rightarrow> int"
    and nout :: "'a \<Rightarrow> int"
    and req :: "'a \<Rightarrow> int \<Rightarrow> int \<Rightarrow> bool"
    and inm :: "'a \<Rightarrow> int list"
    and outm :: "'a \<Rightarrow> int list"
    and add :: "int \<Rightarrow> int \<Rightarrow> int \<Rightarrow> int \<Rightarrow> int \<Rightarrow> 'a \<Rightarrow> 'a res"
    and allocate :: "'a \<Rightarrow> 'a res"
    and clear :: "'a \<Rightarrow> 'a"
  assumes clear_ok: "settled a \<Longrightarrow> inv (clear a) \<and> nin (clear a) = nin a \<and> nout (clear a) = nout a \<and>
      inm (clear a) = unmatched (nin a) \<and> outm (clear a) = unmatched (nout a) \<and> (\<forall>i j. \<not> req (clear a) i j)"
    and add_ok: "inv a \<Longrightarrow> 0 \<le> i \<Longrightarrow> i < nin a \<Longrightarrow> 0 \<le> j \<Longrightarrow> j < nout a \<Longrightarrow> 0 \<le> label \<Longrightarrow> \<not> req a i j \<Longrightarrow>
      \<exists>a'. add i j label ip op a = Inr a' \<and> inv a' \<and> nin a' = nin a \<and> nout a' = nout a \<and>
        inm a' = inm a \<and> outm a' = outm a \<and> (\<forall>k l. req a' k l \<longleftrightarrow> req a k l \<or> k = i \<and> l = j)"
    and allocate_ok: "inv a \<Longrightarrow> inm a = unmatched (nin a) \<Longrightarrow> outm a = unmatched (nout a) \<Longrightarrow>
      \<exists>a'. allocate a = Inr a' \<and> settled a' \<and> nin a' = nin a \<and> nout a' = nout a \<and>
        matching (nin a) (nout a) (req a) (inm a') (outm a')"
begin

lemma adds_ok:
  assumes "inv a" "distinct (map (\<lambda>(i, j, r). (i, j)) rs)"
    and "\<And>i j l p q. (i, j, l, p, q) \<in> set rs \<Longrightarrow> 0 \<le> i \<and> i < nin a \<and> 0 \<le> j \<and> j < nout a \<and> 0 \<le> l \<and> \<not> req a i j"
  shows "\<exists>a'. for_each (\<lambda>(i, j, l, p, q). add i j l p q) rs a = Inr a' \<and> inv a' \<and> nin a' = nin a \<and>
     nout a' = nout a \<and> inm a' = inm a \<and> outm a' = outm a \<and>
     (\<forall>k l. req a' k l \<longleftrightarrow> req a k l \<or> (k, l) \<in> (\<lambda>(i, j, r). (i, j)) ` set rs)"
  using assms
proof (induction rs arbitrary: a)
  case (Cons r rs)
  obtain i j l p q where r: "r = (i, j, l, p, q)" by (cases r) auto
  have ok: "0 \<le> i" "i < nin a" "0 \<le> j" "j < nout a" "0 \<le> l" "\<not> req a i j"
    using Cons.prems(3) [of i j l p q] r by auto
  obtain a1 where a1: "add i j l p q a = Inr a1" "inv a1" "nin a1 = nin a" "nout a1 = nout a"
      "inm a1 = inm a" "outm a1 = outm a" "\<And>k l. req a1 k l \<longleftrightarrow> req a k l \<or> k = i \<and> l = j"
    using add_ok [OF Cons.prems(1) ok, of p q] by blast
  have "\<exists>a'. for_each (\<lambda>(i, j, l, p, q). add i j l p q) rs a1 = Inr a' \<and> inv a' \<and> nin a' = nin a1 \<and>
     nout a' = nout a1 \<and> inm a' = inm a1 \<and> outm a' = outm a1 \<and>
     (\<forall>k l. req a' k l \<longleftrightarrow> req a1 k l \<or> (k, l) \<in> (\<lambda>(i, j, r). (i, j)) ` set rs)"
  proof (rule Cons.IH [OF a1(2)])
    show "distinct (map (\<lambda>(i, j, r). (i, j)) rs)" using Cons.prems(2) by simp
    fix i' j' l' p' q' assume e: "(i', j', l', p', q') \<in> set rs"
    have "(i', j') \<noteq> (i, j)" using Cons.prems(2) e r by force
    then show "0 \<le> i' \<and> i' < nin a1 \<and> 0 \<le> j' \<and> j' < nout a1 \<and> 0 \<le> l' \<and> \<not> req a1 i' j'"
      using Cons.prems(3) [of i' j' l' p' q'] e a1 by auto
  qed
  then show ?case using a1 by (auto simp: r)
qed simp

lemma cycle_adds:
  assumes "settled a" "good_pairs (nin a) (nout a) rs"
  shows "\<exists>a1. for_each (\<lambda>(i, j, l, p, q). add i j l p q) rs (clear a) = Inr a1 \<and> inv a1 \<and>
     nin a1 = nin a \<and> nout a1 = nout a \<and> inm a1 = unmatched (nin a) \<and> outm a1 = unmatched (nout a) \<and>
     req a1 = req_pairs rs"
proof -
  have c: "inv (clear a)" "nin (clear a) = nin a" "nout (clear a) = nout a"
    "inm (clear a) = unmatched (nin a)" "outm (clear a) = unmatched (nout a)" "\<And>i j. \<not> req (clear a) i j"
    using clear_ok [OF assms(1)] by auto
  have d: "distinct (map (\<lambda>(i, j, r). (i, j)) rs)" using assms(2) by (simp add: good_pairs_def)
  obtain a1 where a1: "for_each (\<lambda>(i, j, l, p, q). add i j l p q) rs (clear a) = Inr a1" "inv a1"
      "nin a1 = nin a" "nout a1 = nout a" "inm a1 = unmatched (nin a)" "outm a1 = unmatched (nout a)"
      and R: "\<forall>k l. req a1 k l \<longleftrightarrow> (k, l) \<in> (\<lambda>(i, j, r). (i, j)) ` set rs"
    using adds_ok [OF c(1) d] assms(2) c unfolding good_pairs_def by fastforce
  have "req a1 = req_pairs rs" using R by (simp add: fun_eq_iff req_pairs_def)
  with a1 show ?thesis by blast
qed

lemma cycle_ok:
  assumes "settled a" "good_pairs (nin a) (nout a) rs"
  shows "\<exists>a'. alloc_cycle add allocate clear rs a = Inr a' \<and> settled a' \<and> nin a' = nin a \<and> nout a' = nout a \<and>
     matching (nin a) (nout a) (req_pairs rs) (inm a') (outm a')"
proof -
  from cycle_adds [OF assms] obtain a1 where
    "for_each (\<lambda>(i, j, l, p, q). add i j l p q) rs (clear a) = Inr a1" "inv a1" "nin a1 = nin a"
    "nout a1 = nout a" "inm a1 = unmatched (nin a)" "outm a1 = unmatched (nout a)" "req a1 = req_pairs rs"
    by blast
  then show ?thesis using allocate_ok [of a1] by (auto simp: alloc_cycle_def)
qed

end

text \<open>
  An allocator whose matching is maximal under a condition \<open>enough\<close> on its configuration: no
  request is left with both its ports free.
\<close>

locale maximal_allocator = allocator_contract +
  fixes enough :: "'a \<Rightarrow> bool"
  assumes enough_clear: "enough a \<Longrightarrow> enough (clear a)"
    and enough_add: "enough a \<Longrightarrow> add i j label ip op a = Inr a' \<Longrightarrow> enough a'"
    and allocate_maximal: "inv a \<Longrightarrow> enough a \<Longrightarrow> inm a = unmatched (nin a) \<Longrightarrow> outm a = unmatched (nout a) \<Longrightarrow>
      allocate a = Inr a' \<Longrightarrow> maximal (req a) (inm a') (outm a')"
begin

lemma cycle_maximal:
  assumes "settled a" "good_pairs (nin a) (nout a) rs" "enough a"
    and "alloc_cycle add allocate clear rs a = Inr a'"
  shows "maximal (req_pairs rs) (inm a') (outm a')"
proof -
  from cycle_adds [OF assms(1,2)] obtain a1 where
    a1: "for_each (\<lambda>(i, j, l, p, q). add i j l p q) rs (clear a) = Inr a1" "inv a1" "nin a1 = nin a"
      "nout a1 = nout a" "inm a1 = unmatched (nin a)" "outm a1 = unmatched (nout a)" "req a1 = req_pairs rs"
    by blast
  have "enough a1"
    by (rule for_each_post [OF a1(1)]) (use assms(3) enough_clear enough_add in auto)
  moreover have "allocate a1 = Inr a'" using assms(4) a1(1) by (simp add: alloc_cycle_def)
  ultimately show ?thesis using allocate_maximal [OF a1(2)] a1 by simp
qed

end

section \<open>The base class\<close>

definition al_ok :: "'a allocator_scheme \<Rightarrow> bool" where
  "al_ok a \<longleftrightarrow>
     0 \<le> al_inputs a \<and> 0 \<le> al_outputs a \<and>
     vlen (al_inmatch a) = al_inputs a \<and> vlen (al_outmatch a) = al_outputs a \<and>
     (\<not> al_dirty a \<longrightarrow> al_inmatch a = unmatched (al_inputs a) \<and> al_outmatch a = unmatched (al_outputs a))"

lemma al_new: "0 \<le> n \<Longrightarrow> 0 \<le> m \<Longrightarrow> al_ok (new_Allocator n m)"
  by (simp add: al_ok_def new_Allocator_def)

lemma al_add:
  "0 \<le> i \<Longrightarrow> i < al_inputs a \<Longrightarrow> 0 \<le> j \<Longrightarrow> j < al_outputs a \<Longrightarrow> 0 \<le> label \<Longrightarrow>
     Allocator_AddRequest i j label a = Inr (a\<lparr>al_dirty := True\<rparr>)"
  by (simp add: Allocator_AddRequest_def)

lemma al_assigned:
  "al_ok a \<Longrightarrow> 0 \<le> i \<Longrightarrow> i < al_inputs a \<Longrightarrow> OutputAssigned i a = Inr (vat (al_inmatch a) i)"
  "al_ok a \<Longrightarrow> 0 \<le> j \<Longrightarrow> j < al_outputs a \<Longrightarrow> InputAssigned j a = Inr (vat (al_outmatch a) j)"
  by (simp_all add: OutputAssigned_def InputAssigned_def al_ok_def)

lemma al_clear:
  "al_ok a \<Longrightarrow> al_inmatch (Allocator_Clear a) = unmatched (al_inputs a)"
  "al_ok a \<Longrightarrow> al_outmatch (Allocator_Clear a) = unmatched (al_outputs a)"
  "al_inputs (Allocator_Clear a) = al_inputs a" "al_outputs (Allocator_Clear a) = al_outputs a"
  "al_ok a \<Longrightarrow> al_ok (Allocator_Clear a)"
  by (auto simp: Allocator_Clear_def al_ok_def)

text \<open>The matching an \<^verbatim>\<open>Allocate\<close> stores keeps the base-class invariant.\<close>

lemma al_matched:
  assumes "al_ok a" "matching (al_inputs a) (al_outputs a) R im om" "\<not> al_dirty a \<Longrightarrow> \<forall>i j. \<not> R i j"
  shows "al_ok (a\<lparr>al_inmatch := im, al_outmatch := om\<rparr>)"
proof -
  have len: "vlen im = al_inputs a" "vlen om = al_outputs a" using assms(2) by (auto simp: matching_def)
  have "im = unmatched (al_inputs a) \<and> om = unmatched (al_outputs a)" if "\<not> al_dirty a"
    using matching_no_requests [OF assms(2)] assms(3) [OF that] by blast
  with assms(1) len show ?thesis by (simp add: al_ok_def)
qed

section \<open>Dense allocators\<close>

definition dn_req :: "'a dense_scheme \<Rightarrow> int \<Rightarrow> int \<Rightarrow> bool" where
  "dn_req a i j \<longleftrightarrow>
     0 \<le> i \<and> i < al_inputs a \<and> 0 \<le> j \<and> j < al_outputs a \<and> rq_label (dn_get a i j) \<ge> 0"

definition dn_ok :: "'a dense_scheme \<Rightarrow> bool" where
  "dn_ok a \<longleftrightarrow>
     al_ok a \<and> vlen (dn_request a) = al_inputs a \<and>
     (\<forall>r \<in> set (dn_request a). vlen r = al_outputs a \<and> (\<forall>q \<in> set r. rq_label q \<ge> - 1)) \<and>
     (\<not> al_dirty a \<longrightarrow> (\<forall>i j. \<not> dn_req a i j))"

lemma dn_row:
  "dn_ok a \<Longrightarrow> 0 \<le> i \<Longrightarrow> i < al_inputs a \<Longrightarrow> vlen (vat (dn_request a) i) = al_outputs a"
  using ball_vat [of "dn_request a" "\<lambda>r. vlen r = al_outputs a" i] by (simp add: dn_ok_def)

lemma dn_label:
  assumes "dn_ok a" "0 \<le> i" "i < al_inputs a" "0 \<le> j" "j < al_outputs a"
  shows "rq_label (dn_get a i j) \<ge> - 1"
  using assms dn_row [OF assms(1-3)] vat_in_set [of i "dn_request a"] vat_in_set [of j "vat (dn_request a) i"]
  unfolding dn_ok_def dn_get_def by simp

lemma dn_get_put:
  assumes "dn_ok a" "0 \<le> i" "i < al_inputs a" "0 \<le> j" "j < al_outputs a" "0 \<le> k" "0 \<le> l"
  shows "dn_get (dn_put i j r a) k l = (if k = i \<and> l = j then r else dn_get a k l)"
  using assms dn_row [OF assms(1-3)] by (auto simp: dn_get_def dn_put_def dn_ok_def)

lemma dn_put_ok:
  assumes "dn_ok a" "0 \<le> i" "i < al_inputs a" "0 \<le> j" "j < al_outputs a" "rq_label r \<ge> - 1" "al_dirty a"
  shows "dn_ok (dn_put i j r a)"
proof -
  let ?P = "\<lambda>q. vlen q = al_outputs a \<and> (\<forall>x \<in> set q. rq_label x \<ge> - 1)"
  have all: "\<forall>q \<in> set (dn_request a). ?P q" and len: "i < vlen (dn_request a)"
    using assms by (simp_all add: dn_ok_def)
  have "?P (vupd (vat (dn_request a) i) j r)"
    using ball_vat [OF all assms(2) len] ball_vupd [of "vat (dn_request a) i" "\<lambda>x. rq_label x \<ge> - 1" r j] assms(6)
    by simp
  with all have "\<forall>q \<in> set (vupd (dn_request a) i (vupd (vat (dn_request a) i) j r)). ?P q"
    by (rule ball_vupd)
  then show ?thesis using assms by (simp add: dn_ok_def dn_put_def al_ok_def)
qed

lemma dn_frame [simp]:
  "dn_get (a\<lparr>al_dirty := b\<rparr>) = dn_get a" "dn_get (a\<lparr>al_inmatch := im\<rparr>) = dn_get a"
  "dn_get (a\<lparr>al_outmatch := om\<rparr>) = dn_get a"
  "al_inputs (dn_put i j r a) = al_inputs a" "al_outputs (dn_put i j r a) = al_outputs a"
  "al_inmatch (dn_put i j r a) = al_inmatch a" "al_outmatch (dn_put i j r a) = al_outmatch a"
  by (simp_all add: dn_get_def dn_put_def fun_eq_iff)

lemma dn_new: "0 \<le> n \<Longrightarrow> 0 \<le> m \<Longrightarrow> dn_ok (dense.extend (new_DenseAllocator n m) x)"
  using al_new [of n m]
  by (auto simp: dn_ok_def new_DenseAllocator_def al_ok_def new_Allocator_def allocator.defs dense.defs vlen_def
      no_request_def dn_req_def dn_get_def)

lemma dn_dirty: "dn_ok a \<Longrightarrow> dn_ok (a\<lparr>al_dirty := True\<rparr>)"
  by (simp add: dn_ok_def al_ok_def)

lemma dn_add:
  assumes "dn_ok a" "0 \<le> i" "i < al_inputs a" "0 \<le> j" "j < al_outputs a" "0 \<le> label" "\<not> dn_req a i j"
  shows "\<exists>a'. Dense_AddRequest i j label ip op a = Inr a' \<and> dn_ok a' \<and> al_inputs a' = al_inputs a \<and>
     al_outputs a' = al_outputs a \<and> al_inmatch a' = al_inmatch a \<and> al_outmatch a' = al_outmatch a \<and>
     (\<forall>k l. dn_req a' k l \<longleftrightarrow> dn_req a k l \<or> k = i \<and> l = j)"
proof -
  let ?b = "a\<lparr>al_dirty := True\<rparr>"
  let ?r = "(dn_get a i j)\<lparr>rq_label := label, rq_in_pri := ip, rq_out_pri := op\<rparr>"
  have b: "dn_ok ?b" by (rule dn_dirty [OF assms(1)])
  have "rq_label (dn_get a i j) = - 1"
    using dn_label [OF assms(1-5)] assms(2-5,7) by (auto simp: dn_req_def)
  then have eq: "Dense_AddRequest i j label ip op a = Inr (dn_put i j ?r ?b)"
    using assms(2-6) by (simp add: Dense_AddRequest_def al_add)
  have ok: "dn_ok (dn_put i j ?r ?b)" using b assms(2-6) by (intro dn_put_ok) auto
  have "dn_req (dn_put i j ?r ?b) k l \<longleftrightarrow> dn_req a k l \<or> k = i \<and> l = j" for k l
    using assms(2-6) dn_get_put [OF b, of i j k l ?r] by (auto simp: dn_req_def)
  with eq ok show ?thesis by (intro exI [of _ "dn_put i j ?r ?b"]) simp
qed

lemma dn_clear:
  assumes "dn_ok a"
  shows "dn_ok (Dense_Clear a)" "al_inputs (Dense_Clear a) = al_inputs a"
    "al_outputs (Dense_Clear a) = al_outputs a" "al_inmatch (Dense_Clear a) = unmatched (al_inputs a)"
    "al_outmatch (Dense_Clear a) = unmatched (al_outputs a)" "\<not> dn_req (Dense_Clear a) i j"
proof -
  let ?a = "a\<lparr>dn_request := map (map (\<lambda>r. r\<lparr>rq_label := - 1\<rparr>)) (dn_request a)\<rparr>"
  have al: "al_ok ?a" using assms by (simp add: dn_ok_def al_ok_def)
  note cl = al_clear [of ?a, folded Dense_Clear_def, simplified]
  show "al_inputs (Dense_Clear a) = al_inputs a" "al_outputs (Dense_Clear a) = al_outputs a"
    "al_inmatch (Dense_Clear a) = unmatched (al_inputs a)"
    "al_outmatch (Dense_Clear a) = unmatched (al_outputs a)"
    using cl al by simp_all
  have rq: "dn_request (Dense_Clear a) = map (map (\<lambda>r. r\<lparr>rq_label := - 1\<rparr>)) (dn_request a)"
    by (simp add: Dense_Clear_def Allocator_Clear_def)
  show none: "\<not> dn_req (Dense_Clear a) i j" for i j
    using assms dn_row [OF assms, of i] cl by (auto simp: dn_req_def dn_get_def rq dn_ok_def)
  show "dn_ok (Dense_Clear a)"
    using assms cl al none by (auto simp: dn_ok_def rq)
qed

lemma dn_matched:
  assumes "dn_ok a" "matching (al_inputs a) (al_outputs a) (dn_req a) im om"
  shows "dn_ok (a\<lparr>al_inmatch := im, al_outmatch := om\<rparr>)"
  using assms al_matched [of a "dn_req a" im om] by (simp add: dn_ok_def dn_req_def)

text \<open>The request counts of a dense allocator.\<close>

lemma fold_count: "fold (\<lambda>x n. if P x then n + 1 else n) xs (k::int) = k + int (length (filter P xs))"
  by (induction xs arbitrary: k) auto

lemma dense_counts:
  "Dense_NumInputRequests i a = int (card {j. 0 \<le> j \<and> j < al_outputs a \<and> rq_label (dn_get a i j) \<ge> 0})"
  "Dense_NumOutputRequests j a = int (card {i. 0 \<le> i \<and> i < al_inputs a \<and> rq_label (dn_get a i j) \<ge> 0})"
proof -
  have len: "length (filter P (range0 n)) = card {j. 0 \<le> j \<and> j < n \<and> P j}" for P and n :: int
  proof -
    have "length (filter P (range0 n)) = card (set (filter P (range0 n)))"
      by (rule distinct_card [symmetric]) simp
    also have "set (filter P (range0 n)) = {j. 0 \<le> j \<and> j < n \<and> P j}" by auto
    finally show ?thesis .
  qed
  show "Dense_NumInputRequests i a = int (card {j. 0 \<le> j \<and> j < al_outputs a \<and> rq_label (dn_get a i j) \<ge> 0})"
    "Dense_NumOutputRequests j a = int (card {i. 0 \<le> i \<and> i < al_inputs a \<and> rq_label (dn_get a i j) \<ge> 0})"
    by (simp_all add: Dense_NumInputRequests_def Dense_NumOutputRequests_def fold_count len)
qed

section \<open>Sparse allocators\<close>

definition sp_in :: "'a sparse_scheme \<Rightarrow> int \<Rightarrow> int \<Rightarrow> sRequest option" where
  "sp_in a i = map_of (vat (sp_in_req a) i)"

definition sp_out :: "'a sparse_scheme \<Rightarrow> int \<Rightarrow> int \<Rightarrow> sRequest option" where
  "sp_out a j = map_of (vat (sp_out_req a) j)"

definition sp_req :: "'a sparse_scheme \<Rightarrow> int \<Rightarrow> int \<Rightarrow> bool" where
  "sp_req a i j \<longleftrightarrow> 0 \<le> i \<and> i < al_inputs a \<and> sp_in a i j \<noteq> None"

text \<open>The two views of the requests mirror each other and the occupancy sets are exact.\<close>

definition sp_mirror :: "int \<Rightarrow> int \<Rightarrow> (int \<Rightarrow> int \<Rightarrow> sRequest option) \<Rightarrow> (int \<Rightarrow> int \<Rightarrow> sRequest option) \<Rightarrow> bool" where
  "sp_mirror n m f g \<longleftrightarrow> (\<forall>i j r. 0 \<le> i \<and> i < n \<and> f i j = Some r \<longrightarrow>
     rq_port r = j \<and> 0 \<le> j \<and> j < m \<and> g j i = Some (r\<lparr>rq_port := i\<rparr>))"

definition occ_ok :: "int \<Rightarrow> 'v omap list \<Rightarrow> int list \<Rightarrow> bool" where
  "occ_ok n rq occ \<longleftrightarrow> os_ok occ \<and> vlen rq = n \<and> (\<forall>m \<in> set rq. om_ok m) \<and>
     set occ = {i. 0 \<le> i \<and> i < n \<and> vat rq i \<noteq> []}"

definition sp_ok :: "'a sparse_scheme \<Rightarrow> bool" where
  "sp_ok a \<longleftrightarrow>
     al_ok a \<and> occ_ok (al_inputs a) (sp_in_req a) (sp_in_occ a) \<and>
     occ_ok (al_outputs a) (sp_out_req a) (sp_out_occ a) \<and>
     sp_mirror (al_inputs a) (al_outputs a) (sp_in a) (sp_out a) \<and>
     sp_mirror (al_outputs a) (al_inputs a) (sp_out a) (sp_in a) \<and>
     (\<not> al_dirty a \<longrightarrow> (\<forall>i j. \<not> sp_req a i j))"

lemma sp_req_out:
  "sp_ok a \<Longrightarrow> sp_req a i j \<longleftrightarrow> 0 \<le> j \<and> j < al_outputs a \<and> sp_out a j i \<noteq> None"
  unfolding sp_ok_def sp_mirror_def sp_req_def by blast

lemma sp_req_range: "sp_ok a \<Longrightarrow> sp_req a i j \<Longrightarrow> 0 \<le> i \<and> i < al_inputs a \<and> 0 \<le> j \<and> j < al_outputs a"
  using sp_req_out [of a i j] unfolding sp_req_def by blast

lemma occ_put:
  assumes "occ_ok n rq occ" "0 \<le> i" "i < n"
  shows "occ_ok n (vupd rq i (om_put k v (vat rq i))) (if vat rq i = [] then os_put i occ else occ)"
proof -
  have ok: "om_ok (vat rq i)" using assms ball_vat [of rq om_ok i] by (simp add: occ_ok_def)
  have "\<forall>m \<in> set (vupd rq i (om_put k v (vat rq i))). om_ok m"
    using assms ok by (intro ball_vupd) (simp_all add: occ_ok_def)
  then show ?thesis using assms by (auto simp: occ_ok_def split: if_splits)
qed

lemma sp_mirror_empty: "(\<And>i. 0 \<le> i \<Longrightarrow> i < n \<Longrightarrow> f i = Map.empty) \<Longrightarrow> sp_mirror n m f g"
  by (auto simp: sp_mirror_def)

lemma sp_mirror_add:
  assumes M: "sp_mirror n m f g" and ij: "0 \<le> i" "i < n" "0 \<le> j" "j < m" "rq_port r = j"
    and f': "\<And>k. 0 \<le> k \<Longrightarrow> f' k = (if k = i then (f i)(j \<mapsto> r) else f k)"
    and g': "\<And>k. 0 \<le> k \<Longrightarrow> g' k = (if k = j then (g j)(i \<mapsto> r\<lparr>rq_port := i\<rparr>) else g k)"
  shows "sp_mirror n m f' g'"
  unfolding sp_mirror_def
proof (intro allI impI)
  fix k l q assume k: "0 \<le> k \<and> k < n \<and> f' k l = Some q"
  show "rq_port q = l \<and> 0 \<le> l \<and> l < m \<and> g' l k = Some (q\<lparr>rq_port := k\<rparr>)"
  proof (cases "k = i \<and> l = j")
    case True
    with k ij show ?thesis by (simp add: f' g')
  next
    case False
    with k f' [of k] have "f k l = Some q" by (simp split: if_splits)
    with M k have "rq_port q = l \<and> 0 \<le> l \<and> l < m \<and> g l k = Some (q\<lparr>rq_port := k\<rparr>)"
      unfolding sp_mirror_def by blast
    with False g' [of l] show ?thesis by auto
  qed
qed

lemma sp_new: "0 \<le> n \<Longrightarrow> 0 \<le> m \<Longrightarrow> sp_ok (sparse.extend (new_SparseAllocator n m) x)"
  using al_new [of n m]
  by (auto simp: sp_ok_def new_SparseAllocator_def al_ok_def new_Allocator_def allocator.defs sparse.defs vlen_def
      occ_ok_def sp_mirror_def sp_req_def sp_in_def sp_out_def)

lemma sp_add:
  assumes inv: "sp_ok a" and ij: "0 \<le> i" "i < al_inputs a" "0 \<le> j" "j < al_outputs a" "0 \<le> label"
    and new: "\<not> sp_req a i j"
  shows "\<exists>a'. Sparse_AddRequest i j label ip op a = Inr a' \<and> sp_ok a' \<and> al_inputs a' = al_inputs a \<and>
     al_outputs a' = al_outputs a \<and> al_inmatch a' = al_inmatch a \<and> al_outmatch a' = al_outmatch a \<and>
     (\<forall>k l. sp_req a' k l \<longleftrightarrow> sp_req a k l \<or> k = i \<and> l = j)"
proof -
  define r where "r = \<lparr>rq_port = j, rq_label = label, rq_in_pri = ip, rq_out_pri = op\<rparr>"
  define a' where "a' = a\<lparr>al_dirty := True,
     sp_in_occ := if vat (sp_in_req a) i = [] then os_put i (sp_in_occ a) else sp_in_occ a,
     sp_out_occ := if vat (sp_out_req a) j = [] then os_put j (sp_out_occ a) else sp_out_occ a,
     sp_in_req := vupd (sp_in_req a) i (om_put j r (vat (sp_in_req a) i)),
     sp_out_req := vupd (sp_out_req a) j (om_put i (r\<lparr>rq_port := i\<rparr>) (vat (sp_out_req a) j))\<rparr>"
  have none: "map_of (vat (sp_in_req a) i) j = None" "map_of (vat (sp_out_req a) j) i = None"
    using new ij sp_req_out [OF inv, of i j] by (simp_all add: sp_req_def sp_in_def sp_out_def)
  then have eq: "Sparse_AddRequest i j label ip op a = Inr a'"
    using ij by (simp add: Sparse_AddRequest_def al_add Let_def a'_def r_def)
  have len: "vlen (sp_in_req a) = al_inputs a" "vlen (sp_out_req a) = al_outputs a"
    using inv by (auto simp: sp_ok_def occ_ok_def)
  have in': "sp_in a' k = (if k = i then (sp_in a i)(j \<mapsto> r) else sp_in a k)" if "0 \<le> k" for k
    using ij len that by (auto simp: sp_in_def a'_def)
  have out': "sp_out a' k = (if k = j then (sp_out a j)(i \<mapsto> r\<lparr>rq_port := i\<rparr>) else sp_out a k)" if "0 \<le> k" for k
    using ij len that by (auto simp: sp_out_def a'_def)
  have mir: "sp_mirror (al_inputs a) (al_outputs a) (sp_in a') (sp_out a')"
    "sp_mirror (al_outputs a) (al_inputs a) (sp_out a') (sp_in a')"
    using inv ij in' out'
    by (auto simp: sp_ok_def r_def intro: sp_mirror_add [of _ _ "sp_in a" "sp_out a" i j r]
        sp_mirror_add [of _ _ "sp_out a" "sp_in a" j i "r\<lparr>rq_port := i\<rparr>"])
  have occ: "occ_ok (al_inputs a) (sp_in_req a') (sp_in_occ a')"
    "occ_ok (al_outputs a) (sp_out_req a') (sp_out_occ a')"
    using inv ij occ_put [of "al_inputs a" "sp_in_req a" "sp_in_occ a" i j r]
      occ_put [of "al_outputs a" "sp_out_req a" "sp_out_occ a" j i "r\<lparr>rq_port := i\<rparr>"]
    by (simp_all add: sp_ok_def a'_def)
  have "al_ok a'" using inv by (simp add: sp_ok_def al_ok_def a'_def)
  moreover have "al_inputs a' = al_inputs a" "al_outputs a' = al_outputs a" "al_dirty a'"
    by (simp_all add: a'_def)
  ultimately have "sp_ok a'" using mir occ by (simp add: sp_ok_def)
  moreover have sz: "al_inputs a' = al_inputs a" "al_outputs a' = al_outputs a" "al_inmatch a' = al_inmatch a"
    "al_outmatch a' = al_outmatch a" by (simp_all add: a'_def)
  moreover have "sp_req a' k l \<longleftrightarrow> sp_req a k l \<or> k = i \<and> l = j" for k l
    using ij in' [of k] by (cases "k = i") (auto simp: sp_req_def sz)
  ultimately show ?thesis using eq by blast
qed

lemma sp_clear:
  assumes "sp_ok a"
  shows "sp_ok (Sparse_Clear a)" "al_inputs (Sparse_Clear a) = al_inputs a"
    "al_outputs (Sparse_Clear a) = al_outputs a" "al_inmatch (Sparse_Clear a) = unmatched (al_inputs a)"
    "al_outmatch (Sparse_Clear a) = unmatched (al_outputs a)" "\<not> sp_req (Sparse_Clear a) i j"
proof -
  let ?a = "a\<lparr>sp_in_req := map (\<lambda>_. []) (sp_in_req a), sp_out_req := map (\<lambda>_. []) (sp_out_req a),
        sp_in_occ := [], sp_out_occ := []\<rparr>"
  have al: "al_ok ?a" using assms by (simp add: sp_ok_def al_ok_def)
  note cl = al_clear [of ?a, folded Sparse_Clear_def, simplified]
  show sz: "al_inputs (Sparse_Clear a) = al_inputs a" "al_outputs (Sparse_Clear a) = al_outputs a"
    "al_inmatch (Sparse_Clear a) = unmatched (al_inputs a)"
    "al_outmatch (Sparse_Clear a) = unmatched (al_outputs a)"
    using cl al by simp_all
  have rq: "sp_in_req (Sparse_Clear a) = map (\<lambda>_. []) (sp_in_req a)" "sp_in_occ (Sparse_Clear a) = []"
    "sp_out_req (Sparse_Clear a) = map (\<lambda>_. []) (sp_out_req a)" "sp_out_occ (Sparse_Clear a) = []"
    by (simp_all add: Sparse_Clear_def Allocator_Clear_def)
  have len: "vlen (sp_in_req a) = al_inputs a" "vlen (sp_out_req a) = al_outputs a"
    using assms by (auto simp: sp_ok_def occ_ok_def)
  have none: "0 \<le> i \<Longrightarrow> i < al_inputs a \<Longrightarrow> sp_in (Sparse_Clear a) i = Map.empty"
    "0 \<le> j \<Longrightarrow> j < al_outputs a \<Longrightarrow> sp_out (Sparse_Clear a) j = Map.empty" for i j
    by (simp_all add: sp_in_def sp_out_def rq len)
  show no_req: "\<not> sp_req (Sparse_Clear a) i j" for i j
    using none(1) [of i] by (auto simp: sp_req_def sz)
  have "occ_ok (al_inputs a) (sp_in_req (Sparse_Clear a)) (sp_in_occ (Sparse_Clear a))"
    "occ_ok (al_outputs a) (sp_out_req (Sparse_Clear a)) (sp_out_occ (Sparse_Clear a))"
    using len by (auto simp: occ_ok_def rq)
  then show "sp_ok (Sparse_Clear a)"
    using cl al none no_req by (simp add: sp_ok_def sp_mirror_empty)
qed

lemma sp_frame [simp]:
  "sp_in (a\<lparr>al_inmatch := im\<rparr>) = sp_in a" "sp_in (a\<lparr>al_outmatch := om\<rparr>) = sp_in a"
  "sp_out (a\<lparr>al_inmatch := im\<rparr>) = sp_out a" "sp_out (a\<lparr>al_outmatch := om\<rparr>) = sp_out a"
  "sp_req (a\<lparr>al_inmatch := im\<rparr>) = sp_req a" "sp_req (a\<lparr>al_outmatch := om\<rparr>) = sp_req a"
  by (simp_all add: sp_in_def sp_out_def sp_req_def fun_eq_iff)

lemma sp_matched:
  assumes "sp_ok a" "matching (al_inputs a) (al_outputs a) (sp_req a) im om"
  shows "sp_ok (a\<lparr>al_inmatch := im, al_outmatch := om\<rparr>)"
  using assms al_matched [of a "sp_req a" im om]
  by (simp add: sp_ok_def)

text \<open>The request maps are walked completely, in whatever order the pointer dictates.\<close>

lemma walk_ports:
  assumes "om_ok m" "m \<noteq> []" "\<And>k r. map_of m k = Some r \<Longrightarrow> rq_port r = k"
  shows "req_port ` set (rr_order req_port off m) = dom (map_of m)"
proof -
  have port: "req_port e = fst e" if "e \<in> set m" for e
    using that assms(3) om_in_set_iff [OF assms(1), of "fst e" "snd e"] by (simp add: req_port_def)
  then have eq: "map req_port m = map fst m" by simp
  have "sorted (map req_port m)" using assms(1) unfolding om_ok_def strict_sorted_iff eq by blast
  then have "req_port ` set (rr_order req_port off m) = req_port ` set m"
    using assms(2) by (simp add: set_rr_order)
  also have "\<dots> = fst ` set m" using port by force
  finally show ?thesis by (simp add: dom_map_of_conv_image_fst)
qed

lemma sp_out_ports:
  assumes "sp_ok a" "0 \<le> j" "j < al_outputs a" "vat (sp_out_req a) j \<noteq> []"
  shows "req_port ` set (rr_order req_port off (vat (sp_out_req a) j)) = {i. sp_req a i j}"
proof -
  have "om_ok (vat (sp_out_req a) j)"
    using assms ball_vat [of "sp_out_req a" om_ok j] by (auto simp: sp_ok_def occ_ok_def)
  moreover have "rq_port r = k" if "map_of (vat (sp_out_req a) j) k = Some r" for k r
    using that assms(1-3) unfolding sp_ok_def sp_mirror_def sp_out_def by blast
  ultimately show ?thesis
    using assms(2-4) sp_req_out [OF assms(1)] by (subst walk_ports) (auto simp: sp_out_def)
qed

lemma sp_in_ports:
  assumes "sp_ok a" "0 \<le> i" "i < al_inputs a" "vat (sp_in_req a) i \<noteq> []"
  shows "req_port ` set (rr_order req_port off (vat (sp_in_req a) i)) = {j. sp_req a i j}"
proof -
  have "om_ok (vat (sp_in_req a) i)"
    using assms ball_vat [of "sp_in_req a" om_ok i] by (auto simp: sp_ok_def occ_ok_def)
  moreover have "rq_port r = k" if "map_of (vat (sp_in_req a) i) k = Some r" for k r
    using that assms(1-3) unfolding sp_ok_def sp_mirror_def sp_in_def by blast
  ultimately show ?thesis
    using assms(2-4) by (subst walk_ports) (auto simp: sp_in_def sp_req_def)
qed

lemma sp_no_ports:
  assumes "sp_ok a"
  shows "vat (sp_out_req a) j = [] \<Longrightarrow> \<not> sp_req a i j" "vat (sp_in_req a) i = [] \<Longrightarrow> \<not> sp_req a i j"
  using sp_req_out [OF assms, of i j] by (auto simp: sp_out_def sp_in_def sp_req_def)

text \<open>The search for the first port that satisfies \<open>P\<close> finds one exactly if a requester satisfies it.\<close>

lemma find_port:
  assumes "req_port ` set es = S"
  shows "(case List.find (\<lambda>e. P (req_port e)) es of
            None \<Rightarrow> \<forall>i \<in> S. \<not> P i | Some e \<Rightarrow> req_port e \<in> S \<and> P (req_port e))"
  using assms by (auto simp: find_None_iff find_Some_iff split: option.splits)

end
