(* ===== verification/Islip.thy ===== *)
theory Islip
  imports Allocator_Laws
begin

text \<open>
  \<^verbatim>\<open>iSLIP_Sparse\<close> (\<^verbatim>\<open>islip.cpp\<close>): the grant phase and the accept phase of an iteration, the
  iteration loop, and its correctness: every iteration extends a matching of the requests, and with
  as many iterations as there are ports on the smaller side the matching is maximal.
\<close>

section \<open>The algorithm\<close>

record islip = sparse +
  is_iter :: int
  is_gptrs :: "int list"
  is_aptrs :: "int list"

definition new_iSLIP :: "int \<Rightarrow> int \<Rightarrow> int \<Rightarrow> islip" where
  "new_iSLIP n m iters = sparse.extend (new_SparseAllocator n m)
     (islip.fields iters (replicate (nat m) 0) (replicate (nat n) 0))"

definition islip_grant :: "islip \<Rightarrow> int \<Rightarrow> int list \<Rightarrow> int list" where
  "islip_grant a output grants =
     (let rq = vat (sp_out_req a) output in
      if rq = [] \<or> vat (al_outmatch a) output \<noteq> - 1 then grants
      else
        let input_offset = vat (is_gptrs a) output in
        rr_walk req_port input_offset rq
          (\<lambda>p grants. if vat (al_inmatch a) (req_port p) = - 1 then (True, vupd grants output (req_port p))
                      else (False, grants))
          (rr_start req_port input_offset rq) False grants)"

definition islip_accept :: "int \<Rightarrow> int list \<Rightarrow> int \<Rightarrow> islip \<Rightarrow> islip" where
  "islip_accept iter grants input a =
     (let rq = vat (sp_in_req a) input in
      if rq = [] then a
      else
        let output_offset = vat (is_aptrs a) input in
        rr_walk req_port output_offset rq
          (\<lambda>p a. let output = req_port p in
             if vat grants output = input then
               let a = a\<lparr>al_inmatch := vupd (al_inmatch a) input output,
                         al_outmatch := vupd (al_outmatch a) output input\<rparr> in
               (True, if iter = 0
                      then a\<lparr>is_gptrs := vupd (is_gptrs a) output ((input + 1) smod al_inputs a),
                             is_aptrs := vupd (is_aptrs a) input ((output + 1) smod al_outputs a)\<rparr>
                      else a)
             else (False, a))
          (rr_start req_port output_offset rq) False a)"

definition islip_iteration :: "int \<Rightarrow> islip \<Rightarrow> islip" where
  "islip_iteration iter a =
     (let grants = fold (islip_grant a) (range0 (al_outputs a)) (unmatched (al_outputs a))
      in fold (islip_accept iter grants) (range0 (al_inputs a)) a)"

definition islip_Allocate :: "islip \<Rightarrow> islip" where
  "islip_Allocate a = fold islip_iteration (range0 (is_iter a)) a"

section \<open>Grants\<close>

definition is_ok :: "islip \<Rightarrow> bool" where
  "is_ok a \<longleftrightarrow> sp_ok a \<and> matching (al_inputs a) (al_outputs a) (sp_req a) (al_inmatch a) (al_outmatch a) \<and>
     vlen (is_gptrs a) = al_outputs a \<and> vlen (is_aptrs a) = al_inputs a \<and>
     (\<forall>g \<in> set (is_gptrs a). 0 \<le> g \<and> g < al_inputs a) \<and> (\<forall>g \<in> set (is_aptrs a). 0 \<le> g \<and> g < al_outputs a)"

lemma islip_grant_step:
  assumes "sp_ok a" "0 \<le> j" "j < al_outputs a" "vlen g = al_outputs a" "vat g j = - 1"
  shows "\<exists>v. islip_grant a j g = vupd g j v \<and> grant_ok (sp_req a) (al_inmatch a) (al_outmatch a) j v"
proof (cases "vat (sp_out_req a) j = [] \<or> vat (al_outmatch a) j \<noteq> - 1")
  case True
  then have "islip_grant a j g = g" by (auto simp: islip_grant_def Let_def)
  moreover have "vupd g j (- 1) = g"
    using assms by (intro vec_eqI) auto
  moreover have "grant_ok (sp_req a) (al_inmatch a) (al_outmatch a) j (- 1)"
    using True sp_no_ports(1) [OF assms(1)] by (auto simp: grant_ok_def)
  ultimately show ?thesis by metis
next
  case False
  let ?es = "rr_order req_port (vat (is_gptrs a) j) (vat (sp_out_req a) j)"
  let ?f = "List.find (\<lambda>e. vat (al_inmatch a) (req_port e) = - 1) ?es"
  have eq: "islip_grant a j g = (case ?f of None \<Rightarrow> g | Some e \<Rightarrow> vupd g j (req_port e))"
    using False by (simp add: islip_grant_def Let_def rr_walk_order until_break_find)
  have S: "req_port ` set ?es = {i. sp_req a i j}"
    using False assms by (intro sp_out_ports) auto
  note fp = find_port [OF S, of "\<lambda>i. vat (al_inmatch a) i = - 1"]
  show ?thesis
  proof (cases ?f)
    case None
    moreover have "vupd g j (- 1) = g" using assms by (intro vec_eqI) auto
    ultimately show ?thesis using eq fp by (intro exI [of _ "- 1"]) (simp add: grant_ok_def)
  next
    case (Some e)
    with fp have e: "sp_req a (req_port e) j" "vat (al_inmatch a) (req_port e) = - 1" by auto
    then have "req_port e \<noteq> - 1" using sp_req_range [OF assms(1) e(1)] by auto
    with Some e eq False show ?thesis by (intro exI [of _ "req_port e"]) (simp add: grant_ok_def)
  qed
qed

lemma islip_grants:
  assumes "sp_ok a" "0 \<le> j" "j < al_outputs a"
  shows "grant_ok (sp_req a) (al_inmatch a) (al_outmatch a) j
    (vat (fold (islip_grant a) (range0 (al_outputs a)) (unmatched (al_outputs a))) j)"
proof -
  have "0 \<le> al_outputs a" using assms by simp
  from grant_phase [OF this, of "\<lambda>_. True" "unmatched (al_outputs a)" "\<lambda>g. g" "islip_grant a"
      "grant_ok (sp_req a) (al_inmatch a) (al_outmatch a)"] islip_grant_step [OF assms(1)] assms(2,3)
  show ?thesis by simp
qed

section \<open>Accepts\<close>

text \<open>What one accept step does: nothing, or it matches the input to an output that granted it.\<close>

lemma islip_accept_step:
  assumes ok: "sp_ok a" and i: "0 \<le> i" "i < al_inputs a"
  shows "(islip_accept iter g i a = a \<and> (\<forall>j. sp_req a i j \<longrightarrow> vat g j \<noteq> i)) \<or>
    (\<exists>j gp ap. sp_req a i j \<and> vat g j = i \<and>
       islip_accept iter g i a = a\<lparr>al_inmatch := vupd (al_inmatch a) i j,
         al_outmatch := vupd (al_outmatch a) j i, is_gptrs := gp, is_aptrs := ap\<rparr> \<and>
       (gp = vupd (is_gptrs a) j ((i + 1) smod al_inputs a) \<or> gp = is_gptrs a) \<and>
       (ap = vupd (is_aptrs a) i ((j + 1) smod al_outputs a) \<or> ap = is_aptrs a))"
proof (cases "vat (sp_in_req a) i = []")
  case True
  then show ?thesis using sp_no_ports(2) [OF ok] by (auto simp: islip_accept_def)
next
  case False
  define acc where "acc p a =
      (let output = req_port p; a = a\<lparr>al_inmatch := vupd (al_inmatch a) i output,
                         al_outmatch := vupd (al_outmatch a) output i\<rparr> in
        if iter = 0 then a\<lparr>is_gptrs := vupd (is_gptrs a) output ((i + 1) smod al_inputs a),
                             is_aptrs := vupd (is_aptrs a) i ((output + 1) smod al_outputs a)\<rparr>
                      else a)" for p and a :: islip
  let ?es = "rr_order req_port (vat (is_aptrs a) i) (vat (sp_in_req a) i)"
  let ?f = "List.find (\<lambda>e. vat g (req_port e) = i) ?es"
  have body: "(\<lambda>p a. let output = req_port p in
             if vat g output = i then
               let a = a\<lparr>al_inmatch := vupd (al_inmatch a) i output,
                         al_outmatch := vupd (al_outmatch a) output i\<rparr> in
               (True, if iter = 0
                      then a\<lparr>is_gptrs := vupd (is_gptrs a) output ((i + 1) smod al_inputs a),
                             is_aptrs := vupd (is_aptrs a) i ((output + 1) smod al_outputs a)\<rparr>
                      else a)
             else (False, a)) = (\<lambda>p a. if vat g (req_port p) = i then (True, acc p a) else (False, a))"
    by (simp add: fun_eq_iff acc_def Let_def)
  have eq: "islip_accept iter g i a = (case ?f of None \<Rightarrow> a | Some e \<Rightarrow> acc e a)"
    using False unfolding islip_accept_def body
    by (simp only: Let_def rr_walk_order until_break_find if_False)
  have S: "req_port ` set ?es = {j. sp_req a i j}"
    using False assms by (intro sp_in_ports) auto
  note fp = find_port [OF S, of "\<lambda>j. vat g j = i"]
  show ?thesis
  proof (cases ?f)
    case None
    with eq fp show ?thesis by simp
  next
    case (Some e)
    with fp have "sp_req a i (req_port e)" "vat g (req_port e) = i" by auto
    moreover have "islip_accept iter g i a = acc e a" using eq Some by simp
    ultimately show ?thesis
      by (intro disjI2 exI [of _ "req_port e"] exI [of _ "is_gptrs (acc e a)"] exI [of _ "is_aptrs (acc e a)"])
        (simp add: acc_def Let_def)
  qed
qed

text \<open>An iteration changes the matching and the pointers only.\<close>

definition is_frame :: "islip \<Rightarrow> islip \<Rightarrow> bool" where
  "is_frame a0 a \<longleftrightarrow> (\<exists>im om gp ap.
     a = a0\<lparr>al_inmatch := im, al_outmatch := om, is_gptrs := gp, is_aptrs := ap\<rparr>)"

lemma sp_ptrs [simp]:
  "sp_in (a\<lparr>is_gptrs := gp\<rparr>) = sp_in a" "sp_in (a\<lparr>is_aptrs := ap\<rparr>) = sp_in a"
  "sp_out (a\<lparr>is_gptrs := gp\<rparr>) = sp_out a" "sp_out (a\<lparr>is_aptrs := ap\<rparr>) = sp_out a"
  "sp_req (a\<lparr>is_gptrs := gp\<rparr>) = sp_req a" "sp_req (a\<lparr>is_aptrs := ap\<rparr>) = sp_req a"
  by (simp_all add: sp_req_def sp_in_def sp_out_def fun_eq_iff)

lemma sp_ok_ptrs [simp]:
  "sp_ok (a\<lparr>is_gptrs := gp\<rparr>) = sp_ok a" "sp_ok (a\<lparr>is_aptrs := ap\<rparr>) = sp_ok a"
  by (simp_all add: sp_ok_def al_ok_def)

lemma is_frameD:
  assumes "is_frame a0 a"
  shows "al_inputs a = al_inputs a0" "al_outputs a = al_outputs a0" "al_dirty a = al_dirty a0"
    "sp_req a = sp_req a0" "is_iter a = is_iter a0"
  using assms by (auto simp: is_frame_def)

lemma is_frame_refl [simp]: "is_frame a a"
  unfolding is_frame_def by (rule exI [of _ "al_inmatch a"], rule exI [of _ "al_outmatch a"],
      rule exI [of _ "is_gptrs a"], rule exI [of _ "is_aptrs a"]) simp

lemma is_frame_upd:
  "is_frame a0 a \<Longrightarrow> is_frame a0 (a\<lparr>al_inmatch := im, al_outmatch := om, is_gptrs := gp, is_aptrs := ap\<rparr>)"
  by (fastforce simp: is_frame_def)

lemma is_frame_trans: "is_frame a b \<Longrightarrow> is_frame b c \<Longrightarrow> is_frame a c"
  by (fastforce simp: is_frame_def)

definition ptrs_ok :: "islip \<Rightarrow> bool" where
  "ptrs_ok a \<longleftrightarrow> vlen (is_gptrs a) = al_outputs a \<and> vlen (is_aptrs a) = al_inputs a \<and>
     (\<forall>g \<in> set (is_gptrs a). 0 \<le> g \<and> g < al_inputs a) \<and> (\<forall>g \<in> set (is_aptrs a). 0 \<le> g \<and> g < al_outputs a)"

lemma ptrs_ok_upd:
  assumes ok: "ptrs_ok a" and r: "0 \<le> i" "i < al_inputs a" "0 \<le> j" "j < al_outputs a"
    and gp: "gp = vupd (is_gptrs a) j ((i + 1) smod al_inputs a) \<or> gp = is_gptrs a"
    and ap: "ap = vupd (is_aptrs a) i ((j + 1) smod al_outputs a) \<or> ap = is_aptrs a"
  shows "ptrs_ok (a\<lparr>al_inmatch := im, al_outmatch := om, is_gptrs := gp, is_aptrs := ap\<rparr>)"
proof -
  have next_in: "0 \<le> (i + 1) smod al_inputs a \<and> (i + 1) smod al_inputs a < al_inputs a"
    and next_out: "0 \<le> (j + 1) smod al_outputs a \<and> (j + 1) smod al_outputs a < al_outputs a"
    using r by simp_all
  have ptrs: "vlen (is_gptrs a) = al_outputs a" "vlen (is_aptrs a) = al_inputs a"
    "\<forall>g \<in> set (is_gptrs a). 0 \<le> g \<and> g < al_inputs a" "\<forall>g \<in> set (is_aptrs a). 0 \<le> g \<and> g < al_outputs a"
    using ok unfolding ptrs_ok_def by blast+
  have "vlen gp = al_outputs a" "vlen ap = al_inputs a" using gp ap ptrs(1,2) by auto
  moreover have "\<forall>g \<in> set gp. 0 \<le> g \<and> g < al_inputs a"
    using gp ptrs(3) ball_vupd [OF ptrs(3) next_in, of j] by blast
  moreover have "\<forall>g \<in> set ap. 0 \<le> g \<and> g < al_outputs a"
    using ap ptrs(4) ball_vupd [OF ptrs(4) next_out, of i] by blast
  ultimately show ?thesis by (simp add: ptrs_ok_def)
qed

lemma is_ok_iff:
  "is_ok a \<longleftrightarrow> sp_ok a \<and> matching (al_inputs a) (al_outputs a) (sp_req a) (al_inmatch a) (al_outmatch a) \<and> ptrs_ok a"
  by (simp add: is_ok_def ptrs_ok_def)

lemma sp_ok_frame:
  assumes "sp_ok a0" "is_frame a0 a" "matching (al_inputs a0) (al_outputs a0) (sp_req a0) (al_inmatch a) (al_outmatch a)"
  shows "sp_ok a"
proof -
  obtain im om gp ap where a: "a = a0\<lparr>al_inmatch := im, al_outmatch := om, is_gptrs := gp, is_aptrs := ap\<rparr>"
    using assms(2) unfolding is_frame_def by blast
  then show ?thesis using sp_matched [of a0 im om] assms(1,3) by simp
qed

section \<open>Iterations\<close>

definition is_step :: "islip \<Rightarrow> islip \<Rightarrow> bool" where
  "is_step a a' \<longleftrightarrow> is_frame a a' \<and> is_ok a' \<and>
     grows (al_inputs a) (al_outputs a) (al_inmatch a) (al_outmatch a) (al_inmatch a') (al_outmatch a') \<and>
     (maximal (sp_req a) (al_inmatch a) (al_outmatch a) \<or>
      card (matched (al_inputs a) (al_inmatch a)) < card (matched (al_inputs a) (al_inmatch a')))"

lemma islip_iteration_ok:
  assumes ok: "is_ok a"
  shows "is_step a (islip_iteration iter a)"
proof -
  define g where "g = fold (islip_grant a) (range0 (al_outputs a)) (unmatched (al_outputs a))"
  let ?n = "al_inputs a" and ?m = "al_outputs a" and ?R = "sp_req a"
  have sp: "sp_ok a" using ok by (simp add: is_ok_def)
  let ?I = "\<lambda>b. is_frame a b \<and> ptrs_ok b"
  let ?a = "fold (islip_accept iter g) (range0 ?n) a"
  have "?I ?a \<and> matching ?n ?m ?R (al_inmatch ?a) (al_outmatch ?a) \<and>
     grows ?n ?m (al_inmatch a) (al_outmatch a) (al_inmatch ?a) (al_outmatch ?a) \<and>
     (maximal ?R (al_inmatch a) (al_outmatch a) \<or>
      card (matched ?n (al_inmatch a)) < card (matched ?n (al_inmatch ?a)))"
  proof (rule accept_phase [where I = ?I and m = ?m and R = ?R and g = g and IM = al_inmatch and OM = al_outmatch])
    fix i b assume I: "?I b" and M: "matching ?n ?m ?R (al_inmatch b) (al_outmatch b)" and i: "0 \<le> i" "i < ?n"
    note fr = is_frameD [OF conjunct1 [OF I]]
    have spb: "sp_ok b" by (rule sp_ok_frame [OF sp conjunct1 [OF I] M])
    from islip_accept_step [OF spb i(1), of iter g] i(2) fr consider
      (none) "islip_accept iter g i b = b" "\<forall>j. ?R i j \<longrightarrow> vat g j \<noteq> i" |
      (some) j gp ap where "?R i j" "vat g j = i"
         "islip_accept iter g i b = b\<lparr>al_inmatch := vupd (al_inmatch b) i j,
           al_outmatch := vupd (al_outmatch b) j i, is_gptrs := gp, is_aptrs := ap\<rparr>"
         "gp = vupd (is_gptrs b) j ((i + 1) smod al_inputs b) \<or> gp = is_gptrs b"
         "ap = vupd (is_aptrs b) i ((j + 1) smod al_outputs b) \<or> ap = is_aptrs b"
      by (simp, blast)
    then show "?I (islip_accept iter g i b) \<and> accepts ?R g i (al_inmatch b) (al_outmatch b)
        (al_inmatch (islip_accept iter g i b)) (al_outmatch (islip_accept iter g i b))"
    proof cases
      case none
      with I show ?thesis by (simp add: accepts_def)
    next
      case (some j gp ap)
      from sp_req_range [OF sp some(1)] fr have "i < al_inputs b" "0 \<le> j" "j < al_outputs b" by auto
      with I i some(1,2,4,5) is_frame_upd [of a b] ptrs_ok_upd [of b i j gp ap] show ?thesis
        unfolding some(3) accepts_def by auto
    qed
  qed (use ok sp_req_range [OF sp] islip_grants [OF sp] in \<open>auto simp: is_ok_iff g_def\<close>)
  moreover have "islip_iteration iter a = ?a" by (simp add: islip_iteration_def g_def Let_def)
  ultimately show ?thesis
    using sp_ok_frame [OF sp, of ?a] is_frameD [of a ?a] by (simp add: is_step_def is_ok_iff)
qed

definition is_at :: "islip \<Rightarrow> islip \<Rightarrow> bool" where
  "is_at a0 a \<longleftrightarrow> is_frame a0 a \<and> is_ok a"

lemma is_at_iteration: "is_at a0 a \<Longrightarrow> is_at a0 (islip_iteration iter a)"
  using islip_iteration_ok [of a iter] is_frame_trans unfolding is_at_def is_step_def by blast

lemma islip_Allocate_ok: "is_ok a \<Longrightarrow> is_at a (islip_Allocate a)"
  unfolding islip_Allocate_def
  by (rule fold_inv [where P = "is_at a"]) (simp_all add: is_at_iteration, simp add: is_at_def)

lemma islip_Allocate_maximal:
  assumes ok: "is_ok a" and iters: "min (al_inputs a) (al_outputs a) \<le> is_iter a"
  shows "maximal (sp_req a) (al_inmatch (islip_Allocate a)) (al_outmatch (islip_Allocate a))"
  unfolding islip_Allocate_def
proof (rule maximal_by_iteration [where I = "is_at a" and n = "al_inputs a" and m = "al_outputs a"])
  fix k b assume b: "is_at a b"
  then have fr: "al_inputs b = al_inputs a" "al_outputs b = al_outputs a" "sp_req b = sp_req a"
    using is_frameD [of a b] by (auto simp: is_at_def)
  have "is_step b (islip_iteration k b)" using b islip_iteration_ok by (simp add: is_at_def)
  with fr is_at_iteration [OF b]
  show "is_at a (islip_iteration k b) \<and>
      grows (al_inputs a) (al_outputs a) (al_inmatch b) (al_outmatch b)
        (al_inmatch (islip_iteration k b)) (al_outmatch (islip_iteration k b)) \<and>
      (maximal (sp_req a) (al_inmatch b) (al_outmatch b) \<or>
        card (matched (al_inputs a) (al_inmatch b)) < card (matched (al_inputs a) (al_inmatch (islip_iteration k b))))"
    unfolding is_step_def by simp
next
  fix b assume "is_at a b"
  then show "matching (al_inputs a) (al_outputs a) (sp_req a) (al_inmatch b) (al_outmatch b)"
    using is_frameD [of a b] by (auto simp: is_at_def is_ok_def)
next
  have "0 \<le> al_inputs a" "0 \<le> al_outputs a" using ok by (auto simp: is_ok_def sp_ok_def al_ok_def)
  with iters have "0 \<le> is_iter a" by linarith
  with iters show "min (al_inputs a) (al_outputs a) \<le> vlen (range0 (is_iter a))" by simp
qed (use ok sp_req_range [of a] in \<open>auto simp: is_at_def is_ok_def\<close>)

section \<open>The contract\<close>

lemma islip_add_frame:
  "Sparse_AddRequest i j l p q a = Inr a' \<Longrightarrow>
     is_gptrs a' = is_gptrs a \<and> is_aptrs a' = is_aptrs a \<and> is_iter a' = is_iter a"
  by (auto simp: Sparse_AddRequest_def Allocator_AddRequest_def bnd_Inr_iff Let_def)

lemma islip_clear_frame:
  "is_gptrs (Sparse_Clear a) = is_gptrs a \<and> is_aptrs (Sparse_Clear a) = is_aptrs a \<and> is_iter (Sparse_Clear a) = is_iter a"
  by (simp add: Sparse_Clear_def Allocator_Clear_def)

lemma is_ok_add:
  assumes "is_ok a" "0 \<le> i" "i < al_inputs a" "0 \<le> j" "j < al_outputs a" "0 \<le> label" "\<not> sp_req a i j"
  shows "\<exists>a'. Sparse_AddRequest i j label ip op a = Inr a' \<and> is_ok a' \<and> al_inputs a' = al_inputs a \<and>
     al_outputs a' = al_outputs a \<and> al_inmatch a' = al_inmatch a \<and> al_outmatch a' = al_outmatch a \<and>
     (\<forall>k l. sp_req a' k l \<longleftrightarrow> sp_req a k l \<or> k = i \<and> l = j)"
proof -
  have "sp_ok a" using assms(1) by (simp add: is_ok_def)
  from sp_add [OF this assms(2-7), of ip op] obtain a' where
    a': "Sparse_AddRequest i j label ip op a = Inr a'" "sp_ok a'" "al_inputs a' = al_inputs a"
      "al_outputs a' = al_outputs a" "al_inmatch a' = al_inmatch a" "al_outmatch a' = al_outmatch a"
      "\<And>k l. sp_req a' k l \<longleftrightarrow> sp_req a k l \<or> k = i \<and> l = j" by blast
  have "matching (al_inputs a) (al_outputs a) (sp_req a') (al_inmatch a) (al_outmatch a)"
    by (rule matching_mono [where R = "sp_req a"]) (use assms(1) a'(7) in \<open>auto simp: is_ok_def\<close>)
  then have "is_ok a'" using a' islip_add_frame [OF a'(1)] assms(1) by (simp add: is_ok_def)
  with a' show ?thesis by blast
qed

lemma is_ok_clear: "is_ok a \<Longrightarrow> is_ok (Sparse_Clear a)"
  using sp_clear [of a] islip_clear_frame [of a] matching_unmatched [of "al_inputs a" "al_outputs a"]
  by (simp add: is_ok_def) (simp add: sp_ok_def al_ok_def)

interpretation isl: allocator_contract is_ok is_ok al_inputs al_outputs sp_req al_inmatch al_outmatch
  Sparse_AddRequest "\<lambda>a. Inr (islip_Allocate a)" Sparse_Clear
proof (unfold_locales, goal_cases)
  case (1 a)
  then show ?case using sp_clear [of a] is_ok_clear [of a] by (simp add: is_ok_def)
next
  case (2 a i j label ip op)
  then show ?case by (rule is_ok_add)
next
  case (3 a)
  then show ?case
    using islip_Allocate_ok [of a] is_frameD [of a "islip_Allocate a"] by (auto simp: is_at_def is_ok_def)
qed

lemma is_new:
  assumes "0 < n" "0 < m"
  shows "is_ok (new_iSLIP n m iters)"
proof -
  have "sp_ok (new_iSLIP n m iters)" using sp_new [of n m] assms by (simp add: new_iSLIP_def)
  moreover have "al_inputs (new_iSLIP n m iters) = n" "al_outputs (new_iSLIP n m iters) = m"
    "al_inmatch (new_iSLIP n m iters) = unmatched n" "al_outmatch (new_iSLIP n m iters) = unmatched m"
    "is_gptrs (new_iSLIP n m iters) = replicate (nat m) 0" "is_aptrs (new_iSLIP n m iters) = replicate (nat n) 0"
    by (simp_all add: new_iSLIP_def sparse.defs islip.defs new_SparseAllocator_def new_Allocator_def allocator.defs)
  ultimately show ?thesis using assms by (simp add: is_ok_def matching_unmatched vlen_def)
qed

interpretation islm: maximal_allocator is_ok is_ok al_inputs al_outputs sp_req al_inmatch al_outmatch
  Sparse_AddRequest "\<lambda>a. Inr (islip_Allocate a)" Sparse_Clear
  "\<lambda>a. min (al_inputs a) (al_outputs a) \<le> is_iter a"
proof (unfold_locales, goal_cases)
  case (1 a)
  then show ?case
    using islip_clear_frame [of a] by (simp add: Sparse_Clear_def Allocator_Clear_def)
next
  case (2 a i j label ip op a')
  then show ?case
    using islip_add_frame [of i j label ip op a a']
    by (auto simp: Sparse_AddRequest_def Allocator_AddRequest_def bnd_Inr_iff Let_def)
next
  case (3 a a')
  then show ?case using islip_Allocate_maximal [of a] by auto
qed

section \<open>Properties\<close>

text \<open>
  C4: An iSLIP allocation cycle (clear, add requests between distinct pairs of ports, allocate)
  never fails an assertion and leaves a matching of the requests: every matched input is matched to
  an output it requested, that output is matched back to it, and no port is matched twice. With at
  least as many iterations as ports on the smaller side, no request is left with both ports free.
\<close>

theorem islip_cycle:
  assumes "is_ok a" "good_pairs (al_inputs a) (al_outputs a) rs"
  shows "\<exists>a'. alloc_cycle Sparse_AddRequest (\<lambda>a. Inr (islip_Allocate a)) Sparse_Clear rs a = Inr a' \<and> is_ok a' \<and>
    matching (al_inputs a) (al_outputs a) (req_pairs rs) (al_inmatch a') (al_outmatch a') \<and>
    (min (al_inputs a) (al_outputs a) \<le> is_iter a \<longrightarrow> maximal (req_pairs rs) (al_inmatch a') (al_outmatch a'))"
  using isl.cycle_ok [OF assms(1) assms(2)] islm.cycle_maximal [OF assms(1) assms(2)] by blast

theorem islip_cycle_witness:
  "\<exists>a'. alloc_cycle Sparse_AddRequest (\<lambda>a. Inr (islip_Allocate a)) Sparse_Clear
      [(0, 0, 1, 0, 0), (0, 1, 1, 0, 0), (1, 0, 1, 0, 0)] (new_iSLIP 2 2 2) = Inr a' \<and> is_ok a' \<and>
    matching 2 2 (req_pairs [(0, 0, 1, 0, 0), (0, 1, 1, 0, 0), (1, 0, 1, 0, 0)]) (al_inmatch a') (al_outmatch a') \<and>
    maximal (req_pairs [(0, 0, 1, 0, 0), (0, 1, 1, 0, 0), (1, 0, 1, 0, 0)]) (al_inmatch a') (al_outmatch a')"
proof -
  have "al_inputs (new_iSLIP 2 2 2) = 2" "al_outputs (new_iSLIP 2 2 2) = 2" "is_iter (new_iSLIP 2 2 2) = 2"
    by (simp_all add: new_iSLIP_def sparse.defs islip.defs new_SparseAllocator_def new_Allocator_def allocator.defs)
  moreover have "good_pairs 2 2 [(0, 0, 1, 0, 0), (0, 1, 1, 0, 0), (1, 0, 1, 0, 0)]"
    by (simp add: good_pairs_def)
  ultimately show ?thesis
    using islip_cycle [OF is_new [of 2 2 2], of "[(0, 0, 1, 0, 0), (0, 1, 1, 0, 0), (1, 0, 1, 0, 0)]"] by simp
qed

end
