(* ===== verification/Rng.thy ===== *)
theory Rng
  imports Prelude
begin

text \<open>
  The integer random number generator: Knuth's lagged-Fibonacci \<^verbatim>\<open>ran_array\<close> of
  \<^verbatim>\<open>rng.hpp\<close>, its seeding, the buffered \<^verbatim>\<open>ran_next\<close> of \<^verbatim>\<open>rng_wrapper.cpp\<close>, and
  \<^verbatim>\<open>RandomInt\<close>, \<^verbatim>\<open>SaveRandomState\<close> and \<^verbatim>\<open>RestoreRandomState\<close> of \<^verbatim>\<open>random_utils\<close>. The C globals are
  one record that the program threads through every draw. All values lie in \<open>0 ..< 2 ^ 30\<close>, so the
  64-bit \<^verbatim>\<open>long\<close> arithmetic never wraps and is arithmetic on \<open>int\<close>.
\<close>

section \<open>State\<close>

abbreviation KK :: int where "KK \<equiv> 100"
abbreviation LL :: int where "LL \<equiv> 37"
abbreviation QUALITY :: int where "QUALITY \<equiv> 1009"
abbreviation TT :: nat where "TT \<equiv> 70"
abbreviation MM :: int where "MM \<equiv> 1073741824"

text \<open>\<^verbatim>\<open>ran_arr_ptr\<close> points at one of the two sentinels or into the buffer.\<close>

datatype ran_ptr = Ran_dummy | Ran_started | Ran_buf int

record rng =
  ran_x :: "int list"
  ran_arr_buf :: "int list"
  ran_arr_ptr :: ran_ptr

text \<open>\<^verbatim>\<open>((x)-(y))&(MM-1)\<close>, the mask of a power of two.\<close>

definition mod_diff :: "int \<Rightarrow> int \<Rightarrow> int" where
  "mod_diff x y = (x - y) mod MM"

section \<open>Filling an array\<close>

definition ran_array :: "int list \<Rightarrow> rng \<Rightarrow> int list \<times> rng" where
  "ran_array aa g =
     (let n = vlen aa;
          aa = fold (\<lambda>j aa. vupd aa j (vat (ran_x g) j)) [0..KK - 1] aa;
          aa = fold (\<lambda>j aa. vupd aa j (mod_diff (vat aa (j - KK)) (vat aa (j - LL)))) [KK..n - 1] aa;
          rx = fold (\<lambda>i rx. vupd rx i (mod_diff (vat aa (n + i - KK)) (vat aa (n + i - LL)))) [0..LL - 1] (ran_x g);
          rx = fold (\<lambda>i rx. vupd rx i (mod_diff (vat aa (n + i - KK)) (vat rx (i - LL)))) [LL..KK - 1] rx
      in (aa, g\<lparr>ran_x := rx\<rparr>))"

section \<open>Seeding\<close>

text \<open>The bootstrap loop of \<^verbatim>\<open>ran_start\<close>; \<^verbatim>\<open>(seed+2)&(MM-2)\<close> clears the lowest bit.\<close>

definition ran_shift :: "int \<Rightarrow> int" where
  "ran_shift ss = (let ss = 2 * ss in if ss \<ge> MM then ss - (MM - 2) else ss)"

definition ran_boot :: "int \<Rightarrow> int list" where
  "ran_boot seed =
     (let ss = (seed + 2) mod MM div 2 * 2;
          x = fst (fold (\<lambda>j (x, ss). (vupd x j ss, ran_shift ss)) [0..KK - 1] (replicate 199 0, ss))
      in vupd x 1 (vat x 1 + 1))"

definition ran_square :: "int list \<Rightarrow> int list" where
  "ran_square x =
     (let x = fold (\<lambda>j x. vupd (vupd x (j + j) (vat x j)) (j + j - 1) 0) (rev [1..KK - 1]) x
      in fold (\<lambda>j x.
           let x = vupd x (j - (KK - LL)) (mod_diff (vat x (j - (KK - LL))) (vat x j))
           in vupd x (j - KK) (mod_diff (vat x (j - KK)) (vat x j))) (rev [KK..KK + KK - 2]) x)"

definition ran_mulz :: "int list \<Rightarrow> int list" where
  "ran_mulz x =
     (let x = fold (\<lambda>j x. vupd x j (vat x (j - 1))) (rev [1..KK]) x;
          x = vupd x 0 (vat x KK)
      in vupd x LL (mod_diff (vat x LL) (vat x KK)))"

text \<open>The main loop: halve \<^verbatim>\<open>ss\<close> until it is zero, then count \<^verbatim>\<open>t\<close> down.\<close>

function ran_mix :: "int \<Rightarrow> nat \<Rightarrow> int list \<Rightarrow> int list" where
  "ran_mix ss t x =
     (if t = 0 then x
      else
        let x = ran_square x; x = (if odd ss then ran_mulz x else x)
        in if ss > 0 then ran_mix (ss div 2) t x else ran_mix ss (t - 1) x)"
  by pat_completeness auto
termination
  by (relation "measure (\<lambda>(ss, t, _). nat ss + t)") auto

definition ran_start :: "int \<Rightarrow> rng \<Rightarrow> rng" where
  "ran_start seed g =
     (let x = ran_mix (seed mod MM) (TT - 1) (ran_boot seed);
          rx = fold (\<lambda>j rx. vupd rx (j + KK - LL) (vat x j)) [0..LL - 1] (ran_x g);
          rx = fold (\<lambda>j rx. vupd rx (j - LL) (vat x j)) [LL..KK - 1] rx;
          (x, g) = fold (\<lambda>_ (x, g). ran_array x g) [0..9::int] (x, g\<lparr>ran_x := rx\<rparr>)
      in g\<lparr>ran_arr_ptr := Ran_started\<rparr>)"

section \<open>Drawing\<close>

definition ran_arr_cycle :: "rng \<Rightarrow> int \<times> rng" where
  "ran_arr_cycle g =
     (let g = (if ran_arr_ptr g = Ran_dummy then ran_start 314159 g else g);
          (b, g) = ran_array (ran_arr_buf g) g;
          b = vupd b KK (- 1)
      in (vat b 0, g\<lparr>ran_arr_buf := b, ran_arr_ptr := Ran_buf 1\<rparr>))"

definition ran_next :: "rng \<Rightarrow> int \<times> rng" where
  "ran_next g =
     (case ran_arr_ptr g of
        Ran_buf k \<Rightarrow> if vat (ran_arr_buf g) k \<ge> 0
                    then (vat (ran_arr_buf g) k, g\<lparr>ran_arr_ptr := Ran_buf (k + 1)\<rparr>)
                    else ran_arr_cycle g
      | _ \<Rightarrow> ran_arr_cycle g)"

text \<open>The globals at program start.\<close>

definition new_rng :: rng where
  "new_rng = \<lparr>ran_x = replicate 100 0, ran_arr_buf = replicate 1009 0, ran_arr_ptr = Ran_dummy\<rparr>"

text \<open>\<^verbatim>\<open>max\<close> is an \<^verbatim>\<open>int\<close>, and so is \<^verbatim>\<open>max+1\<close>, which wraps at the largest one.\<close>

definition RandomInt :: "int \<Rightarrow> rng \<Rightarrow> int \<times> rng" where
  "RandomInt m g = (let (r, g) = ran_next g in (r smod int32 (m + 1), g))"

definition SaveRandomState :: "rng \<Rightarrow> int list" where
  "SaveRandomState g = ran_x g"

definition RestoreRandomState :: "int list \<Rightarrow> rng \<Rightarrow> rng res" where
  "RestoreRandomState save_x g =
     bnd (assert_that (vlen save_x = KK) ''save_x.size() == KK'') (\<lambda>_. Inr (g\<lparr>ran_x := save_x\<rparr>))"

section \<open>Range\<close>

declare upto_rec_numeral [simp del]

definition in_MM :: "int list \<Rightarrow> bool" where
  "in_MM xs \<longleftrightarrow> (\<forall>x \<in> set xs. 0 \<le> x \<and> x < MM)"

definition rng_ok :: "rng \<Rightarrow> bool" where
  "rng_ok g \<longleftrightarrow> vlen (ran_x g) = KK \<and> in_MM (ran_x g) \<and> vlen (ran_arr_buf g) = QUALITY \<and>
     (\<forall>k. ran_arr_ptr g = Ran_buf k \<longrightarrow> 1 \<le> k \<and> k \<le> KK \<and> vat (ran_arr_buf g) KK = - 1 \<and>
        (\<forall>i. 0 \<le> i \<and> i < KK \<longrightarrow> 0 \<le> vat (ran_arr_buf g) i \<and> vat (ran_arr_buf g) i < MM))"

lemma mod_diff_range: "0 \<le> mod_diff x y \<and> mod_diff x y < MM"
  by (simp add: mod_diff_def)

lemma in_MM_vupd: "in_MM xs \<Longrightarrow> 0 \<le> v \<and> v < MM \<Longrightarrow> in_MM (vupd xs i v)"
  unfolding in_MM_def by (rule ball_vupd)

lemma in_MM_vat: "in_MM xs \<Longrightarrow> 0 \<le> i \<Longrightarrow> i < vlen xs \<Longrightarrow> 0 \<le> vat xs i \<and> vat xs i < MM"
  unfolding in_MM_def by (rule ball_vat)

lemma fold_vupd_len: "length (fold (\<lambda>j x. vupd x (f j) (h j x)) js x) = length x"
  by (induction js arbitrary: x) auto

text \<open>After a filling loop every index it visited holds a value in range, whatever was there before.\<close>

lemma fill_range:
  assumes "\<And>j x. j \<in> set js \<Longrightarrow> 0 \<le> h j x \<and> h j x < MM" "\<And>j. j \<in> set js \<Longrightarrow> 0 \<le> j"
    and "0 \<le> i" "i < vlen x" "i \<in> set js \<or> 0 \<le> vat x i \<and> vat x i < MM"
  shows "0 \<le> vat (fold (\<lambda>j x. vupd x j (h j x)) js x) i \<and> vat (fold (\<lambda>j x. vupd x j (h j x)) js x) i < MM"
  using assms
proof (induction js arbitrary: x)
  case (Cons j js)
  have "i \<in> set js \<or> 0 \<le> vat (vupd x j (h j x)) i \<and> vat (vupd x j (h j x)) i < MM"
    using Cons.prems(1) [of j x] Cons.prems(2) [of j] Cons.prems(3-5) vat_vupd_neq [of j i x]
    by (cases "i = j") auto
  then show ?case using Cons.prems by (simp add: Cons.IH)
qed simp

lemma in_MM_iff: "in_MM xs \<longleftrightarrow> (\<forall>i. 0 \<le> i \<and> i < vlen xs \<longrightarrow> 0 \<le> vat xs i \<and> vat xs i < MM)"
proof
  assume "\<forall>i. 0 \<le> i \<and> i < vlen xs \<longrightarrow> 0 \<le> vat xs i \<and> vat xs i < MM"
  then show "in_MM xs" unfolding in_MM_def using in_set_vat by metis
qed (use in_MM_vat in blast)

lemma vlen_fold_vupd [simp]: "vlen (fold (\<lambda>j x. vupd x (f j) (h j x)) js x) = vlen x"
  by (simp add: vlen_def fold_vupd_len)

lemma in_MM_fill:
  assumes "\<And>j x. j \<in> set js \<Longrightarrow> 0 \<le> h j x \<and> h j x < MM" "\<And>j. j \<in> set js \<Longrightarrow> 0 \<le> j"
    and "\<And>i. 0 \<le> i \<Longrightarrow> i < vlen x \<Longrightarrow> i \<in> set js \<or> 0 \<le> vat x i \<and> vat x i < MM"
  shows "in_MM (fold (\<lambda>j x. vupd x j (h j x)) js x)"
  unfolding in_MM_iff
proof (intro allI impI)
  fix i assume "0 \<le> i \<and> i < vlen (fold (\<lambda>j x. vupd x j (h j x)) js x)"
  then have i: "0 \<le> i" "i < vlen x" using vlen_fold_vupd [of "\<lambda>j. j" h js x] by simp_all
  show "0 \<le> vat (fold (\<lambda>j x. vupd x j (h j x)) js x) i \<and> vat (fold (\<lambda>j x. vupd x j (h j x)) js x) i < MM"
    by (rule fill_range [OF assms(1,2) i assms(3) [OF i]])
qed

text \<open>
  Whatever the destination held, \<^verbatim>\<open>ran_array\<close> fills it with values in range and leaves a state in
  range.
\<close>

lemma ran_array_ok:
  assumes g: "vlen (ran_x g) = KK" "in_MM (ran_x g)" and aa: "KK \<le> vlen aa"
    and r: "ran_array aa g = (bb, g')"
  shows "vlen bb = vlen aa" "in_MM bb" "vlen (ran_x g') = KK" "in_MM (ran_x g')"
    "ran_arr_buf g' = ran_arr_buf g" "ran_arr_ptr g' = ran_arr_ptr g"
proof -
  define a1 where "a1 = fold (\<lambda>j aa. vupd aa j (vat (ran_x g) j)) [0..KK - 1] aa"
  define a2 where "a2 = fold (\<lambda>j aa. vupd aa j (mod_diff (vat aa (j - KK)) (vat aa (j - LL)))) [KK..vlen aa - 1] a1"
  define x1 where "x1 = fold (\<lambda>i rx. vupd rx i (mod_diff (vat a2 (vlen aa + i - KK)) (vat a2 (vlen aa + i - LL))))
     [0..LL - 1] (ran_x g)"
  define x2 where "x2 = fold (\<lambda>i rx. vupd rx i (mod_diff (vat a2 (vlen aa + i - KK)) (vat rx (i - LL)))) [LL..KK - 1] x1"
  have "ran_array aa g = (a2, g\<lparr>ran_x := x2\<rparr>)"
    unfolding ran_array_def Let_def a1_def a2_def x1_def x2_def by (rule refl)
  with r have eq: "bb = a2" "g' = g\<lparr>ran_x := x2\<rparr>" by simp_all
  have len: "vlen a1 = vlen aa" "vlen a2 = vlen aa" "vlen x1 = KK" "vlen x2 = KK"
    using g vlen_fold_vupd [of "\<lambda>j. j"] unfolding a1_def a2_def x1_def x2_def by simp_all
  have low: "0 \<le> vat a1 i \<and> vat a1 i < MM" if "0 \<le> i" "i < KK" for i
    unfolding a1_def
  proof (rule fill_range [where h = "\<lambda>j _. vat (ran_x g) j"])
    fix j assume "j \<in> set [0..KK - 1]"
    then show "0 \<le> vat (ran_x g) j \<and> vat (ran_x g) j < MM" using in_MM_vat [OF g(2), of j] g(1) by simp
  qed (use that aa in auto)
  have "in_MM a2"
    unfolding a2_def
  proof (rule in_MM_fill)
    fix i assume "0 \<le> i" "i < vlen a1"
    then show "i \<in> set [KK..vlen aa - 1] \<or> 0 \<le> vat a1 i \<and> vat a1 i < MM"
      using low [of i] len by (cases "i < KK") auto
  qed (rule mod_diff_range, simp)
  moreover have x1: "in_MM x1"
    unfolding x1_def
    by (rule in_MM_fill) (rule mod_diff_range, simp, use in_MM_vat [OF g(2)] in blast)
  have "in_MM x2"
    unfolding x2_def
    by (rule in_MM_fill) (rule mod_diff_range, simp, use in_MM_vat [OF x1] in blast)
  ultimately show "vlen bb = vlen aa" "in_MM bb" "vlen (ran_x g') = KK" "in_MM (ran_x g')"
    "ran_arr_buf g' = ran_arr_buf g" "ran_arr_ptr g' = ran_arr_ptr g"
    using len by (simp_all add: eq)
qed

text \<open>The preparation buffer of \<^verbatim>\<open>ran_start\<close>.\<close>

definition prep_ok :: "int list \<Rightarrow> bool" where
  "prep_ok x \<longleftrightarrow> vlen x = 199 \<and> in_MM x"

lemma prep_vupd: "prep_ok x \<Longrightarrow> 0 \<le> v \<and> v < MM \<Longrightarrow> prep_ok (vupd x i v)"
  by (simp add: prep_ok_def in_MM_vupd)

lemma prep_vat: "prep_ok x \<Longrightarrow> 0 \<le> i \<Longrightarrow> i < 199 \<Longrightarrow> 0 \<le> vat x i \<and> vat x i < MM"
  by (simp add: prep_ok_def in_MM_vat)

definition even_MM :: "int \<Rightarrow> bool" where
  "even_MM ss \<longleftrightarrow> 0 \<le> ss \<and> ss < MM \<and> even ss"

lemma even_shift: "even_MM ss \<Longrightarrow> even_MM (ran_shift ss)"
  by (auto simp: even_MM_def ran_shift_def Let_def elim!: evenE)

lemma ran_boot_ok: "prep_ok (ran_boot seed)"
proof -
  define f where "f = (\<lambda>j (x, ss). (vupd x j ss, ran_shift ss))"
  define P where "P seen s \<longleftrightarrow> prep_ok (fst s) \<and> even_MM (snd s) \<and> (1 \<in> set seen \<longrightarrow> even (vat (fst s) 1))"
    for seen :: "int list" and s :: "int list \<times> int"
  let ?ss = "(seed + 2) mod MM div 2 * 2"
  have "P [0..KK - 1] (fold f [0..KK - 1] (replicate 199 0, ?ss))"
  proof (rule fold_prefix [where P = P])
    have "0 \<le> ?ss" "?ss \<le> (seed + 2) mod MM" "(seed + 2) mod MM < MM" "even ?ss" by simp_all
    moreover have "prep_ok (replicate 199 0)" by (simp add: prep_ok_def in_MM_def vlen_def)
    ultimately show "P [] (replicate 199 0, ?ss)" by (simp add: P_def even_MM_def)
  next
    fix seen j rest s assume split: "[0..KK - 1] = seen @ j # rest" and I: "P seen s"
    have "j \<in> set [0..KK - 1]" using split by simp
    then have j: "0 \<le> j" "j < 199" by auto
    obtain x ss where s: "s = (x, ss)" by (cases s)
    from I have x: "prep_ok x" and ss: "even_MM ss" by (auto simp: P_def s)
    from x j have len: "j < vlen x" by (simp add: prep_ok_def)
    have "prep_ok (vupd x j ss)" using x ss by (intro prep_vupd) (auto simp: even_MM_def)
    moreover have "even (vat (vupd x j ss) 1)" if "1 \<in> set seen \<or> j = 1"
      using that I ss j len by (auto simp: P_def s even_MM_def)
    ultimately show "P (seen @ [j]) (f j s)" using even_shift [OF ss] by (auto simp: P_def f_def s)
  qed
  then have x: "prep_ok (fst (fold f [0..KK - 1] (replicate 199 0, ?ss)))"
    "even (vat (fst (fold f [0..KK - 1] (replicate 199 0, ?ss))) 1)" by (auto simp: P_def)
  let ?x = "fst (fold f [0..KK - 1] (replicate 199 0, ?ss))"
  have "0 \<le> vat ?x 1 + 1 \<and> vat ?x 1 + 1 < MM"
    using prep_vat [OF x(1), of 1] x(2) by (auto elim!: evenE)
  from prep_vupd [OF x(1) this] show ?thesis
    unfolding ran_boot_def Let_def f_def .
qed

lemma ran_square_ok: "prep_ok x \<Longrightarrow> prep_ok (ran_square x)"
  unfolding ran_square_def Let_def
  by (rule fold_inv [where P = prep_ok], (intro prep_vupd mod_diff_range; assumption),
      rule fold_inv [where P = prep_ok]) (auto simp: prep_vat intro!: prep_vupd)

lemma ran_mulz_ok: "prep_ok x \<Longrightarrow> prep_ok (ran_mulz x)"
proof -
  assume "prep_ok x"
  then have y: "prep_ok (fold (\<lambda>j x. vupd x j (vat x (j - 1))) (rev [1..KK]) x)" (is "prep_ok ?y")
    by (intro fold_inv [where P = prep_ok]) (auto simp: prep_vat intro!: prep_vupd)
  then have z: "prep_ok (vupd ?y 0 (vat ?y KK))" by (intro prep_vupd prep_vat) auto
  show ?thesis
    unfolding ran_mulz_def Let_def by (rule prep_vupd [OF z mod_diff_range])
qed

lemma ran_mix_ok: "prep_ok x \<Longrightarrow> prep_ok (ran_mix ss t x)"
proof (induction ss t x rule: ran_mix.induct)
  case (1 ss t x)
  show ?case
  proof (cases "t = 0")
    case True
    with "1.prems" show ?thesis by (subst ran_mix.simps) simp
  next
    case False
    let ?x = "if odd ss then ran_mulz (ran_square x) else ran_square x"
    have x: "prep_ok ?x" using ran_mulz_ok ran_square_ok "1.prems" by simp
    show ?thesis
      using False 1(1) [OF False refl refl _ x] 1(2) [OF False refl refl _ x]
      by (subst ran_mix.simps) (simp add: Let_def)
  qed
qed

lemma ran_start_ok:
  assumes "rng_ok g"
  shows "rng_ok (ran_start seed g)" "ran_arr_ptr (ran_start seed g) = Ran_started"
proof -
  define x where "x = ran_mix (seed mod MM) (TT - 1) (ran_boot seed)"
  define r1 where "r1 = fold (\<lambda>j rx. vupd rx (j + KK - LL) (vat x j)) [0..LL - 1] (ran_x g)"
  define r2 where "r2 = fold (\<lambda>j rx. vupd rx (j - LL) (vat x j)) [LL..KK - 1] r1"
  define P where "P s \<longleftrightarrow> vlen (fst s) = 199 \<and> vlen (ran_x (snd s)) = KK \<and> in_MM (ran_x (snd s)) \<and>
     vlen (ran_arr_buf (snd s)) = QUALITY" for s :: "int list \<times> rng"
  have x: "prep_ok x" unfolding x_def by (intro ran_mix_ok ran_boot_ok)
  have g: "vlen (ran_x g) = KK" "in_MM (ran_x g)" "vlen (ran_arr_buf g) = QUALITY"
    using assms by (auto simp: rng_ok_def)
  have "vlen r1 = KK \<and> in_MM r1"
    unfolding r1_def
    by (rule fold_inv [where P = "\<lambda>r. vlen r = KK \<and> in_MM r"]) (use g prep_vat [OF x] in \<open>auto intro: in_MM_vupd\<close>)
  then have "vlen r2 = KK \<and> in_MM r2"
    unfolding r2_def
    by (intro fold_inv [where P = "\<lambda>r. vlen r = KK \<and> in_MM r"]) (use prep_vat [OF x] in \<open>auto intro: in_MM_vupd\<close>)
  then have "P (x, g\<lparr>ran_x := r2\<rparr>)" using x g by (simp add: P_def prep_ok_def)
  then have "P (fold (\<lambda>_ (x, g). ran_array x g) [0..9::int] (x, g\<lparr>ran_x := r2\<rparr>))"
  proof (rule fold_inv [rotated])
    fix k s assume s: "P s"
    obtain b g' where r: "ran_array (fst s) (snd s) = (b, g')" by (cases "ran_array (fst s) (snd s)")
    from s ran_array_ok [OF _ _ _ r] show "P (case s of (x, g) \<Rightarrow> ran_array x g)"
      by (simp add: P_def r split_beta)
  qed
  then show "rng_ok (ran_start seed g)" "ran_arr_ptr (ran_start seed g) = Ran_started"
    unfolding ran_start_def Let_def x_def [symmetric] r1_def [symmetric] r2_def [symmetric]
    by (simp_all add: split_beta P_def rng_ok_def)
qed

lemma ran_cycle_ok:
  assumes "rng_ok g" "ran_arr_cycle g = (r, g')"
  shows "0 \<le> r \<and> r < MM \<and> rng_ok g'"
proof -
  define g0 where "g0 = (if ran_arr_ptr g = Ran_dummy then ran_start 314159 g else g)"
  have g0: "rng_ok g0" using assms(1) ran_start_ok(1) by (simp add: g0_def)
  obtain b g1 where b: "ran_array (ran_arr_buf g0) g0 = (b, g1)" by (cases "ran_array (ran_arr_buf g0) g0")
  have ok: "vlen b = QUALITY" "in_MM b" "vlen (ran_x g1) = KK" "in_MM (ran_x g1)"
    using ran_array_ok [OF _ _ _ b] g0 by (auto simp: rng_ok_def)
  have eq: "r = vat (vupd b KK (- 1)) 0" "g' = g1\<lparr>ran_arr_buf := vupd b KK (- 1), ran_arr_ptr := Ran_buf 1\<rparr>"
    using assms(2) b by (auto simp: ran_arr_cycle_def g0_def [symmetric] Let_def)
  have v: "0 \<le> vat b i \<and> vat b i < MM" if "0 \<le> i" "i < KK" for i
    using in_MM_vat [OF ok(2), of i] ok(1) that by simp
  then show ?thesis using ok by (simp add: eq rng_ok_def)
qed

lemma ran_next_ok:
  assumes "rng_ok g" "ran_next g = (r, g')"
  shows "0 \<le> r \<and> r < MM \<and> rng_ok g'"
proof (cases "\<exists>k. ran_arr_ptr g = Ran_buf k \<and> vat (ran_arr_buf g) k \<ge> 0")
  case True
  then obtain k where k: "ran_arr_ptr g = Ran_buf k" "vat (ran_arr_buf g) k \<ge> 0" by blast
  with assms(1) have rg: "1 \<le> k" "k \<le> KK" "vat (ran_arr_buf g) KK = - 1"
    and v: "\<And>i. 0 \<le> i \<Longrightarrow> i < KK \<Longrightarrow> 0 \<le> vat (ran_arr_buf g) i \<and> vat (ran_arr_buf g) i < MM"
    by (auto simp: rng_ok_def)
  from k rg have lt: "k < KK" by (cases "k = KK") auto
  from assms(2) k have "r = vat (ran_arr_buf g) k" "g' = g\<lparr>ran_arr_ptr := Ran_buf (k + 1)\<rparr>"
    by (auto simp: ran_next_def)
  with v [of k] lt rg assms(1) k show ?thesis by (auto simp: rng_ok_def)
next
  case False
  then have "ran_next g = ran_arr_cycle g" by (auto simp: ran_next_def split: ran_ptr.splits)
  with ran_cycle_ok [OF assms(1)] assms(2) show ?thesis by simp
qed

lemma RandomInt_ok:
  assumes "rng_ok g" "RandomInt m g = (r, g')"
  shows "0 \<le> r \<and> rng_ok g'" "0 \<le> m \<Longrightarrow> m < 2147483648 \<Longrightarrow> r \<le> m"
proof -
  obtain q g1 where q: "ran_next g = (q, g1)" by (cases "ran_next g")
  from ran_next_ok [OF assms(1) q] have ok: "0 \<le> q" "q < MM" "rng_ok g1" by auto
  moreover have r: "r = q smod int32 (m + 1)" "g' = g1" using assms(2) q by (auto simp: RandomInt_def)
  ultimately show "0 \<le> r \<and> rng_ok g'" by (cases "int32 (m + 1) = 0") (simp_all add: signed_modulo_int_def sgn_if)
  show "r \<le> m" if m: "0 \<le> m" "m < 2147483648"
  proof (cases "m = 2147483647")
    case True
    then show ?thesis using ok r by (simp add: int32_def signed_modulo_int_def sgn_if)
  next
    case False
    then show ?thesis using ok r m smod_range [of q "m + 1"] by simp
  qed
qed

lemma new_rng_ok: "rng_ok new_rng"
  by (simp add: rng_ok_def new_rng_def in_MM_def vlen_def)

section \<open>Properties\<close>

text \<open>A sequence of calls, one for each upper bound in the list, and a sequence of raw draws.\<close>

primrec draws :: "int list \<Rightarrow> rng \<Rightarrow> int list \<times> rng" where
  "draws [] g = ([], g)"
| "draws (m # ms) g = (let (r, g) = RandomInt m g; (rs, g) = draws ms g in (r # rs, g))"

primrec nexts :: "nat \<Rightarrow> rng \<Rightarrow> int list \<times> rng" where
  "nexts 0 g = ([], g)"
| "nexts (Suc n) g = (let (r, g) = ran_next g; (rs, g) = nexts n g in (r # rs, g))"

lemma draws_ok:
  "rng_ok g \<Longrightarrow> list_all (\<lambda>m. 0 \<le> m \<and> m < 2147483648) ms \<Longrightarrow>
    list_all2 (\<lambda>m r. 0 \<le> r \<and> r \<le> m) ms (fst (draws ms g)) \<and> rng_ok (snd (draws ms g))"
proof (induction ms arbitrary: g)
  case (Cons m ms)
  obtain r g1 where r: "RandomInt m g = (r, g1)" by (cases "RandomInt m g")
  from RandomInt_ok [OF Cons.prems(1) r] Cons.prems(2) have "0 \<le> r \<and> r \<le> m" "rng_ok g1" by auto
  with Cons.IH [of g1] Cons.prems(2) r show ?case by (simp add: split_beta Let_def)
qed simp

lemma nexts_add: "nexts (m + n) g = (let (us, g1) = nexts m g; (vs, g2) = nexts n g1 in (us @ vs, g2))"
  by (induction m arbitrary: g) (simp_all add: Let_def split_beta)

lemma nexts_len: "length (fst (nexts n g)) = n"
  by (induction n arbitrary: g) (simp_all add: Let_def split_beta)

lemma nexts_ok: "rng_ok g \<Longrightarrow> rng_ok (snd (nexts n g))"
proof (induction n arbitrary: g)
  case (Suc n)
  obtain r g1 where r: "ran_next g = (r, g1)" by (cases "ran_next g")
  with ran_next_ok [OF Suc.prems r] Suc.IH [of g1] show ?case by (simp add: Let_def split_beta)
qed simp

text \<open>Draws out of the buffer do not look at \<^verbatim>\<open>ran_x\<close>.\<close>

lemma nexts_buffered:
  assumes "rng_ok g" "ran_arr_ptr g = Ran_buf k" "int n \<le> KK - k"
  shows "nexts n (g\<lparr>ran_x := x\<rparr>) = (fst (nexts n g), (snd (nexts n g))\<lparr>ran_x := x\<rparr>)"
  using assms
proof (induction n arbitrary: g k)
  case (Suc n)
  have k: "0 \<le> vat (ran_arr_buf g) k" using Suc.prems by (auto simp: rng_ok_def)
  let ?g = "g\<lparr>ran_arr_ptr := Ran_buf (k + 1)\<rparr>"
  have n: "ran_next g = (vat (ran_arr_buf g) k, ?g)"
    "ran_next (g\<lparr>ran_x := x\<rparr>) = (vat (ran_arr_buf g) k, ?g\<lparr>ran_x := x\<rparr>)"
    using Suc.prems(2) k by (simp_all add: ran_next_def)
  have "rng_ok ?g" using ran_next_ok [OF Suc.prems(1) n(1)] by simp
  from Suc.IH [OF this, of "k + 1"] Suc.prems(3) show ?case by (simp add: n Let_def split_beta)
qed simp

lemma Restore_ok: "rng_ok g \<Longrightarrow> RestoreRandomState (SaveRandomState g) g1 = Inr (g1\<lparr>ran_x := ran_x g\<rparr>)"
  by (simp add: RestoreRandomState_def SaveRandomState_def rng_ok_def)

text \<open>
  C7: From any well-formed generator state, for any sequence of upper bounds that are nonnegative \<^verbatim>\<open>int\<close>s, each call
  \<^verbatim>\<open>RandomInt(max)\<close> returns a value between 0 and its own \<^verbatim>\<open>max\<close> (so the sentinel -1 of the buffer is never returned), and the
  state is well formed again. The state at program start is well formed, and seeding at any moment, with any seed, keeps it so.
\<close>

theorem RandomInt_range:
  assumes "rng_ok g" "list_all (\<lambda>m. 0 \<le> m \<and> m < 2147483648) ms"
  shows "list_all2 (\<lambda>m r. 0 \<le> r \<and> r \<le> m) ms (fst (draws ms g)) \<and> rng_ok (snd (draws ms g)) \<and>
    rng_ok (ran_start seed (snd (draws ms g))) \<and> rng_ok new_rng"
  using draws_ok [OF assms] ran_start_ok(1) new_rng_ok by blast

theorem RandomInt_range_witness:
  "list_all2 (\<lambda>m r. 0 \<le> r \<and> r \<le> m) [5, 0, 2147483647] (fst (draws [5, 0, 2147483647] (ran_start 42 new_rng)))"
  using RandomInt_range [OF ran_start_ok(1) [OF new_rng_ok], of "[5, 0, 2147483647]" 42] by simp

text \<open>
  C8: \<^verbatim>\<open>RestoreRandomState\<close> does not rewind the stream. Save the state \<open>g\<close>, draw \<open>m\<close> values, and restore what was saved, with
  the read pointer then at position \<open>k\<close> of the buffer of \<^verbatim>\<open>ran_arr_next\<close>. Each of the \<open>n \<le> KK - k\<close> values still buffered is
  drawn as if nothing had been restored: the draws are those number \<open>m + 1\<close> to \<open>m + n\<close> after the save, not its first \<open>n\<close>.
  Only \<^verbatim>\<open>ran_x\<close>, from which the next buffer is filled, is the saved one.
\<close>

theorem Restore_keeps_buffered_draws:
  assumes "rng_ok g" "nexts m g = (us, g1)" "ran_arr_ptr g1 = Ran_buf k" "int n \<le> KK - k"
  shows "\<exists>g2. RestoreRandomState (SaveRandomState g) g1 = Inr g2 \<and> fst (nexts n g2) = drop m (fst (nexts (m + n) g)) \<and>
    snd (nexts n g2) = (snd (nexts n g1))\<lparr>ran_x := SaveRandomState g\<rparr>"
proof -
  have "rng_ok g1" using nexts_ok [OF assms(1), of m] assms(2) by simp
  from nexts_buffered [OF this assms(3,4)] show ?thesis
    using Restore_ok [OF assms(1)] nexts_len [of m g] assms(2) by (simp add: nexts_add Let_def split_beta SaveRandomState_def)
qed

text \<open>A buffer that holds its own indices, then the sentinel.\<close>

definition demo_rng :: rng where
  "demo_rng = \<lparr>ran_x = replicate 100 0, ran_arr_buf = [0..99] @ - 1 # replicate 908 0, ran_arr_ptr = Ran_buf 1\<rparr>"

lemma demo_rng_ok: "rng_ok demo_rng"
proof -
  have "vat ([0..99] @ xs) i = i" if "0 \<le> i" "i < 100" for i and xs :: "int list"
    using that by (simp add: vat_def nth_append nat_less_iff)
  moreover have "vat ([0..99] @ - 1 # xs) 100 = - 1" for xs :: "int list" by (simp add: vat_def nth_append)
  ultimately show ?thesis by (simp add: rng_ok_def demo_rng_def in_MM_def vlen_def)
qed

theorem Restore_keeps_buffered_draws_witness:
  "\<exists>g1 g2. nexts 1 demo_rng = ([1], g1) \<and> RestoreRandomState (SaveRandomState demo_rng) g1 = Inr g2 \<and>
     fst (nexts 2 demo_rng) = [1, 2] \<and> fst (nexts 2 g2) = [2, 3]"
proof -
  let ?g1 = "demo_rng\<lparr>ran_arr_ptr := Ran_buf 2\<rparr>"
  have n: "nexts 1 demo_rng = ([1], ?g1)" "fst (nexts 2 demo_rng) = [1, 2]" "fst (nexts (1 + 2) demo_rng) = [1, 2, 3]" by code_simp+
  have "ran_arr_ptr ?g1 = Ran_buf 2" by simp
  from Restore_keeps_buffered_draws [OF demo_rng_ok n(1) this, of 2] n(2,3) show ?thesis using n(1) by auto
qed

end
