(* ===== verification/Pim.thy ===== *)
theory Pim
  imports Allocator_Laws Rng
begin

text \<open>
  \<^verbatim>\<open>PIM\<close> (\<^verbatim>\<open>pim.cpp\<close>), parallel iterative matching: like iSLIP, with the start of every search drawn
  at random. The state is the allocator together with the global random number generator.
\<close>

section \<open>The algorithm\<close>

record pim = dense +
  pm_iter :: int

definition new_PIM :: "int \<Rightarrow> int \<Rightarrow> int \<Rightarrow> pim" where
  "new_PIM n m iters = dense.extend (new_DenseAllocator n m) (pim.fields iters)"

definition pim_grant :: "pim \<Rightarrow> int \<Rightarrow> int list \<times> rng \<Rightarrow> int list \<times> rng" where
  "pim_grant a output s =
     (let (input_offset, g) = RandomInt (al_inputs a - 1) (snd s) in
      (until_break (\<lambda>i grants.
         if rq_label (dn_get a ((i + input_offset) smod al_inputs a) output) \<noteq> - 1 \<and>
            vat (al_inmatch a) ((i + input_offset) smod al_inputs a) = - 1 \<and>
            vat (al_outmatch a) output = - 1
         then (True, vupd grants output ((i + input_offset) smod al_inputs a))
         else (False, grants)) (range0 (al_inputs a)) (fst s), g))"

definition pim_accept :: "int list \<Rightarrow> int \<Rightarrow> pim \<times> rng \<Rightarrow> pim \<times> rng" where
  "pim_accept grants input s =
     (let (output_offset, g) = RandomInt (al_outputs (fst s) - 1) (snd s); m = al_outputs (fst s) in
      (until_break (\<lambda>k a.
         if vat grants ((k + output_offset) smod m) = input
         then (True, a\<lparr>al_inmatch := vupd (al_inmatch a) input ((k + output_offset) smod m),
                       al_outmatch := vupd (al_outmatch a) ((k + output_offset) smod m) input\<rparr>)
         else (False, a)) (range0 m) (fst s), g))"

definition pim_iteration :: "int \<Rightarrow> pim \<times> rng \<Rightarrow> pim \<times> rng" where
  "pim_iteration iter s =
     (let a = fst s;
          (grants, g) = fold (pim_grant a) (range0 (al_outputs a)) (unmatched (al_outputs a), snd s)
      in fold (pim_accept grants) (range0 (al_inputs a)) (a, g))"

definition pim_Allocate :: "pim \<times> rng \<Rightarrow> pim \<times> rng" where
  "pim_Allocate s = fold pim_iteration (range0 (pm_iter (fst s))) s"

definition pim_AddRequest :: "int \<Rightarrow> int \<Rightarrow> int \<Rightarrow> int \<Rightarrow> int \<Rightarrow> pim \<times> rng \<Rightarrow> (pim \<times> rng) res" where
  "pim_AddRequest i j label ip op s = bnd (Dense_AddRequest i j label ip op (fst s)) (\<lambda>a. Inr (a, snd s))"

definition pim_Clear :: "pim \<times> rng \<Rightarrow> pim \<times> rng" where
  "pim_Clear s = (Dense_Clear (fst s), snd s)"

section \<open>Searching from a random start\<close>

lemma rot_image:
  assumes "0 < (n::int)" "0 \<le> off"
  shows "(\<lambda>i. (i + off) smod n) ` set (range0 n) = {0..<n}"
proof
  show "(\<lambda>i. (i + off) smod n) ` set (range0 n) \<subseteq> {0..<n}" using assms by auto
  show "{0..<n} \<subseteq> (\<lambda>i. (i + off) smod n) ` set (range0 n)"
  proof
    fix k assume k: "k \<in> {0..<n}"
    let ?i = "(k - off) mod n"
    have "(?i + off) mod n = (k - off + off) mod n" by (rule mod_add_left_eq)
    then have "(?i + off) smod n = k" using assms k by simp
    moreover have "?i \<in> set (range0 n)" using assms by simp
    ultimately show "k \<in> (\<lambda>i. (i + off) smod n) ` set (range0 n)" by (metis imageI)
  qed
qed

text \<open>The first index, from a given start, that satisfies \<open>P\<close>.\<close>

lemma rot_find:
  assumes "0 < (n::int)" "0 \<le> off"
  shows "case List.find (\<lambda>i. P ((i + off) smod n)) (range0 n) of
      None \<Rightarrow> (\<forall>k. 0 \<le> k \<and> k < n \<longrightarrow> \<not> P k)
    | Some i \<Rightarrow> 0 \<le> (i + off) smod n \<and> (i + off) smod n < n \<and> P ((i + off) smod n)"
proof (cases "List.find (\<lambda>i. P ((i + off) smod n)) (range0 n)")
  case None
  then have "\<forall>k \<in> (\<lambda>i. (i + off) smod n) ` set (range0 n). \<not> P k" by (auto simp: find_None_iff)
  then have "\<forall>k \<in> {0..<n}. \<not> P k" unfolding rot_image [OF assms] .
  then show ?thesis using None by simp
next
  case (Some i)
  then have "i \<in> set (range0 n)" "P ((i + off) smod n)" by (auto dest: find_SomeD)
  then show ?thesis using Some rot_image [OF assms] by auto
qed

section \<open>Correctness\<close>

definition pm_frame :: "pim \<Rightarrow> pim \<Rightarrow> bool" where
  "pm_frame a0 a \<longleftrightarrow> (\<exists>im om. a = a0\<lparr>al_inmatch := im, al_outmatch := om\<rparr>)"

lemma dn_req_frame [simp]:
  "dn_req (a\<lparr>al_inmatch := im\<rparr>) = dn_req a" "dn_req (a\<lparr>al_outmatch := om\<rparr>) = dn_req a"
  by (simp_all add: dn_req_def fun_eq_iff)

lemma pm_frameD:
  assumes "pm_frame a0 a"
  shows "al_inputs a = al_inputs a0" "al_outputs a = al_outputs a0" "dn_req a = dn_req a0" "pm_iter a = pm_iter a0"
  using assms by (auto simp: pm_frame_def)

lemma pm_frame_refl [simp]: "pm_frame a a"
  unfolding pm_frame_def by (rule exI [of _ "al_inmatch a"], rule exI [of _ "al_outmatch a"]) simp

lemma pm_frame_upd: "pm_frame a0 a \<Longrightarrow> pm_frame a0 (a\<lparr>al_inmatch := im, al_outmatch := om\<rparr>)"
  by (fastforce simp: pm_frame_def)

lemma pm_frame_trans: "pm_frame a b \<Longrightarrow> pm_frame b c \<Longrightarrow> pm_frame a c"
  by (fastforce simp: pm_frame_def)

lemma dn_ok_frame:
  assumes "dn_ok a0" "pm_frame a0 a" "matching (al_inputs a0) (al_outputs a0) (dn_req a0) (al_inmatch a) (al_outmatch a)"
  shows "dn_ok a"
proof -
  obtain im om where a: "a = a0\<lparr>al_inmatch := im, al_outmatch := om\<rparr>"
    using assms(2) unfolding pm_frame_def by blast
  then show ?thesis using dn_matched [of a0 im om] assms(1,3) by simp
qed

definition pm_ok :: "pim \<times> rng \<Rightarrow> bool" where
  "pm_ok s \<longleftrightarrow> dn_ok (fst s) \<and> rng_ok (snd s) \<and> 0 < al_inputs (fst s) \<and> 0 < al_outputs (fst s) \<and>
     matching (al_inputs (fst s)) (al_outputs (fst s)) (dn_req (fst s)) (al_inmatch (fst s)) (al_outmatch (fst s))"

lemma pim_grant_step:
  assumes a: "dn_ok a" "0 < al_inputs a" and g: "rng_ok (snd s)" and j: "0 \<le> j" "j < al_outputs a"
    and len: "vlen (fst s) = al_outputs a" and new: "vat (fst s) j = - 1"
  shows "rng_ok (snd (pim_grant a j s)) \<and> (\<exists>v. fst (pim_grant a j s) = vupd (fst s) j v \<and>
    grant_ok (dn_req a) (al_inmatch a) (al_outmatch a) j v)"
proof -
  let ?n = "al_inputs a"
  obtain off g' where off: "RandomInt (?n - 1) (snd s) = (off, g')" by (cases "RandomInt (?n - 1) (snd s)")
  from RandomInt_ok(1) [OF g off] have o: "0 \<le> off" "rng_ok g'" by auto
  define P where "P i \<longleftrightarrow> rq_label (dn_get a i j) \<noteq> - 1 \<and> vat (al_inmatch a) i = - 1 \<and> vat (al_outmatch a) j = - 1" for i
  have P: "P i \<longleftrightarrow> dn_req a i j \<and> vat (al_inmatch a) i = - 1 \<and> vat (al_outmatch a) j = - 1"
    if "0 \<le> i" "i < ?n" for i
    using that j dn_label [OF a(1) that j] by (auto simp: P_def dn_req_def)
  let ?f = "List.find (\<lambda>i. P ((i + off) smod ?n)) (range0 ?n)"
  have eq: "pim_grant a j s = (case ?f of None \<Rightarrow> fst s | Some i \<Rightarrow> vupd (fst s) j ((i + off) smod ?n), g')"
    by (simp add: pim_grant_def off P_def until_break_find)
  note rf = rot_find [OF a(2) o(1), of P]
  have same: "vupd (fst s) j (- 1) = fst s" using new len j by (intro vec_eqI) auto
  show ?thesis
  proof (cases ?f)
    case None
    then have "grant_ok (dn_req a) (al_inmatch a) (al_outmatch a) j (- 1)"
      using rf P by (auto simp: grant_ok_def dn_req_def)
    with None eq same o(2) show ?thesis by (auto intro: exI [of _ "- 1"])
  next
    case (Some i)
    with rf have i: "0 \<le> (i + off) smod ?n" "(i + off) smod ?n < ?n" "P ((i + off) smod ?n)" by auto
    with P have "grant_ok (dn_req a) (al_inmatch a) (al_outmatch a) j ((i + off) smod ?n)"
      unfolding grant_ok_def by auto
    with Some eq o(2) show ?thesis by auto
  qed
qed

lemma pim_accept_step:
  assumes m: "0 < al_outputs (fst s)" and g: "rng_ok (snd s)"
    and gr: "\<And>k. 0 \<le> k \<Longrightarrow> k < al_outputs (fst s) \<Longrightarrow> vat grants k = i \<Longrightarrow> R i k"
    and R: "\<And>i j. R i j \<Longrightarrow> 0 \<le> j \<and> j < al_outputs (fst s)"
  shows "rng_ok (snd (pim_accept grants i s)) \<and> pm_frame (fst s) (fst (pim_accept grants i s)) \<and>
    accepts R grants i (al_inmatch (fst s)) (al_outmatch (fst s))
      (al_inmatch (fst (pim_accept grants i s))) (al_outmatch (fst (pim_accept grants i s)))"
proof -
  let ?m = "al_outputs (fst s)"
  obtain off g' where off: "RandomInt (?m - 1) (snd s) = (off, g')" by (cases "RandomInt (?m - 1) (snd s)")
  from RandomInt_ok(1) [OF g off] have o: "0 \<le> off" "rng_ok g'" by auto
  let ?f = "List.find (\<lambda>k. vat grants ((k + off) smod ?m) = i) (range0 ?m)"
  let ?upd = "\<lambda>k a. a\<lparr>al_inmatch := vupd (al_inmatch a) i ((k + off) smod ?m),
                       al_outmatch := vupd (al_outmatch a) ((k + off) smod ?m) i\<rparr>"
  have eq: "pim_accept grants i s = (case ?f of None \<Rightarrow> fst s | Some k \<Rightarrow> ?upd k (fst s), g')"
    by (simp add: pim_accept_def off Let_def until_break_find)
  note rf = rot_find [OF m o(1), of "\<lambda>k. vat grants k = i"]
  show ?thesis
  proof (cases ?f)
    case None
    with rf R eq o(2) show ?thesis by (auto simp: accepts_def)
  next
    case (Some k)
    let ?j = "(k + off) smod ?m"
    from Some rf have j: "0 \<le> ?j" "?j < ?m" "vat grants ?j = i" by auto
    from Some have p: "pim_accept grants i s = (?upd k (fst s), g')" by (simp add: eq)
    have "pm_frame (fst s) (?upd k (fst s))" by (rule pm_frame_upd) simp
    moreover have "accepts R grants i (al_inmatch (fst s)) (al_outmatch (fst s))
        (vupd (al_inmatch (fst s)) i ?j) (vupd (al_outmatch (fst s)) ?j i)"
      unfolding accepts_def using gr [OF j] j(3) by blast
    ultimately show ?thesis using o(2) by (simp add: p)
  qed
qed

definition pm_step :: "pim \<times> rng \<Rightarrow> pim \<times> rng \<Rightarrow> bool" where
  "pm_step s s' \<longleftrightarrow> pm_frame (fst s) (fst s') \<and> pm_ok s' \<and>
     grows (al_inputs (fst s)) (al_outputs (fst s)) (al_inmatch (fst s)) (al_outmatch (fst s))
       (al_inmatch (fst s')) (al_outmatch (fst s')) \<and>
     (maximal (dn_req (fst s)) (al_inmatch (fst s)) (al_outmatch (fst s)) \<or>
      card (matched (al_inputs (fst s)) (al_inmatch (fst s))) < card (matched (al_inputs (fst s)) (al_inmatch (fst s'))))"

lemma dn_req_range: "dn_req a i j \<Longrightarrow> 0 \<le> i \<and> i < al_inputs a \<and> 0 \<le> j \<and> j < al_outputs a"
  by (simp add: dn_req_def)

lemma pim_iteration_ok:
  assumes ok: "pm_ok s"
  shows "pm_step s (pim_iteration iter s)"
proof -
  obtain a g0 where s: "s = (a, g0)" by (cases s)
  let ?n = "al_inputs a" and ?m = "al_outputs a" and ?R = "dn_req a"
  have a: "dn_ok a" "0 < ?n" "0 < ?m" "rng_ok g0" "matching ?n ?m ?R (al_inmatch a) (al_outmatch a)"
    using ok by (auto simp: pm_ok_def s)
  obtain grants g1 where G: "fold (pim_grant a) (range0 ?m) (unmatched ?m, g0) = (grants, g1)"
    by (cases "fold (pim_grant a) (range0 ?m) (unmatched ?m, g0)")
  have "rng_ok (snd (grants, g1)) \<and> vlen (fst (grants, g1)) = ?m \<and>
      (\<forall>j. 0 \<le> j \<and> j < ?m \<longrightarrow> grant_ok ?R (al_inmatch a) (al_outmatch a) j (vat (fst (grants, g1)) j))"
    unfolding G [symmetric]
  proof (rule grant_phase)
    fix j and s :: "int list \<times> rng" assume "rng_ok (snd s)" "0 \<le> j" "j < ?m" "vlen (fst s) = ?m" "vat (fst s) j = - 1"
    with pim_grant_step [OF a(1,2), of s j]
    show "rng_ok (snd (pim_grant a j s)) \<and>
      (\<exists>v. fst (pim_grant a j s) = vupd (fst s) j v \<and> grant_ok ?R (al_inmatch a) (al_outmatch a) j v)"
      by blast
  qed (use a in auto)
  then have g1: "rng_ok g1" and gr: "\<And>j. 0 \<le> j \<Longrightarrow> j < ?m \<Longrightarrow> grant_ok ?R (al_inmatch a) (al_outmatch a) j (vat grants j)"
    by auto
  let ?I = "\<lambda>t. pm_frame a (fst t) \<and> rng_ok (snd t)"
  let ?t = "fold (pim_accept grants) (range0 ?n) (a, g1)"
  have "?I ?t \<and> matching ?n ?m ?R (al_inmatch (fst ?t)) (al_outmatch (fst ?t)) \<and>
     grows ?n ?m (al_inmatch (fst (a, g1))) (al_outmatch (fst (a, g1))) (al_inmatch (fst ?t)) (al_outmatch (fst ?t)) \<and>
     (maximal ?R (al_inmatch (fst (a, g1))) (al_outmatch (fst (a, g1))) \<or>
      card (matched ?n (al_inmatch (fst (a, g1)))) < card (matched ?n (al_inmatch (fst ?t))))"
  proof (rule accept_phase [where I = ?I and m = ?m and R = ?R and g = grants and
        IM = "\<lambda>t. al_inmatch (fst t)" and OM = "\<lambda>t. al_outmatch (fst t)"])
    fix i t assume I: "?I t" and i: "0 \<le> i" "i < ?n"
    note fr = pm_frameD [OF conjunct1 [OF I]]
    have "rng_ok (snd (pim_accept grants i t)) \<and> pm_frame (fst t) (fst (pim_accept grants i t)) \<and>
      accepts ?R grants i (al_inmatch (fst t)) (al_outmatch (fst t))
        (al_inmatch (fst (pim_accept grants i t))) (al_outmatch (fst (pim_accept grants i t)))"
    proof (rule pim_accept_step)
      fix k assume "0 \<le> k" "k < al_outputs (fst t)" "vat grants k = i"
      with gr [of k] fr i show "?R i k" by (auto simp: grant_ok_def split: if_splits)
    qed (use I a fr dn_req_range [of a] in auto)
    with I show "?I (pim_accept grants i t) \<and> accepts ?R grants i (al_inmatch (fst t)) (al_outmatch (fst t))
        (al_inmatch (fst (pim_accept grants i t))) (al_outmatch (fst (pim_accept grants i t)))"
      using pm_frame_trans by blast
  qed (use a g1 gr dn_req_range [of a] in auto)
  moreover have "pim_iteration iter s = ?t" by (simp add: pim_iteration_def s G Let_def)
  ultimately show ?thesis
    using a dn_ok_frame [of a "fst ?t"] pm_frameD [of a "fst ?t"] by (simp add: pm_step_def pm_ok_def s)
qed

section \<open>The contract\<close>

definition pm_at :: "pim \<times> rng \<Rightarrow> pim \<times> rng \<Rightarrow> bool" where
  "pm_at s0 s \<longleftrightarrow> pm_frame (fst s0) (fst s) \<and> pm_ok s"

lemma pm_at_iteration: "pm_at s0 s \<Longrightarrow> pm_at s0 (pim_iteration iter s)"
  using pim_iteration_ok [of s iter] pm_frame_trans unfolding pm_at_def pm_step_def by blast

lemma pim_Allocate_ok: "pm_ok s \<Longrightarrow> pm_at s (pim_Allocate s)"
  unfolding pim_Allocate_def
  by (rule fold_inv [where P = "pm_at s"]) (simp_all add: pm_at_iteration, simp add: pm_at_def)

lemma pim_Allocate_maximal:
  assumes ok: "pm_ok s" and iters: "min (al_inputs (fst s)) (al_outputs (fst s)) \<le> pm_iter (fst s)"
  shows "maximal (dn_req (fst s)) (al_inmatch (fst (pim_Allocate s))) (al_outmatch (fst (pim_Allocate s)))"
  unfolding pim_Allocate_def
proof (rule maximal_by_iteration [where I = "pm_at s" and n = "al_inputs (fst s)" and m = "al_outputs (fst s)"
      and im = "\<lambda>t. al_inmatch (fst t)" and om = "\<lambda>t. al_outmatch (fst t)"])
  fix k t assume t: "pm_at s t"
  then have "pm_step t (pim_iteration k t)" using pim_iteration_ok by (simp add: pm_at_def)
  moreover have "al_inputs (fst t) = al_inputs (fst s)" "al_outputs (fst t) = al_outputs (fst s)"
    "dn_req (fst t) = dn_req (fst s)"
    using t pm_frameD [of "fst s" "fst t"] by (auto simp: pm_at_def)
  ultimately show "pm_at s (pim_iteration k t) \<and>
      grows (al_inputs (fst s)) (al_outputs (fst s)) (al_inmatch (fst t)) (al_outmatch (fst t))
        (al_inmatch (fst (pim_iteration k t))) (al_outmatch (fst (pim_iteration k t))) \<and>
      (maximal (dn_req (fst s)) (al_inmatch (fst t)) (al_outmatch (fst t)) \<or>
       card (matched (al_inputs (fst s)) (al_inmatch (fst t)))
         < card (matched (al_inputs (fst s)) (al_inmatch (fst (pim_iteration k t)))))"
    using pm_at_iteration [OF t, of k] unfolding pm_step_def by simp
next
  fix t assume "pm_at s t"
  then show "matching (al_inputs (fst s)) (al_outputs (fst s)) (dn_req (fst s)) (al_inmatch (fst t)) (al_outmatch (fst t))"
    using pm_frameD [of "fst s" "fst t"] by (auto simp: pm_at_def pm_ok_def)
next
  have "0 \<le> pm_iter (fst s)" using ok iters by (auto simp: pm_ok_def)
  with iters show "min (al_inputs (fst s)) (al_outputs (fst s)) \<le> vlen (range0 (pm_iter (fst s)))" by simp
qed (use ok dn_req_range [of "fst s"] in \<open>auto simp: pm_at_def\<close>)

lemma pim_add_frame:
  "Dense_AddRequest i j l p q a = Inr a' \<Longrightarrow>
     pm_iter a' = pm_iter a \<and> al_inputs a' = al_inputs a \<and> al_outputs a' = al_outputs a"
  by (auto simp: Dense_AddRequest_def Allocator_AddRequest_def bnd_Inr_iff dn_put_def)

lemma pm_ok_add:
  assumes "pm_ok s" "0 \<le> i" "i < al_inputs (fst s)" "0 \<le> j" "j < al_outputs (fst s)" "0 \<le> label" "\<not> dn_req (fst s) i j"
  shows "\<exists>s'. pim_AddRequest i j label ip op s = Inr s' \<and> pm_ok s' \<and> al_inputs (fst s') = al_inputs (fst s) \<and>
     al_outputs (fst s') = al_outputs (fst s) \<and> al_inmatch (fst s') = al_inmatch (fst s) \<and>
     al_outmatch (fst s') = al_outmatch (fst s) \<and> (\<forall>k l. dn_req (fst s') k l \<longleftrightarrow> dn_req (fst s) k l \<or> k = i \<and> l = j)"
proof -
  have "dn_ok (fst s)" using assms(1) by (simp add: pm_ok_def)
  from dn_add [OF this assms(2-7), of ip op] obtain a' where
    a': "Dense_AddRequest i j label ip op (fst s) = Inr a'" "dn_ok a'" "al_inputs a' = al_inputs (fst s)"
      "al_outputs a' = al_outputs (fst s)" "al_inmatch a' = al_inmatch (fst s)" "al_outmatch a' = al_outmatch (fst s)"
      "\<And>k l. dn_req a' k l \<longleftrightarrow> dn_req (fst s) k l \<or> k = i \<and> l = j" by blast
  have "matching (al_inputs (fst s)) (al_outputs (fst s)) (dn_req a') (al_inmatch (fst s)) (al_outmatch (fst s))"
    by (rule matching_mono [where R = "dn_req (fst s)"]) (use assms(1) a'(7) in \<open>auto simp: pm_ok_def\<close>)
  with a' assms(1) show ?thesis
    by (intro exI [of _ "(a', snd s)"]) (simp add: pim_AddRequest_def pm_ok_def)
qed

lemma pm_ok_clear: "pm_ok s \<Longrightarrow> pm_ok (pim_Clear s)"
  using dn_clear [of "fst s"] matching_unmatched [of "al_inputs (fst s)" "al_outputs (fst s)"]
  by (simp add: pm_ok_def pim_Clear_def)

interpretation pm: allocator_contract pm_ok pm_ok "\<lambda>s. al_inputs (fst s)" "\<lambda>s. al_outputs (fst s)"
  "\<lambda>s. dn_req (fst s)" "\<lambda>s. al_inmatch (fst s)" "\<lambda>s. al_outmatch (fst s)"
  pim_AddRequest "\<lambda>s. Inr (pim_Allocate s)" pim_Clear
proof (unfold_locales, goal_cases)
  case (1 s)
  then show ?case using dn_clear [of "fst s"] pm_ok_clear [of s] by (simp add: pm_ok_def pim_Clear_def)
next
  case (2 s i j label ip op)
  then show ?case by (rule pm_ok_add)
next
  case (3 s)
  then show ?case
    using pim_Allocate_ok [of s] pm_frameD [of "fst s" "fst (pim_Allocate s)"] by (auto simp: pm_at_def pm_ok_def)
qed

interpretation pmm: maximal_allocator pm_ok pm_ok "\<lambda>s. al_inputs (fst s)" "\<lambda>s. al_outputs (fst s)"
  "\<lambda>s. dn_req (fst s)" "\<lambda>s. al_inmatch (fst s)" "\<lambda>s. al_outmatch (fst s)"
  pim_AddRequest "\<lambda>s. Inr (pim_Allocate s)" pim_Clear
  "\<lambda>s. min (al_inputs (fst s)) (al_outputs (fst s)) \<le> pm_iter (fst s)"
proof (unfold_locales, goal_cases)
  case (1 s)
  then show ?case by (simp add: pim_Clear_def Dense_Clear_def Allocator_Clear_def)
next
  case (2 s i j label ip op s')
  then show ?case
    using pim_add_frame [of i j label ip op "fst s" "fst s'"] by (auto simp: pim_AddRequest_def bnd_Inr_iff)
next
  case (3 s s')
  then show ?case using pim_Allocate_maximal [of s] by auto
qed

lemma pm_new:
  assumes "0 < n" "0 < m" "rng_ok g"
  shows "pm_ok (new_PIM n m iters, g)"
proof -
  have "dn_ok (new_PIM n m iters)" using dn_new [of n m] assms by (simp add: new_PIM_def)
  moreover have "al_inputs (new_PIM n m iters) = n" "al_outputs (new_PIM n m iters) = m"
    "al_inmatch (new_PIM n m iters) = unmatched n" "al_outmatch (new_PIM n m iters) = unmatched m"
    by (simp_all add: new_PIM_def dense.defs pim.defs new_DenseAllocator_def new_Allocator_def allocator.defs)
  ultimately show ?thesis using assms by (simp add: pm_ok_def matching_unmatched)
qed

section \<open>Properties\<close>

text \<open>
  C5: A PIM allocation cycle yields a matching of the requests whatever the random draws are, and a
  maximal one when it has at least as many iterations as there are ports on the smaller side.
\<close>

theorem pim_cycle:
  assumes "pm_ok s" "good_pairs (al_inputs (fst s)) (al_outputs (fst s)) rs"
  shows "\<exists>s'. alloc_cycle pim_AddRequest (\<lambda>s. Inr (pim_Allocate s)) pim_Clear rs s = Inr s' \<and> pm_ok s' \<and>
    matching (al_inputs (fst s)) (al_outputs (fst s)) (req_pairs rs) (al_inmatch (fst s')) (al_outmatch (fst s')) \<and>
    (min (al_inputs (fst s)) (al_outputs (fst s)) \<le> pm_iter (fst s) \<longrightarrow>
     maximal (req_pairs rs) (al_inmatch (fst s')) (al_outmatch (fst s')))"
  using pm.cycle_ok [OF assms(1) assms(2)] pmm.cycle_maximal [OF assms(1) assms(2)] by blast

theorem pim_cycle_witness:
  "\<exists>s'. alloc_cycle pim_AddRequest (\<lambda>s. Inr (pim_Allocate s)) pim_Clear
      [(0, 0, 1, 0, 0), (0, 1, 1, 0, 0), (1, 0, 1, 0, 0)] (new_PIM 2 2 2, new_rng) = Inr s' \<and> pm_ok s' \<and>
    matching 2 2 (req_pairs [(0, 0, 1, 0, 0), (0, 1, 1, 0, 0), (1, 0, 1, 0, 0)]) (al_inmatch (fst s')) (al_outmatch (fst s')) \<and>
    maximal (req_pairs [(0, 0, 1, 0, 0), (0, 1, 1, 0, 0), (1, 0, 1, 0, 0)]) (al_inmatch (fst s')) (al_outmatch (fst s'))"
proof -
  have "al_inputs (new_PIM 2 2 2) = 2" "al_outputs (new_PIM 2 2 2) = 2" "pm_iter (new_PIM 2 2 2) = 2"
    by (simp_all add: new_PIM_def dense.defs pim.defs new_DenseAllocator_def new_Allocator_def allocator.defs)
  moreover have "good_pairs 2 2 [(0, 0, 1, 0, 0), (0, 1, 1, 0, 0), (1, 0, 1, 0, 0)]"
    by (simp add: good_pairs_def)
  ultimately show ?thesis
    using pim_cycle [OF pm_new [of 2 2 new_rng 2], of "[(0, 0, 1, 0, 0), (0, 1, 1, 0, 0), (1, 0, 1, 0, 0)]"]
      new_rng_ok by simp
qed

end
