(* ===== verification/Loa.thy ===== *)
theory Loa
  imports Pim
begin

text \<open>
  \<^verbatim>\<open>LOA\<close> (\<^verbatim>\<open>loa.cpp\<close>), the lonely output allocator: every input requests the output with the fewest
  requesters among those it wants, every output grants one of the inputs that requested it.
\<close>

section \<open>The algorithm\<close>

record loa = dense +
  lo_counts :: "int list"
  lo_req :: "int list"
  lo_rptr :: "int list"
  lo_gptr :: "int list"

definition new_LOA :: "int \<Rightarrow> int \<Rightarrow> loa" where
  "new_LOA n m = dense.extend (new_DenseAllocator n m)
     (loa.fields (replicate (nat m) 0) (replicate (nat n) 0) (replicate (nat n) 0) (replicate (nat m) 0))"

definition loa_count :: "int \<Rightarrow> loa \<Rightarrow> loa" where
  "loa_count j a = a\<lparr>lo_counts := vupd (lo_counts a) j
     (fold (\<lambda>i c. c + (if rq_label (dn_get a i j) \<noteq> - 1 then 1 else 0)) (range0 (al_inputs a)) 0)\<rparr>"

definition loa_request :: "int \<Rightarrow> loa \<Rightarrow> loa" where
  "loa_request input a =
     (let output_offset = vat (lo_rptr a) input;
          lonely = fst (fold (\<lambda>k s.
             let output = (k + output_offset) smod al_outputs a in
             if rq_label (dn_get a input output) \<noteq> - 1 \<and> vat (lo_counts a) output < snd s
             then (output, vat (lo_counts a) output) else s) (range0 (al_outputs a)) (- 1, al_inputs a + 1))
      in a\<lparr>lo_req := vupd (lo_req a) input lonely\<rparr>)"

definition loa_grant :: "int \<Rightarrow> loa \<Rightarrow> loa" where
  "loa_grant output a =
     (let input_offset = vat (lo_gptr a) output; n = al_inputs a in
      until_break (\<lambda>i a.
        if vat (lo_req a) ((i + input_offset) smod n) = output then
          (True, let input = (i + input_offset) smod n in
             a\<lparr>al_inmatch := vupd (al_inmatch a) input output,
               al_outmatch := vupd (al_outmatch a) output input,
               lo_rptr := vupd (lo_rptr a) input ((vat (lo_rptr a) input + 1) smod al_outputs a),
               lo_gptr := vupd (lo_gptr a) output ((vat (lo_gptr a) output + 1) smod al_inputs a)\<rparr>)
        else (False, a)) (range0 n) a)"

definition loa_Allocate :: "loa \<Rightarrow> loa" where
  "loa_Allocate a =
     (let a = fold loa_count (range0 (al_outputs a)) a;
          a = fold loa_request (range0 (al_inputs a)) a
      in fold loa_grant (range0 (al_outputs a)) a)"

section \<open>Counting and requesting\<close>

definition requesters :: "'a dense_scheme \<Rightarrow> int \<Rightarrow> int" where
  "requesters a j = int (card {i. dn_req a i j})"

lemma loa_frame [simp]:
  "dn_get (a\<lparr>lo_counts := c\<rparr>) = dn_get a" "dn_get (a\<lparr>lo_req := r\<rparr>) = dn_get a"
  "dn_get (a\<lparr>lo_rptr := c\<rparr>) = dn_get a" "dn_get (a\<lparr>lo_gptr := r\<rparr>) = dn_get a"
  "dn_req (a\<lparr>lo_counts := c\<rparr>) = dn_req a" "dn_req (a\<lparr>lo_req := r\<rparr>) = dn_req a"
  "dn_req (a\<lparr>lo_rptr := c\<rparr>) = dn_req a" "dn_req (a\<lparr>lo_gptr := r\<rparr>) = dn_req a"
  "dn_ok (a\<lparr>lo_counts := c\<rparr>) = dn_ok a" "dn_ok (a\<lparr>lo_req := r\<rparr>) = dn_ok a"
  "dn_ok (a\<lparr>lo_rptr := c\<rparr>) = dn_ok a" "dn_ok (a\<lparr>lo_gptr := r\<rparr>) = dn_ok a"
  by (simp_all add: dn_get_def dn_req_def dn_ok_def al_ok_def fun_eq_iff)

lemma requesters_bound:
  assumes "0 \<le> al_inputs a"
  shows "requesters a j \<le> al_inputs a"
proof -
  have "{i. dn_req a i j} \<subseteq> {0..<al_inputs a}" by (auto simp: dn_req_def)
  then have "card {i. dn_req a i j} \<le> card {0..<al_inputs a}" by (intro card_mono) auto
  then show ?thesis using assms by (simp add: requesters_def)
qed

lemma loa_count_value:
  assumes "dn_ok a" "0 \<le> j" "j < al_outputs a"
  shows "fold (\<lambda>i c. c + (if rq_label (dn_get a i j) \<noteq> - 1 then 1 else 0)) (range0 (al_inputs a)) 0 = requesters a j"
proof -
  have "fold (\<lambda>i c. c + (if rq_label (dn_get a i j) \<noteq> - 1 then 1 else 0)) xs k = k + int (length (filter (\<lambda>i. rq_label (dn_get a i j) \<noteq> - 1) xs))"
    for xs and k :: int by (induction xs arbitrary: k) auto
  moreover have "length (filter (\<lambda>i. rq_label (dn_get a i j) \<noteq> - 1) (range0 (al_inputs a))) =
      card (set (filter (\<lambda>i. rq_label (dn_get a i j) \<noteq> - 1) (range0 (al_inputs a))))"
    by (rule distinct_card [symmetric]) simp
  moreover have "set (filter (\<lambda>i. rq_label (dn_get a i j) \<noteq> - 1) (range0 (al_inputs a))) = {i. dn_req a i j}"
    using assms dn_label [OF assms(1)] by (force simp: dn_req_def)
  ultimately show ?thesis by (simp add: requesters_def)
qed

text \<open>A loop that writes one entry per iteration of a vector field \<open>F\<close>, from values that do not depend on it.\<close>

lemma fill_phase:
  assumes len: "vlen v0 = n" and n: "0 \<le> n"
    and step: "\<And>k v. 0 \<le> k \<Longrightarrow> k < n \<Longrightarrow> vlen v = n \<Longrightarrow> f k (F v) = F (vupd v k (h k))"
  shows "\<exists>v. fold f (range0 n) (F v0) = F v \<and> vlen v = n \<and> (\<forall>k. 0 \<le> k \<and> k < n \<longrightarrow> vat v k = h k)"
proof -
  define P where "P seen s \<longleftrightarrow> (\<exists>v. s = F v \<and> vlen v = n \<and> (\<forall>k. 0 \<le> k \<and> k < n \<and> k \<in> set seen \<longrightarrow> vat v k = h k))" for seen s
  have "P (range0 n) (fold f (range0 n) (F v0))"
  proof (rule fold_prefix [where P = P])
    show "P [] (F v0)" using len by (auto simp: P_def)
  next
    fix seen k rest s assume split: "range0 n = seen @ k # rest" and s: "P seen s"
    have "k \<in> set (range0 n)" by (simp add: split)
    then have k: "0 \<le> k" "k < n" by auto
    from s obtain v where v: "s = F v" "vlen v = n" "\<forall>k. 0 \<le> k \<and> k < n \<and> k \<in> set seen \<longrightarrow> vat v k = h k"
      by (auto simp: P_def)
    then show "P (seen @ [k]) (f k s)"
      unfolding P_def using step [OF k v(2)] k by (intro exI [of _ "vupd v k (h k)"]) auto
  qed
  then show ?thesis by (auto simp: P_def)
qed

text \<open>The lonely output of an input.\<close>

definition lonely_ok :: "loa \<Rightarrow> int \<Rightarrow> int \<Rightarrow> bool" where
  "lonely_ok a i q \<longleftrightarrow>
     (if \<exists>j. dn_req a i j then dn_req a i q \<and> (\<forall>j. dn_req a i j \<longrightarrow> requesters a q \<le> requesters a j) else q = - 1)"

lemma lonely_value:
  assumes a: "dn_ok a" "0 \<le> i" "i < al_inputs a" "0 < al_outputs a"
    and cnt: "\<And>j. 0 \<le> j \<Longrightarrow> j < al_outputs a \<Longrightarrow> vat c j = requesters a j" and off: "0 \<le> off"
  shows "lonely_ok a i (fst (fold (\<lambda>k s.
             let output = (k + off) smod al_outputs a in
             if rq_label (dn_get a i output) \<noteq> - 1 \<and> vat c output < snd s
             then (output, vat c output) else s) (range0 (al_outputs a)) (- 1, al_inputs a + 1)))"
proof -
  let ?m = "al_outputs a" and ?n = "al_inputs a"
  let ?rot = "\<lambda>k. (k + off) smod ?m"
  define f where "f = (\<lambda>k s. let output = ?rot k in
             if rq_label (dn_get a i output) \<noteq> - 1 \<and> vat c output < snd s
             then (output, vat c output) else s)"
  define P where "P seen s \<longleftrightarrow>
     (if \<exists>k \<in> set seen. dn_req a i (?rot k)
      then dn_req a i (fst s) \<and> snd s = requesters a (fst s) \<and>
        (\<forall>k \<in> set seen. dn_req a i (?rot k) \<longrightarrow> requesters a (fst s) \<le> requesters a (?rot k))
      else s = (- 1, ?n + 1))" for seen :: "int list" and s
  have "P (range0 ?m) (fold f (range0 ?m) (- 1, ?n + 1))"
  proof (rule fold_prefix [where P = P])
    show "P [] (- 1, ?n + 1)" by (simp add: P_def)
  next
    fix seen k rest s assume split: "range0 ?m = seen @ k # rest" and s: "P seen s"
    have "k \<in> set (range0 ?m)" by (simp add: split)
    then have r: "0 \<le> ?rot k" "?rot k < ?m" using rot_image [OF a(4) off] by auto
    have lab: "rq_label (dn_get a i (?rot k)) \<noteq> - 1 \<longleftrightarrow> dn_req a i (?rot k)"
      using dn_label [OF a(1-3) r] a r by (auto simp: dn_req_def)
    have c: "vat c (?rot k) = requesters a (?rot k)" by (rule cnt [OF r])
    have "requesters a (?rot k) < ?n + 1" using requesters_bound [of a] a by (smt (verit))
    then show "P (seen @ [k]) (f k s)"
      using s unfolding P_def f_def Let_def lab c by (auto split: if_splits)
  qed
  moreover define r where "r = fold f (range0 ?m) (- 1, ?n + 1)"
  have im: "{j. dn_req a i j} \<subseteq> ?rot ` set (range0 ?m)"
    unfolding rot_image [OF a(4) off] by (auto simp: dn_req_def)
  have "(\<exists>k \<in> set (range0 ?m). dn_req a i (?rot k)) \<longleftrightarrow> (\<exists>j. dn_req a i j)" using im by blast
  moreover have "(\<forall>k \<in> set (range0 ?m). dn_req a i (?rot k) \<longrightarrow> requesters a (fst r) \<le> requesters a (?rot k)) \<longleftrightarrow>
      (\<forall>j. dn_req a i j \<longrightarrow> requesters a (fst r) \<le> requesters a j)" using im by blast
  ultimately show ?thesis
    unfolding P_def lonely_ok_def f_def [symmetric] r_def [symmetric] by (metis fst_conv)
qed

section \<open>Granting\<close>

definition lo_ptrs :: "loa \<Rightarrow> bool" where
  "lo_ptrs a \<longleftrightarrow> vlen (lo_rptr a) = al_inputs a \<and> vlen (lo_gptr a) = al_outputs a \<and>
     (\<forall>x \<in> set (lo_rptr a). 0 \<le> x) \<and> (\<forall>x \<in> set (lo_gptr a). 0 \<le> x)"

definition lo_ok :: "loa \<Rightarrow> bool" where
  "lo_ok a \<longleftrightarrow> dn_ok a \<and> 0 < al_inputs a \<and> 0 < al_outputs a \<and>
     matching (al_inputs a) (al_outputs a) (dn_req a) (al_inmatch a) (al_outmatch a) \<and>
     vlen (lo_counts a) = al_outputs a \<and> vlen (lo_req a) = al_inputs a \<and> lo_ptrs a"

definition lo_frame :: "loa \<Rightarrow> loa \<Rightarrow> bool" where
  "lo_frame a0 a \<longleftrightarrow> (\<exists>im om rp gp.
     a = a0\<lparr>al_inmatch := im, al_outmatch := om, lo_rptr := rp, lo_gptr := gp\<rparr>)"

lemma lo_frameD:
  assumes "lo_frame a0 a"
  shows "al_inputs a = al_inputs a0" "al_outputs a = al_outputs a0" "dn_req a = dn_req a0" "lo_req a = lo_req a0"
    "lo_counts a = lo_counts a0"
  using assms by (auto simp: lo_frame_def)

lemma lo_frame_refl: "lo_frame a a"
  unfolding lo_frame_def by (rule exI [of _ "al_inmatch a"], rule exI [of _ "al_outmatch a"],
      rule exI [of _ "lo_rptr a"], rule exI [of _ "lo_gptr a"]) simp

lemma lo_frame_upd:
  "lo_frame a0 a \<Longrightarrow> lo_frame a0 (a\<lparr>al_inmatch := im, al_outmatch := om, lo_rptr := rp, lo_gptr := gp\<rparr>)"
  by (fastforce simp: lo_frame_def)

lemma dn_ok_lo_frame:
  assumes "dn_ok a0" "lo_frame a0 a" "matching (al_inputs a0) (al_outputs a0) (dn_req a0) (al_inmatch a) (al_outmatch a)"
  shows "dn_ok a"
proof -
  obtain im om rp gp where a: "a = a0\<lparr>al_inmatch := im, al_outmatch := om, lo_rptr := rp, lo_gptr := gp\<rparr>"
    using assms(2) unfolding lo_frame_def by blast
  then show ?thesis using dn_matched [of a0 im om] assms(1,3) by simp
qed

definition lo_granted :: "loa \<Rightarrow> int list \<Rightarrow> loa \<Rightarrow> bool" where
  "lo_granted a0 seen a \<longleftrightarrow> lo_frame a0 a \<and> lo_ptrs a \<and>
     matching (al_inputs a0) (al_outputs a0) (dn_req a0) (al_inmatch a) (al_outmatch a) \<and>
     (\<forall>i. 0 \<le> i \<and> i < al_inputs a0 \<and> vat (al_inmatch a) i \<noteq> - 1 \<longrightarrow>
        vat (al_inmatch a) i = vat (lo_req a0) i \<and> vat (al_inmatch a) i \<in> set seen) \<and>
     (\<forall>j. 0 \<le> j \<and> j < al_outputs a0 \<longrightarrow>
        (if j \<in> set seen then (\<forall>i. 0 \<le> i \<and> i < al_inputs a0 \<and> vat (lo_req a0) i = j \<longrightarrow> vat (al_outmatch a) j \<noteq> - 1)
         else vat (al_outmatch a) j = - 1))"

lemma lo_ptrs_upd:
  assumes "lo_ptrs a" "0 \<le> i" "i < al_inputs a" "0 \<le> j" "j < al_outputs a"
  shows "lo_ptrs (a\<lparr>al_inmatch := im, al_outmatch := om,
    lo_rptr := vupd (lo_rptr a) i ((vat (lo_rptr a) i + 1) smod al_outputs a),
    lo_gptr := vupd (lo_gptr a) j ((vat (lo_gptr a) j + 1) smod al_inputs a)\<rparr>)"
proof -
  have p: "vlen (lo_rptr a) = al_inputs a" "vlen (lo_gptr a) = al_outputs a"
    "\<forall>x \<in> set (lo_rptr a). 0 \<le> x" "\<forall>x \<in> set (lo_gptr a). 0 \<le> x" using assms(1) unfolding lo_ptrs_def by blast+
  have "0 \<le> vat (lo_rptr a) i" by (rule ball_vat [OF p(3) assms(2)]) (use p(1) assms(3) in simp)
  moreover have "0 \<le> vat (lo_gptr a) j" by (rule ball_vat [OF p(4) assms(4)]) (use p(2) assms(5) in simp)
  ultimately have "0 \<le> (vat (lo_rptr a) i + 1) smod al_outputs a" "0 \<le> (vat (lo_gptr a) j + 1) smod al_inputs a"
    using assms by simp_all
  note all = ball_vupd [OF p(3) this(1), of i] ball_vupd [OF p(4) this(2), of j]
  have "lo_ptrs (a\<lparr>al_inmatch := im, al_outmatch := om, lo_rptr := rp, lo_gptr := gp\<rparr>) \<longleftrightarrow>
      vlen rp = al_inputs a \<and> vlen gp = al_outputs a \<and> (\<forall>x \<in> set rp. 0 \<le> x) \<and> (\<forall>x \<in> set gp. 0 \<le> x)" for rp gp
    by (simp add: lo_ptrs_def)
  then show ?thesis using p(1,2) all by (simp only: vlen_simps)
qed

lemma loa_grant_step:
  assumes G: "lo_granted a0 seen a" and j: "0 \<le> j" "j < al_outputs a0" "j \<notin> set seen" and n: "0 < al_inputs a0"
    and q: "\<And>i. 0 \<le> i \<Longrightarrow> i < al_inputs a0 \<Longrightarrow> lonely_ok a0 i (vat (lo_req a0) i)"
  shows "lo_granted a0 (seen @ [j]) (loa_grant j a)"
proof -
  let ?n = "al_inputs a0" and ?m = "al_outputs a0" and ?Q = "lo_req a0"
  have fr: "lo_frame a0 a" and ptrs: "lo_ptrs a" using G by (auto simp: lo_granted_def)
  note frD = lo_frameD [OF fr]
  have "0 \<le> vat (lo_gptr a) j" using ptrs frD j ball_vat [of "lo_gptr a" "\<lambda>x. 0 \<le> x" j] by (simp add: lo_ptrs_def)
  note rf = rot_find [OF n this, of "\<lambda>i. vat ?Q i = j"]
  let ?off = "vat (lo_gptr a) j"
  let ?f = "List.find (\<lambda>i. vat ?Q ((i + ?off) smod ?n) = j) (range0 ?n)"
  define upd where "upd i = a\<lparr>al_inmatch := vupd (al_inmatch a) i j, al_outmatch := vupd (al_outmatch a) j i,
     lo_rptr := vupd (lo_rptr a) i ((vat (lo_rptr a) i + 1) smod al_outputs a),
     lo_gptr := vupd (lo_gptr a) j ((vat (lo_gptr a) j + 1) smod al_inputs a)\<rparr>" for i
  have eq: "loa_grant j a = (case ?f of None \<Rightarrow> a | Some i \<Rightarrow> upd ((i + ?off) smod ?n))"
    by (simp add: loa_grant_def Let_def until_break_find frD upd_def split: option.splits)
  show ?thesis
  proof (cases ?f)
    case None
    with rf have "vat ?Q i \<noteq> j" if "0 \<le> i" "i < ?n" for i using that by auto
    then show ?thesis using G None eq unfolding lo_granted_def by auto
  next
    case (Some k)
    define i where "i = (k + ?off) smod ?n"
    from Some rf have i: "0 \<le> i" "i < ?n" "vat ?Q i = j" by (auto simp: i_def)
    have M: "matching ?n ?m (dn_req a0) (al_inmatch a) (al_outmatch a)"
      and lens: "vlen (al_inmatch a) = ?n" "vlen (al_outmatch a) = ?m"
      using G by (auto simp: lo_granted_def matching_def)
    have free: "vat (al_outmatch a) j = - 1" "vat (al_inmatch a) i = - 1"
      using G i j unfolding lo_granted_def by auto
    have R: "dn_req a0 i j" using q [OF i(1,2)] i(3) j(1) by (auto simp: lonely_ok_def split: if_splits)
    have M': "matching ?n ?m (dn_req a0) (vupd (al_inmatch a) i j) (vupd (al_outmatch a) j i)"
      by (rule matching_add [OF M i(1,2) j(1,2) R free(2,1)])
    have "lo_frame a0 (upd i)" unfolding upd_def by (rule lo_frame_upd [OF fr])
    moreover have "lo_ptrs (upd i)" unfolding upd_def using ptrs i j frD by (intro lo_ptrs_upd) auto
    moreover have "loa_grant j a = upd i" using eq Some by (simp add: i_def)
    ultimately show ?thesis
      using G M' i j lens unfolding lo_granted_def by (auto simp: upd_def)
  qed
qed

section \<open>Allocation\<close>

definition loa_served :: "loa \<Rightarrow> loa \<Rightarrow> bool" where
  "loa_served a a' \<longleftrightarrow> (\<forall>i. (\<exists>j. dn_req a i j) \<longrightarrow>
     (\<exists>q. dn_req a i q \<and> (\<forall>j. dn_req a i j \<longrightarrow> requesters a q \<le> requesters a j) \<and> vat (al_outmatch a') q \<noteq> - 1))"

lemma loa_phase1:
  assumes "dn_ok a" "vlen (lo_counts a) = al_outputs a"
  shows "\<exists>c. fold loa_count (range0 (al_outputs a)) a = a\<lparr>lo_counts := c\<rparr> \<and> vlen c = al_outputs a \<and>
    (\<forall>j. 0 \<le> j \<and> j < al_outputs a \<longrightarrow> vat c j = requesters a j)"
proof -
  have m: "0 \<le> al_outputs a" using assms(1) by (simp add: dn_ok_def al_ok_def)
  have "\<exists>c. fold loa_count (range0 (al_outputs a)) (a\<lparr>lo_counts := lo_counts a\<rparr>) = a\<lparr>lo_counts := c\<rparr> \<and>
      vlen c = al_outputs a \<and> (\<forall>j. 0 \<le> j \<and> j < al_outputs a \<longrightarrow> vat c j = requesters a j)"
    by (rule fill_phase [OF assms(2) m, where F = "\<lambda>c. a\<lparr>lo_counts := c\<rparr>"])
      (simp add: loa_count_def loa_count_value [OF assms(1)])
  then show ?thesis by simp
qed

lemma loa_phase2:
  assumes a: "dn_ok a" "vlen (lo_req a) = al_inputs a" "0 < al_outputs a" "lo_ptrs a"
    and cnt: "\<And>j. 0 \<le> j \<Longrightarrow> j < al_outputs a \<Longrightarrow> vat (lo_counts a) j = requesters a j"
  shows "\<exists>q. fold loa_request (range0 (al_inputs a)) a = a\<lparr>lo_req := q\<rparr> \<and> vlen q = al_inputs a \<and>
    (\<forall>i. 0 \<le> i \<and> i < al_inputs a \<longrightarrow> lonely_ok a i (vat q i))"
proof -
  have n: "0 \<le> al_inputs a" using a(1) by (simp add: dn_ok_def al_ok_def)
  define h where "h i = fst (fold (\<lambda>k s.
             let output = (k + vat (lo_rptr a) i) smod al_outputs a in
             if rq_label (dn_get a i output) \<noteq> - 1 \<and> vat (lo_counts a) output < snd s
             then (output, vat (lo_counts a) output) else s) (range0 (al_outputs a)) (- 1, al_inputs a + 1))" for i
  have "\<exists>q. fold loa_request (range0 (al_inputs a)) (a\<lparr>lo_req := lo_req a\<rparr>) = a\<lparr>lo_req := q\<rparr> \<and>
      vlen q = al_inputs a \<and> (\<forall>i. 0 \<le> i \<and> i < al_inputs a \<longrightarrow> vat q i = h i)"
    by (rule fill_phase [OF a(2) n, where F = "\<lambda>c. a\<lparr>lo_req := c\<rparr>"]) (simp add: loa_request_def h_def Let_def cong: if_cong)
  moreover have "lonely_ok a i (h i)" if "0 \<le> i" "i < al_inputs a" for i
    unfolding h_def
  proof (rule lonely_value [OF a(1) that a(3) cnt])
    show "0 \<le> vat (lo_rptr a) i"
      using a(4) that ball_vat [of "lo_rptr a" "\<lambda>x. 0 \<le> x" i] by (simp add: lo_ptrs_def)
  qed
  moreover have "a\<lparr>lo_req := lo_req a\<rparr> = a" by simp
  ultimately show ?thesis by metis
qed

lemma lonely_ok_frame [simp]: "lonely_ok (a\<lparr>lo_req := q\<rparr>) = lonely_ok a" "requesters (a\<lparr>lo_counts := c\<rparr>) = requesters a"
  "requesters (a\<lparr>lo_req := c\<rparr>) = requesters a" "lonely_ok (a\<lparr>lo_counts := q\<rparr>) = lonely_ok a"
  by (simp_all add: lonely_ok_def requesters_def fun_eq_iff)

lemma loa_Allocate_ok:
  assumes ok: "lo_ok a" and im: "al_inmatch a = unmatched (al_inputs a)" and om: "al_outmatch a = unmatched (al_outputs a)"
  shows "lo_ok (loa_Allocate a) \<and> al_inputs (loa_Allocate a) = al_inputs a \<and> al_outputs (loa_Allocate a) = al_outputs a \<and>
    matching (al_inputs a) (al_outputs a) (dn_req a) (al_inmatch (loa_Allocate a)) (al_outmatch (loa_Allocate a)) \<and>
    loa_served a (loa_Allocate a)"
proof -
  let ?n = "al_inputs a" and ?m = "al_outputs a"
  have a: "dn_ok a" "0 < ?n" "0 < ?m" "vlen (lo_counts a) = ?m" "vlen (lo_req a) = ?n" "lo_ptrs a"
    using ok by (auto simp: lo_ok_def)
  from loa_phase1 [OF a(1,4)] obtain c where
    c: "fold loa_count (range0 ?m) a = a\<lparr>lo_counts := c\<rparr>" "vlen c = ?m"
      "\<And>j. 0 \<le> j \<Longrightarrow> j < ?m \<Longrightarrow> vat c j = requesters a j" by blast
  have "lo_ptrs (a\<lparr>lo_counts := c\<rparr>)" using a(6) by (simp add: lo_ptrs_def)
  with loa_phase2 [of "a\<lparr>lo_counts := c\<rparr>"] a c obtain q where
    q: "fold loa_request (range0 ?n) (a\<lparr>lo_counts := c\<rparr>) = a\<lparr>lo_counts := c, lo_req := q\<rparr>" "vlen q = ?n"
      "\<And>i. 0 \<le> i \<Longrightarrow> i < ?n \<Longrightarrow> lonely_ok a i (vat q i)" by auto
  define a2 where "a2 = a\<lparr>lo_counts := c, lo_req := q\<rparr>"
  have f: "al_inputs a2 = ?n" "al_outputs a2 = ?m" "dn_req a2 = dn_req a" "lo_req a2 = q" "dn_ok a2" "lo_ptrs a2"
    "al_inmatch a2 = unmatched ?n" "al_outmatch a2 = unmatched ?m" "lonely_ok a2 = lonely_ok a" "lo_counts a2 = c"
    using a im om by (simp_all add: a2_def lo_ptrs_def)
  have "lo_granted a2 (range0 ?m) (fold loa_grant (range0 ?m) a2)"
  proof (rule fold_prefix [where P = "lo_granted a2"])
    show "lo_granted a2 [] a2"
      using a f matching_unmatched [of ?n ?m "dn_req a"] by (simp add: lo_granted_def lo_frame_refl)
  next
    fix seen j rest b assume split: "range0 ?m = seen @ j # rest" and b: "lo_granted a2 seen b"
    have "j \<in> set (range0 ?m)" by (simp add: split)
    moreover have "j \<notin> set seen" using split distinct_range0 [of ?m] by simp
    ultimately show "lo_granted a2 (seen @ [j]) (loa_grant j b)"
      using f a q by (intro loa_grant_step [OF b]) auto
  qed
  moreover have "loa_Allocate a = fold loa_grant (range0 ?m) a2"
    using c q by (simp add: loa_Allocate_def Let_def a2_def)
  ultimately have G: "lo_granted a2 (range0 ?m) (loa_Allocate a)" by simp
  then have fr: "lo_frame a2 (loa_Allocate a)"
    and M: "matching ?n ?m (dn_req a) (al_inmatch (loa_Allocate a)) (al_outmatch (loa_Allocate a))"
    and p: "lo_ptrs (loa_Allocate a)" by (auto simp: lo_granted_def f)
  note frD = lo_frameD [OF fr, unfolded f]
  have "loa_served a (loa_Allocate a)"
    unfolding loa_served_def
  proof (intro allI impI)
    fix i assume ex: "\<exists>j. dn_req a i j"
    then have i: "0 \<le> i" "i < ?n" by (auto simp: dn_req_def)
    with q(3) ex have l: "dn_req a i (vat q i)" "\<forall>j. dn_req a i j \<longrightarrow> requesters a (vat q i) \<le> requesters a j"
      by (auto simp: lonely_ok_def split: if_splits)
    have r: "0 \<le> vat q i" "vat q i < ?m" using l(1) by (auto simp: dn_req_def)
    then have "vat q i \<in> set (range0 ?m)" by simp
    with G r i f have "vat (al_outmatch (loa_Allocate a)) (vat q i) \<noteq> - 1"
      unfolding lo_granted_def by metis
    with l show "\<exists>q. dn_req a i q \<and> (\<forall>j. dn_req a i j \<longrightarrow> requesters a q \<le> requesters a j) \<and>
        vat (al_outmatch (loa_Allocate a)) q \<noteq> - 1" by blast
  qed
  moreover have "dn_ok (loa_Allocate a)" using dn_ok_lo_frame [OF f(5) fr] M f by simp
  ultimately show ?thesis using M p a c q frD by (simp add: lo_ok_def)
qed

section \<open>The contract\<close>

lemma loa_add_frame:
  "Dense_AddRequest i j label ip op a = Inr a' \<Longrightarrow>
     lo_counts a' = lo_counts a \<and> lo_req a' = lo_req a \<and> lo_rptr a' = lo_rptr a \<and> lo_gptr a' = lo_gptr a"
  by (auto simp: Dense_AddRequest_def Allocator_AddRequest_def bnd_Inr_iff dn_put_def)

lemma lo_ok_add:
  assumes "lo_ok a" "0 \<le> i" "i < al_inputs a" "0 \<le> j" "j < al_outputs a" "0 \<le> label" "\<not> dn_req a i j"
  shows "\<exists>a'. Dense_AddRequest i j label ip op a = Inr a' \<and> lo_ok a' \<and> al_inputs a' = al_inputs a \<and>
     al_outputs a' = al_outputs a \<and> al_inmatch a' = al_inmatch a \<and> al_outmatch a' = al_outmatch a \<and>
     (\<forall>k l. dn_req a' k l \<longleftrightarrow> dn_req a k l \<or> k = i \<and> l = j)"
proof -
  have "dn_ok a" using assms(1) by (simp add: lo_ok_def)
  from dn_add [OF this assms(2-7), of ip op] obtain a' where
    a': "Dense_AddRequest i j label ip op a = Inr a'" "dn_ok a'" "al_inputs a' = al_inputs a"
      "al_outputs a' = al_outputs a" "al_inmatch a' = al_inmatch a" "al_outmatch a' = al_outmatch a"
      "\<And>k l. dn_req a' k l \<longleftrightarrow> dn_req a k l \<or> k = i \<and> l = j" by blast
  have "matching (al_inputs a) (al_outputs a) (dn_req a') (al_inmatch a) (al_outmatch a)"
    by (rule matching_mono [where R = "dn_req a"]) (use assms(1) a'(7) in \<open>auto simp: lo_ok_def\<close>)
  with a' assms(1) loa_add_frame [OF a'(1)] have "lo_ok a'" by (simp add: lo_ok_def lo_ptrs_def)
  with a' show ?thesis by blast
qed

lemma lo_ok_clear:
  assumes "lo_ok a"
  shows "lo_ok (Dense_Clear a)"
proof -
  have "dn_ok a" using assms by (simp add: lo_ok_def)
  note c = dn_clear [OF this]
  have "lo_counts (Dense_Clear a) = lo_counts a" "lo_req (Dense_Clear a) = lo_req a"
    "lo_rptr (Dense_Clear a) = lo_rptr a" "lo_gptr (Dense_Clear a) = lo_gptr a"
    by (simp_all add: Dense_Clear_def Allocator_Clear_def)
  then show ?thesis using assms c by (simp add: lo_ok_def lo_ptrs_def matching_unmatched)
qed

interpretation lo: allocator_contract lo_ok lo_ok al_inputs al_outputs dn_req al_inmatch al_outmatch
  Dense_AddRequest "\<lambda>a. Inr (loa_Allocate a)" Dense_Clear
proof (unfold_locales, goal_cases)
  case (1 a)
  then show ?case using dn_clear [of a] lo_ok_clear [of a] by (simp add: lo_ok_def)
next
  case (2 a i j label ip op)
  then show ?case by (rule lo_ok_add)
next
  case (3 a)
  then show ?case using loa_Allocate_ok [of a] by blast
qed

lemma lo_new:
  assumes "0 < n" "0 < m"
  shows "lo_ok (new_LOA n m)"
proof -
  have "dn_ok (new_LOA n m)" using dn_new [of n m] assms by (simp add: new_LOA_def)
  moreover have "al_inputs (new_LOA n m) = n" "al_outputs (new_LOA n m) = m"
    "al_inmatch (new_LOA n m) = unmatched n" "al_outmatch (new_LOA n m) = unmatched m"
    "lo_counts (new_LOA n m) = replicate (nat m) 0" "lo_req (new_LOA n m) = replicate (nat n) 0"
    "lo_rptr (new_LOA n m) = replicate (nat n) 0" "lo_gptr (new_LOA n m) = replicate (nat m) 0"
    by (simp_all add: new_LOA_def dense.defs loa.defs new_DenseAllocator_def new_Allocator_def allocator.defs)
  ultimately show ?thesis using assms by (simp add: lo_ok_def lo_ptrs_def matching_unmatched vlen_def)
qed

section \<open>Properties\<close>

text \<open>
  C6: A LOA cycle yields a matching of the requests, and for every input with a request, one of the
  outputs it requested that have the fewest requesters is matched: the lonely outputs the
  allocator is named for are never wasted while somebody wants them.
\<close>

theorem loa_cycle:
  assumes "lo_ok a" "good_pairs (al_inputs a) (al_outputs a) rs"
  shows "\<exists>a'. alloc_cycle Dense_AddRequest (\<lambda>a. Inr (loa_Allocate a)) Dense_Clear rs a = Inr a' \<and> lo_ok a' \<and>
    matching (al_inputs a) (al_outputs a) (req_pairs rs) (al_inmatch a') (al_outmatch a') \<and>
    (\<forall>i. (\<exists>j. req_pairs rs i j) \<longrightarrow> (\<exists>q. req_pairs rs i q \<and> vat (al_outmatch a') q \<noteq> - 1 \<and>
       (\<forall>j. req_pairs rs i j \<longrightarrow> card {k. req_pairs rs k q} \<le> card {k. req_pairs rs k j})))"
proof -
  from lo.cycle_adds [OF assms(1) assms(2)] obtain b where
    b: "for_each (\<lambda>(i, j, l, p, q). Dense_AddRequest i j l p q) rs (Dense_Clear a) = Inr b" "lo_ok b"
      "al_inputs b = al_inputs a" "al_outputs b = al_outputs a" "al_inmatch b = unmatched (al_inputs a)"
      "al_outmatch b = unmatched (al_outputs a)" "dn_req b = req_pairs rs" by blast
  have "alloc_cycle Dense_AddRequest (\<lambda>a. Inr (loa_Allocate a)) Dense_Clear rs a = Inr (loa_Allocate b)"
    using b(1) by (simp add: alloc_cycle_def)
  with loa_Allocate_ok [OF b(2)] b show ?thesis by (fastforce simp: loa_served_def requesters_def)
qed

theorem loa_cycle_witness:
  "\<exists>a'. alloc_cycle Dense_AddRequest (\<lambda>a. Inr (loa_Allocate a)) Dense_Clear
      [(0, 0, 1, 0, 0), (0, 1, 1, 0, 0), (1, 0, 1, 0, 0)] (new_LOA 2 2) = Inr a' \<and> lo_ok a' \<and>
    matching 2 2 (req_pairs [(0, 0, 1, 0, 0), (0, 1, 1, 0, 0), (1, 0, 1, 0, 0)]) (al_inmatch a') (al_outmatch a')"
proof -
  have "al_inputs (new_LOA 2 2) = 2" "al_outputs (new_LOA 2 2) = 2"
    by (simp_all add: new_LOA_def dense.defs loa.defs new_DenseAllocator_def new_Allocator_def allocator.defs)
  moreover have "good_pairs 2 2 [(0, 0, 1, 0, 0), (0, 1, 1, 0, 0), (1, 0, 1, 0, 0)]"
    by (simp add: good_pairs_def)
  ultimately show ?thesis
    using loa_cycle [OF lo_new [of 2 2], of "[(0, 0, 1, 0, 0), (0, 1, 1, 0, 0), (1, 0, 1, 0, 0)]"] by simp blast
qed

end
