(* ===== verification/Wavefront.thy ===== *)
theory Wavefront
  imports Allocator_Laws "HOL-Library.Product_Lexorder"
begin

text \<open>
  \<^verbatim>\<open>Wavefront\<close> (\<^verbatim>\<open>wavefront.cpp\<close>): the request matrix is swept diagonal by diagonal, once for every
  combination of priorities that was requested, from the highest down. The result is a matching that no
  request can improve: one of its ports is taken by a request of at least its priority.
\<close>

section \<open>The allocator\<close>

text \<open>\<^verbatim>\<open>_priorities\<close> is a \<^verbatim>\<open>std::set<pair<int, int>>\<close> of output and input priorities, kept as an ascending list.\<close>

record wavefront = dense +
  wf_last_in :: int
  wf_last_out :: int
  wf_skip_diags :: bool
  wf_square :: int
  wf_pri :: int
  wf_num_requests :: int
  wf_priorities :: "(int \<times> int) list"

definition new_Wavefront :: "int \<Rightarrow> int \<Rightarrow> bool \<Rightarrow> wavefront" where
  "new_Wavefront n m skip_diags = dense.extend (new_DenseAllocator n m)
     \<lparr>wf_last_in = - 1, wf_last_out = - 1, wf_skip_diags = skip_diags, wf_square = max n m, wf_pri = 0, wf_num_requests = 0,
      wf_priorities = []\<rparr>"

definition pair_insert :: "int \<times> int \<Rightarrow> (int \<times> int) list \<Rightarrow> (int \<times> int) list" where
  "pair_insert x s = (if x \<in> set s then s else insort x s)"

definition Wavefront_AddRequest :: "int \<Rightarrow> int \<Rightarrow> int \<Rightarrow> int \<Rightarrow> int \<Rightarrow> wavefront \<Rightarrow> wavefront res" where
  "Wavefront_AddRequest i j label in_pri out_pri a =
     bnd (Dense_AddRequest i j label in_pri out_pri a) (\<lambda>a.
     Inr (a\<lparr>wf_num_requests := wf_num_requests a + 1, wf_last_in := i, wf_last_out := j,
            wf_priorities := pair_insert (out_pri, in_pri) (wf_priorities a)\<rparr>))"

text \<open>The body of the loops: the cell of \<open>input\<close> and \<open>output\<close> for the priorities \<open>q\<close>, with \<^verbatim>\<open>first_diag\<close>.\<close>

definition wf_visit :: "int \<times> int \<Rightarrow> int \<Rightarrow> int \<Rightarrow> int \<times> wavefront \<Rightarrow> int \<times> wavefront" where
  "wf_visit q input output s =
     (let (first_diag, a) = s in
      if input < al_inputs a \<and> output < al_outputs a \<and> vat (al_inmatch a) input = - 1 \<and> vat (al_outmatch a) output = - 1 \<and>
         rq_label (dn_get a input output) \<noteq> - 1 \<and> rq_in_pri (dn_get a input output) = snd q \<and>
         rq_out_pri (dn_get a input output) = fst q
      then (if first_diag < 0 then input + output else first_diag,
            a\<lparr>al_inmatch := vupd (al_inmatch a) input output, al_outmatch := vupd (al_outmatch a) output input\<rparr>)
      else s)"

definition wf_sweep :: "wavefront \<Rightarrow> int \<times> wavefront" where
  "wf_sweep a =
     (let sq = wf_square a in
      fold (\<lambda>q. fold (\<lambda>p. fold (\<lambda>output. wf_visit q ((wf_pri a + p + (sq - output)) smod sq) output) (range0 sq)) (range0 sq))
        (rev (wf_priorities a)) (- 1, a))"

definition Wavefront_Allocate :: "wavefront \<Rightarrow> wavefront res" where
  "Wavefront_Allocate a =
     (if wf_num_requests a = 0 then Inr a
      else
        let (first_diag, a) =
              (if wf_num_requests a = 1 then
                 (wf_last_in a + wf_last_out a,
                  a\<lparr>al_inmatch := vupd (al_inmatch a) (wf_last_in a) (wf_last_out a),
                    al_outmatch := vupd (al_outmatch a) (wf_last_out a) (wf_last_in a)\<rparr>)
               else wf_sweep a);
            a = a\<lparr>wf_num_requests := 0, wf_last_in := - 1, wf_last_out := - 1, wf_priorities := []\<rparr> in
        bnd (assert_that (first_diag \<ge> 0) ''first_diag >= 0'') (\<lambda>_.
        Inr (a\<lparr>wf_pri := ((if wf_skip_diags a then first_diag else wf_pri a) + 1) smod wf_square a\<rparr>)))"

section \<open>The sweep\<close>

definition prio :: "'a dense_scheme \<Rightarrow> int \<Rightarrow> int \<Rightarrow> int \<times> int" where
  "prio a i j = (rq_out_pri (dn_get a i j), rq_in_pri (dn_get a i j))"

text \<open>The cells in the order of the sweep.\<close>

definition wf_cells :: "wavefront \<Rightarrow> ((int \<times> int) \<times> int \<times> int) list" where
  "wf_cells a = (let sq = wf_square a in
     concat (map (\<lambda>q. concat (map (\<lambda>p. map (\<lambda>output. (q, (wf_pri a + p + (sq - output)) smod sq, output)) (range0 sq)) (range0 sq)))
       (rev (wf_priorities a))))"

lemma fold_concat_map: "fold f (concat (map g xs)) = fold (\<lambda>x. fold f (g x)) xs"
  by (induction xs) auto

lemma mod_absorb: "(a + x mod m + b) mod m = (a + x + b) mod (m :: int)"
  by (metis mod_add_left_eq mod_add_right_eq)

lemma sorted_replicate_concat: "sorted_wrt (\<ge>) qs \<Longrightarrow> sorted_wrt (\<ge>) (concat (map (replicate n) qs))" for qs :: "'a :: order list"
proof (induction qs)
  case (Cons q qs)
  have "sorted_wrt (\<ge>) (replicate n q)" by (induction n) auto
  with Cons show ?case by (auto simp: sorted_wrt_append)
qed simp

lemma wf_sweep_cells: "wf_sweep a = fold (\<lambda>(q, i, j). wf_visit q i j) (wf_cells a) (- 1, a)"
  by (simp add: wf_sweep_def wf_cells_def Let_def fold_concat_map fold_map comp_def)

definition wf_base :: "wavefront \<Rightarrow> bool" where
  "wf_base a \<longleftrightarrow> dn_ok a \<and> 0 < al_inputs a \<and> 0 < al_outputs a \<and> wf_square a = max (al_inputs a) (al_outputs a) \<and> 0 \<le> wf_pri a"

lemma wf_cells_cover:
  assumes "wf_base a" "0 \<le> i" "i < al_inputs a" "0 \<le> j" "j < al_outputs a" "q \<in> set (wf_priorities a)"
  shows "(q, i, j) \<in> set (wf_cells a)"
proof -
  let ?sq = "wf_square a"
  have sq: "0 < ?sq" "i < ?sq" "j < ?sq" "0 \<le> wf_pri a" using assms by (auto simp: wf_base_def)
  define p where "p = (i + j - wf_pri a) mod ?sq"
  have p: "0 \<le> p" "p < ?sq" using sq by (simp_all add: p_def)
  have "(wf_pri a + p + (?sq - j)) smod ?sq = (wf_pri a + p + (?sq - j)) mod ?sq" using sq p by simp
  also have "\<dots> = (wf_pri a + (i + j - wf_pri a) + (?sq - j)) mod ?sq" unfolding p_def by (rule mod_absorb)
  also have "\<dots> = i" using sq assms(2) by (simp add: algebra_simps)
  finally have "(q, (wf_pri a + p + (?sq - j)) smod ?sq, j) = (q, i, j)" by simp
  moreover have "p \<in> set (range0 ?sq)" "j \<in> set (range0 ?sq)" using p sq assms(4) by simp_all
  ultimately show ?thesis using assms(6) unfolding wf_cells_def Let_def set_concat set_map by (force simp: image_iff)
qed

lemma wf_cells_range:
  assumes "wf_base a" "(q, i, j) \<in> set (wf_cells a)"
  shows "0 \<le> i \<and> 0 \<le> j \<and> q \<in> set (wf_priorities a)"
  using assms by (auto simp: wf_cells_def Let_def wf_base_def)

lemma wf_cells_sorted:
  assumes "sorted (wf_priorities a)" "wf_cells a = seen @ (q, i, j) # rest" "(q', i', j') \<in> set seen"
  shows "q \<le> q'"
proof -
  let ?n = "nat (wf_square a)"
  have "map fst (wf_cells a) = concat (map (replicate (?n * ?n)) (rev (wf_priorities a)))"
  proof -
    have "map fst (concat (map (\<lambda>p. map (\<lambda>output. (q, g p output)) (range0 (wf_square a))) ps)) = replicate (length ps * ?n) q"
      for q :: "int \<times> int" and g :: "int \<Rightarrow> int \<Rightarrow> int \<times> int" and ps
      by (induction ps) (simp_all add: comp_def map_replicate_const replicate_add [symmetric] range0_def)
    then show ?thesis by (simp add: wf_cells_def Let_def map_concat comp_def range0_def)
  qed
  moreover have "sorted_wrt (\<ge>) (rev (wf_priorities a))" using assms(1) by (simp add: sorted_wrt_rev)
  ultimately have "sorted_wrt (\<ge>) (map fst (wf_cells a))" using sorted_replicate_concat by metis
  then show ?thesis using assms(2,3) by (auto simp: sorted_wrt_append)
qed

text \<open>A request is served when one of its ports is taken by a request of at least its priority.\<close>

definition served :: "(int \<Rightarrow> int \<Rightarrow> int \<times> int) \<Rightarrow> int list \<Rightarrow> int list \<Rightarrow> int \<Rightarrow> int \<Rightarrow> bool" where
  "served pr im om i j \<longleftrightarrow> vat im i \<noteq> - 1 \<and> pr i j \<le> pr i (vat im i) \<or> vat om j \<noteq> - 1 \<and> pr i j \<le> pr (vat om j) j"

definition swept :: "wavefront \<Rightarrow> ((int \<times> int) \<times> int \<times> int) list \<Rightarrow> int \<times> wavefront \<Rightarrow> bool" where
  "swept a seen s \<longleftrightarrow> (\<exists>im om. snd s = a\<lparr>al_inmatch := im, al_outmatch := om\<rparr> \<and>
     matching (al_inputs a) (al_outputs a) (dn_req a) im om \<and>
     (\<forall>i. 0 \<le> i \<and> i < al_inputs a \<and> vat im i \<noteq> - 1 \<longrightarrow> prio a i (vat im i) \<in> fst ` set seen) \<and>
     (\<forall>q i j. (q, i, j) \<in> set seen \<and> dn_req a i j \<and> prio a i j = q \<longrightarrow> served (prio a) im om i j) \<and>
     (\<exists>i. 0 \<le> i \<and> i < al_inputs a \<and> vat im i \<noteq> - 1) = (0 \<le> fst s))"

lemma sweptI:
  assumes "snd s = a\<lparr>al_inmatch := im, al_outmatch := om\<rparr>" "matching (al_inputs a) (al_outputs a) (dn_req a) im om"
    "\<And>i. 0 \<le> i \<Longrightarrow> i < al_inputs a \<Longrightarrow> vat im i \<noteq> - 1 \<Longrightarrow> prio a i (vat im i) \<in> fst ` set seen"
    "\<And>q i j. (q, i, j) \<in> set seen \<Longrightarrow> dn_req a i j \<Longrightarrow> prio a i j = q \<Longrightarrow> served (prio a) im om i j"
    "(\<exists>i. 0 \<le> i \<and> i < al_inputs a \<and> vat im i \<noteq> - 1) = (0 \<le> fst s)"
  shows "swept a seen s"
  unfolding swept_def using assms by (intro exI [of _ im] exI [of _ om]) auto

text \<open>Two free ports that take each other leave every other request as it was served.\<close>

lemma served_add:
  assumes "served pr im om k l" "vat im i = - 1" "vat om j = - 1" "0 \<le> i" "i < vlen im" "0 \<le> j" "j < vlen om" "0 \<le> k" "0 \<le> l"
  shows "served pr (vupd im i j) (vupd om j i) k l"
proof -
  have "vat im k \<noteq> - 1 \<Longrightarrow> vat (vupd im i j) k = vat im k" "vat om l \<noteq> - 1 \<Longrightarrow> vat (vupd om j i) l = vat om l"
    using assms by (cases "k = i"; cases "l = j"; simp)+
  then show ?thesis using assms(1) unfolding served_def by auto
qed

lemma wf_visit_swept:
  assumes b: "wf_base a" and so: "sorted (wf_priorities a)" and c: "wf_cells a = seen @ (q, i, j) # rest" and s: "swept a seen s"
  shows "swept a (seen @ [(q, i, j)]) (wf_visit q i j s)"
proof -
  obtain im om where st: "snd s = a\<lparr>al_inmatch := im, al_outmatch := om\<rparr>" and M: "matching (al_inputs a) (al_outputs a) (dn_req a) im om"
    and old': "\<forall>i. 0 \<le> i \<and> i < al_inputs a \<and> vat im i \<noteq> - 1 \<longrightarrow> prio a i (vat im i) \<in> fst ` set seen"
    and sv': "\<forall>q i j. (q, i, j) \<in> set seen \<and> dn_req a i j \<and> prio a i j = q \<longrightarrow> served (prio a) im om i j"
    and fd: "(\<exists>i. 0 \<le> i \<and> i < al_inputs a \<and> vat im i \<noteq> - 1) = (0 \<le> fst s)"
    using s unfolding swept_def by (elim exE conjE) (rule that; assumption)
  note old = old' [rule_format, OF conjI [OF _ conjI]] and sv = sv' [rule_format, OF conjI [OF _ conjI]]
  have ij: "0 \<le> i" "0 \<le> j" using wf_cells_range [OF b, of q i j] c by auto
  have dn: "dn_ok a" using b by (simp add: wf_base_def)
  have le: "q \<le> q'" if "q' \<in> fst ` set seen" for q' using that wf_cells_sorted [OF so c] by auto
  have len: "vlen im = al_inputs a" "vlen om = al_outputs a" using M by (auto simp: matching_def)
  have se: "s = (fst s, a\<lparr>al_inmatch := im, al_outmatch := om\<rparr>)" using st by (metis prod.collapse)
  let ?grant = "i < al_inputs a \<and> j < al_outputs a \<and> vat im i = - 1 \<and> vat om j = - 1 \<and> rq_label (dn_get a i j) \<noteq> - 1 \<and> prio a i j = q"
  show ?thesis
  proof (cases ?grant)
    case True
    have req: "dn_req a i j" using True ij dn_label [OF dn, of i j] by (auto simp: dn_req_def)
    have v: "wf_visit q i j s = (if fst s < 0 then i + j else fst s, a\<lparr>al_inmatch := vupd im i j, al_outmatch := vupd om j i\<rparr>)"
      using True by (subst (1) se) (auto simp: wf_visit_def prio_def)
    show ?thesis
    proof (rule sweptI)
      show "matching (al_inputs a) (al_outputs a) (dn_req a) (vupd im i j) (vupd om j i)" using matching_add [OF M] True ij req by simp
      show "prio a k (vat (vupd im i j) k) \<in> fst ` set (seen @ [(q, i, j)])"
        if "0 \<le> k" "k < al_inputs a" "vat (vupd im i j) k \<noteq> - 1" for k
        using that old [of k] True ij len by (cases "k = i") auto
      show "served (prio a) (vupd im i j) (vupd om j i) k l" if "(q', k, l) \<in> set (seen @ [(q, i, j)])" "dn_req a k l" "prio a k l = q'" for q' k l
      proof (cases "(q', k, l) \<in> set seen")
        case inside: True
        then show ?thesis using served_add [OF sv [OF inside that(2,3)], of i j] True ij len that(2) by (simp add: dn_req_def)
      next
        case False
        then have "k = i" "l = j" using that(1) by auto
        then show ?thesis using True ij len by (simp add: served_def)
      qed
      show "(\<exists>k. 0 \<le> k \<and> k < al_inputs a \<and> vat (vupd im i j) k \<noteq> - 1) = (0 \<le> fst (wf_visit q i j s))"
      proof -
        have "0 \<le> i \<and> i < al_inputs a \<and> vat (vupd im i j) i \<noteq> - 1" using True ij len by simp
        then show ?thesis using v ij by auto
      qed
    qed (simp add: v)
  next
    case False
    then have v: "wf_visit q i j s = s" by (subst (1 2) se) (auto simp: wf_visit_def prio_def)
    have "served (prio a) im om i j" if r: "dn_req a i j" "prio a i j = q"
    proof -
      have "vat im i \<noteq> - 1 \<or> vat om j \<noteq> - 1" using False r by (auto simp: dn_req_def)
      then show ?thesis
      proof
        assume "vat im i \<noteq> - 1"
        then show ?thesis using old [of i] le r by (auto simp: served_def dn_req_def)
      next
        assume n: "vat om j \<noteq> - 1"
        then have k: "0 \<le> vat om j" "vat om j < al_inputs a" "vat im (vat om j) = j"
          using M r(1) unfolding matching_def dn_req_def by auto
        have "j \<noteq> - 1" using ij by simp
        then show ?thesis using old [of "vat om j"] le r n k by (auto simp: served_def)
      qed
    qed
    then show ?thesis unfolding v using M old sv fd st by (intro sweptI [where im = im and om = om]) auto
  qed
qed

lemma wf_sweep_ok:
  assumes b: "wf_base a" and so: "sorted (wf_priorities a)"
    and im: "al_inmatch a = unmatched (al_inputs a)" and om: "al_outmatch a = unmatched (al_outputs a)"
  shows "swept a (wf_cells a) (wf_sweep a)"
  unfolding wf_sweep_cells
proof (rule fold_prefix [where P = "swept a"], goal_cases)
  case (1 seen x rest s)
  then show ?case using wf_visit_swept [OF b so] by (cases x) auto
next
  case 2
  have "a\<lparr>al_inmatch := unmatched (al_inputs a), al_outmatch := unmatched (al_outputs a)\<rparr> = a" using im om by simp
  moreover have "matching (al_inputs a) (al_outputs a) (dn_req a) (unmatched (al_inputs a)) (unmatched (al_outputs a))"
    using b by (intro matching_unmatched) (auto simp: wf_base_def)
  ultimately show ?case by (intro sweptI [where im = "unmatched (al_inputs a)" and om = "unmatched (al_outputs a)"]) auto
qed

section \<open>The contract\<close>

text \<open>
  While requests are added, the counter and the set of priorities are those of the matrix. After an allocation they
  are reset, and the matrix has to be cleared before the next one.
\<close>

definition wf_sync :: "wavefront \<Rightarrow> bool" where
  "wf_sync a \<longleftrightarrow> wf_num_requests a = int (card {(i, j). dn_req a i j}) \<and> sorted (wf_priorities a) \<and>
     (if wf_num_requests a = 0 then wf_priorities a = [] else dn_req a (wf_last_in a) (wf_last_out a)) \<and>
     (\<forall>i j. dn_req a i j \<longrightarrow> prio a i j \<in> set (wf_priorities a))"

definition wf_ok :: "wavefront \<Rightarrow> bool" where
  "wf_ok a \<longleftrightarrow> wf_base a \<and> wf_sync a"

definition wf_settled :: "wavefront \<Rightarrow> bool" where
  "wf_settled a \<longleftrightarrow> wf_base a \<and> wf_num_requests a = 0 \<and> wf_priorities a = []"

lemma dn_ok_wf [simp]:
  "dn_ok (a\<lparr>wf_num_requests := k, wf_last_in := x, wf_last_out := y, wf_priorities := ps\<rparr>) = dn_ok a"
  "dn_ok (a\<lparr>wf_num_requests := k, wf_last_in := x, wf_last_out := y, wf_priorities := ps, wf_pri := p\<rparr>) = dn_ok a"
  by (simp_all add: dn_ok_def al_ok_def dn_req_def dn_get_def)

lemma finite_reqs: "finite {(i, j). dn_req a i j}"
  by (rule finite_subset [of _ "{0..<al_inputs a} \<times> {0..<al_outputs a}"]) (auto simp: dn_req_def)

text \<open>What an allocation has to leave behind.\<close>

definition wf_result :: "wavefront \<Rightarrow> int list \<Rightarrow> int list \<Rightarrow> bool" where
  "wf_result a im om \<longleftrightarrow> matching (al_inputs a) (al_outputs a) (dn_req a) im om \<and> (\<forall>i j. dn_req a i j \<longrightarrow> served (prio a) im om i j)"

lemma wf_single:
  assumes ok: "wf_ok a" and one: "wf_num_requests a = 1"
    and im: "al_inmatch a = unmatched (al_inputs a)" and om: "al_outmatch a = unmatched (al_outputs a)"
  shows "wf_result a (vupd (al_inmatch a) (wf_last_in a) (wf_last_out a)) (vupd (al_outmatch a) (wf_last_out a) (wf_last_in a))"
    "0 \<le> wf_last_in a + wf_last_out a"
proof -
  let ?i = "wf_last_in a" and ?j = "wf_last_out a"
  have b: "0 < al_inputs a" "0 < al_outputs a" using ok by (auto simp: wf_ok_def wf_base_def)
  have last: "dn_req a ?i ?j" and c: "card {(i, j). dn_req a i j} = 1" using ok one by (auto simp: wf_ok_def wf_sync_def)
  obtain p where p: "{(i, j). dn_req a i j} = {p}" using c by (rule card_1_singletonE)
  have mem: "dn_req a i j \<Longrightarrow> (i, j) = p" for i j using p by blast
  have only: "dn_req a i j \<Longrightarrow> i = ?i \<and> j = ?j" for i j using mem [of i j] mem [OF last] by auto
  have r: "0 \<le> ?i" "?i < al_inputs a" "0 \<le> ?j" "?j < al_outputs a" using last by (auto simp: dn_req_def)
  have "matching (al_inputs a) (al_outputs a) (dn_req a) (vupd (unmatched (al_inputs a)) ?i ?j) (vupd (unmatched (al_outputs a)) ?j ?i)"
    using r last b by (intro matching_add matching_unmatched) auto
  moreover have "served (prio a) (vupd (unmatched (al_inputs a)) ?i ?j) (vupd (unmatched (al_outputs a)) ?j ?i) ?i ?j"
    using r b by (simp add: served_def)
  ultimately show "wf_result a (vupd (al_inmatch a) ?i ?j) (vupd (al_outmatch a) ?j ?i)"
    unfolding wf_result_def im om using only by blast
  show "0 \<le> ?i + ?j" using r by simp
qed

lemma wf_several:
  assumes ok: "wf_ok a" and many: "wf_num_requests a \<noteq> 0"
    and im: "al_inmatch a = unmatched (al_inputs a)" and om: "al_outmatch a = unmatched (al_outputs a)"
  shows "\<exists>fd im' om'. wf_sweep a = (fd, a\<lparr>al_inmatch := im', al_outmatch := om'\<rparr>) \<and> 0 \<le> fd \<and> wf_result a im' om'"
proof -
  have b: "wf_base a" and so: "sorted (wf_priorities a)" and last: "dn_req a (wf_last_in a) (wf_last_out a)"
    and pr: "\<And>i j. dn_req a i j \<Longrightarrow> prio a i j \<in> set (wf_priorities a)" using ok many by (auto simp: wf_ok_def wf_sync_def)
  obtain im' om' where st: "snd (wf_sweep a) = a\<lparr>al_inmatch := im', al_outmatch := om'\<rparr>"
    and M: "matching (al_inputs a) (al_outputs a) (dn_req a) im' om'"
    and sv: "\<forall>q i j. (q, i, j) \<in> set (wf_cells a) \<and> dn_req a i j \<and> prio a i j = q \<longrightarrow> served (prio a) im' om' i j"
    and fd: "(\<exists>i. 0 \<le> i \<and> i < al_inputs a \<and> vat im' i \<noteq> - 1) = (0 \<le> fst (wf_sweep a))"
    using wf_sweep_ok [OF b so im om] unfolding swept_def by (elim exE conjE) (rule that; assumption)
  have all: "served (prio a) im' om' i j" if r: "dn_req a i j" for i j
    using sv wf_cells_cover [OF b _ _ _ _ pr [OF r]] r unfolding dn_req_def by metis
  have "0 \<le> fst (wf_sweep a)"
  proof -
    let ?i = "wf_last_in a" and ?j = "wf_last_out a"
    have r: "0 \<le> ?i" "?i < al_inputs a" "0 \<le> ?j" "?j < al_outputs a" using last by (auto simp: dn_req_def)
    from all [OF last] have "vat im' ?i \<noteq> - 1 \<or> vat om' ?j \<noteq> - 1" by (auto simp: served_def)
    then have "\<exists>i. 0 \<le> i \<and> i < al_inputs a \<and> vat im' i \<noteq> - 1"
    proof
      assume n: "vat om' ?j \<noteq> - 1"
      then have "0 \<le> vat om' ?j" "vat om' ?j < al_inputs a" "vat im' (vat om' ?j) = ?j" using M r unfolding matching_def by auto
      then show ?thesis using r by (intro exI [of _ "vat om' ?j"]) simp
    qed (use r in blast)
    then show ?thesis using fd by blast
  qed
  moreover have "wf_result a im' om'" using M all by (simp add: wf_result_def)
  ultimately show ?thesis using st by (intro exI [of _ "fst (wf_sweep a)"] exI [of _ im'] exI [of _ om']) (simp add: prod_eq_iff)
qed

lemma Wavefront_Allocate_ok:
  assumes ok: "wf_ok a" and im: "al_inmatch a = unmatched (al_inputs a)" and om: "al_outmatch a = unmatched (al_outputs a)"
  shows "\<exists>a'. Wavefront_Allocate a = Inr a' \<and> wf_settled a' \<and> al_inputs a' = al_inputs a \<and> al_outputs a' = al_outputs a \<and>
    wf_result a (al_inmatch a') (al_outmatch a')"
proof -
  have b: "wf_base a" "sorted (wf_priorities a)" and n: "wf_num_requests a = int (card {(i, j). dn_req a i j})"
    and pr: "\<And>i j. dn_req a i j \<Longrightarrow> prio a i j \<in> set (wf_priorities a)" using ok by (auto simp: wf_ok_def wf_sync_def)
  have dims: "0 < al_inputs a" "0 < al_outputs a" "dn_ok a" "0 < wf_square a" "0 \<le> wf_pri a" using b(1) by (auto simp: wf_base_def)
  have finish: "\<exists>a'. bnd (assert_that (fd \<ge> 0) ''first_diag >= 0'') (\<lambda>_. Inr (a1\<lparr>wf_pri := ((if wf_skip_diags a1 then fd else wf_pri a1) + 1) smod wf_square a1\<rparr>)) = Inr a' \<and>
      wf_settled a' \<and> al_inputs a' = al_inputs a \<and> al_outputs a' = al_outputs a \<and> wf_result a (al_inmatch a') (al_outmatch a')"
    if a1: "a1 = a\<lparr>al_inmatch := im', al_outmatch := om', wf_num_requests := 0, wf_last_in := - 1, wf_last_out := - 1, wf_priorities := []\<rparr>"
      and r: "wf_result a im' om'" "0 \<le> fd" for a1 im' om' fd
  proof -
    have "dn_ok (a\<lparr>al_inmatch := im', al_outmatch := om'\<rparr>)" using r(1) dims(3) by (intro dn_matched) (auto simp: wf_result_def)
    then show ?thesis using r b(1) dims by (auto simp: a1 wf_settled_def wf_base_def)
  qed
  consider "wf_num_requests a = 0" | "wf_num_requests a = 1" | "wf_num_requests a \<noteq> 0" "wf_num_requests a \<noteq> 1" by blast
  then show ?thesis
  proof cases
    case 1
    then have "\<not> dn_req a i j" for i j using n finite_reqs [of a] by auto
    moreover have "wf_priorities a = []" using ok 1 by (simp add: wf_ok_def wf_sync_def)
    ultimately show ?thesis using 1 b(1) im om dims matching_unmatched [of "al_inputs a" "al_outputs a" "dn_req a"]
      by (simp add: Wavefront_Allocate_def wf_settled_def wf_result_def)
  next
    case 2
    then show ?thesis using finish [OF refl wf_single [OF ok 2 im om]] 2 unfolding Wavefront_Allocate_def Let_def by simp
  next
    case 3
    obtain fd im' om' where "wf_sweep a = (fd, a\<lparr>al_inmatch := im', al_outmatch := om'\<rparr>)" "0 \<le> fd" "wf_result a im' om'"
      using wf_several [OF ok 3(1) im om] by blast
    then show ?thesis using finish [OF refl, of im' om' fd] 3 unfolding Wavefront_Allocate_def Let_def by simp
  qed
qed

lemma Dense_AddRequest_put:
  "Dense_AddRequest i j label ip op a = Inr a' \<Longrightarrow>
     a' = dn_put i j ((dn_get a i j)\<lparr>rq_label := label, rq_in_pri := ip, rq_out_pri := op\<rparr>) (a\<lparr>al_dirty := True\<rparr>)"
  by (auto simp: Dense_AddRequest_def Allocator_AddRequest_def bnd_Inr_iff)

lemma set_pair_insert [simp]: "set (pair_insert x s) = insert x (set s)" "sorted s \<Longrightarrow> sorted (pair_insert x s)" "pair_insert x s \<noteq> []"
  by (auto simp: pair_insert_def set_insort_key sorted_insort)

lemma wf_add:
  assumes ok: "wf_ok a" and r: "0 \<le> i" "i < al_inputs a" "0 \<le> j" "j < al_outputs a" "0 \<le> label" "\<not> dn_req a i j"
  shows "\<exists>a'. Wavefront_AddRequest i j label ip op a = Inr a' \<and> wf_ok a' \<and> al_inputs a' = al_inputs a \<and>
     al_outputs a' = al_outputs a \<and> al_inmatch a' = al_inmatch a \<and> al_outmatch a' = al_outmatch a \<and>
     (\<forall>k l. dn_req a' k l \<longleftrightarrow> dn_req a k l \<or> k = i \<and> l = j) \<and>
     (\<forall>k l. 0 \<le> k \<and> 0 \<le> l \<longrightarrow> prio a' k l = (if k = i \<and> l = j then (op, ip) else prio a k l))"
proof -
  have b: "wf_base a" "wf_sync a" "dn_ok a" using ok by (auto simp: wf_ok_def wf_base_def)
  obtain a1 where a1: "Dense_AddRequest i j label ip op a = Inr a1" "dn_ok a1" "al_inputs a1 = al_inputs a"
      "al_outputs a1 = al_outputs a" "al_inmatch a1 = al_inmatch a" "al_outmatch a1 = al_outmatch a"
      "\<And>k l. dn_req a1 k l \<longleftrightarrow> dn_req a k l \<or> k = i \<and> l = j" using dn_add [OF b(3) r] by blast
  note put = Dense_AddRequest_put [OF a1(1)]
  have wf: "wf_num_requests a1 = wf_num_requests a" "wf_priorities a1 = wf_priorities a" "wf_square a1 = wf_square a" "wf_pri a1 = wf_pri a"
    unfolding put by (simp_all add: dn_put_def)
  define a' where "a' = a1\<lparr>wf_num_requests := wf_num_requests a1 + 1, wf_last_in := i, wf_last_out := j,
    wf_priorities := pair_insert (op, ip) (wf_priorities a1)\<rparr>"
  have f: "dn_req a' = dn_req a1" "prio a' = prio a1" "al_inputs a' = al_inputs a" "al_outputs a' = al_outputs a" "al_inmatch a' = al_inmatch a"
      "al_outmatch a' = al_outmatch a" "dn_ok a'"
    using a1 by (simp_all add: a'_def fun_eq_iff dn_req_def prio_def dn_get_def)
  have pr: "prio a' k l = (if k = i \<and> l = j then (op, ip) else prio a k l)" if "0 \<le> k" "0 \<le> l" for k l
    using dn_get_put [OF dn_dirty [OF b(3)], of i j k l] r that unfolding f(2) put by (simp add: prio_def)
  have "{(k, l). dn_req a' k l} = insert (i, j) {(k, l). dn_req a k l}" using a1(7) by (auto simp: f)
  then have "card {(k, l). dn_req a' k l} = Suc (card {(k, l). dn_req a k l})" using r finite_reqs [of a] by simp
  moreover have "prio a' k l \<in> set (wf_priorities a')" if "dn_req a' k l" for k l
  proof -
    have kl: "0 \<le> k" "0 \<le> l" "dn_req a k l \<or> k = i \<and> l = j" using that a1(7) by (auto simp: f(1) dn_req_def)
    show ?thesis using pr [OF kl(1,2)] kl(3) b(2) by (auto simp: a'_def wf wf_sync_def)
  qed
  moreover have "dn_req a' i j" using a1(7) by (simp add: f(1))
  moreover have "wf_num_requests a' = wf_num_requests a + 1" "wf_last_in a' = i" "wf_last_out a' = j" "sorted (wf_priorities a')"
    using b(2) by (simp_all add: a'_def wf wf_sync_def)
  ultimately have "wf_sync a'" using b(2) unfolding wf_sync_def by simp
  moreover have "wf_base a'" using b(1) f by (simp add: wf_base_def a'_def wf)
  ultimately have "wf_ok a'" by (simp add: wf_ok_def)
  moreover have "Wavefront_AddRequest i j label ip op a = Inr a'" using a1(1) by (simp add: Wavefront_AddRequest_def a'_def)
  ultimately show ?thesis using f a1(7) pr by (intro exI [of _ a']) simp
qed

lemma wf_clear:
  assumes "wf_settled a"
  shows "wf_ok (Dense_Clear a)"
proof -
  have dn: "dn_ok a" using assms by (simp add: wf_settled_def wf_base_def)
  note c = dn_clear [OF dn]
  have w: "wf_num_requests (Dense_Clear a) = 0" "wf_priorities (Dense_Clear a) = []" "wf_square (Dense_Clear a) = wf_square a" "wf_pri (Dense_Clear a) = wf_pri a"
    using assms by (simp_all add: wf_settled_def Dense_Clear_def Allocator_Clear_def)
  have "wf_sync (Dense_Clear a)" using c(6) w by (simp add: wf_sync_def)
  moreover have "wf_base (Dense_Clear a)" using assms c w by (simp add: wf_settled_def wf_base_def)
  ultimately show ?thesis by (simp add: wf_ok_def)
qed

lemma served_maximal:
  assumes "\<And>i j. R i j \<Longrightarrow> served pr im om i j"
  shows "maximal R im om"
  using assms unfolding maximal_def served_def by blast

interpretation wf: allocator_contract wf_ok wf_settled al_inputs al_outputs dn_req al_inmatch al_outmatch
  Wavefront_AddRequest Wavefront_Allocate Dense_Clear
proof (unfold_locales, goal_cases)
  case (1 a)
  then show ?case using dn_clear [of a] wf_clear [of a] by (simp add: wf_settled_def wf_base_def)
next
  case (2 a i j label ip op)
  then show ?case using wf_add [of a i j label ip op] by blast
next
  case (3 a)
  then show ?case using Wavefront_Allocate_ok [of a] by (auto simp: wf_result_def)
qed

interpretation wfm: maximal_allocator wf_ok wf_settled al_inputs al_outputs dn_req al_inmatch al_outmatch
  Wavefront_AddRequest Wavefront_Allocate Dense_Clear "\<lambda>_. True"
proof (unfold_locales, goal_cases)
  case (3 a a')
  then show ?case using Wavefront_Allocate_ok [of a] by (auto simp: wf_result_def intro: served_maximal)
qed simp_all

lemma wf_new:
  assumes "0 < n" "0 < m"
  shows "wf_settled (new_Wavefront n m skip)"
proof -
  have "dn_ok (new_Wavefront n m skip)" using dn_new [of n m] assms by (simp add: new_Wavefront_def)
  then show ?thesis using assms
    by (simp add: wf_settled_def wf_base_def new_Wavefront_def dense.defs new_DenseAllocator_def new_Allocator_def allocator.defs)
qed

text \<open>After the requests were added, the matrix has their priorities.\<close>

lemma wf_adds_prio:
  assumes "wf_ok a" "distinct (map (\<lambda>(i, j, r). (i, j)) rs)"
    and "\<And>i j l p q. (i, j, l, p, q) \<in> set rs \<Longrightarrow> 0 \<le> i \<and> i < al_inputs a \<and> 0 \<le> j \<and> j < al_outputs a \<and> 0 \<le> l \<and> \<not> dn_req a i j"
    and "for_each (\<lambda>(i, j, l, p, q). Wavefront_AddRequest i j l p q) rs a = Inr a'"
  shows "((i, j, l, p, q) \<in> set rs \<longrightarrow> prio a' i j = (q, p)) \<and>
    (0 \<le> i \<and> 0 \<le> j \<and> (i, j) \<notin> (\<lambda>(i, j, r). (i, j)) ` set rs \<longrightarrow> prio a' i j = prio a i j)"
  using assms
proof (induction rs arbitrary: a)
  case (Cons r rs)
  obtain i0 j0 l0 p0 q0 where r: "r = (i0, j0, l0, p0, q0)" by (cases r) auto
  have ok: "0 \<le> i0" "i0 < al_inputs a" "0 \<le> j0" "j0 < al_outputs a" "0 \<le> l0" "\<not> dn_req a i0 j0"
    using Cons.prems(3) [of i0 j0 l0 p0 q0] r by auto
  obtain a1 where a1: "Wavefront_AddRequest i0 j0 l0 p0 q0 a = Inr a1" "wf_ok a1" "al_inputs a1 = al_inputs a" "al_outputs a1 = al_outputs a"
      "\<And>k l. dn_req a1 k l \<longleftrightarrow> dn_req a k l \<or> k = i0 \<and> l = j0"
      "\<And>k l. 0 \<le> k \<and> 0 \<le> l \<longrightarrow> prio a1 k l = (if k = i0 \<and> l = j0 then (q0, p0) else prio a k l)"
    using wf_add [OF Cons.prems(1) ok, of p0 q0] by blast
  have new: "(i', j') \<noteq> (i0, j0)" if "(i', j', l', p', q') \<in> set rs" for i' j' l' p' q' using Cons.prems(2) that r by force
  have IH: "((i, j, l, p, q) \<in> set rs \<longrightarrow> prio a' i j = (q, p)) \<and>
      (0 \<le> i \<and> 0 \<le> j \<and> (i, j) \<notin> (\<lambda>(i, j, r). (i, j)) ` set rs \<longrightarrow> prio a' i j = prio a1 i j)"
  proof (rule Cons.IH [OF a1(2)])
    show "0 \<le> i' \<and> i' < al_inputs a1 \<and> 0 \<le> j' \<and> j' < al_outputs a1 \<and> 0 \<le> l' \<and> \<not> dn_req a1 i' j'" if e: "(i', j', l', p', q') \<in> set rs" for i' j' l' p' q'
      using Cons.prems(3) [of i' j' l' p' q'] e a1(3,4,5) new [OF e] by auto
  qed (use Cons.prems(2,4) a1(1) r in auto)
  have "(i0, j0) \<notin> (\<lambda>(i, j, r). (i, j)) ` set rs" using Cons.prems(2) r by force
  then show ?case using IH a1(6) [of i j] ok r by auto
qed simp

section \<open>Properties\<close>

text \<open>
  A wavefront cycle never fails an assertion and leaves a matching of the requests. Every request shares a port with a granted request
  of at least its priority, where output priorities count first: no request can displace what was granted, and in particular none is left
  with both ports free.
\<close>

theorem wavefront_cycle:
  assumes "wf_settled a" "good_pairs (al_inputs a) (al_outputs a) rs"
  shows "\<exists>a'. alloc_cycle Wavefront_AddRequest Wavefront_Allocate Dense_Clear rs a = Inr a' \<and> wf_settled a' \<and>
    matching (al_inputs a) (al_outputs a) (req_pairs rs) (al_inmatch a') (al_outmatch a') \<and>
    (\<forall>i j l p q. (i, j, l, p, q) \<in> set rs \<longrightarrow> (\<exists>i' j' l' p' q'. (i', j', l', p', q') \<in> set rs \<and> vat (al_inmatch a') i' = j' \<and>
       (i' = i \<or> j' = j) \<and> (q < q' \<or> q = q' \<and> p \<le> p')))"
proof -
  obtain a1 where a1: "for_each (\<lambda>(i, j, l, p, q). Wavefront_AddRequest i j l p q) rs (Dense_Clear a) = Inr a1" "wf_ok a1"
      "al_inputs a1 = al_inputs a" "al_outputs a1 = al_outputs a" "al_inmatch a1 = unmatched (al_inputs a)" "al_outmatch a1 = unmatched (al_outputs a)"
      "dn_req a1 = req_pairs rs" using wf.cycle_adds [OF assms] by blast
  obtain a' where a': "Wavefront_Allocate a1 = Inr a'" "wf_settled a'" "wf_result a1 (al_inmatch a') (al_outmatch a')"
    using Wavefront_Allocate_ok [OF a1(2)] a1 by auto
  have dn: "dn_ok a" using assms(1) by (simp add: wf_settled_def wf_base_def)
  have c: "wf_ok (Dense_Clear a)" "\<And>i j. \<not> dn_req (Dense_Clear a) i j" "al_inputs (Dense_Clear a) = al_inputs a" "al_outputs (Dense_Clear a) = al_outputs a"
    using wf_clear [OF assms(1)] dn_clear [OF dn] by auto
  have pr: "prio a1 i j = (q, p)" if "(i, j, l, p, q) \<in> set rs" for i j l p q
    using wf_adds_prio [OF c(1) _ _ a1(1), of i j l p q] assms(2) c(2-4) that unfolding good_pairs_def by fastforce
  let ?im = "al_inmatch a'" and ?om = "al_outmatch a'"
  have M: "matching (al_inputs a) (al_outputs a) (req_pairs rs) ?im ?om" using a'(3) a1 by (simp add: wf_result_def)
  have "\<exists>i' j' l' p' q'. (i', j', l', p', q') \<in> set rs \<and> vat ?im i' = j' \<and> (i' = i \<or> j' = j) \<and> (q < q' \<or> q = q' \<and> p \<le> p')"
    if e: "(i, j, l, p, q) \<in> set rs" for i j l p q
  proof -
    have r: "0 \<le> i" "i < al_inputs a" "0 \<le> j" "j < al_outputs a" "req_pairs rs i j"
      using assms(2) e by (auto simp: good_pairs_def req_pairs_def rev_image_eqI)
    have "served (prio a1) ?im ?om i j" using a'(3) r(5) a1(7) by (simp add: wf_result_def)
    then obtain i' j' where g: "vat ?im i' = j'" "i' = i \<or> j' = j" "req_pairs rs i' j'" "prio a1 i j \<le> prio a1 i' j'"
    proof (unfold served_def, elim disjE conjE)
      assume "vat ?im i \<noteq> - 1" "prio a1 i j \<le> prio a1 i (vat ?im i)"
      moreover from this have "req_pairs rs i (vat ?im i)" using M r unfolding matching_def by blast
      ultimately show thesis using that by blast
    next
      assume n: "vat ?om j \<noteq> - 1" "prio a1 i j \<le> prio a1 (vat ?om j) j"
      have k: "0 \<le> vat ?om j" "vat ?om j < al_inputs a" "vat ?im (vat ?om j) = j" using M r n(1) unfolding matching_def by auto
      have "vat ?im (vat ?om j) \<noteq> - 1" using k r by simp
      then have "req_pairs rs (vat ?om j) j" using M k unfolding matching_def by metis
      then show thesis using that k(3) n(2) by blast
    qed
    from g(3) obtain l' p' q' where e': "(i', j', l', p', q') \<in> set rs" by (auto simp: req_pairs_def)
    have "(q, p) \<le> (q', p')" using g(4) pr [OF e] pr [OF e'] by simp
    then have "q < q' \<or> q = q' \<and> p \<le> p'" by (auto simp: less_eq_prod_def)
    then show ?thesis using e' g(1,2) by blast
  qed
  moreover have "alloc_cycle Wavefront_AddRequest Wavefront_Allocate Dense_Clear rs a = Inr a'" using a1(1) a'(1) by (simp add: alloc_cycle_def)
  ultimately show ?thesis using a'(2) M by blast
qed

theorem wavefront_cycle_witness:
  "\<exists>a'. alloc_cycle Wavefront_AddRequest Wavefront_Allocate Dense_Clear
      [(0, 0, 1, 0, 0), (0, 1, 1, 0, 2), (1, 1, 1, 0, 1)] (new_Wavefront 2 2 False) = Inr a' \<and> wf_settled a' \<and>
    matching 2 2 (req_pairs [(0, 0, 1, 0, 0), (0, 1, 1, 0, 2), (1, 1, 1, 0, 1)]) (al_inmatch a') (al_outmatch a')"
proof -
  have "al_inputs (new_Wavefront 2 2 False) = 2" "al_outputs (new_Wavefront 2 2 False) = 2"
    by (simp_all add: new_Wavefront_def dense.defs new_DenseAllocator_def new_Allocator_def allocator.defs)
  moreover have "good_pairs 2 2 [(0, 0, 1, 0, 0), (0, 1, 1, 0, 2), (1, 1, 1, 0, 1)]"
    by (simp add: good_pairs_def)
  ultimately show ?thesis
    using wavefront_cycle [OF wf_new [of 2 2 False], of "[(0, 0, 1, 0, 0), (0, 1, 1, 0, 2), (1, 1, 1, 0, 1)]"] by simp blast
qed

text \<open>
  A request that was removed is granted all the same when it was the only one: \<^verbatim>\<open>RemoveRequest\<close> is not overridden and leaves
  the counter and the last ports.
\<close>

lemma removed_request_granted:
  "\<exists>a'. bnd (Wavefront_AddRequest 1 0 5 0 0 (new_Wavefront 2 2 False)) (\<lambda>a. bnd (Dense_RemoveRequest 1 0 a) Wavefront_Allocate) = Inr a' \<and>
     vat (al_inmatch a') 1 = 0 \<and> rq_label (dn_get a' 1 0) = - 1"
proof -
  have "(case bnd (Wavefront_AddRequest 1 0 5 0 0 (new_Wavefront 2 2 False)) (\<lambda>a. bnd (Dense_RemoveRequest 1 0 a) Wavefront_Allocate) of
      Inl _ \<Rightarrow> False | Inr a' \<Rightarrow> vat (al_inmatch a') 1 = 0 \<and> rq_label (dn_get a' 1 0) = - 1)" by code_simp
  then show ?thesis by (auto split: sum.splits)
qed

end
