(* ===== verification/Flits.thy ===== *)
theory Flits
  imports Containers
begin

text \<open>
  The values that travel through the network: the set of outputs a routing function offers
  (\<^verbatim>\<open>outputset.cpp\<close>), flits (\<^verbatim>\<open>flit.cpp\<close>) and credits (\<^verbatim>\<open>credit.cpp\<close>) with the pools they are
  allocated from. A pool is an explicit store: addresses, the stacks \<^verbatim>\<open>_all\<close> and \<^verbatim>\<open>_free\<close>, and the set of
  addresses that are allocated, so that a second \<^verbatim>\<open>delete\<close> of one address is visible.
\<close>

section \<open>Output sets\<close>

record sSetElement =
  vc_start :: int
  vc_end :: int
  se_pri :: int
  output_port :: int

type_synonym output_set = "sSetElement list"

text \<open>
  \<^verbatim>\<open>std::set<sSetElement>::insert\<close> under the source's \<^verbatim>\<open>operator<\<close>, which compares priorities only:
  elements are kept in decreasing priority, and an element whose priority is present is not inserted.
\<close>

fun se_insert :: "sSetElement \<Rightarrow> output_set \<Rightarrow> output_set" where
  "se_insert s [] = [s]"
| "se_insert s (x # xs) =
     (if se_pri s > se_pri x then s # x # xs
      else if se_pri x > se_pri s then x # se_insert s xs
      else x # xs)"

definition OS_Clear :: "output_set \<Rightarrow> output_set" where
  "OS_Clear os = []"

definition OS_AddRange :: "int \<Rightarrow> int \<Rightarrow> int \<Rightarrow> int \<Rightarrow> output_set \<Rightarrow> output_set" where
  "OS_AddRange port vcs vce pri os =
     se_insert \<lparr>vc_start = vcs, vc_end = vce, se_pri = pri, output_port = port\<rparr> os"

definition OS_Add :: "int \<Rightarrow> int \<Rightarrow> int \<Rightarrow> output_set \<Rightarrow> output_set" where
  "OS_Add port vc pri os = OS_AddRange port vc vc pri os"

definition OS_NumVCs :: "int \<Rightarrow> output_set \<Rightarrow> int" where
  "OS_NumVCs port os =
     fold (\<lambda>i total. if output_port i = port then total + (vc_end i - vc_start i + 1) else total) os 0"

fun OS_OutputEmpty :: "int \<Rightarrow> output_set \<Rightarrow> bool" where
  "OS_OutputEmpty port [] = True"
| "OS_OutputEmpty port (i # os) = (if output_port i = port then False else OS_OutputEmpty port os)"

definition OS_GetSet :: "output_set \<Rightarrow> output_set" where
  "OS_GetSet os = os"

text \<open>The returned pair is the VC and the priority written through the optional pointer.\<close>

fun OS_GetVC :: "int \<Rightarrow> int \<Rightarrow> output_set \<Rightarrow> int \<times> int" where
  "OS_GetVC port remaining [] = (- 1, - 1)"
| "OS_GetVC port remaining (i # os) =
     (if output_port i = port then
        (let range = vc_end i - vc_start i + 1 in
         if remaining \<ge> range then OS_GetVC port (remaining - range) os
         else (vc_start i + remaining, se_pri i))
      else OS_GetVC port remaining os)"

text \<open>
  \<^verbatim>\<open>GetPortVC\<close>: the state is \<^verbatim>\<open>(single_output, *out_port, *out_vc)\<close>; both ways of leaving the loop
  early are the \<open>True\<close> results of the body.
\<close>

definition OS_GetPortVC :: "int \<times> int \<Rightarrow> output_set \<Rightarrow> bool \<times> int \<times> int" where
  "OS_GetPortVC out os =
     (let used_outputs = (case os of [] \<Rightarrow> 0 | i # _ \<Rightarrow> output_port i) in
      until_break (\<lambda>i (single, op, ov).
        if vc_start i = vc_end i then
          if used_outputs \<noteq> output_port i then (True, False, output_port i, vc_start i)
          else (False, True, output_port i, vc_start i)
        else (True, single, op, ov)) os (False, out))"

definition os_sorted :: "output_set \<Rightarrow> bool" where
  "os_sorted os \<longleftrightarrow> sorted_wrt (\<lambda>a b. se_pri a > se_pri b) os"

lemma set_se_insert:
  "os_sorted os \<Longrightarrow> set (se_insert s os) = (if se_pri s \<in> se_pri ` set os then set os else insert s (set os))"
  by (induction s os rule: se_insert.induct) (auto simp: os_sorted_def)

lemma os_sorted_Nil [simp]: "os_sorted []"
  by (simp add: os_sorted_def)

lemma os_sorted_insert [simp]: "os_sorted os \<Longrightarrow> os_sorted (se_insert s os)"
proof (induction s os rule: se_insert.induct)
  case (2 s x xs)
  then have "os_sorted xs" by (simp add: os_sorted_def)
  with 2 show ?case by (auto simp: os_sorted_def set_se_insert [unfolded os_sorted_def])
qed (simp add: os_sorted_def)

lemma os_sorted_AddRange [simp]: "os_sorted os \<Longrightarrow> os_sorted (OS_AddRange p a b pri os)"
  by (simp add: OS_AddRange_def)

lemma AddRange_empty [simp]:
  "OS_AddRange p a b pri [] = [\<lparr>vc_start = a, vc_end = b, se_pri = pri, output_port = p\<rparr>]"
  by (simp add: OS_AddRange_def)

lemma OS_Clear_simp [simp]: "OS_Clear os = []"
  by (simp add: OS_Clear_def)

text \<open>The VCs offered at a port, in the order of the set.\<close>

definition vcs_of :: "sSetElement \<Rightarrow> int list" where
  "vcs_of e = [vc_start e..vc_end e]"

definition vcs_at :: "int \<Rightarrow> output_set \<Rightarrow> int list" where
  "vcs_at port os = concat (map vcs_of (filter (\<lambda>e. output_port e = port) os))"

definition ranges_ok :: "output_set \<Rightarrow> bool" where
  "ranges_ok os \<longleftrightarrow> (\<forall>e \<in> set os. vc_start e \<le> vc_end e + 1)"

lemma vlen_vcs_of: "vc_start e \<le> vc_end e + 1 \<Longrightarrow> vlen (vcs_of e) = vc_end e - vc_start e + 1"
  by (simp add: vcs_of_def vlen_def)

lemma NumVCs_sum: "OS_NumVCs port os = (\<Sum>e\<leftarrow>filter (\<lambda>e. output_port e = port) os. vc_end e - vc_start e + 1)"
proof -
  have "fold (\<lambda>i total. if output_port i = port then total + (vc_end i - vc_start i + 1) else total) os t =
     t + (\<Sum>e\<leftarrow>filter (\<lambda>e. output_port e = port) os. vc_end e - vc_start e + 1)" for t
    by (induction os arbitrary: t) auto
  then show ?thesis by (simp add: OS_NumVCs_def)
qed

lemma NumVCs_length: "ranges_ok os \<Longrightarrow> OS_NumVCs port os = vlen (vcs_at port os)"
  unfolding NumVCs_sum vcs_at_def
  by (induction os) (auto simp: ranges_ok_def vlen_vcs_of)

lemma vat_append: "0 \<le> i \<Longrightarrow> vat (xs @ ys) i = (if i < vlen xs then vat xs i else vat ys (i - vlen xs))"
  by (auto simp: vat_def vlen_def nth_append nat_diff_distrib' nat_less_iff)

lemma vat_vcs_of: "0 \<le> i \<Longrightarrow> i \<le> vc_end e - vc_start e \<Longrightarrow> vat (vcs_of e) i = vc_start e + i"
  by (simp add: vcs_of_def vat_def nth_upto)

lemma GetVC_nth:
  assumes "ranges_ok os" "0 \<le> i"
  shows "fst (OS_GetVC port i os) = (if i < vlen (vcs_at port os) then vat (vcs_at port os) i else - 1)"
  using assms
proof (induction os arbitrary: i)
  case Nil
  then show ?case by (simp add: vcs_at_def)
next
  case (Cons e os)
  then have IH: "\<And>i. 0 \<le> i \<Longrightarrow> fst (OS_GetVC port i os) = (if i < vlen (vcs_at port os) then vat (vcs_at port os) i else - 1)"
    and e: "vc_start e \<le> vc_end e + 1" by (auto simp: ranges_ok_def)
  show ?case
  proof (cases "output_port e = port")
    case True
    let ?r = "vc_end e - vc_start e + 1"
    have split: "vcs_at port (e # os) = vcs_of e @ vcs_at port os" by (simp add: vcs_at_def True)
    show ?thesis
    proof (cases "i \<ge> ?r")
      case True
      then show ?thesis using IH [of "i - ?r"] Cons.prems e \<open>output_port e = port\<close>
        unfolding split vat_append [OF Cons.prems(2)] by (simp add: vlen_vcs_of Let_def)
    next
      case False
      then have "i < vlen (vcs_of e @ vcs_at port os)"
        using e vlen_nonneg [of "vcs_at port os"] unfolding vlen_simps vlen_vcs_of [OF e] by linarith
      then show ?thesis using False Cons.prems e \<open>output_port e = port\<close>
        unfolding split vat_append [OF Cons.prems(2)] by (simp add: vlen_vcs_of Let_def vat_vcs_of)
    qed
  next
    case False
    then have "vcs_at port (e # os) = vcs_at port os" by (simp add: vcs_at_def)
    then show ?thesis using IH [OF Cons.prems(2)] False by simp
  qed
qed

lemma OutputEmpty_iff: "OS_OutputEmpty port os \<longleftrightarrow> (\<forall>e \<in> set os. output_port e \<noteq> port)"
  by (induction os) auto

lemma GetPortVC_singleton:
  "OS_GetPortVC out [e] = (if vc_start e = vc_end e then (True, output_port e, vc_start e) else (False, out))"
  by (cases out) (simp add: OS_GetPortVC_def)

section \<open>Flits\<close>

datatype FlitType = READ_REQUEST | READ_REPLY | WRITE_REQUEST | WRITE_REPLY | ANY_TYPE

record flit =
  fl_type :: FlitType
  fl_vc :: int
  fl_cl :: int
  fl_head :: bool
  fl_tail :: bool
  fl_ctime :: int
  fl_itime :: int
  fl_atime :: int
  fl_id :: int
  fl_pid :: int
  fl_record :: bool
  fl_src :: int
  fl_dest :: int
  fl_pri :: int
  fl_hops :: int
  fl_watch :: bool
  fl_subnetwork :: int
  fl_packet_size :: int
  fl_intm :: int
  fl_ph :: int
  fl_data :: int
  fl_la_route_set :: output_set

text \<open>\<^verbatim>\<open>Reset\<close> leaves \<^verbatim>\<open>subnetwork\<close> and \<^verbatim>\<open>la_route_set\<close> as they are.\<close>

definition Flit_Reset :: "flit \<Rightarrow> flit" where
  "Flit_Reset f = f\<lparr>fl_type := ANY_TYPE, fl_vc := - 1, fl_cl := - 1, fl_head := False, fl_tail := False,
     fl_ctime := - 1, fl_itime := - 1, fl_atime := - 1, fl_id := - 1, fl_pid := - 1, fl_hops := 0,
     fl_watch := False, fl_record := False, fl_intm := 0, fl_src := - 1, fl_dest := - 1, fl_pri := 0,
     fl_intm := - 1, fl_ph := - 1, fl_data := 0, fl_packet_size := 0\<rparr>"

definition flit0 :: flit where
  "flit0 = \<lparr>fl_type = ANY_TYPE, fl_vc = - 1, fl_cl = - 1, fl_head = False, fl_tail = False, fl_ctime = - 1,
     fl_itime = - 1, fl_atime = - 1, fl_id = - 1, fl_pid = - 1, fl_record = False, fl_src = - 1, fl_dest = - 1,
     fl_pri = 0, fl_hops = 0, fl_watch = False, fl_subnetwork = 0, fl_packet_size = 0, fl_intm = - 1, fl_ph = - 1,
     fl_data = 0, fl_la_route_set = []\<rparr>"

text \<open>
  \<open>mem a = Some x\<close> says that address \<open>a\<close> is allocated and holds \<open>x\<close>. \<^verbatim>\<open>new\<close> takes the address
  \<open>next\<close>, which grows, so no address is reused; \<^verbatim>\<open>delete\<close> of an address that is not allocated is
  undefined behaviour.
\<close>

record 'a pool =
  pl_all :: "nat list"
  pl_free :: "nat list"
  pl_mem :: "nat \<Rightarrow> 'a option"
  pl_next :: nat

definition empty_pool :: "'a pool" where
  "empty_pool = \<lparr>pl_all = [], pl_free = [], pl_mem = (\<lambda>_. None), pl_next = 0\<rparr>"

definition pool_delete :: "nat \<Rightarrow> 'a pool \<Rightarrow> 'a pool res" where
  "pool_delete a p = (if pl_mem p a = None then Inl DoubleFree else Inr (p\<lparr>pl_mem := (pl_mem p)(a := None)\<rparr>))"

text \<open>
  The two branches of \<^verbatim>\<open>New\<close>. \<open>blank\<close> is what a fresh object holds after its constructor ran; the
  fields the constructor does not set are whatever the allocator left there.
\<close>

definition pool_New :: "('a \<Rightarrow> 'a) \<Rightarrow> 'a \<Rightarrow> 'a pool \<Rightarrow> (nat \<times> 'a pool) res" where
  "pool_New reset blank p =
     (case pl_free p of
        [] \<Rightarrow> let a = pl_next p in
          Inr (a, p\<lparr>pl_mem := (pl_mem p)(a \<mapsto> reset blank), pl_next := a + 1, pl_all := a # pl_all p\<rparr>)
      | a # rest \<Rightarrow>
         (case pl_mem p a of
            None \<Rightarrow> Inl UseAfterFree
          | Some x \<Rightarrow> Inr (a, p\<lparr>pl_mem := (pl_mem p)(a \<mapsto> reset x), pl_free := rest\<rparr>)))"

definition pool_FreeAll :: "'a pool \<Rightarrow> 'a pool res" where
  "pool_FreeAll p = for_each (\<lambda>a p. bnd (pool_delete a p) (\<lambda>p. Inr (p\<lparr>pl_all := tl (pl_all p)\<rparr>))) (pl_all p) p"

definition Flit_New :: "flit \<Rightarrow> flit pool \<Rightarrow> (nat \<times> flit pool) res" where
  "Flit_New blank p = pool_New Flit_Reset blank p"

definition Flit_Free :: "nat \<Rightarrow> flit pool \<Rightarrow> flit pool res" where
  "Flit_Free a p = pool_delete a p"

definition Flit_FreeAll :: "flit pool \<Rightarrow> flit pool res" where
  "Flit_FreeAll p = pool_FreeAll p"

section \<open>Credits\<close>

record credit =
  cr_vc :: "int list"
  cr_head :: bool
  cr_tail :: bool
  cr_id :: int

definition Credit_Reset :: "credit \<Rightarrow> credit" where
  "Credit_Reset c = c\<lparr>cr_vc := [], cr_head := False, cr_tail := False, cr_id := - 1\<rparr>"

definition Credit_New :: "credit \<Rightarrow> credit pool \<Rightarrow> (nat \<times> credit pool) res" where
  "Credit_New blank p = pool_New Credit_Reset blank p"

definition Credit_Free :: "nat \<Rightarrow> credit pool \<Rightarrow> credit pool" where
  "Credit_Free a p = p\<lparr>pl_free := a # pl_free p\<rparr>"

definition Credit_FreeAll :: "credit pool \<Rightarrow> credit pool res" where
  "Credit_FreeAll p = pool_FreeAll p"

definition Credit_OutStanding :: "credit pool \<Rightarrow> int" where
  "Credit_OutStanding p = vlen (pl_all p) - vlen (pl_free p)"

section \<open>The pools\<close>

definition pool_ok :: "'a pool \<Rightarrow> bool" where
  "pool_ok p \<longleftrightarrow> distinct (pl_all p) \<and> distinct (pl_free p) \<and> set (pl_free p) \<subseteq> set (pl_all p) \<and>
     (\<forall>a. pl_mem p a \<noteq> None \<longleftrightarrow> a \<in> set (pl_all p)) \<and> (\<forall>a \<in> set (pl_all p). a < pl_next p)"

definition outstanding :: "'a pool \<Rightarrow> nat set" where
  "outstanding p = set (pl_all p) - set (pl_free p)"

lemma pool_New_ok:
  assumes "pool_ok p"
  shows "\<exists>a x p'. pool_New reset blank p = Inr (a, p') \<and> pool_ok p' \<and> a \<notin> outstanding p \<and>
    outstanding p' = insert a (outstanding p) \<and> pl_mem p' a = Some (reset x) \<and>
    (\<forall>b. b \<noteq> a \<longrightarrow> pl_mem p' b = pl_mem p b)"
proof (cases "pl_free p")
  case Nil
  have "pl_next p \<notin> set (pl_all p)" using assms by (auto simp: pool_ok_def)
  with assms Nil show ?thesis
    by (auto simp: pool_New_def pool_ok_def outstanding_def Let_def intro!: exI [of _ blank])
next
  case (Cons a rest)
  have m: "a \<in> set (pl_all p)" using assms Cons by (auto simp: pool_ok_def)
  then obtain x where "pl_mem p a = Some x" using assms unfolding pool_ok_def by blast
  with assms Cons m show ?thesis
    by (auto simp: pool_New_def pool_ok_def outstanding_def intro!: exI [of _ x])
qed

lemma FreeAll_loop:
  assumes "distinct as" "pl_all p = as" "\<And>a. pl_mem p a \<noteq> None \<longleftrightarrow> a \<in> set as"
  shows "\<exists>p'. for_each (\<lambda>a p. bnd (pool_delete a p) (\<lambda>p. Inr (p\<lparr>pl_all := tl (pl_all p)\<rparr>))) as p = Inr p' \<and>
    pl_all p' = [] \<and> pl_mem p' = (\<lambda>_. None)"
  using assms
proof (induction as arbitrary: p)
  case (Cons a as)
  let ?p = "p\<lparr>pl_mem := (pl_mem p)(a := None), pl_all := as\<rparr>"
  have "pl_mem p a \<noteq> None" using Cons.prems(3) by simp
  then have "bnd (pool_delete a p) (\<lambda>p. Inr (p\<lparr>pl_all := tl (pl_all p)\<rparr>)) = Inr ?p"
    using Cons.prems(2) by (simp add: pool_delete_def)
  moreover have "\<exists>p'. for_each (\<lambda>a p. bnd (pool_delete a p) (\<lambda>p. Inr (p\<lparr>pl_all := tl (pl_all p)\<rparr>))) as ?p = Inr p' \<and>
    pl_all p' = [] \<and> pl_mem p' = (\<lambda>_. None)"
    by (rule Cons.IH) (use Cons.prems in auto)
  ultimately show ?case by simp
qed (simp add: fun_eq_iff)

lemma pool_FreeAll_ok:
  assumes "pool_ok p"
  shows "\<exists>p'. pool_FreeAll p = Inr p' \<and> pl_all p' = [] \<and> pl_mem p' = (\<lambda>_. None)"
  unfolding pool_FreeAll_def by (rule FreeAll_loop) (use assms in \<open>auto simp: pool_ok_def\<close>)

text \<open>The states the pool of credits can reach when only outstanding credits are freed.\<close>

inductive credit_reach :: "credit pool \<Rightarrow> bool" where
  init: "credit_reach empty_pool"
| new: "credit_reach p \<Longrightarrow> Credit_New blank p = Inr (a, p') \<Longrightarrow> credit_reach p'"
| free: "credit_reach p \<Longrightarrow> a \<in> outstanding p \<Longrightarrow> credit_reach (Credit_Free a p)"

lemma credit_reach_ok: "credit_reach p \<Longrightarrow> pool_ok p"
proof (induction rule: credit_reach.induct)
  case init
  then show ?case by (simp add: pool_ok_def empty_pool_def)
next
  case (new p blank a p')
  then show ?case using pool_New_ok [of p Credit_Reset blank] by (auto simp: Credit_New_def)
next
  case (free p a)
  then show ?case by (auto simp: pool_ok_def outstanding_def Credit_Free_def)
qed

lemma OutStanding_card:
  assumes "pool_ok p"
  shows "Credit_OutStanding p = int (card (outstanding p))"
proof -
  have "card (outstanding p) = length (pl_all p) - length (pl_free p)"
    using assms by (simp add: pool_ok_def outstanding_def card_Diff_subset distinct_card)
  moreover have "length (pl_free p) \<le> length (pl_all p)"
    using assms by (metis pool_ok_def card_mono distinct_card List.finite_set)
  ultimately show ?thesis by (simp add: Credit_OutStanding_def vlen_def)
qed

section \<open>Properties\<close>

text \<open>
  On a set whose ranges are not empty the wrong way round, \<^verbatim>\<open>GetVC(port, i)\<close> enumerates the VCs
  offered at the port in order of decreasing priority and returns -1 past the last one, and
  \<^verbatim>\<open>NumVCs(port)\<close> is how many there are: the two legacy accessors agree with the set itself.
\<close>

theorem GetVC_enumerates:
  assumes "ranges_ok os" "0 \<le> i"
  shows "OS_NumVCs port os = vlen (vcs_at port os) \<and>
    fst (OS_GetVC port i os) = (if i < OS_NumVCs port os then vat (vcs_at port os) i else - 1)"
  using GetVC_nth [OF assms, of port] NumVCs_length [OF assms(1), of port] by simp

theorem GetVC_enumerates_witness:
  "fst (OS_GetVC 2 3 (OS_AddRange 2 5 6 0 (OS_AddRange 1 0 0 4 (OS_AddRange 2 1 2 7 [])))) = 6"
  using GetVC_enumerates [of "OS_AddRange 2 5 6 0 (OS_AddRange 1 0 0 4 (OS_AddRange 2 1 2 7 []))" 3 2]
  by (simp add: ranges_ok_def OS_AddRange_def)

text \<open>
  C36: \<^verbatim>\<open>AddRange\<close> keeps the set in strictly decreasing priority, and it adds the range exactly when
  no element of that priority is there: a second output of the same priority is dropped.
\<close>

theorem AddRange_one_per_priority:
  assumes "os_sorted os"
  shows "os_sorted (OS_AddRange port a b pri os) \<and>
    set (OS_AddRange port a b pri os) = (if pri \<in> se_pri ` set os then set os
       else insert \<lparr>vc_start = a, vc_end = b, se_pri = pri, output_port = port\<rparr> (set os))"
  using set_se_insert [OF assms] assms by (simp add: OS_AddRange_def)

theorem AddRange_one_per_priority_witness:
  "OS_AddRange 3 0 1 0 (OS_AddRange 2 0 1 0 []) = OS_AddRange 2 0 1 0 [] \<and>
   set (OS_AddRange 3 0 1 0 (OS_AddRange 2 0 1 0 [])) = set (OS_AddRange 2 0 1 0 [])"
  using AddRange_one_per_priority [of "OS_AddRange 2 0 1 0 []" 3 0 1 0] by (simp add: OS_AddRange_def os_sorted_def)

text \<open>
  C37: As long as only outstanding credits are freed, the pool of credits never hands out a credit
  that is in use, the credit it hands out is reset and the others keep their contents,
  \<^verbatim>\<open>OutStanding\<close> is the number of credits in use, and \<^verbatim>\<open>FreeAll\<close> deletes every credit once.
\<close>

theorem credit_pool_safe:
  assumes "credit_reach p"
  shows "(\<exists>a x p'. Credit_New blank p = Inr (a, p') \<and> a \<notin> outstanding p \<and> outstanding p' = insert a (outstanding p) \<and>
      pl_mem p' a = Some (Credit_Reset x) \<and> (\<forall>b. b \<noteq> a \<longrightarrow> pl_mem p' b = pl_mem p b)) \<and>
    Credit_OutStanding p = int (card (outstanding p)) \<and>
    (\<exists>p'. Credit_FreeAll p = Inr p' \<and> pl_mem p' = (\<lambda>_. None))"
  using pool_New_ok [OF credit_reach_ok [OF assms], of Credit_Reset blank] OutStanding_card [OF credit_reach_ok [OF assms]]
    pool_FreeAll_ok [OF credit_reach_ok [OF assms]]
  unfolding Credit_New_def Credit_FreeAll_def by blast

text \<open>Two credits are allocated and the first is freed.\<close>

definition blank_credit :: credit where
  "blank_credit = \<lparr>cr_vc = [4], cr_head = True, cr_tail = True, cr_id = 9\<rparr>"

definition reused_pool :: "credit pool" where
  "reused_pool = \<lparr>pl_all = [1, 0], pl_free = [0], pl_mem = [0 \<mapsto> Credit_Reset blank_credit, 1 \<mapsto> Credit_Reset blank_credit], pl_next = 2\<rparr>"

lemma reused_pool_reach: "credit_reach reused_pool"
proof -
  define p1 where "p1 = \<lparr>pl_all = [0], pl_free = [], pl_mem = [0 \<mapsto> Credit_Reset blank_credit], pl_next = 1\<rparr>"
  define p2 where "p2 = reused_pool\<lparr>pl_free := []\<rparr>"
  have "Credit_New blank_credit empty_pool = Inr (0, p1)" by (simp add: Credit_New_def pool_New_def empty_pool_def p1_def Let_def)
  then have "credit_reach p1" by (rule credit_reach.new [OF credit_reach.init])
  moreover have "Credit_New blank_credit p1 = Inr (1, p2)" by (simp add: Credit_New_def pool_New_def p1_def p2_def reused_pool_def Let_def)
  ultimately have "credit_reach p2" by (rule credit_reach.new)
  moreover have "0 \<in> outstanding p2" "Credit_Free 0 p2 = reused_pool"
    by (simp_all add: outstanding_def p2_def reused_pool_def Credit_Free_def)
  ultimately show ?thesis using credit_reach.free by metis
qed

theorem credit_pool_safe_witness:
  "Credit_OutStanding reused_pool = 1 \<and>
   (\<exists>p'. Credit_New blank_credit reused_pool = Inr (0, p') \<and> outstanding p' = {0, 1} \<and> pl_mem p' 0 = Some (Credit_Reset blank_credit) \<and>
      pl_mem p' 1 = pl_mem reused_pool 1) \<and>
   (\<exists>p'. Credit_FreeAll reused_pool = Inr p' \<and> pl_mem p' = (\<lambda>_. None))"
proof -
  have o: "outstanding reused_pool = {1}" by (auto simp: outstanding_def reused_pool_def)
  have n: "Credit_New blank_credit reused_pool = Inr (a, p') \<Longrightarrow> a = 0 \<and> pl_mem p' 0 = Some (Credit_Reset blank_credit)" for a p'
    by (auto simp: Credit_New_def pool_New_def reused_pool_def Credit_Reset_def)
  from credit_pool_safe [OF reused_pool_reach, of blank_credit] show ?thesis
    using n unfolding o by (elim conjE exE) auto
qed

text \<open>
  C38: \<^verbatim>\<open>Flit::Free\<close> deletes the flit and leaves it in \<^verbatim>\<open>_all\<close>, so that \<^verbatim>\<open>Flit::FreeAll\<close>, which the
  destructor of the traffic manager calls, deletes it a second time: allocating one flit, freeing it
  and freeing all is undefined behaviour, from every state in which no flit is on the free stack.
\<close>

theorem Flit_FreeAll_double_free:
  assumes "pl_free p = []"
  shows "\<exists>a p1 p2. Flit_New blank p = Inr (a, p1) \<and> Flit_Free a p1 = Inr p2 \<and> Flit_FreeAll p2 = Inl DoubleFree"
  using assms
  by (simp add: Flit_New_def pool_New_def Let_def Flit_Free_def pool_delete_def Flit_FreeAll_def pool_FreeAll_def)

theorem Flit_FreeAll_double_free_witness:
  "\<exists>a p1 p2. Flit_New flit0 empty_pool = Inr (a, p1) \<and> Flit_Free a p1 = Inr p2 \<and> Flit_FreeAll p2 = Inl DoubleFree"
  using Flit_FreeAll_double_free [of empty_pool flit0] by (simp add: empty_pool_def)

end
