(* ===== verification/Digits.thy ===== *)
theory Digits
  imports Prelude
begin

text \<open>
  \<^verbatim>\<open>misc_utils.cpp\<close> (\<^verbatim>\<open>powi\<close> and \<^verbatim>\<open>log_two\<close>) and the arithmetic of node numbers: a node of a
  \<open>k\<close>-ary \<open>n\<close>-dimensional network is a number below \<open>k ^ n\<close> whose base-\<open>k\<close> digits are its coordinates.
\<close>

section \<open>Powers and logarithms\<close>

definition powi_c :: "int \<Rightarrow> int \<Rightarrow> int" where
  "powi_c x y = fold (\<lambda>_ r. r * x) (range0 y) 1"

text \<open>\<^verbatim>\<open>x >>= 1\<close> is an arithmetic shift, so the loop of \<^verbatim>\<open>log_two\<close> never ends on a negative argument.\<close>

partial_function (option) log_loop :: "int \<Rightarrow> int \<Rightarrow> int option" where
  "log_loop x r = (if x \<noteq> 0 then log_loop (x div 2) (r + 1) else Some r)"

definition log_two :: "int \<Rightarrow> int option" where
  "log_two x = log_loop (x div 2) 0"

lemma powi_eq: "powi_c x y = x ^ nat y"
proof -
  have "fold (\<lambda>_ r. r * x) xs r = r * x ^ length xs" for r and xs :: "int list"
    by (induction xs arbitrary: r) (simp_all add: algebra_simps)
  then show ?thesis by (simp add: powi_c_def range0_def)
qed

lemma log_loop_nonneg:
  assumes "0 \<le> x"
  shows "\<exists>e. log_loop x r = Some (r + int e) \<and> (if x = 0 then e = 0 else 2 ^ (e - 1) \<le> x \<and> x < 2 ^ e \<and> 0 < e)"
  using assms
proof (induction "nat x" arbitrary: x r rule: less_induct)
  case less
  show ?case
  proof (cases "x = 0")
    case True
    then show ?thesis by (simp add: log_loop.simps)
  next
    case False
    with less.prems have x: "0 < x" by simp
    have "\<exists>e. log_loop (x div 2) (r + 1) = Some (r + 1 + int e) \<and>
      (if x div 2 = 0 then e = 0 else 2 ^ (e - 1) \<le> x div 2 \<and> x div 2 < 2 ^ e \<and> 0 < e)"
      by (rule less.hyps) (use x in auto)
    then obtain e where e: "log_loop (x div 2) (r + 1) = Some (r + 1 + int e)"
      "if x div 2 = 0 then e = 0 else 2 ^ (e - 1) \<le> x div 2 \<and> x div 2 < 2 ^ e \<and> 0 < e" by blast
    have "log_loop x r = Some (r + int (Suc e))"
      using x e(1) by (subst log_loop.simps) (simp add: algebra_simps)
    moreover have "2 ^ (Suc e - 1) \<le> x \<and> x < 2 ^ Suc e"
    proof (cases "x div 2 = 0")
      case True
      with x e show ?thesis by simp
    next
      case False
      with e have "2 ^ (e - 1) \<le> x div 2" "x div 2 < 2 ^ e" "0 < e" by auto
      moreover from \<open>0 < e\<close> have "(2::int) ^ e = 2 * 2 ^ (e - 1)" by (cases e) auto
      ultimately show ?thesis by simp linarith
    qed
    ultimately show ?thesis using x by (intro exI [of _ "Suc e"]) simp
  qed
qed

lemma log_loop_Some:
  assumes "log_loop x r = Some y"
  shows "0 \<le> x"
proof -
  have "(case (x, r) of (x, r) \<Rightarrow> \<lambda>y. 0 \<le> x) y"
  proof (rule log_loop.raw_induct [where P = "\<lambda>x r y. 0 \<le> x"])
    show "(case (x, r) of (x, xa) \<Rightarrow> log_loop x xa) = Some y" using assms by simp
    fix f :: "int \<Rightarrow> int \<Rightarrow> int option" and x r y
    assume IH: "\<And>x r y. f x r = Some y \<Longrightarrow> 0 \<le> x"
      and e: "(if x \<noteq> 0 then f (x div 2) (r + 1) else Some r) = Some y"
    show "0 \<le> x"
    proof (cases "x = 0")
      case False
      with e have "0 \<le> x div 2" by (intro IH [of "x div 2" "r + 1" y]) simp
      then show ?thesis by (simp add: pos_imp_zdiv_nonneg_iff)
    qed simp
  qed
  then show ?thesis by simp
qed

lemma div_less_mult:
  assumes "0 < (n::int)" "i div n < m"
  shows "i < n * m"
proof (rule ccontr)
  assume "\<not> i < n * m"
  then have "n * m div n \<le> i div n" using assms(1) by (intro zdiv_mono1) auto
  then show False using assms by simp
qed

section \<open>Digits\<close>

definition digit :: "int \<Rightarrow> nat \<Rightarrow> int \<Rightarrow> int" where
  "digit k d x = (x div k ^ d) mod k"

lemma digit_0: "digit k 0 x = x mod k"
  by (simp add: digit_def)

lemma digit_Suc: "0 \<le> k \<Longrightarrow> digit k (Suc d) x = digit k d (x div k)"
  by (simp add: digit_def zdiv_zmult2_eq)

lemma digit_range: "0 < k \<Longrightarrow> 0 \<le> digit k d x \<and> digit k d x < k"
  by (simp add: digit_def)

lemma digits_unique:
  assumes "0 < k" "0 \<le> x" "x < k ^ n" "0 \<le> y" "y < k ^ n" "\<And>d. d < n \<Longrightarrow> digit k d x = digit k d y"
  shows "x = y"
  using assms
proof (induction n arbitrary: x y)
  case (Suc n)
  have "x div k = y div k"
  proof (rule Suc.IH)
    show "x div k < k ^ n" "y div k < k ^ n"
      using radix_div_less [of k x "k ^ n"] radix_div_less [of k y "k ^ n"] Suc.prems by simp_all
    show "0 \<le> x div k" "0 \<le> y div k" using Suc.prems by (simp_all add: pos_imp_zdiv_nonneg_iff)
    show "digit k d (x div k) = digit k d (y div k)" if "d < n" for d
      using Suc.prems(6) [of "Suc d"] that Suc.prems(1) by (simp add: digit_Suc)
  qed (rule Suc.prems(1))
  moreover have "x mod k = y mod k" using Suc.prems(6) [of 0] by (simp add: digit_0)
  ultimately show ?case by (metis mult_div_mod_eq)
qed simp

lemma digit_differs:
  assumes "0 < k" "0 \<le> x" "x < k ^ n" "0 \<le> y" "y < k ^ n" "x \<noteq> y"
  obtains d where "d < n" "digit k d x \<noteq> digit k d y"
  using digits_unique [OF assms(1-5)] assms(6) by blast

text \<open>Replacing one digit.\<close>

definition set_digit :: "int \<Rightarrow> nat \<Rightarrow> int \<Rightarrow> int \<Rightarrow> int" where
  "set_digit k d v x = x + (v - digit k d x) * k ^ d"

lemma set_digit_div:
  assumes "0 < k"
  shows "set_digit k d v x div k ^ d = x div k ^ d - digit k d x + v"
proof -
  have "(x + (v - digit k d x) * k ^ d) div k ^ d = (v - digit k d x) + x div k ^ d"
    using assms by (intro div_mult_self1) simp
  then show ?thesis by (simp add: set_digit_def)
qed

lemma digit_set_digit:
  assumes "0 < k" "0 \<le> v" "v < k"
  shows "digit k e (set_digit k d v x) = (if e = d then v else digit k e x)"
proof -
  define q where "q = x div k ^ d"
  have dq: "digit k d x = q mod k" by (simp add: digit_def q_def)
  have at: "set_digit k d v x div k ^ d = k * (q div k) + v"
    using set_digit_div [OF assms(1), of d v x] unfolding dq q_def [symmetric] by (simp add: minus_mod_eq_mult_div)
  consider "e < d" | "e = d" | "e > d" by linarith
  then show ?thesis
  proof cases
    case 1
    then obtain m where m: "d = e + Suc m" using less_iff_Suc_add by auto
    have "set_digit k d v x = x + k ^ e * (k * ((v - digit k d x) * k ^ m))"
      by (simp add: set_digit_def m power_add algebra_simps)
    then have "set_digit k d v x div k ^ e = k * ((v - digit k d x) * k ^ m) + x div k ^ e"
      using assms(1) by simp
    then show ?thesis using 1 by (simp add: digit_def)
  next
    case 2
    then show ?thesis using at assms by (simp add: digit_def)
  next
    case 3
    then obtain m where m: "e = d + Suc m" using less_iff_Suc_add by auto
    have "set_digit k d v x div k ^ Suc d = x div k ^ Suc d"
      using at assms by (simp add: power_Suc2 zdiv_zmult2_eq q_def del: power_Suc)
    moreover have "k ^ e = k ^ Suc d * k ^ m" by (simp add: m power_add)
    ultimately show ?thesis using 3 assms(1) by (simp add: digit_def zdiv_zmult2_eq)
  qed
qed

lemma set_digit_range:
  assumes "0 < k" "0 \<le> v" "v < k" "0 \<le> x" "x < k ^ n" "d < n"
  shows "0 \<le> set_digit k d v x" "set_digit k d v x < k ^ n"
proof -
  define q where "q = x div k ^ d"
  have dq: "digit k d x = q mod k" by (simp add: digit_def q_def)
  have "set_digit k d v x = x - digit k d x * k ^ d + v * k ^ d" by (simp add: set_digit_def algebra_simps)
  moreover have "digit k d x * k ^ d \<le> x"
  proof -
    have "q mod k \<le> q" using assms by (simp add: q_def pos_imp_zdiv_nonneg_iff zmod_le_nonneg_dividend)
    then have "q mod k * k ^ d \<le> q * k ^ d" using assms by simp
    also have "\<dots> \<le> x" by (simp add: q_def minus_mod_eq_div_mult [symmetric] assms(1))
    finally show ?thesis by (simp add: dq)
  qed
  ultimately show nn: "0 \<le> set_digit k d v x" using assms by simp
  obtain m where m: "n = d + Suc m" using assms(6) less_iff_Suc_add by auto
  have kn: "k ^ n = k ^ Suc d * k ^ m" by (simp add: m power_add)
  have "set_digit k d v x div k ^ d = k * (q div k) + v"
    using set_digit_div [OF assms(1), of d v x] unfolding dq q_def [symmetric] by (simp add: minus_mod_eq_mult_div)
  then have "set_digit k d v x div k ^ Suc d = x div k ^ Suc d"
    using assms by (simp add: power_Suc2 zdiv_zmult2_eq q_def del: power_Suc)
  moreover have "x div k ^ Suc d < k ^ m" using radix_div_less [of "k ^ Suc d" x "k ^ m"] assms kn by simp
  ultimately have "set_digit k d v x div k ^ Suc d < k ^ m" by simp
  then show "set_digit k d v x < k ^ n" unfolding kn using assms(1) by (intro div_less_mult) auto
qed

section \<open>Properties\<close>

text \<open>
  C40: \<^verbatim>\<open>log_two(x)\<close> returns exactly for \<open>x \<ge> 0\<close>, and for positive \<open>x\<close> it is the floor of the
  base-2 logarithm; on a negative argument its loop does not end.
\<close>

theorem log_two_floor:
  "((\<exists>r. log_two x = Some r) \<longleftrightarrow> 0 \<le> x) \<and>
   (0 < x \<longrightarrow> (\<exists>e. log_two x = Some (int e) \<and> 2 ^ e \<le> x \<and> x < 2 ^ Suc e))"
proof (intro conjI impI iffI)
  assume "\<exists>r. log_two x = Some r"
  then show "0 \<le> x" using log_loop_Some by (fastforce simp: log_two_def pos_imp_zdiv_nonneg_iff)
next
  assume "0 \<le> x"
  then show "\<exists>r. log_two x = Some r" using log_loop_nonneg [of "x div 2" 0] by (auto simp: log_two_def pos_imp_zdiv_nonneg_iff)
next
  assume x: "0 < x"
  then obtain e where e: "log_loop (x div 2) 0 = Some (int e)"
    "if x div 2 = 0 then e = 0 else 2 ^ (e - 1) \<le> x div 2 \<and> x div 2 < 2 ^ e \<and> 0 < e"
    using log_loop_nonneg [of "x div 2" 0] by (auto simp: pos_imp_zdiv_nonneg_iff)
  have "2 ^ e \<le> x \<and> x < 2 ^ Suc e"
  proof (cases "x div 2 = 0")
    case True
    with x e(2) show ?thesis by simp
  next
    case False
    with e have "2 ^ (e - 1) \<le> x div 2" "x div 2 < 2 ^ e" "0 < e" by auto
    moreover from \<open>0 < e\<close> have "(2::int) ^ e = 2 * 2 ^ (e - 1)" by (cases e) auto
    ultimately show ?thesis by simp linarith
  qed
  with e(1) show "\<exists>e. log_two x = Some (int e) \<and> 2 ^ e \<le> x \<and> x < 2 ^ Suc e" by (auto simp: log_two_def)
qed

theorem log_two_floor_witness: "\<exists>e. log_two 20 = Some (int e) \<and> 2 ^ e \<le> (20::int) \<and> 20 < (2::int) ^ Suc e"
  using log_two_floor [of 20] by simp

end
