(* ===== verification/Wiring.thy ===== *)
theory Wiring
  imports Digits
begin

text \<open>
  The part of \<^verbatim>\<open>Network\<close> (\<^verbatim>\<open>networks/network.cpp\<close>) and \<^verbatim>\<open>Router\<close> that every topology uses to
  connect itself: the injection, ejection and inter-router channels with their latencies and the
  ports of the routers they are attached to. A topology's \<^verbatim>\<open>_BuildNet\<close> is the sequence of calls of
  \<^verbatim>\<open>AddInputChannel\<close>, \<^verbatim>\<open>AddOutputChannel\<close> and \<^verbatim>\<open>SetLatency\<close> its loops make, in their order, and
  \<open>run_wiring\<close> executes it. The locale \<open>topology\<close> states what makes such a sequence a network (no
  channel is attached twice, all of them are attached) and derives that every channel then has
  exactly one source port and one sink port.
\<close>

section \<open>Channels and ports\<close>

datatype link = Chan int | Inject int | Eject int

record net =
  nt_size :: int
  nt_nodes :: int
  nt_channels :: int
  nt_in :: "link list list"
  nt_out :: "link list list"
  nt_faults :: "bool list list"
  nt_source :: "link \<Rightarrow> (int \<times> int) option"
  nt_sink :: "link \<Rightarrow> (int \<times> int) option"
  nt_lat :: "link \<Rightarrow> int"
  nt_credlat :: "link \<Rightarrow> int"

text \<open>The node side of an injection or ejection channel is \<^verbatim>\<open>NULL\<close>, written \<open>- 1\<close>.\<close>

definition node_source :: "int \<Rightarrow> link \<Rightarrow> (int \<times> int) option" where
  "node_source nodes l = (case l of Inject s \<Rightarrow> if 0 \<le> s \<and> s < nodes then Some (- 1, s) else None | _ \<Rightarrow> None)"

definition node_sink :: "int \<Rightarrow> link \<Rightarrow> (int \<times> int) option" where
  "node_sink nodes l = (case l of Eject d \<Rightarrow> if 0 \<le> d \<and> d < nodes then Some (- 1, d) else None | _ \<Rightarrow> None)"

definition net_Alloc :: "int \<Rightarrow> int \<Rightarrow> int \<Rightarrow> net res" where
  "net_Alloc sz nodes channels =
     bnd (assert_that (sz \<noteq> - 1 \<and> nodes \<noteq> - 1 \<and> channels \<noteq> - 1) ''sz'') (\<lambda>_. Inr
       \<lparr>nt_size = sz, nt_nodes = nodes, nt_channels = channels,
        nt_in = replicate (nat sz) [], nt_out = replicate (nat sz) [], nt_faults = replicate (nat sz) [],
        nt_source = node_source nodes, nt_sink = node_sink nodes,
        nt_lat = (\<lambda>_. 1), nt_credlat = (\<lambda>_. 1)\<rparr>)"

fun link_ok :: "net \<Rightarrow> link \<Rightarrow> bool" where
  "link_ok w (Chan c) \<longleftrightarrow> 0 \<le> c \<and> c < nt_channels w"
| "link_ok w (Inject s) \<longleftrightarrow> 0 \<le> s \<and> s < nt_nodes w"
| "link_ok w (Eject d) \<longleftrightarrow> 0 \<le> d \<and> d < nt_nodes w"

datatype wire = AddIn int link | AddOut int link | SetLat link int | SetCredLat link int

definition AddInputChannel :: "int \<Rightarrow> link \<Rightarrow> net \<Rightarrow> net" where
  "AddInputChannel r l w =
     (let ports = vat (nt_in w) r in
      w\<lparr>nt_in := vupd (nt_in w) r (ports @ [l]), nt_sink := (nt_sink w)(l \<mapsto> (r, vlen (ports @ [l]) - 1))\<rparr>)"

definition AddOutputChannel :: "int \<Rightarrow> link \<Rightarrow> net \<Rightarrow> net" where
  "AddOutputChannel r l w =
     (let ports = vat (nt_out w) r in
      w\<lparr>nt_out := vupd (nt_out w) r (ports @ [l]), nt_faults := vupd (nt_faults w) r (vat (nt_faults w) r @ [False]),
        nt_source := (nt_source w)(l \<mapsto> (r, vlen (ports @ [l]) - 1))\<rparr>)"

text \<open>One call: the router and the channel are elements of vectors; a latency must be positive.\<close>

fun wire_step :: "wire \<Rightarrow> net \<Rightarrow> net res" where
  "wire_step (AddIn r l) w =
     (if 0 \<le> r \<and> r < nt_size w \<and> link_ok w l then Inr (AddInputChannel r l w) else Inl OutOfBounds)"
| "wire_step (AddOut r l) w =
     (if 0 \<le> r \<and> r < nt_size w \<and> link_ok w l then Inr (AddOutputChannel r l w) else Inl OutOfBounds)"
| "wire_step (SetLat l c) w =
     (if \<not> link_ok w l then Inl OutOfBounds
      else if c \<le> 0 then Inl (ErrorMsg ''Channel must have positive delay.'')
      else Inr (w\<lparr>nt_lat := (nt_lat w)(l := c)\<rparr>))"
| "wire_step (SetCredLat l c) w =
     (if \<not> link_ok w l then Inl OutOfBounds
      else if c \<le> 0 then Inl (ErrorMsg ''Channel must have positive delay.'')
      else Inr (w\<lparr>nt_credlat := (nt_credlat w)(l := c)\<rparr>))"

definition run_wiring :: "int \<Rightarrow> int \<Rightarrow> int \<Rightarrow> wire list \<Rightarrow> net res" where
  "run_wiring sz nodes channels ops = bnd (net_Alloc sz nodes channels) (for_each wire_step ops)"

definition net_OutChannelFault :: "int \<Rightarrow> int \<Rightarrow> bool \<Rightarrow> net \<Rightarrow> net res" where
  "net_OutChannelFault r c fault w =
     bnd (assert_that (0 \<le> r \<and> r < nt_size w) ''router'') (\<lambda>_.
     bnd (assert_that (0 \<le> c \<and> c < vlen (vat (nt_faults w) r)) ''channel'') (\<lambda>_.
     Inr (w\<lparr>nt_faults := vupd (nt_faults w) r (vupd (vat (nt_faults w) r) c fault)\<rparr>)))"

definition net_IsFaultyOutput :: "int \<Rightarrow> int \<Rightarrow> net \<Rightarrow> bool res" where
  "net_IsFaultyOutput r c w =
     bnd (assert_that (0 \<le> c \<and> c < vlen (vat (nt_faults w) r)) ''channel'') (\<lambda>_. Inr (vat (vat (nt_faults w) r) c))"

section \<open>What a sequence of calls builds\<close>

definition ins :: "wire list \<Rightarrow> link list" where
  "ins ops = concat (map (\<lambda>x. case x of AddIn r l \<Rightarrow> [l] | _ \<Rightarrow> []) ops)"

definition outs :: "wire list \<Rightarrow> link list" where
  "outs ops = concat (map (\<lambda>x. case x of AddOut r l \<Rightarrow> [l] | _ \<Rightarrow> []) ops)"

definition ins_at :: "int \<Rightarrow> wire list \<Rightarrow> link list" where
  "ins_at r ops = concat (map (\<lambda>x. case x of AddIn q l \<Rightarrow> if q = r then [l] else [] | _ \<Rightarrow> []) ops)"

definition outs_at :: "int \<Rightarrow> wire list \<Rightarrow> link list" where
  "outs_at r ops = concat (map (\<lambda>x. case x of AddOut q l \<Rightarrow> if q = r then [l] else [] | _ \<Rightarrow> []) ops)"

lemma ins_simps [simp]:
  "ins [] = []" "ins (x # xs) = (case x of AddIn r l \<Rightarrow> [l] | _ \<Rightarrow> []) @ ins xs" "ins (xs @ ys) = ins xs @ ins ys"
  "outs [] = []" "outs (x # xs) = (case x of AddOut r l \<Rightarrow> [l] | _ \<Rightarrow> []) @ outs xs" "outs (xs @ ys) = outs xs @ outs ys"
  "ins_at r [] = []" "ins_at r (xs @ ys) = ins_at r xs @ ins_at r ys"
  "ins_at r (x # xs) = (case x of AddIn q l \<Rightarrow> if q = r then [l] else [] | _ \<Rightarrow> []) @ ins_at r xs"
  "outs_at r [] = []" "outs_at r (xs @ ys) = outs_at r xs @ outs_at r ys"
  "outs_at r (x # xs) = (case x of AddOut q l \<Rightarrow> if q = r then [l] else [] | _ \<Rightarrow> []) @ outs_at r xs"
  by (simp_all add: ins_def outs_def ins_at_def outs_at_def)

lemma ins_concat: "ins (concat xss) = concat (map ins xss)" "outs (concat xss) = concat (map outs xss)"
  "ins_at r (concat xss) = concat (map (ins_at r) xss)" "outs_at r (concat xss) = concat (map (outs_at r) xss)"
  by (induction xss) simp_all

lemma in_ins: "l \<in> set (ins ops) \<longleftrightarrow> (\<exists>r. AddIn r l \<in> set ops)"
  by (induction ops) (auto split: wire.splits)

lemma in_outs: "l \<in> set (outs ops) \<longleftrightarrow> (\<exists>r. AddOut r l \<in> set ops)"
  by (induction ops) (auto split: wire.splits)

definition good_wire :: "int \<Rightarrow> int \<Rightarrow> int \<Rightarrow> wire \<Rightarrow> bool" where
  "good_wire sz nodes channels x =
     (let ok = (\<lambda>l. case l of Chan c \<Rightarrow> 0 \<le> c \<and> c < channels | Inject s \<Rightarrow> 0 \<le> s \<and> s < nodes
                  | Eject d \<Rightarrow> 0 \<le> d \<and> d < nodes)
      in case x of AddIn r l \<Rightarrow> 0 \<le> r \<and> r < sz \<and> ok l | AddOut r l \<Rightarrow> 0 \<le> r \<and> r < sz \<and> ok l
         | SetLat l c \<Rightarrow> ok l \<and> 0 < c | SetCredLat l c \<Rightarrow> ok l \<and> 0 < c)"

text \<open>The state after a prefix of the calls.\<close>

definition built :: "int \<Rightarrow> int \<Rightarrow> int \<Rightarrow> wire list \<Rightarrow> net \<Rightarrow> bool" where
  "built sz nodes channels ops w \<longleftrightarrow>
     nt_size w = sz \<and> nt_nodes w = nodes \<and> nt_channels w = channels \<and>
     vlen (nt_in w) = sz \<and> vlen (nt_out w) = sz \<and> vlen (nt_faults w) = sz \<and>
     (\<forall>r. 0 \<le> r \<and> r < sz \<longrightarrow> vat (nt_in w) r = ins_at r ops \<and> vat (nt_out w) r = outs_at r ops \<and>
        vat (nt_faults w) r = replicate (length (outs_at r ops)) False) \<and>
     (\<forall>l \<in> set (ins ops). \<exists>r p. nt_sink w l = Some (r, p) \<and> 0 \<le> r \<and> r < sz \<and> 0 \<le> p \<and> p < vlen (ins_at r ops) \<and>
        vat (ins_at r ops) p = l) \<and>
     (\<forall>l \<in> set (outs ops). \<exists>r p. nt_source w l = Some (r, p) \<and> 0 \<le> r \<and> r < sz \<and> 0 \<le> p \<and> p < vlen (outs_at r ops) \<and>
        vat (outs_at r ops) p = l) \<and>
     (\<forall>l. l \<notin> set (ins ops) \<longrightarrow> nt_sink w l = node_sink nodes l) \<and>
     (\<forall>l. l \<notin> set (outs ops) \<longrightarrow> nt_source w l = node_source nodes l)"

lemma vat_snoc: "vat (xs @ [x]) (vlen xs) = x" "0 \<le> p \<Longrightarrow> p < vlen xs \<Longrightarrow> vat (xs @ ys) p = vat xs p"
  by (simp_all add: vat_def vlen_def nth_append nat_less_iff)

lemma built_step:
  assumes "built sz nodes channels ops w" "good_wire sz nodes channels x"
  shows "\<exists>w'. wire_step x w = Inr w' \<and> built sz nodes channels (ops @ [x]) w'"
proof (cases x)
  case (AddIn r l)
  then have r: "0 \<le> r" "r < sz" and ok: "link_ok w l"
    using assms by (auto simp: good_wire_def built_def split: link.splits)
  have rows: "vat (nt_in w) r = ins_at r ops" using assms(1) r by (simp add: built_def)
  let ?w = "AddInputChannel r l w"
  have "built sz nodes channels (ops @ [x]) ?w"
    using assms(1) r rows unfolding built_def AddInputChannel_def AddIn
    by (fastforce simp: Let_def vat_snoc)
  then show ?thesis using assms(1) r ok AddIn by (auto simp: built_def)
next
  case (AddOut r l)
  then have r: "0 \<le> r" "r < sz" and ok: "link_ok w l"
    using assms by (auto simp: good_wire_def built_def split: link.splits)
  have rows: "vat (nt_out w) r = outs_at r ops" using assms(1) r by (simp add: built_def)
  let ?w = "AddOutputChannel r l w"
  have "built sz nodes channels (ops @ [x]) ?w"
    using assms(1) r rows unfolding built_def AddOutputChannel_def AddOut
    by (fastforce simp: Let_def vat_snoc replicate_append_same)
  then show ?thesis using assms(1) r ok AddOut by (auto simp: built_def)
next
  case (SetLat l c)
  then have "link_ok w l" "0 < c" using assms by (auto simp: good_wire_def built_def split: link.splits)
  then show ?thesis using assms(1) SetLat by (auto simp: built_def)
next
  case (SetCredLat l c)
  then have "link_ok w l" "0 < c" using assms by (auto simp: good_wire_def built_def split: link.splits)
  then show ?thesis using assms(1) SetCredLat by (auto simp: built_def)
qed

lemma built_run:
  assumes "0 \<le> sz" "0 \<le> nodes" "0 \<le> channels" "\<And>x. x \<in> set ops \<Longrightarrow> good_wire sz nodes channels x"
  shows "\<exists>w. run_wiring sz nodes channels ops = Inr w \<and> built sz nodes channels ops w"
proof -
  obtain w0 where w0: "net_Alloc sz nodes channels = Inr w0" "built sz nodes channels [] w0"
    using assms(1-3) by (simp add: net_Alloc_def built_def vlen_def)
  have "\<exists>w. for_each wire_step ops w0 = Inr w \<and> built sz nodes channels ops w"
    by (rule for_each_prefix [where P = "built sz nodes channels"]) (use w0 assms(4) in \<open>auto intro!: built_step\<close>)
  then show ?thesis by (simp add: run_wiring_def w0(1))
qed

definition is_out_port :: "net \<Rightarrow> link \<Rightarrow> int \<Rightarrow> int \<Rightarrow> bool" where
  "is_out_port w l r p \<longleftrightarrow> 0 \<le> r \<and> r < nt_size w \<and> 0 \<le> p \<and> p < vlen (vat (nt_out w) r) \<and> vat (vat (nt_out w) r) p = l"

definition is_in_port :: "net \<Rightarrow> link \<Rightarrow> int \<Rightarrow> int \<Rightarrow> bool" where
  "is_in_port w l r p \<longleftrightarrow> 0 \<le> r \<and> r < nt_size w \<and> 0 \<le> p \<and> p < vlen (vat (nt_in w) r) \<and> vat (vat (nt_in w) r) p = l"

text \<open>
  Every channel has one router port it leaves from and one it arrives at (the node side of injection
  and ejection channels apart), and these are what the channel records as source and sink.
\<close>

definition well_wired :: "net \<Rightarrow> bool" where
  "well_wired w \<longleftrightarrow> (\<forall>l. link_ok w l \<longrightarrow>
     (case l of Inject s \<Rightarrow> nt_source w l = Some (- 1, s)
      | _ \<Rightarrow> \<exists>r p. nt_source w l = Some (r, p) \<and> (\<forall>r' p'. is_out_port w l r' p' \<longleftrightarrow> r' = r \<and> p' = p)) \<and>
     (case l of Eject d \<Rightarrow> nt_sink w l = Some (- 1, d)
      | _ \<Rightarrow> \<exists>r p. nt_sink w l = Some (r, p) \<and> (\<forall>r' p'. is_in_port w l r' p' \<longleftrightarrow> r' = r \<and> p' = p)))"

lemma ins_at_subset: "set (ins_at r ops) \<subseteq> set (ins ops)" "set (outs_at r ops) \<subseteq> set (outs ops)"
  by (induction ops) (auto split: wire.splits if_splits)

lemma ins_at_distinct:
  "distinct (ins ops) \<Longrightarrow> distinct (ins_at r ops)"
  "distinct (ins ops) \<Longrightarrow> r \<noteq> q \<Longrightarrow> set (ins_at r ops) \<inter> set (ins_at q ops) = {}"
  "distinct (outs ops) \<Longrightarrow> distinct (outs_at r ops)"
  "distinct (outs ops) \<Longrightarrow> r \<noteq> q \<Longrightarrow> set (outs_at r ops) \<inter> set (outs_at q ops) = {}"
proof (induction ops)
  case (Cons x ops)
  note sub = ins_at_subset(1) [of r ops] ins_at_subset(1) [of q ops] ins_at_subset(2) [of r ops] ins_at_subset(2) [of q ops]
  {
    case 1
    then show ?case using Cons.IH(1) sub by (auto split: wire.splits)
  next
    case 2
    then show ?case using Cons.IH(2) sub by (auto split: wire.splits)
  next
    case 3
    then show ?case using Cons.IH(3) sub by (auto split: wire.splits)
  next
    case 4
    then show ?case using Cons.IH(4) sub by (auto split: wire.splits)
  }
qed simp_all

lemma vat_inj:
  assumes "distinct xs" "0 \<le> i" "i < vlen xs" "0 \<le> j" "j < vlen xs" "vat xs i = vat xs j"
  shows "i = j"
  using assms nth_eq_iff_index_eq [OF assms(1), of "nat i" "nat j"] by (simp add: vat_def vlen_def nat_less_iff)

lemma port_unique:
  assumes "\<And>r. distinct (f r)" "\<And>r q. r \<noteq> q \<Longrightarrow> set (f r) \<inter> set (f q) = {}"
    and "0 \<le> p" "p < vlen (f r)" "vat (f r) p = l" "0 \<le> p'" "p' < vlen (f r')" "vat (f r') p' = l"
  shows "r' = r \<and> p' = p"
proof -
  have "l \<in> set (f r)" "l \<in> set (f r')" using vat_in_set [of p "f r"] vat_in_set [of p' "f r'"] assms by auto
  with assms(2) have "r' = r" by blast
  with assms vat_inj [OF assms(1) [of r], of p' p] show ?thesis by auto
qed

lemma distinct_concat_map:
  assumes "distinct xs" "\<And>x. x \<in> set xs \<Longrightarrow> distinct (f x)"
    and "\<And>x y. x \<in> set xs \<Longrightarrow> y \<in> set xs \<Longrightarrow> x \<noteq> y \<Longrightarrow> set (f x) \<inter> set (f y) = {}"
  shows "distinct (concat (map f xs))"
  using assms by (induction xs) auto

locale topology =
  fixes valid :: "'p \<Rightarrow> bool"
    and sz :: "'p \<Rightarrow> int"
    and nodes :: "'p \<Rightarrow> int"
    and channels :: "'p \<Rightarrow> int"
    and ops :: "'p \<Rightarrow> wire list"
  assumes sizes: "valid p \<Longrightarrow> 0 \<le> sz p \<and> 0 \<le> nodes p \<and> 0 \<le> channels p"
    and good: "valid p \<Longrightarrow> x \<in> set (ops p) \<Longrightarrow> good_wire (sz p) (nodes p) (channels p) x"
    and ins_once: "valid p \<Longrightarrow> distinct (ins (ops p))"
    and outs_once: "valid p \<Longrightarrow> distinct (outs (ops p))"
    and ins_all: "valid p \<Longrightarrow> set (ins (ops p)) = Chan ` {0..<channels p} \<union> Inject ` {0..<nodes p}"
    and outs_all: "valid p \<Longrightarrow> set (outs (ops p)) = Chan ` {0..<channels p} \<union> Eject ` {0..<nodes p}"
begin

lemma source_unique:
  assumes "valid p" "built (sz p) (nodes p) (channels p) (ops p) w" "l \<in> set (outs (ops p))"
  shows "\<exists>r q. nt_source w l = Some (r, q) \<and> (\<forall>r' q'. is_out_port w l r' q' \<longleftrightarrow> r' = r \<and> q' = q)"
proof -
  from assms obtain r q where rq: "nt_source w l = Some (r, q)" "0 \<le> r" "r < sz p" "0 \<le> q"
      "q < vlen (outs_at r (ops p))" "vat (outs_at r (ops p)) q = l"
    unfolding built_def by blast
  note d = ins_at_distinct(3,4) [OF outs_once [OF assms(1)]]
  have rows: "vat (nt_out w) r' = outs_at r' (ops p)" if "0 \<le> r'" "r' < sz p" for r'
    using assms(2) that by (simp add: built_def)
  have "is_out_port w l r' q' \<longleftrightarrow> r' = r \<and> q' = q" for r' q'
  proof
    assume "is_out_port w l r' q'"
    then have "0 \<le> q'" "q' < vlen (outs_at r' (ops p))" "vat (outs_at r' (ops p)) q' = l"
      using rows assms(2) by (auto simp: is_out_port_def built_def)
    with rq(4-6) show "r' = r \<and> q' = q" by (intro port_unique [where f = "\<lambda>r. outs_at r (ops p)", OF d])
  next
    assume "r' = r \<and> q' = q"
    then show "is_out_port w l r' q'" using rq rows assms(2) by (simp add: is_out_port_def built_def)
  qed
  with rq(1) show ?thesis by blast
qed

lemma sink_unique:
  assumes "valid p" "built (sz p) (nodes p) (channels p) (ops p) w" "l \<in> set (ins (ops p))"
  shows "\<exists>r q. nt_sink w l = Some (r, q) \<and> (\<forall>r' q'. is_in_port w l r' q' \<longleftrightarrow> r' = r \<and> q' = q)"
proof -
  from assms obtain r q where rq: "nt_sink w l = Some (r, q)" "0 \<le> r" "r < sz p" "0 \<le> q"
      "q < vlen (ins_at r (ops p))" "vat (ins_at r (ops p)) q = l"
    unfolding built_def by blast
  note d = ins_at_distinct(1,2) [OF ins_once [OF assms(1)]]
  have rows: "vat (nt_in w) r' = ins_at r' (ops p)" if "0 \<le> r'" "r' < sz p" for r'
    using assms(2) that by (simp add: built_def)
  have "is_in_port w l r' q' \<longleftrightarrow> r' = r \<and> q' = q" for r' q'
  proof
    assume "is_in_port w l r' q'"
    then have "0 \<le> q'" "q' < vlen (ins_at r' (ops p))" "vat (ins_at r' (ops p)) q' = l"
      using rows assms(2) by (auto simp: is_in_port_def built_def)
    with rq(4-6) show "r' = r \<and> q' = q" by (intro port_unique [where f = "\<lambda>r. ins_at r (ops p)", OF d])
  next
    assume "r' = r \<and> q' = q"
    then show "is_in_port w l r' q'" using rq rows assms(2) by (simp add: is_in_port_def built_def)
  qed
  with rq(1) show ?thesis by blast
qed

lemma wired:
  assumes "valid p"
  shows "\<exists>w. run_wiring (sz p) (nodes p) (channels p) (ops p) = Inr w \<and> well_wired w \<and>
    built (sz p) (nodes p) (channels p) (ops p) w"
proof -
  have s: "0 \<le> sz p" "0 \<le> nodes p" "0 \<le> channels p" using sizes [OF assms] by auto
  from built_run [OF s good [OF assms]] obtain w where
    w: "run_wiring (sz p) (nodes p) (channels p) (ops p) = Inr w" "built (sz p) (nodes p) (channels p) (ops p) w" by blast
  have n: "nt_channels w = channels p" "nt_nodes w = nodes p" using w(2) by (simp_all add: built_def)
  have "well_wired w"
    unfolding well_wired_def
  proof (intro allI impI)
    fix l assume l: "link_ok w l"
    have "(case l of Inject s \<Rightarrow> nt_source w l = Some (- 1, s)
      | _ \<Rightarrow> \<exists>r q. nt_source w l = Some (r, q) \<and> (\<forall>r' q'. is_out_port w l r' q' \<longleftrightarrow> r' = r \<and> q' = q))"
    proof (cases l)
      case (Inject s)
      then have "l \<notin> set (outs (ops p))" using outs_all [OF assms] by auto
      then show ?thesis using w(2) l n Inject by (simp add: built_def node_source_def)
    qed (use source_unique [OF assms w(2), of l] outs_all [OF assms] l n in auto)
    moreover have "(case l of Eject d \<Rightarrow> nt_sink w l = Some (- 1, d)
      | _ \<Rightarrow> \<exists>r q. nt_sink w l = Some (r, q) \<and> (\<forall>r' q'. is_in_port w l r' q' \<longleftrightarrow> r' = r \<and> q' = q))"
    proof (cases l)
      case (Eject d)
      then have "l \<notin> set (ins (ops p))" using ins_all [OF assms] by auto
      then show ?thesis using w(2) l n Eject by (simp add: built_def node_sink_def)
    qed (use sink_unique [OF assms w(2), of l] ins_all [OF assms] l n in auto)
    ultimately show "(case l of Inject s \<Rightarrow> nt_source w l = Some (- 1, s)
      | _ \<Rightarrow> \<exists>r q. nt_source w l = Some (r, q) \<and> (\<forall>r' q'. is_out_port w l r' q' \<longleftrightarrow> r' = r \<and> q' = q)) \<and>
      (case l of Eject d \<Rightarrow> nt_sink w l = Some (- 1, d)
      | _ \<Rightarrow> \<exists>r q. nt_sink w l = Some (r, q) \<and> (\<forall>r' q'. is_in_port w l r' q' \<longleftrightarrow> r' = r \<and> q' = q))" ..
  qed
  with w show ?thesis by blast
qed

end

end
