(* ===== verification/Cube.thy ===== *)
theory Cube
  imports Wiring Rng Containers
begin

text \<open>
  \<^verbatim>\<open>KNCube\<close> (\<^verbatim>\<open>networks/kncube.cpp\<close>), the \<open>k\<close>-ary \<open>n\<close>-dimensional mesh and torus: the numbering of
  neighbours and channels, \<^verbatim>\<open>_BuildNet\<close> and \<^verbatim>\<open>InsertRandomFaults\<close>. The lemmas show that a step to the left
  or right neighbour changes one coordinate by one, that the two steps are inverse to each other, that every channel has
  one source and one sink, and that a flit leaving on port \<open>p\<close> arrives on port \<open>p\<close> with its last bit flipped.
\<close>

section \<open>Neighbours and channels\<close>

definition knc_LeftChannel :: "int \<Rightarrow> int \<Rightarrow> int \<Rightarrow> int" where
  "knc_LeftChannel n node dim = (let base = 2 * n * node; off = 2 * dim + 1 in base + off)"

definition knc_RightChannel :: "int \<Rightarrow> int \<Rightarrow> int \<Rightarrow> int" where
  "knc_RightChannel n node dim = (let base = 2 * n * node; off = 2 * dim in base + off)"

definition knc_LeftNode :: "int \<Rightarrow> int \<Rightarrow> int \<Rightarrow> int" where
  "knc_LeftNode k node dim =
     (let k_to_dim = powi_c k dim; loc_in_dim = (node sdiv k_to_dim) smod k in
      if loc_in_dim = 0 then node + (k - 1) * k_to_dim else node - k_to_dim)"

definition knc_RightNode :: "int \<Rightarrow> int \<Rightarrow> int \<Rightarrow> int" where
  "knc_RightNode k node dim =
     (let k_to_dim = powi_c k dim; loc_in_dim = (node sdiv k_to_dim) smod k in
      if loc_in_dim = k - 1 then node - (k - 1) * k_to_dim else node + k_to_dim)"

record kncube =
  kn_mesh :: bool
  kn_k :: int
  kn_n :: int
  kn_noc :: bool   \<comment> \<open>the configuration's use_noc_latency\<close>

definition knc_size :: "kncube \<Rightarrow> int" where
  "knc_size c = powi_c (kn_k c) (kn_n c)"

definition knc_channels :: "kncube \<Rightarrow> int" where
  "knc_channels c = 2 * kn_n c * knc_size c"

definition knc_build_dim :: "kncube \<Rightarrow> int \<Rightarrow> int \<Rightarrow> wire list" where
  "knc_build_dim c node dim =
     (let left_node = knc_LeftNode (kn_k c) node dim;
          right_node = knc_RightNode (kn_k c) node dim;
          latency = (if kn_mesh c then 1 else 2);
          right_input = Chan (knc_LeftChannel (kn_n c) right_node dim);
          left_input = Chan (knc_RightChannel (kn_n c) left_node dim);
          right_output = Chan (knc_RightChannel (kn_n c) node dim);
          left_output = Chan (knc_LeftChannel (kn_n c) node dim)
      in [AddIn node right_input, AddIn node left_input] @
         (if kn_noc c then [SetLat right_input latency, SetLat left_input latency,
            SetCredLat right_input latency, SetCredLat left_input latency]
          else [SetLat left_input 1, SetCredLat right_input 1, SetCredLat left_input 1, SetLat right_input 1]) @
         [AddOut node right_output, AddOut node left_output] @
         (if kn_noc c then [SetLat right_output latency, SetLat left_output latency,
            SetCredLat right_output latency, SetCredLat left_output latency]
          else [SetLat right_output 1, SetLat left_output 1, SetCredLat right_output 1, SetCredLat left_output 1]))"

definition knc_build_node :: "kncube \<Rightarrow> int \<Rightarrow> wire list" where
  "knc_build_node c node = concat (map (knc_build_dim c node) (range0 (kn_n c))) @
     [AddIn node (Inject node), AddOut node (Eject node), SetLat (Inject node) 1, SetLat (Eject node) 1]"

definition knc_BuildNet :: "kncube \<Rightarrow> wire list" where
  "knc_BuildNet c = concat (map (knc_build_node c) (range0 (knc_size c)))"

definition new_KNCube :: "kncube \<Rightarrow> net res" where
  "new_KNCube c = run_wiring (knc_size c) (knc_size c) (knc_channels c) (knc_BuildNet c)"

text \<open>
  \<^verbatim>\<open>InsertRandomFaults\<close>. The inner loops declare their own \<^verbatim>\<open>node\<close> and \<^verbatim>\<open>n\<close>; the outer \<^verbatim>\<open>node\<close>
  keeps its initial -1. \<^verbatim>\<open>( n + c ) % 2*_n\<close> groups as \<^verbatim>\<open>(( n + c ) % 2) * _n\<close> and
  \<^verbatim>\<open>chan % 1\<close> is zero, so only right neighbours are looked at. The seed is the value
  \<^verbatim>\<open>fail_seed\<close> or the time of day.
\<close>

definition knc_at_edge :: "kncube \<Rightarrow> int \<Rightarrow> bool" where
  "knc_at_edge c i =
     fst (fold (\<lambda>_ (edge, node). (edge \<or> node smod kn_k c = 0 \<or> node smod kn_k c = kn_k c - 1, node sdiv kn_k c))
       (range0 (kn_n c)) (False, i))"

definition knc_probe_chans :: "kncube \<Rightarrow> bool list \<Rightarrow> int \<Rightarrow> int \<Rightarrow> bool \<times> int \<Rightarrow> bool \<times> int" where
  "knc_probe_chans c fail_nodes node r s =
     until_break (\<lambda>n (available, chan).
       let chan = ((n + r) smod 2) * kn_n c;
           available = (if chan smod 1 \<noteq> 0 then vat fail_nodes (knc_LeftNode (kn_k c) node (chan sdiv 2))
                        else vat fail_nodes (knc_RightNode (kn_k c) node (chan sdiv 2)))
       in (available, available, chan)) (range0 (2 * kn_n c)) s"

definition knc_probe_nodes :: "kncube \<Rightarrow> bool list \<Rightarrow> int \<Rightarrow> rng \<Rightarrow> int \<times> bool \<times> int \<times> rng" where
  "knc_probe_nodes c fail_nodes j g =
     until_break (\<lambda>t (_, available, chan, g).
       let node = (j + t) smod knc_size c in
       if \<not> vat fail_nodes node then
         (let (r, g) = RandomInt (2 * kn_n c - 1) g;
              (available, chan) = knc_probe_chans c fail_nodes node r (available, chan)
          in (available, t + 1, available, chan, g))
       else (available, t + 1, available, chan, g)) (range0 (knc_size c)) (0, False, - 1, g)"

definition knc_fault :: "kncube \<Rightarrow> int \<Rightarrow> bool list \<times> rng \<times> net \<Rightarrow> (bool list \<times> rng \<times> net) res" where
  "knc_fault c i s =
     (let (fail_nodes, g, w) = s;
          (j, g) = RandomInt (knc_size c - 1) g;
          node = - 1;
          (t, available, chan, g) = knc_probe_nodes c fail_nodes j g
      in bnd (if t = knc_size c then Inl (ErrorMsg ''Could not find another possible fault channel'') else Inr ()) (\<lambda>_.
         bnd (assert_that (node \<noteq> - 1) ''node != -1'') (\<lambda>_.
         bnd (assert_that (chan \<noteq> - 1) ''chan != -1'') (\<lambda>_.
         bnd (net_OutChannelFault node chan True w) (\<lambda>w.
         let fail_nodes = vupd fail_nodes node True;
             fail_nodes = (if available then
               fold (\<lambda>n f. vupd (vupd f (knc_LeftNode (kn_k c) node n) True) (knc_RightNode (kn_k c) node n) True)
                 (range0 (kn_n c)) fail_nodes else fail_nodes)
         in Inr (fail_nodes, g, w))))))"

definition knc_InsertRandomFaults :: "kncube \<Rightarrow> int \<Rightarrow> int \<Rightarrow> rng \<Rightarrow> net \<Rightarrow> (rng \<times> net) res" where
  "knc_InsertRandomFaults c num_fails seed g w =
     (if knc_size c \<noteq> 0 \<and> num_fails \<noteq> 0 then
        (let save_x = SaveRandomState g;
             g = ran_start seed g;
             fail_nodes = map (knc_at_edge c) (range0 (knc_size c))
         in bnd (for_each (knc_fault c) (range0 num_fails) (fail_nodes, g, w)) (\<lambda>(_, g, w).
            bnd (RestoreRandomState save_x g) (\<lambda>g. Inr (g, w))))
      else Inr (g, w))"

section \<open>Coordinates\<close>

definition knc_ok :: "kncube \<Rightarrow> bool" where
  "knc_ok c \<longleftrightarrow> 0 < kn_k c \<and> 0 \<le> kn_n c"

lemma knc_RightNode_digit:
  assumes "0 < k" "0 \<le> x" "0 \<le> d"
  shows "knc_RightNode k x d = set_digit k (nat d) ((digit k (nat d) x + 1) mod k) x"
proof -
  have r: "0 \<le> digit k (nat d) x" "digit k (nat d) x < k" using digit_range [OF assms(1)] by auto
  have loc: "(x sdiv k ^ nat d) smod k = digit k (nat d) x"
    using assms by (simp add: digit_def pos_imp_zdiv_nonneg_iff)
  show ?thesis
  proof (cases "digit k (nat d) x = k - 1")
    case True
    then show ?thesis by (simp add: knc_RightNode_def Let_def loc set_digit_def powi_eq left_diff_distrib)
  next
    case False
    with r have "(digit k (nat d) x + 1) mod k = digit k (nat d) x + 1" by simp
    with False show ?thesis by (simp add: knc_RightNode_def Let_def loc set_digit_def powi_eq)
  qed
qed

lemma knc_LeftNode_digit:
  assumes "0 < k" "0 \<le> x" "0 \<le> d"
  shows "knc_LeftNode k x d = set_digit k (nat d) ((digit k (nat d) x - 1) mod k) x"
proof -
  have r: "0 \<le> digit k (nat d) x" "digit k (nat d) x < k" using digit_range [OF assms(1)] by auto
  have loc: "(x sdiv k ^ nat d) smod k = digit k (nat d) x"
    using assms by (simp add: digit_def pos_imp_zdiv_nonneg_iff)
  show ?thesis
  proof (cases "digit k (nat d) x = 0")
    case True
    have "(- 1) mod k = k - 1" using assms(1) by (simp add: zmod_minus1)
    with True show ?thesis by (simp add: knc_LeftNode_def Let_def loc set_digit_def powi_eq)
  next
    case False
    with r have "(digit k (nat d) x - 1) mod k = digit k (nat d) x - 1" by simp
    with False show ?thesis by (simp add: knc_LeftNode_def Let_def loc set_digit_def powi_eq)
  qed
qed

lemma knc_Node_range:
  assumes "0 < k" "0 \<le> x" "x < k ^ nat n" "0 \<le> d" "d < n"
  shows "0 \<le> knc_RightNode k x d" "knc_RightNode k x d < k ^ nat n"
    "0 \<le> knc_LeftNode k x d" "knc_LeftNode k x d < k ^ nat n"
proof -
  have "nat d < nat n" using assms by simp
  with assms show "0 \<le> knc_RightNode k x d" "knc_RightNode k x d < k ^ nat n"
    "0 \<le> knc_LeftNode k x d" "knc_LeftNode k x d < k ^ nat n"
    unfolding knc_RightNode_digit [OF assms(1,2,4)] knc_LeftNode_digit [OF assms(1,2,4)]
    by (auto intro!: set_digit_range)
qed

lemma digit_RightNode:
  assumes "0 < k" "0 \<le> x" "0 \<le> d"
  shows "digit k e (knc_RightNode k x d) = (if e = nat d then (digit k e x + 1) mod k else digit k e x)"
  using assms by (auto simp: knc_RightNode_digit digit_set_digit)

lemma digit_LeftNode:
  assumes "0 < k" "0 \<le> x" "0 \<le> d"
  shows "digit k e (knc_LeftNode k x d) = (if e = nat d then (digit k e x - 1) mod k else digit k e x)"
  using assms by (auto simp: knc_LeftNode_digit digit_set_digit)

lemma knc_Node_inverse:
  assumes "0 < k" "0 \<le> x" "x < k ^ nat n" "0 \<le> d" "d < n"
  shows "knc_LeftNode k (knc_RightNode k x d) d = x" "knc_RightNode k (knc_LeftNode k x d) d = x"
proof -
  note r = knc_Node_range [OF assms]
  have dg: "digit k e x mod k = digit k e x" for e using digit_range [OF assms(1)] by simp
  show "knc_LeftNode k (knc_RightNode k x d) d = x"
    by (rule digits_unique [where n = "nat n", OF assms(1)])
      (use assms r knc_Node_range [OF assms(1) r(1,2) assms(4,5)] in \<open>simp_all add: digit_LeftNode digit_RightNode mod_simps dg\<close>)
  show "knc_RightNode k (knc_LeftNode k x d) d = x"
    by (rule digits_unique [where n = "nat n", OF assms(1)])
      (use assms r knc_Node_range [OF assms(1) r(3,4) assms(4,5)] in \<open>simp_all add: digit_LeftNode digit_RightNode mod_simps dg\<close>)
qed

section \<open>The wiring\<close>

lemma knc_chan_decode:
  assumes "0 \<le> d" "d < n"
  shows "knc_LeftChannel n a d div (2 * n) = a" "knc_LeftChannel n a d mod (2 * n) = 2 * d + 1"
    "knc_RightChannel n a d div (2 * n) = a" "knc_RightChannel n a d mod (2 * n) = 2 * d"
proof -
  have e: "2 * n * a + j = j + a * (2 * n)" for j :: int by simp
  show "knc_LeftChannel n a d div (2 * n) = a" "knc_LeftChannel n a d mod (2 * n) = 2 * d + 1"
    "knc_RightChannel n a d div (2 * n) = a" "knc_RightChannel n a d mod (2 * n) = 2 * d"
    unfolding knc_LeftChannel_def knc_RightChannel_def Let_def e using assms by simp_all
qed

lemma knc_chan_inj:
  assumes "0 \<le> d" "d < n" "0 \<le> e" "e < n"
  shows "knc_LeftChannel n a d = knc_LeftChannel n b e \<longleftrightarrow> a = b \<and> d = e"
    "knc_RightChannel n a d = knc_RightChannel n b e \<longleftrightarrow> a = b \<and> d = e"
    "knc_LeftChannel n a d \<noteq> knc_RightChannel n b e" "knc_RightChannel n b e \<noteq> knc_LeftChannel n a d"
proof -
  note A = knc_chan_decode [OF assms(1,2)] and B = knc_chan_decode [OF assms(3,4)]
  show "knc_LeftChannel n a d = knc_LeftChannel n b e \<longleftrightarrow> a = b \<and> d = e"
    using A(1,2) [of a] B(1,2) [of b] by (metis add_right_cancel mult_cancel_left zero_neq_numeral)
  show "knc_RightChannel n a d = knc_RightChannel n b e \<longleftrightarrow> a = b \<and> d = e"
    using A(3,4) [of a] B(3,4) [of b] by (metis mult_cancel_left zero_neq_numeral)
  show "knc_LeftChannel n a d \<noteq> knc_RightChannel n b e"
    using A(2) [of a] B(4) [of b] by (metis even_add even_mult_iff even_numeral odd_one)
  then show "knc_RightChannel n b e \<noteq> knc_LeftChannel n a d" by (rule not_sym)
qed

lemma knc_chan_range:
  assumes "0 \<le> d" "d < n" "0 \<le> a" "a < m"
  shows "0 \<le> knc_LeftChannel n a d" "knc_LeftChannel n a d < 2 * n * m"
    "0 \<le> knc_RightChannel n a d" "knc_RightChannel n a d < 2 * n * m"
  using radix_index [OF assms(3,4), of "2 * d + 1" "2 * n"] radix_index [OF assms(3,4), of "2 * d" "2 * n"] assms
  by (simp_all add: knc_LeftChannel_def knc_RightChannel_def Let_def algebra_simps)

text \<open>A channel is the right or the left channel of one node in one dimension.\<close>

lemma knc_chan_cases:
  assumes "0 \<le> c" "c < 2 * n * m" "0 < n"
  obtains a d where "0 \<le> a" "a < m" "0 \<le> d" "d < n" "c = knc_RightChannel n a d"
    | a d where "0 \<le> a" "a < m" "0 \<le> d" "d < n" "c = knc_LeftChannel n a d"
proof -
  define a p where "a = c div (2 * n)" and "p = c mod (2 * n)"
  have r: "0 \<le> a" "a < m" "0 \<le> p" "p < 2 * n" and c: "c = 2 * n * a + p"
    using radix_split [of c "2 * n" m] assms by (auto simp: a_def p_def)
  show thesis
  proof (cases "even p")
    case True
    then obtain d where "p = 2 * d" ..
    then show thesis using r c that(1) [of a d] by (simp add: knc_RightChannel_def Let_def)
  next
    case False
    then obtain d where "p = 2 * d + 1" by (rule oddE)
    then show thesis using r c that(2) [of a d] by (simp add: knc_LeftChannel_def Let_def)
  qed
qed

definition knc_in_pair :: "kncube \<Rightarrow> int \<Rightarrow> int \<Rightarrow> link list" where
  "knc_in_pair c node dim = [Chan (knc_LeftChannel (kn_n c) (knc_RightNode (kn_k c) node dim) dim),
     Chan (knc_RightChannel (kn_n c) (knc_LeftNode (kn_k c) node dim) dim)]"

definition knc_out_pair :: "kncube \<Rightarrow> int \<Rightarrow> int \<Rightarrow> link list" where
  "knc_out_pair c node dim = [Chan (knc_RightChannel (kn_n c) node dim), Chan (knc_LeftChannel (kn_n c) node dim)]"

lemma knc_dim_links:
  "ins (knc_build_dim c node dim) = knc_in_pair c node dim"
  "outs (knc_build_dim c node dim) = knc_out_pair c node dim"
  "ins_at r (knc_build_dim c node dim) = (if node = r then knc_in_pair c node dim else [])"
  "outs_at r (knc_build_dim c node dim) = (if node = r then knc_out_pair c node dim else [])"
  by (simp_all add: knc_build_dim_def Let_def knc_in_pair_def knc_out_pair_def)

lemma knc_node_links:
  "ins (knc_build_node c node) = concat (map (knc_in_pair c node) (range0 (kn_n c))) @ [Inject node]"
  "outs (knc_build_node c node) = concat (map (knc_out_pair c node) (range0 (kn_n c))) @ [Eject node]"
  "ins_at r (knc_build_node c node) = (if node = r then ins (knc_build_node c node) else [])"
  "outs_at r (knc_build_node c node) = (if node = r then outs (knc_build_node c node) else [])"
  by (simp_all add: knc_build_node_def ins_concat knc_dim_links comp_def cong: map_cong)

lemma concat_map_single:
  assumes "distinct xs" "x \<in> set xs"
  shows "concat (map (\<lambda>y. if y = x then f y else []) xs) = f x"
  using assms by (induction xs) (auto simp: concat_eq_Nil_conv)

lemma knc_net_links:
  "ins (knc_BuildNet c) = concat (map (\<lambda>node. ins (knc_build_node c node)) (range0 (knc_size c)))"
  "outs (knc_BuildNet c) = concat (map (\<lambda>node. outs (knc_build_node c node)) (range0 (knc_size c)))"
  "0 \<le> r \<Longrightarrow> r < knc_size c \<Longrightarrow> ins_at r (knc_BuildNet c) = ins (knc_build_node c r)"
  "0 \<le> r \<Longrightarrow> r < knc_size c \<Longrightarrow> outs_at r (knc_BuildNet c) = outs (knc_build_node c r)"
  using concat_map_single [of "range0 (knc_size c)" r "\<lambda>node. ins (knc_build_node c node)"]
    concat_map_single [of "range0 (knc_size c)" r "\<lambda>node. outs (knc_build_node c node)"]
  by (simp_all add: knc_BuildNet_def ins_concat comp_def knc_node_links(3,4))

lemma knc_in_pair_disjoint:
  assumes "knc_ok c" "0 \<le> a" "a < knc_size c" "0 \<le> b" "b < knc_size c" "0 \<le> d" "d < kn_n c" "0 \<le> e" "e < kn_n c"
    and "(a, d) \<noteq> (b, e)"
  shows "set (knc_in_pair c a d) \<inter> set (knc_in_pair c b e) = {}"
proof -
  have k: "0 < kn_k c" using assms(1) by (simp add: knc_ok_def)
  have s: "knc_size c = kn_k c ^ nat (kn_n c)" by (simp add: knc_size_def powi_eq)
  have "knc_RightNode (kn_k c) a d \<noteq> knc_RightNode (kn_k c) b e \<and> knc_LeftNode (kn_k c) a d \<noteq> knc_LeftNode (kn_k c) b e"
    if "d = e"
    using knc_Node_inverse [OF k assms(2) assms(3) [unfolded s] assms(6,7)]
      knc_Node_inverse [OF k assms(4) assms(5) [unfolded s] assms(8,9)] that assms(10) by metis
  then show ?thesis using assms(6-9) by (auto simp: knc_in_pair_def knc_chan_inj)
qed

lemma knc_out_pair_disjoint:
  assumes "0 \<le> d" "d < kn_n c" "0 \<le> e" "e < kn_n c" "(a, d) \<noteq> (b, e)"
  shows "set (knc_out_pair c a d) \<inter> set (knc_out_pair c b e) = {}"
  using assms by (auto simp: knc_out_pair_def knc_chan_inj)

lemma knc_pair_distinct:
  assumes "0 \<le> d" "d < kn_n c"
  shows "distinct (knc_in_pair c a d)" "distinct (knc_out_pair c a d)"
  using assms by (auto simp: knc_in_pair_def knc_out_pair_def knc_chan_inj)

lemma knc_pair_chan: "Inject s \<notin> set (knc_in_pair c a d)" "Eject s \<notin> set (knc_out_pair c a d)"
  by (simp_all add: knc_in_pair_def knc_out_pair_def)

lemma knc_rows_distinct:
  assumes "knc_ok c" "0 \<le> a" "a < knc_size c"
  shows "distinct (concat (map (knc_in_pair c a) (range0 (kn_n c))))"
    "distinct (concat (map (knc_out_pair c a) (range0 (kn_n c))))"
proof -
  show "distinct (concat (map (knc_in_pair c a) (range0 (kn_n c))))"
  proof (rule distinct_concat_map, goal_cases)
    case (2 d)
    then show ?case by (simp add: knc_pair_distinct)
  next
    case (3 d e)
    then show ?case using knc_in_pair_disjoint [OF assms assms(2,3), of d e] by simp
  qed simp
  show "distinct (concat (map (knc_out_pair c a) (range0 (kn_n c))))"
  proof (rule distinct_concat_map, goal_cases)
    case (2 d)
    then show ?case by (simp add: knc_pair_distinct)
  next
    case (3 d e)
    then show ?case using knc_out_pair_disjoint [of d c e a a] by simp
  qed simp
qed

lemma knc_once:
  assumes "knc_ok c"
  shows "distinct (ins (knc_BuildNet c))" "distinct (outs (knc_BuildNet c))"
proof -
  show "distinct (ins (knc_BuildNet c))"
    unfolding knc_net_links
  proof (rule distinct_concat_map, goal_cases)
    case (2 a)
    then show ?case using knc_rows_distinct(1) [OF assms, of a] by (simp add: knc_node_links knc_pair_chan)
  next
    case (3 a b)
    then have "set (knc_in_pair c a d) \<inter> set (knc_in_pair c b e) = {}" if "d \<in> {0..<kn_n c}" "e \<in> {0..<kn_n c}" for d e
      using knc_in_pair_disjoint [OF assms, of a b d e] that by simp
    then have "(\<Union>d \<in> {0..<kn_n c}. set (knc_in_pair c a d)) \<inter> (\<Union>e \<in> {0..<kn_n c}. set (knc_in_pair c b e)) = {}"
      by blast
    then show ?case using 3(3) unfolding knc_node_links by (simp add: knc_pair_chan)
  qed simp
  show "distinct (outs (knc_BuildNet c))"
    unfolding knc_net_links
  proof (rule distinct_concat_map, goal_cases)
    case (2 a)
    then show ?case using knc_rows_distinct(2) [OF assms, of a] by (simp add: knc_node_links knc_pair_chan)
  next
    case (3 a b)
    then have "set (knc_out_pair c a d) \<inter> set (knc_out_pair c b e) = {}" if "d \<in> {0..<kn_n c}" "e \<in> {0..<kn_n c}" for d e
      using knc_out_pair_disjoint [of d c e a b] that by simp
    then have "(\<Union>d \<in> {0..<kn_n c}. set (knc_out_pair c a d)) \<inter> (\<Union>e \<in> {0..<kn_n c}. set (knc_out_pair c b e)) = {}"
      by blast
    then show ?case using 3(3) unfolding knc_node_links by (simp add: knc_pair_chan)
  qed simp
qed

lemma knc_set_links:
  "set (ins (knc_BuildNet c)) = (\<Union>a \<in> {0..<knc_size c}. (\<Union>d \<in> {0..<kn_n c}. set (knc_in_pair c a d)) \<union> {Inject a})"
  "set (outs (knc_BuildNet c)) = (\<Union>a \<in> {0..<knc_size c}. (\<Union>d \<in> {0..<kn_n c}. set (knc_out_pair c a d)) \<union> {Eject a})"
  by (simp_all add: knc_net_links knc_node_links)

lemma knc_all_chans:
  assumes ok: "knc_ok c" and x: "0 \<le> x" "x < knc_channels c"
  shows "Chan x \<in> set (ins (knc_BuildNet c))" "Chan x \<in> set (outs (knc_BuildNet c))"
proof -
  let ?k = "kn_k c" and ?n = "kn_n c" and ?s = "knc_size c"
  have k: "0 < ?k" and s: "?s = ?k ^ nat ?n" using ok by (simp_all add: knc_ok_def knc_size_def powi_eq)
  have "0 < ?n"
  proof (rule ccontr)
    assume "\<not> 0 < ?n"
    moreover have "0 \<le> ?s" using k by (simp add: s)
    ultimately have "2 * ?n * ?s \<le> 0" using mult_nonpos_nonneg [of "2 * ?n" ?s] by simp
    with x show False by (simp only: knc_channels_def)
  qed
  with x have "x < 2 * ?n * ?s" "0 < ?n" by (simp_all add: knc_channels_def)
  have "\<exists>a d. 0 \<le> a \<and> a < ?s \<and> 0 \<le> d \<and> d < ?n \<and> (x = knc_RightChannel ?n a d \<or> x = knc_LeftChannel ?n a d)"
    using x(1) \<open>x < 2 * ?n * ?s\<close> \<open>0 < ?n\<close> by (rule knc_chan_cases) blast+
  then obtain a d where ad: "0 \<le> a" "a < ?s" "0 \<le> d" "d < ?n" and
    x': "x = knc_RightChannel ?n a d \<or> x = knc_LeftChannel ?n a d" by blast
  note inv = knc_Node_inverse [OF k ad(1) ad(2) [unfolded s] ad(3,4)]
  note range = knc_Node_range [OF k ad(1) ad(2) [unfolded s] ad(3,4), folded s]
  have "Chan x \<in> set (knc_in_pair c (knc_RightNode ?k a d) d) \<or> Chan x \<in> set (knc_in_pair c (knc_LeftNode ?k a d) d)"
    using x' inv by (auto simp: knc_in_pair_def)
  moreover have m: "knc_RightNode ?k a d \<in> {0..<?s}" "knc_LeftNode ?k a d \<in> {0..<?s}" "a \<in> {0..<?s}" "d \<in> {0..<?n}"
    using range ad by simp_all
  ultimately show "Chan x \<in> set (ins (knc_BuildNet c))" unfolding knc_set_links by blast
  have "Chan x \<in> set (knc_out_pair c a d)" using x' by (auto simp: knc_out_pair_def)
  with m show "Chan x \<in> set (outs (knc_BuildNet c))" unfolding knc_set_links by blast
qed

lemma knc_pair_range:
  assumes "knc_ok c" "0 \<le> a" "a < knc_size c" "0 \<le> d" "d < kn_n c"
  shows "set (knc_in_pair c a d) \<subseteq> Chan ` {0..<knc_channels c}" "set (knc_out_pair c a d) \<subseteq> Chan ` {0..<knc_channels c}"
proof -
  let ?k = "kn_k c" and ?n = "kn_n c" and ?s = "knc_size c"
  have k: "0 < ?k" and s: "?s = ?k ^ nat ?n" using assms(1) by (simp_all add: knc_ok_def knc_size_def powi_eq)
  note range = knc_Node_range [OF k assms(2) assms(3) [unfolded s] assms(4,5), folded s]
  show "set (knc_in_pair c a d) \<subseteq> Chan ` {0..<knc_channels c}"
    using knc_chan_range(1,2) [OF assms(4,5) range(1,2)] knc_chan_range(3,4) [OF assms(4,5) range(3,4)]
    by (simp add: knc_in_pair_def knc_channels_def)
  show "set (knc_out_pair c a d) \<subseteq> Chan ` {0..<knc_channels c}"
    using knc_chan_range [OF assms(4,5,2,3)] by (simp add: knc_out_pair_def knc_channels_def)
qed

lemma knc_all:
  assumes "knc_ok c"
  shows "set (ins (knc_BuildNet c)) = Chan ` {0..<knc_channels c} \<union> Inject ` {0..<knc_size c}"
    "set (outs (knc_BuildNet c)) = Chan ` {0..<knc_channels c} \<union> Eject ` {0..<knc_size c}"
proof -
  have I: "Chan ` {0..<knc_channels c} \<subseteq> set (ins (knc_BuildNet c))" and O: "Chan ` {0..<knc_channels c} \<subseteq> set (outs (knc_BuildNet c))"
    using knc_all_chans [OF assms] by auto
  have P: "set (knc_in_pair c a d) \<subseteq> Chan ` {0..<knc_channels c}" "set (knc_out_pair c a d) \<subseteq> Chan ` {0..<knc_channels c}"
    if "a \<in> {0..<knc_size c}" "d \<in> {0..<kn_n c}" for a d using knc_pair_range [OF assms, of a d] that by simp_all
  show "set (ins (knc_BuildNet c)) = Chan ` {0..<knc_channels c} \<union> Inject ` {0..<knc_size c}"
    using I P(1) unfolding knc_set_links by blast
  show "set (outs (knc_BuildNet c)) = Chan ` {0..<knc_channels c} \<union> Eject ` {0..<knc_size c}"
    using O P(2) unfolding knc_set_links by blast
qed

lemma knc_good:
  assumes "knc_ok c" "x \<in> set (knc_BuildNet c)"
  shows "good_wire (knc_size c) (knc_size c) (knc_channels c) x"
proof -
  from assms(2) obtain a where a: "a \<in> {0..<knc_size c}" and x: "x \<in> set (knc_build_node c a)"
    unfolding knc_BuildNet_def set_concat set_map set_range0 by blast
  have r: "0 \<le> a" "a < knc_size c" using a by simp_all
  show ?thesis
  proof (cases "\<exists>d \<in> {0..<kn_n c}. x \<in> set (knc_build_dim c a d)")
    case True
    then obtain d where d: "0 \<le> d" "d < kn_n c" and x: "x \<in> set (knc_build_dim c a d)" by auto
    note P = knc_pair_range [OF assms(1) r d]
    have l: "0 \<le> knc_LeftChannel (kn_n c) (knc_RightNode (kn_k c) a d) d" "knc_LeftChannel (kn_n c) (knc_RightNode (kn_k c) a d) d < knc_channels c"
      "0 \<le> knc_RightChannel (kn_n c) (knc_LeftNode (kn_k c) a d) d" "knc_RightChannel (kn_n c) (knc_LeftNode (kn_k c) a d) d < knc_channels c"
      "0 \<le> knc_RightChannel (kn_n c) a d" "knc_RightChannel (kn_n c) a d < knc_channels c"
      "0 \<le> knc_LeftChannel (kn_n c) a d" "knc_LeftChannel (kn_n c) a d < knc_channels c"
      using P by (simp_all add: knc_in_pair_def knc_out_pair_def image_iff)
    have "\<forall>x \<in> set (knc_build_dim c a d). good_wire (knc_size c) (knc_size c) (knc_channels c) x"
      unfolding knc_build_dim_def Let_def by (simp add: good_wire_def l r)
    with x show ?thesis by blast
  next
    case False
    with x have "x \<in> {AddIn a (Inject a), AddOut a (Eject a), SetLat (Inject a) 1, SetLat (Eject a) 1}"
      unfolding knc_build_node_def by simp
    then show ?thesis using r by (auto simp: good_wire_def)
  qed
qed

interpretation knc: topology knc_ok knc_size knc_size knc_channels knc_BuildNet
proof (unfold_locales, goal_cases)
  case (1 c)
  then show ?case by (simp add: knc_ok_def knc_size_def knc_channels_def powi_eq)
next
  case (2 c x)
  then show ?case by (rule knc_good)
qed (simp_all add: knc_once knc_all)

lemma pair_list_nth:
  "i < length xs \<Longrightarrow> concat (map (\<lambda>d. [g d, h d]) xs) ! (2 * i) = g (xs ! i)"
  "i < length xs \<Longrightarrow> concat (map (\<lambda>d. [g d, h d]) xs) ! (2 * i + 1) = h (xs ! i)"
  by (induction xs arbitrary: i) (auto simp: less_Suc_eq_0_disj)

lemma pair_list_vat:
  assumes "0 \<le> d" "d < n"
  shows "vat (concat (map (\<lambda>d. [g d, h d]) (range0 n)) @ ys) (2 * d) = g d"
    "vat (concat (map (\<lambda>d. [g d, h d]) (range0 n)) @ ys) (2 * d + 1) = h d"
    "2 * d + 1 < vlen (concat (map (\<lambda>d. [g d, h d]) (range0 n)) @ ys)"
proof -
  have len: "length (concat (map (\<lambda>d. [g d, h d]) xs)) = 2 * length xs" for xs :: "int list"
    by (induction xs) auto
  have i: "nat (2 * d) = 2 * nat d" "nat (2 * d + 1) = 2 * nat d + 1" "nat d < length (range0 n)" "range0 n ! nat d = d"
    using assms by (simp_all add: range0_def nth_upto)
  show "vat (concat (map (\<lambda>d. [g d, h d]) (range0 n)) @ ys) (2 * d) = g d"
    "vat (concat (map (\<lambda>d. [g d, h d]) (range0 n)) @ ys) (2 * d + 1) = h d"
    "2 * d + 1 < vlen (concat (map (\<lambda>d. [g d, h d]) (range0 n)) @ ys)"
    using i assms pair_list_nth(1,2) [OF i(3)] by (simp_all add: vat_def nth_append len vlen_def)
qed

text \<open>Where a flit that leaves router \<open>a\<close> on port \<open>p\<close> arrives.\<close>

definition knc_hop :: "int \<Rightarrow> int \<Rightarrow> int \<Rightarrow> int" where
  "knc_hop k a p = (if even p then knc_RightNode k a (p div 2) else knc_LeftNode k a (p div 2))"

definition flip :: "int \<Rightarrow> int" where
  "flip p = (if even p then p + 1 else p - 1)"

lemma knc_ports:
  assumes "0 \<le> a" "a < knc_size c" "0 \<le> d" "d < kn_n c" "built (knc_size c) (knc_size c) (knc_channels c) (knc_BuildNet c) w"
  shows "is_out_port w (Chan (knc_RightChannel (kn_n c) a d)) a (2 * d)" "is_out_port w (Chan (knc_LeftChannel (kn_n c) a d)) a (2 * d + 1)"
    "is_in_port w (Chan (knc_LeftChannel (kn_n c) (knc_RightNode (kn_k c) a d) d)) a (2 * d)"
    "is_in_port w (Chan (knc_RightChannel (kn_n c) (knc_LeftNode (kn_k c) a d) d)) a (2 * d + 1)"
proof -
  have rows: "nt_size w = knc_size c"
    "vat (nt_out w) a = concat (map (knc_out_pair c a) (range0 (kn_n c))) @ [Eject a]"
    "vat (nt_in w) a = concat (map (knc_in_pair c a) (range0 (kn_n c))) @ [Inject a]"
    using assms by (simp_all add: built_def knc_net_links knc_node_links)
  have f: "knc_out_pair c a = (\<lambda>d. [Chan (knc_RightChannel (kn_n c) a d), Chan (knc_LeftChannel (kn_n c) a d)])"
    "knc_in_pair c a = (\<lambda>d. [Chan (knc_LeftChannel (kn_n c) (knc_RightNode (kn_k c) a d) d), Chan (knc_RightChannel (kn_n c) (knc_LeftNode (kn_k c) a d) d)])"
    by (simp_all add: fun_eq_iff knc_out_pair_def knc_in_pair_def)
  note V = pair_list_vat [OF assms(3,4)]
  note b = V(3) [where g = "\<lambda>d. Chan (knc_RightChannel (kn_n c) a d)" and h = "\<lambda>d. Chan (knc_LeftChannel (kn_n c) a d)" and ys = "[Eject a]"]
    V(3) [where g = "\<lambda>d. Chan (knc_LeftChannel (kn_n c) (knc_RightNode (kn_k c) a d) d)"
      and h = "\<lambda>d. Chan (knc_RightChannel (kn_n c) (knc_LeftNode (kn_k c) a d) d)" and ys = "[Inject a]"]
  show "is_out_port w (Chan (knc_RightChannel (kn_n c) a d)) a (2 * d)" "is_out_port w (Chan (knc_LeftChannel (kn_n c) a d)) a (2 * d + 1)"
    unfolding is_out_port_def rows f by (intro conjI V assms(1,2); use b assms(3) in linarith)+
  show "is_in_port w (Chan (knc_LeftChannel (kn_n c) (knc_RightNode (kn_k c) a d) d)) a (2 * d)"
    "is_in_port w (Chan (knc_RightChannel (kn_n c) (knc_LeftNode (kn_k c) a d) d)) a (2 * d + 1)"
    unfolding is_in_port_def rows f by (intro conjI V assms(1,2); use b assms(3) in linarith)+
qed

lemma knc_hop_wired:
  assumes "knc_ok c" "built (knc_size c) (knc_size c) (knc_channels c) (knc_BuildNet c) w"
    and "0 \<le> a" "a < knc_size c" "0 \<le> p" "p < 2 * kn_n c"
  shows "\<exists>l. is_out_port w l a p \<and> is_in_port w l (knc_hop (kn_k c) a p) (flip p)"
proof -
  let ?k = "kn_k c" and ?d = "p div 2"
  have k: "0 < ?k" and s: "knc_size c = ?k ^ nat (kn_n c)" using assms(1) by (simp_all add: knc_ok_def knc_size_def powi_eq)
  have d: "0 \<le> ?d" "?d < kn_n c" using assms(5,6) by auto
  note range = knc_Node_range [OF k assms(3) assms(4) [unfolded s] d, folded s]
  note inv = knc_Node_inverse [OF k assms(3) assms(4) [unfolded s] d]
  note out = knc_ports(1,2) [OF assms(3,4) d assms(2)]
  show ?thesis
  proof (cases "even p")
    case True
    then have "2 * ?d = p" by simp
    with out(1) knc_ports(4) [OF range(1,2) d assms(2)] inv show ?thesis
      using True by (auto simp: knc_hop_def flip_def)
  next
    case False
    then have "2 * ?d + 1 = p" by presburger
    then have "2 * ?d = p - 1" by simp
    with out(2) knc_ports(3) [OF range(3,4) d assms(2)] inv show ?thesis
      using False \<open>2 * ?d + 1 = p\<close> by (auto simp: knc_hop_def flip_def)
  qed
qed

section \<open>Properties\<close>

text \<open>
  C29: A mesh or torus with a positive radix builds without a failure; every inter-router channel
  is attached to exactly one output port and one input port, every injection and ejection channel
  to one router, and the channel a router has at output port \<open>p\<close> of a dimension is the one its right
  (even \<open>p\<close>) or left (odd \<open>p\<close>) neighbour in that dimension has at input port \<open>p\<close> with the last bit flipped.
\<close>

theorem KNCube_wired:
  assumes "knc_ok c"
  shows "\<exists>w. new_KNCube c = Inr w \<and> well_wired w \<and>
    (\<forall>a p. 0 \<le> a \<and> a < knc_size c \<and> 0 \<le> p \<and> p < 2 * kn_n c \<longrightarrow>
       (\<exists>l. is_out_port w l a p \<and> is_in_port w l (knc_hop (kn_k c) a p) (flip p)))"
  using knc.wired [OF assms] knc_hop_wired [OF assms] unfolding new_KNCube_def by blast

theorem KNCube_wired_witness:
  "\<exists>w. new_KNCube \<lparr>kn_mesh = False, kn_k = 4, kn_n = 2, kn_noc = True\<rparr> = Inr w \<and> well_wired w"
  using KNCube_wired [of "\<lparr>kn_mesh = False, kn_k = 4, kn_n = 2, kn_noc = True\<rparr>"] by (simp add: knc_ok_def) blast

text \<open>
  C39: \<^verbatim>\<open>KNCube::InsertRandomFaults\<close> never inserts a fault: asked for one or more, it always aborts, because
  the variable it asserts on is shadowed inside the search and keeps the value -1.
\<close>

theorem InsertRandomFaults_aborts:
  assumes "knc_ok c" "0 < num_fails"
  shows "\<exists>e. knc_InsertRandomFaults c num_fails seed g w = Inl e \<and>
    (e = ErrorMsg ''Could not find another possible fault channel'' \<or> e = AssertFail ''node != -1'')"
proof -
  have "knc_size c \<noteq> 0" using assms(1) by (simp add: knc_ok_def knc_size_def powi_eq)
  moreover have "range0 num_fails = 0 # [1..num_fails - 1]" using assms(2) by (simp add: range0_def upto_rec1)
  ultimately show ?thesis
    using assms(2) by (simp add: knc_InsertRandomFaults_def Let_def knc_fault_def split: prod.splits)
qed

theorem InsertRandomFaults_aborts_witness:
  "\<exists>e. knc_InsertRandomFaults \<lparr>kn_mesh = True, kn_k = 8, kn_n = 2, kn_noc = False\<rparr> 1 7 new_rng
     (\<lparr>nt_size = 0, nt_nodes = 0, nt_channels = 0, nt_in = [], nt_out = [], nt_faults = [], nt_source = (\<lambda>_. None),
       nt_sink = (\<lambda>_. None), nt_lat = (\<lambda>_. 1), nt_credlat = (\<lambda>_. 1)\<rparr>) = Inl e"
  using InsertRandomFaults_aborts [of "\<lparr>kn_mesh = True, kn_k = 8, kn_n = 2, kn_noc = False\<rparr>" 1 7 new_rng
     "\<lparr>nt_size = 0, nt_nodes = 0, nt_channels = 0, nt_in = [], nt_out = [], nt_faults = [], nt_source = (\<lambda>_. None),
       nt_sink = (\<lambda>_. None), nt_lat = (\<lambda>_. 1), nt_credlat = (\<lambda>_. 1)\<rparr>"] by (simp add: knc_ok_def) blast

end
