(* ===== verification/Routing.thy ===== *)
theory Routing
  imports Flits Cube
begin

text \<open>
  The routing functions of \<^verbatim>\<open>routefunc.cpp\<close> and their table. A routing function reads the globals, what it
  asks of the router it runs in (its number, the credits in use at an output, the faulty outputs), the flit, the
  input port and whether it is an injection; it clears and fills the output set and may change the
  flit's mutable fields \<^verbatim>\<open>ph\<close> and \<^verbatim>\<open>intm\<close>. The random generator is threaded through. Trace output is left out.
\<close>

section \<open>What a routing function sees\<close>

record globals =
  gK :: int
  gN :: int
  gNodes :: int
  gBeginVCs :: "int list"
  gEndVCs :: "int list"

record rview =
  rv_id :: int
  rv_used_credit :: "int \<Rightarrow> int"
  rv_faults :: "bool list"

definition IsFaultyOutput :: "rview \<Rightarrow> int \<Rightarrow> bool res" where
  "IsFaultyOutput r c =
     bnd (assert_that (0 \<le> c \<and> c < vlen (rv_faults r)) ''IsFaultyOutput'') (\<lambda>_. Inr (vat (rv_faults r) c))"

type_synonym route = "globals \<Rightarrow> rview \<Rightarrow> flit \<Rightarrow> int \<Rightarrow> bool \<Rightarrow> output_set \<Rightarrow> rng \<Rightarrow> (flit \<times> output_set \<times> rng) res"

text \<open>The lines with which all but the chaos functions begin: the VC range of the flit's class and the assertion on its VC.\<close>

definition vc_range :: "globals \<Rightarrow> flit \<Rightarrow> bool \<Rightarrow> (int \<times> int) res" where
  "vc_range g f inject =
     bnd (vget (gBeginVCs g) (fl_cl f)) (\<lambda>vcBegin.
     bnd (vget (gEndVCs g) (fl_cl f)) (\<lambda>vcEnd.
     bnd (assert_that (fl_vc f \<ge> vcBegin \<and> fl_vc f \<le> vcEnd \<or> inject \<and> fl_vc f < 0) ''f->vc'') (\<lambda>_.
     Inr (vcBegin, vcEnd))))"

text \<open>\<^verbatim>\<open>outputs->Clear( ); outputs->AddRange( out_port, vcBegin, vcEnd );\<close>\<close>

definition offer :: "int \<Rightarrow> int \<Rightarrow> int \<Rightarrow> output_set \<Rightarrow> output_set" where
  "offer out_port vcBegin vcEnd outputs = OS_AddRange out_port vcBegin vcEnd 0 (OS_Clear outputs)"

section \<open>Dimension order\<close>

text \<open>The loop over dimensions that divides both node numbers by the radix until a test stops it.\<close>

function scan_dims :: "(int \<Rightarrow> int \<Rightarrow> int \<Rightarrow> bool) \<Rightarrow> int \<Rightarrow> int \<Rightarrow> int \<Rightarrow> int \<Rightarrow> int \<Rightarrow> int \<times> int \<times> int" where
  "scan_dims stop k lim n cur dest =
     (if n < lim then
        if stop n cur dest then (n, cur, dest)
        else scan_dims stop k lim (n + 1) (cur sdiv k) (dest sdiv k)
      else (n, cur, dest))"
  by pat_completeness auto
termination by (relation "measure (\<lambda>(stop, k, lim, n, cur, dest). nat (lim - n))") auto

declare scan_dims.simps [simp del]

text \<open>The descending variant compares leading digits.\<close>

function scan_down :: "int \<Rightarrow> int \<Rightarrow> int \<Rightarrow> int \<Rightarrow> int \<Rightarrow> int \<times> int \<times> int" where
  "scan_down k nodes n cur dest =
     (if 0 < n then
        if (cur * k) sdiv nodes \<noteq> (dest * k) sdiv nodes then (n, cur, dest)
        else scan_down k nodes (n - 1) ((cur * k) smod nodes) ((dest * k) smod nodes)
      else (n, cur, dest))"
  by pat_completeness auto
termination by (relation "measure (\<lambda>(k, nodes, n, cur, dest). nat n)") auto

declare scan_down.simps [simp del]

definition dor_next_mesh :: "globals \<Rightarrow> int \<Rightarrow> int \<Rightarrow> bool \<Rightarrow> int" where
  "dor_next_mesh g cur dest descending =
     (if cur = dest then 2 * gN g
      else
        let (dim_left, cur, dest) =
          (if descending then
             (let (d, c, e) = scan_down (gK g) (gNodes g) (gN g - 1) cur dest
              in (d, (c * gK g) sdiv gNodes g, (e * gK g) sdiv gNodes g))
           else
             (let (d, c, e) = scan_dims (\<lambda>_ c e. c smod gK g \<noteq> e smod gK g) (gK g) (gN g - 1) 0 cur dest
              in (d, c smod gK g, e smod gK g)))
        in if cur < dest then 2 * dim_left else 2 * dim_left + 1)"

text \<open>
  \<^verbatim>\<open>dor_next_torus\<close> writes through the pointers \<^verbatim>\<open>out_port\<close> and \<^verbatim>\<open>partition\<close>. \<open>has_part\<close> says that \<^verbatim>\<open>partition\<close> is not
  \<^verbatim>\<open>NULL\<close>; \<open>part\<close> is the value it points to, \<open>None\<close> when that is a variable never written.
\<close>

definition dor_next_torus ::
    "globals \<Rightarrow> int \<Rightarrow> int \<Rightarrow> int \<Rightarrow> bool \<Rightarrow> int option \<Rightarrow> bool \<Rightarrow> rng \<Rightarrow> int \<times> int option \<times> rng" where
  "dor_next_torus g cur dest in_port has_part part balance rn =
     (let k = gK g; (dim_left, cur, dest) = scan_dims (\<lambda>_ c e. c smod k \<noteq> e smod k) k (gN g) 0 cur dest in
      if dim_left < gN g then
        if in_port sdiv 2 \<noteq> dim_left then
          (let cur = cur smod k; dest = dest smod k;
               dist2 = k - 2 * ((dest - cur + k) smod k);
               (right, rn) = (if dist2 > 0 then (True, rn)
                              else if dist2 = 0 then (let (x, rn) = RandomInt 1 rn in (x \<noteq> 0, rn))
                              else (False, rn));
               out_port = (if right then 2 * dim_left else 2 * dim_left + 1);
               dir = (if right then 0 else 1 :: int);
               (part, rn) =
                 (if \<not> has_part then (part, rn)
                  else if balance then
                    if dir = 0 \<and> cur > dest \<or> dir = 1 \<and> cur < dest then (Some 1, rn)
                    else if dir = 0 \<and> cur \<le> (k - 1) sdiv 2 \<and> dest > (k - 1) sdiv 2 \<or>
                            dir = 1 \<and> cur > (k - 1) sdiv 2 \<and> dest \<le> (k - 1) sdiv 2 then (Some 0, rn)
                    else (let (x, rn) = RandomInt 1 rn in (Some x, rn))
                  else if dir = 0 \<and> cur > dest \<or> dir = 1 \<and> dest < cur then (Some 1, rn)
                  else (Some 0, rn))
           in (out_port, part, rn))
        else (flip in_port, part, rn)
      else (2 * gN g, part, rn))"

section \<open>Trees\<close>

definition QTree_HeightFromID :: "int \<Rightarrow> int" where
  "QTree_HeightFromID i = i sdiv 256"

definition QTree_PosFromID :: "int \<Rightarrow> int" where
  "QTree_PosFromID i = i smod 256"

definition qtree_nca :: route where
  "qtree_nca g r f in_channel inject outputs rn =
     bnd (vc_range g f inject) (\<lambda>(vcBegin, vcEnd).
     let out_port =
       (if inject then - 1
        else
          let height = QTree_HeightFromID (rv_id r); pos = QTree_PosFromID (rv_id r);
              dest = fold (\<lambda>_ d. d sdiv gK g) [height + 1..gN g - 1] (fl_dest f)
          in if pos = dest sdiv gK g then dest smod gK g else gK g)
     in Inr (f, offer out_port vcBegin vcEnd outputs, rn))"

definition tree4_anca :: route where
  "tree4_anca g r f in_channel inject outputs rn =
     bnd (vc_range g f inject) (\<lambda>(vcBegin, vcEnd).
     let (out_port, range, rn) =
       (if inject then (- 1, 1, rn)
        else
          let dest = fl_dest f; rH = rv_id r sdiv 16; rP = rv_id r smod 16 in
          if rH = 0 then (let dest = dest sdiv 16; (x, rn) = RandomInt 1 rn in (2 * dest + x, 1, rn))
          else if rH = 1 then
            (let dest = dest sdiv 4 in
             if dest sdiv 4 = rP sdiv 2 then (dest smod 4, 1, rn) else (gK g, gK g, rn))
          else if dest sdiv 4 = rP then (dest smod 4, 1, rn)
          else (gK g, 2, rn))
     in Inr (f, fold (\<lambda>i os. OS_AddRange (out_port + i) vcBegin vcEnd 0 os) (range0 range) (OS_Clear outputs), rn))"

definition tree4_nca :: route where
  "tree4_nca g r f in_channel inject outputs rn =
     bnd (vc_range g f inject) (\<lambda>(vcBegin, vcEnd).
     let (out_port, rn) =
       (if inject then (- 1, rn)
        else
          let dest = fl_dest f; rH = rv_id r sdiv 16; rP = rv_id r smod 16 in
          if rH = 0 then (let dest = dest sdiv 16; (x, rn) = RandomInt 1 rn in (2 * dest + x, rn))
          else if rH = 1 then
            (let dest = dest sdiv 4 in
             if dest sdiv 4 = rP sdiv 2 then (dest smod 4, rn)
             else (let (x, rn) = RandomInt (gK g - 1) rn in (gK g + x, rn)))
          else if dest sdiv 4 = rP then (dest smod 4, rn)
          else (let (x, rn) = RandomInt 1 rn in (gK g + x, rn)))
     in Inr (f, offer out_port vcBegin vcEnd outputs, rn))"

text \<open>
  Both fat-tree functions share the test for the common ancestor and the way down and differ in how they go up:
  \<open>up\<close> is that branch.
\<close>

definition fattree_port :: "globals \<Rightarrow> rview \<Rightarrow> flit \<Rightarrow> int \<Rightarrow> bool \<Rightarrow> (rng \<Rightarrow> int \<times> rng) \<Rightarrow> rng \<Rightarrow> (int \<times> rng) res" where
  "fattree_port g r f in_channel inject up rn =
     (if inject then Inr (- 1, rn)
      else
        let dest = fl_dest f;
            router_id = rv_id r;
            routers_per_level = powi_c (gK g) (gN g - 1);
            pos = router_id smod routers_per_level;
            router_depth = router_id sdiv routers_per_level;
            routers_per_neighborhood = powi_c (gK g) (gN g - router_depth - 1);
            router_neighborhood = pos sdiv routers_per_neighborhood;
            router_coverage = powi_c (gK g) (gN g - router_depth)
        in if dest < (router_neighborhood + 1) * router_coverage \<and> dest \<ge> router_neighborhood * router_coverage then
             if router_depth = gN g - 1 then Inr (dest smod gK g, rn)
             else
               let router_branch_coverage = powi_c (gK g) (gN g - (router_depth + 1))
               in Inr ((dest - router_neighborhood * router_coverage) sdiv router_branch_coverage, rn)
           else bnd (assert_that (in_channel < gK g) ''in_channel<gK'') (\<lambda>_. Inr (up rn)))"

definition fattree_nca :: route where
  "fattree_nca g r f in_channel inject outputs rn =
     bnd (vc_range g f inject) (\<lambda>(vcBegin, vcEnd).
     bnd (fattree_port g r f in_channel inject (\<lambda>rn. let (x, rn) = RandomInt (gK g - 1) rn in (gK g + x, rn)) rn)
       (\<lambda>(out_port, rn). Inr (f, offer out_port vcBegin vcEnd outputs, rn)))"

definition fattree_anca :: route where
  "fattree_anca g r f in_channel inject outputs rn =
     bnd (vc_range g f inject) (\<lambda>(vcBegin, vcEnd).
     bnd (fattree_port g r f in_channel inject (\<lambda>rn.
         let out_port = gK g; (random1, rn) = RandomInt (gK g - 1) rn; (random2, rn) = RandomInt (gK g - 1) rn
         in if rv_used_credit r (out_port + random1) > rv_used_credit r (out_port + random2)
            then (out_port + random2, rn) else (out_port + random1, rn)) rn)
       (\<lambda>(out_port, rn). Inr (f, offer out_port vcBegin vcEnd outputs, rn)))"

section \<open>Meshes\<close>

definition adaptive_xy_yx_mesh :: route where
  "adaptive_xy_yx_mesh g r f in_channel inject outputs rn =
     bnd (vc_range g f inject) (\<lambda>(vcBegin, vcEnd).
     if inject then Inr (f, offer (- 1) vcBegin vcEnd outputs, rn)
     else if rv_id r = fl_dest f then Inr (f, offer (2 * gN g) vcBegin vcEnd outputs, rn)
     else
       let available_vcs = (vcEnd - vcBegin + 1) sdiv 2 in
       bnd (assert_that (available_vcs > 0) ''available_vcs > 0'') (\<lambda>_.
       let out_port_xy = dor_next_mesh g (rv_id r) (fl_dest f) False;
           out_port_yx = dor_next_mesh g (rv_id r) (fl_dest f) True;
           (x_then_y, rn) =
             (if in_channel < 2 * gN g then (fl_vc f < vcBegin + available_vcs, rn)
              else
                let credit_xy = rv_used_credit r out_port_xy; credit_yx = rv_used_credit r out_port_yx in
                if credit_xy > credit_yx then (False, rn)
                else if credit_xy < credit_yx then (True, rn)
                else (let (x, rn) = RandomInt 1 rn in (x > 0, rn)))
       in if x_then_y then Inr (f, offer out_port_xy vcBegin (vcEnd - available_vcs) outputs, rn)
          else Inr (f, offer out_port_yx (vcBegin + available_vcs) vcEnd outputs, rn)))"

text \<open>The route order, kept in the VC after the first hop and drawn at the injection port.\<close>

definition x_then_y :: "globals \<Rightarrow> flit \<Rightarrow> int \<Rightarrow> int \<Rightarrow> rng \<Rightarrow> bool \<times> rng" where
  "x_then_y g f in_channel first_yx rn =
     (if in_channel < 2 * gN g then (fl_vc f < first_yx, rn)
      else (let (x, rn) = RandomInt 1 rn in (x > 0, rn)))"

definition xy_yx_mesh :: route where
  "xy_yx_mesh g r f in_channel inject outputs rn =
     bnd (vc_range g f inject) (\<lambda>(vcBegin, vcEnd).
     if inject then Inr (f, offer (- 1) vcBegin vcEnd outputs, rn)
     else if rv_id r = fl_dest f then Inr (f, offer (2 * gN g) vcBegin vcEnd outputs, rn)
     else
       let available_vcs = (vcEnd - vcBegin + 1) sdiv 2 in
       bnd (assert_that (available_vcs > 0) ''available_vcs > 0'') (\<lambda>_.
       let (xy, rn) = x_then_y g f in_channel (vcBegin + available_vcs) rn
       in if xy
          then Inr (f, offer (dor_next_mesh g (rv_id r) (fl_dest f) False) vcBegin (vcEnd - available_vcs) outputs, rn)
          else Inr (f, offer (dor_next_mesh g (rv_id r) (fl_dest f) True) (vcBegin + available_vcs) vcEnd outputs, rn)))"

definition dim_order_mesh :: route where
  "dim_order_mesh g r f in_channel inject outputs rn =
     (let out_port = (if inject then - 1 else dor_next_mesh g (rv_id r) (fl_dest f) False) in
      bnd (vc_range g f inject) (\<lambda>(vcBegin, vcEnd). Inr (f, offer out_port vcBegin vcEnd outputs, rn)))"

text \<open>\<^verbatim>\<open>(vcEnd - vcBegin + 1) / gNodes\<close> VCs for each destination.\<close>

definition vcs_for_dest :: "globals \<Rightarrow> flit \<Rightarrow> int \<times> int \<Rightarrow> (int \<times> int) res" where
  "vcs_for_dest g f = (\<lambda>(vcBegin, vcEnd).
     let vcs_per_dest = (vcEnd - vcBegin + 1) sdiv gNodes g in
     bnd (assert_that (vcs_per_dest > 0) ''vcs_per_dest > 0'') (\<lambda>_.
     let vcBegin = vcBegin + fl_dest f * vcs_per_dest in Inr (vcBegin, vcBegin + vcs_per_dest - 1)))"

definition dim_order_ni_mesh :: route where
  "dim_order_ni_mesh g r f in_channel inject outputs rn =
     (let out_port = (if inject then - 1 else dor_next_mesh g (rv_id r) (fl_dest f) False) in
      bnd (vc_range g f inject) (\<lambda>vcs.
      bnd (if inject \<or> rv_id r \<noteq> fl_dest f then vcs_for_dest g f vcs else Inr vcs) (\<lambda>(vcBegin, vcEnd).
      Inr (f, offer out_port vcBegin vcEnd outputs, rn))))"

definition dim_order_pni_mesh :: route where
  "dim_order_pni_mesh g r f in_channel inject outputs rn =
     (let out_port = (if inject then - 1 else dor_next_mesh g (rv_id r) (fl_dest f) False) in
      bnd (vc_range g f inject) (\<lambda>(vcBegin, vcEnd).
      bnd (if inject \<or> rv_id r \<noteq> fl_dest f then
             (let next_coord = (if inject then fl_dest f
                 else fold (\<lambda>_ d. d sdiv gK g) (range0 (out_port sdiv 2)) (fl_dest f));
                  next_coord = next_coord smod gK g in
              bnd (assert_that (next_coord \<ge> 0 \<and> next_coord < gK g) ''next_coord'') (\<lambda>_.
              let vcs_per_dest = (vcEnd - vcBegin + 1) sdiv gK g in
              bnd (assert_that (vcs_per_dest > 0) ''vcs_per_dest > 0'') (\<lambda>_.
              let vcBegin = vcBegin + next_coord * vcs_per_dest in Inr (vcBegin, vcBegin + vcs_per_dest - 1))))
           else Inr (vcBegin, vcEnd)) (\<lambda>(vcBegin, vcEnd).
      Inr (f, offer out_port vcBegin vcEnd outputs, rn))))"

definition rand_min_intr_mesh :: "globals \<Rightarrow> int \<Rightarrow> int \<Rightarrow> rng \<Rightarrow> int \<times> rng" where
  "rand_min_intr_mesh g src dest rn =
     (let (intm, offset, dest, src, rn) =
        fold (\<lambda>_ (intm, offset, dest, src, rn).
          let dist = dest smod gK g - src smod gK g;
              (x, rn) = RandomInt (if dist > 0 then dist else - dist) rn;
              base = (if dist > 0 then src smod gK g else dest smod gK g)
          in (intm + offset * (base + x), offset * gK g, dest sdiv gK g, src sdiv gK g, rn))
        (range0 (gN g)) (0, 1, dest, src, rn)
      in (intm, rn))"

text \<open>
  The two-phase functions: \<open>start\<close> draws the intermediate node when the flit enters from the injection port,
  \<open>phase_step\<close> is what the mesh versions share.
\<close>

definition phase_step :: "globals \<Rightarrow> rview \<Rightarrow> int \<Rightarrow> (rng \<Rightarrow> int \<times> rng) \<Rightarrow> flit \<Rightarrow> rng \<Rightarrow> flit \<times> rng" where
  "phase_step g r in_channel start f rn =
     (let (f, rn) = (if in_channel = 2 * gN g
            then (let (x, rn) = start rn in (f\<lparr>fl_ph := 0, fl_intm := x\<rparr>, rn)) else (f, rn));
          f = (if fl_ph f = 0 \<and> rv_id r = fl_intm f then f\<lparr>fl_ph := 1\<rparr> else f)
      in (f, rn))"

definition phase_target :: "flit \<Rightarrow> int" where
  "phase_target f = (if fl_ph f = 0 then fl_intm f else fl_dest f)"

definition phase_vcs :: "rview \<Rightarrow> flit \<Rightarrow> int \<times> int \<Rightarrow> (int \<times> int) res" where
  "phase_vcs r f = (\<lambda>(vcBegin, vcEnd).
     if rv_id r \<noteq> fl_dest f then
       (let available_vcs = (vcEnd - vcBegin + 1) sdiv 2 in
        bnd (assert_that (available_vcs > 0) ''available_vcs > 0'') (\<lambda>_.
        if fl_ph f = 0 then Inr (vcBegin, vcEnd - available_vcs)
        else bnd (assert_that (fl_ph f = 1) ''f->ph == 1'') (\<lambda>_. Inr (vcBegin + available_vcs, vcEnd))))
     else Inr (vcBegin, vcEnd))"

definition two_phase_mesh :: "(rng \<Rightarrow> int \<times> rng) \<Rightarrow> route" where
  "two_phase_mesh start g r f in_channel inject outputs rn =
     bnd (vc_range g f inject) (\<lambda>(vcBegin, vcEnd).
     if inject then Inr (f, offer (- 1) vcBegin vcEnd outputs, rn)
     else
       let (f, rn) = phase_step g r in_channel start f rn;
           out_port = dor_next_mesh g (rv_id r) (phase_target f) False
       in bnd (phase_vcs r f (vcBegin, vcEnd)) (\<lambda>(vcBegin, vcEnd).
          Inr (f, offer out_port vcBegin vcEnd outputs, rn)))"

definition romm_mesh :: route where
  "romm_mesh g r f = two_phase_mesh (rand_min_intr_mesh g (fl_src f) (fl_dest f)) g r f"

definition valiant_mesh :: route where
  "valiant_mesh g r f = two_phase_mesh (RandomInt (gNodes g - 1)) g r f"

definition romm_ni_mesh :: route where
  "romm_ni_mesh g r f in_channel inject outputs rn =
     bnd (vc_range g f inject) (\<lambda>vcs.
     bnd (if inject \<or> rv_id r \<noteq> fl_dest f then vcs_for_dest g f vcs else Inr vcs) (\<lambda>(vcBegin, vcEnd).
     if inject then Inr (f, offer (- 1) vcBegin vcEnd outputs, rn)
     else
       let (f, rn) = phase_step g r in_channel (rand_min_intr_mesh g (fl_src f) (fl_dest f)) f rn
       in Inr (f, offer (dor_next_mesh g (rv_id r) (phase_target f) False) vcBegin vcEnd outputs, rn)))"

text \<open>The loop of \<^verbatim>\<open>min_adapt_mesh\<close> and \<^verbatim>\<open>chaos_mesh\<close>: the minimal direction in every dimension.\<close>

definition adapt_step :: "int \<Rightarrow> int \<Rightarrow> int \<Rightarrow> int \<Rightarrow> int \<Rightarrow> output_set \<times> int \<times> int \<Rightarrow> output_set \<times> int \<times> int" where
  "adapt_step k a b pri n = (\<lambda>(os, cur, dest).
     (if cur smod k \<noteq> dest smod k then
        if cur smod k < dest smod k then OS_AddRange (2 * n) a b pri os else OS_AddRange (2 * n + 1) a b pri os
      else os, cur sdiv k, dest sdiv k))"

text \<open>The arguments of the first \<^verbatim>\<open>AddRange\<close> are \<^verbatim>\<open>( out_port, 0, vcBegin, vcBegin )\<close>, as in the source.\<close>

definition min_adapt_mesh :: route where
  "min_adapt_mesh g r f in_channel inject outputs rn =
     bnd (vc_range g f inject) (\<lambda>(vcBegin, vcEnd).
     let outputs = OS_Clear outputs in
     if inject then Inr (f, OS_AddRange (- 1) vcBegin vcEnd 0 outputs, rn)
     else if rv_id r = fl_dest f then Inr (f, OS_AddRange (2 * gN g) vcBegin vcEnd 0 outputs, rn)
     else
       let in_vc = (if in_channel = 2 * gN g then vcEnd else fl_vc f);
           out_port = dor_next_mesh g (rv_id r) (fl_dest f) False;
           outputs = OS_AddRange out_port 0 vcBegin vcBegin outputs;
           outputs =
             (if in_vc \<noteq> vcBegin then
                fst (fold (adapt_step (gK g) (vcBegin + 1) vcEnd 1) (range0 (gN g)) (outputs, rv_id r, fl_dest f))
              else outputs)
       in Inr (f, outputs, rn))"

definition chaos_mesh :: route where
  "chaos_mesh g r f in_channel inject outputs rn =
     (let outputs = OS_Clear outputs in
      if inject then Inr (f, OS_AddRange (- 1) 0 0 0 outputs, rn)
      else
        let cur = rv_id r; dest = fl_dest f in
        if cur \<noteq> dest then
          Inr (f, fst (fold (adapt_step (gK g) 0 0 0) (range0 (gN g)) (outputs, cur, dest)), rn)
        else Inr (f, OS_AddRange (2 * gN g) 0 0 0 outputs, rn))"

text \<open>
  \<^verbatim>\<open>planar_adapt_mesh\<close>: \<open>planar_first\<close> is the productive output in the adaptive plane with the flag
  \<^verbatim>\<open>fault\<close>, \<open>planar_second\<close> the one in the next dimension or the misroute around a fault.
\<close>

definition planar_first :: "globals \<Rightarrow> rview \<Rightarrow> int \<Rightarrow> int \<Rightarrow> int \<Rightarrow> bool \<Rightarrow> output_set \<Rightarrow> (bool \<times> output_set) res" where
  "planar_first g r n b e increase outputs =
     (let port = (if increase then 2 * n else 2 * n + 1) in
      bnd (IsFaultyOutput r port) (\<lambda>faulty.
      Inr (if \<not> faulty then (False, OS_AddRange port b e 0 outputs) else (True, outputs))))"

definition planar_second ::
    "globals \<Rightarrow> rview \<Rightarrow> int \<Rightarrow> int \<Rightarrow> int \<Rightarrow> int \<Rightarrow> int \<Rightarrow> int \<Rightarrow> bool \<Rightarrow> output_set \<Rightarrow> rng \<Rightarrow> (output_set \<times> rng) res" where
  "planar_second g r in_channel n cur dest vcBegin vcEnd fault outputs rn =
     (let k = gK g;
          d1_min_c = (if cur smod k < dest smod k then 2 * n
                      else if cur smod k \<noteq> dest smod k then 2 * n + 1 else - 1);
          d1_min_c = (if d1_min_c = in_channel then if fault then flip in_channel else - 1 else d1_min_c)
      in if d1_min_c \<noteq> - 1 then
           bnd (IsFaultyOutput r d1_min_c) (\<lambda>faulty.
             if \<not> faulty then Inr (OS_AddRange d1_min_c vcBegin vcEnd 0 outputs, rn)
             else if fault then Inl (ErrorMsg ''There seem to be faults in d_i and d_{i+1}'')
             else Inr (outputs, rn))
         else if fault then
           (let (d1_min_c, atedge, rn) =
              (if cur smod k = 0 then (2 * n, True, rn)
               else if cur smod k = k - 1 then (2 * n + 1, True, rn)
               else (let (x, rn) = RandomInt 1 rn; d = 2 * n + x
                     in (if d = in_channel then flip in_channel else d, False, rn)))
            in bnd (IsFaultyOutput r d1_min_c) (\<lambda>faulty.
               if \<not> faulty then Inr (OS_AddRange d1_min_c vcBegin vcEnd 0 outputs, rn)
               else
                 bnd (if \<not> atedge then bnd (IsFaultyOutput r (flip d1_min_c)) (\<lambda>b. Inr (\<not> b)) else Inr False) (\<lambda>other.
                   if other then Inr (OS_AddRange (flip d1_min_c) vcBegin vcEnd 0 outputs, rn)
                   else Inl (ErrorMsg ''There seem to be faults in d_i and d_{i+1}''))))
         else Inr (outputs, rn))"

definition planar_adapt_mesh :: route where
  "planar_adapt_mesh g r f in_channel inject outputs rn =
     bnd (vc_range g f inject) (\<lambda>(vcBegin, vcEnd).
     let outputs = OS_Clear outputs in
     if inject then Inr (f, OS_AddRange (- 1) vcBegin vcEnd 0 outputs, rn)
     else
       let cur = rv_id r; dest = fl_dest f; k = gK g in
       if cur \<noteq> dest then
         (let in_vc = fl_vc f;
              vc_mult = (vcEnd - vcBegin + 1) sdiv 3;
              (n, cur, dest) = scan_dims (\<lambda>n c e. c smod k \<noteq> e smod k \<and>
                 \<not> (in_channel sdiv 2 = 0 \<and> n = 0 \<and> in_vc < vcBegin + 2 * vc_mult)) k (gN g) 0 cur dest
          in bnd (assert_that (n < gN g) ''n < gN'') (\<lambda>_.
             let increase = cur smod k < dest smod k in
             bnd (planar_first g r n (vcBegin + 2 * vc_mult) vcEnd increase outputs) (\<lambda>(fault, outputs).
             let n = (n + 1) smod gN g; cur = cur sdiv k; dest = dest sdiv k;
                 vcBegin = (if \<not> increase then vcBegin + vc_mult else vcBegin);
                 vcEnd = vcBegin + vc_mult - 1
             in bnd (planar_second g r in_channel n cur dest vcBegin vcEnd fault outputs rn) (\<lambda>(outputs, rn).
                Inr (f, outputs, rn)))))
       else Inr (f, OS_AddRange (2 * gN g) vcBegin vcEnd 0 outputs, rn))"

section \<open>Tori\<close>

text \<open>Reading a variable that was never written is undefined behaviour.\<close>

definition read_var :: "int option \<Rightarrow> int res" where
  "read_var v = (case v of None \<Rightarrow> Inl Uninitialized | Some x \<Rightarrow> Inr x)"

definition valiant_vcs :: "int \<Rightarrow> int \<Rightarrow> int \<times> int \<Rightarrow> (int \<times> int) res" where
  "valiant_vcs ring_part phase = (\<lambda>(vcBegin, vcEnd).
     let ring_available_vcs = (vcEnd - vcBegin + 1) sdiv 2 in
     bnd (assert_that (ring_available_vcs > 0) ''ring_available_vcs > 0'') (\<lambda>_.
     bnd (if ring_part = 0 then Inr (vcBegin, vcEnd - ring_available_vcs)
          else bnd (assert_that (ring_part = 1) ''ring_part == 1'') (\<lambda>_. Inr (vcBegin + ring_available_vcs, vcEnd))) (\<lambda>(vcBegin, vcEnd).
     let ph_available_vcs = ring_available_vcs sdiv 2 in
     bnd (assert_that (ph_available_vcs > 0) ''ph_available_vcs > 0'') (\<lambda>_.
     if phase = 0 then Inr (vcBegin, vcEnd - ph_available_vcs)
     else bnd (assert_that (phase = 1) ''phase == 1'') (\<lambda>_. Inr (vcBegin + ph_available_vcs, vcEnd))))))"

definition valiant_torus :: route where
  "valiant_torus g r f in_channel inject outputs rn =
     bnd (vc_range g f inject) (\<lambda>(vcBegin, vcEnd).
     if inject then Inr (f, offer (- 1) vcBegin vcEnd outputs, rn)
     else
       let (phase, f, rn) = (if in_channel = 2 * gN g
             then (let (x, rn) = RandomInt (gNodes g - 1) rn in (0, f\<lparr>fl_intm := x\<rparr>, rn))
             else (fl_ph f sdiv 2, f, rn));
           (phase, in_channel) = (if phase = 0 \<and> rv_id r = fl_intm f then (1, 2 * gN g) else (phase, in_channel));
           (out_port, ring_part, rn) = dor_next_torus g (rv_id r) (if phase = 0 then fl_intm f else fl_dest f)
              in_channel True None False rn
       in bnd (read_var ring_part) (\<lambda>ring_part.
          let f = f\<lparr>fl_ph := 2 * phase + ring_part\<rparr> in
          bnd (if rv_id r \<noteq> fl_dest f then valiant_vcs ring_part phase (vcBegin, vcEnd) else Inr (vcBegin, vcEnd)) (\<lambda>(vcBegin, vcEnd).
          Inr (f, offer out_port vcBegin vcEnd outputs, rn))))"

definition valiant_ni_torus :: route where
  "valiant_ni_torus g r f in_channel inject outputs rn =
     bnd (vc_range g f inject) (\<lambda>vcs.
     bnd (if inject \<or> rv_id r \<noteq> fl_dest f then vcs_for_dest g f vcs else Inr vcs) (\<lambda>(vcBegin, vcEnd).
     if inject then Inr (f, offer (- 1) vcBegin vcEnd outputs, rn)
     else
       let (phase, f, rn) = (if in_channel = 2 * gN g
             then (let (x, rn) = RandomInt (gNodes g - 1) rn in (0, f\<lparr>fl_intm := x\<rparr>, rn))
             else (fl_ph f sdiv 2, f, rn));
           (f, in_channel) = (if fl_ph f = 0 \<and> rv_id r = fl_intm f then (f\<lparr>fl_ph := 1\<rparr>, 2 * gN g) else (f, in_channel));
           (out_port, ring_part, rn) = dor_next_torus g (rv_id r) (phase_target f) in_channel True None False rn
       in bnd (read_var ring_part) (\<lambda>ring_part.
          let f = f\<lparr>fl_ph := 2 * phase + ring_part\<rparr> in
          bnd (if rv_id r \<noteq> fl_dest f then valiant_vcs ring_part phase (vcBegin, vcEnd) else Inr (vcBegin, vcEnd)) (\<lambda>(vcBegin, vcEnd).
          Inr (f, offer out_port vcBegin vcEnd outputs, rn)))))"

definition dim_order_torus :: route where
  "dim_order_torus g r f in_channel inject outputs rn =
     bnd (vc_range g f inject) (\<lambda>(vcBegin, vcEnd).
     if inject then Inr (f, offer (- 1) vcBegin vcEnd outputs, rn)
     else
       let cur = rv_id r; dest = fl_dest f;
           (out_port, part, rn) = dor_next_torus g cur dest in_channel True (Some (fl_ph f)) False rn;
           f = f\<lparr>fl_ph := the part\<rparr>
       in bnd (if cur \<noteq> dest then
                 (let available_vcs = (vcEnd - vcBegin + 1) sdiv 2 in
                  bnd (assert_that (available_vcs > 0) ''available_vcs > 0'') (\<lambda>_.
                  Inr (if fl_ph f = 0 then (vcBegin, vcEnd - available_vcs) else (vcBegin + available_vcs, vcEnd))))
               else Inr (vcBegin, vcEnd)) (\<lambda>(vcBegin, vcEnd).
          Inr (f, offer out_port vcBegin vcEnd outputs, rn)))"

definition dim_order_ni_torus :: route where
  "dim_order_ni_torus g r f in_channel inject outputs rn =
     bnd (vc_range g f inject) (\<lambda>(vcBegin, vcEnd).
     if inject then Inr (f, offer (- 1) vcBegin vcEnd outputs, rn)
     else
       let cur = rv_id r; dest = fl_dest f;
           (out_port, _, rn) = dor_next_torus g cur dest in_channel False None False rn
       in bnd (if cur \<noteq> dest then
                 (let vcs_per_dest = (vcEnd - vcBegin + 1) sdiv gNodes g in
                  bnd (assert_that (vcs_per_dest \<noteq> 0) ''vcs_per_dest'') (\<lambda>_.
                  let vcBegin = vcBegin + fl_dest f * vcs_per_dest in Inr (vcBegin, vcBegin + vcs_per_dest - 1)))
               else Inr (vcBegin, vcEnd)) (\<lambda>(vcBegin, vcEnd).
          Inr (f, offer out_port vcBegin vcEnd outputs, rn)))"

definition dim_order_bal_torus :: route where
  "dim_order_bal_torus g r f in_channel inject outputs rn =
     bnd (vc_range g f inject) (\<lambda>(vcBegin, vcEnd).
     if inject then Inr (f, offer (- 1) vcBegin vcEnd outputs, rn)
     else
       let cur = rv_id r; dest = fl_dest f;
           (out_port, part, rn) = dor_next_torus g cur dest in_channel True (Some (fl_ph f)) True rn;
           f = f\<lparr>fl_ph := the part\<rparr>
       in bnd (if cur \<noteq> dest then
                 (let available_vcs = (vcEnd - vcBegin + 1) sdiv 2 in
                  bnd (assert_that (available_vcs > 0) ''available_vcs > 0'') (\<lambda>_.
                  if fl_ph f = 0 then Inr (vcBegin, vcEnd - available_vcs)
                  else bnd (assert_that (fl_ph f = 1) ''f->ph == 1'') (\<lambda>_. Inr (vcBegin + available_vcs, vcEnd))))
               else Inr (vcBegin, vcEnd)) (\<lambda>(vcBegin, vcEnd).
          Inr (f, offer out_port vcBegin vcEnd outputs, rn)))"

text \<open>\<^verbatim>\<open>min_adapt_torus\<close> does not return after the ejection range was added.\<close>

definition min_adapt_torus :: route where
  "min_adapt_torus g r f in_channel inject outputs rn =
     bnd (vc_range g f inject) (\<lambda>(vcBegin, vcEnd).
     let outputs = OS_Clear outputs; k = gK g in
     if inject then Inr (f, OS_AddRange (- 1) vcBegin vcEnd 0 outputs, rn)
     else
       let outputs = (if rv_id r = fl_dest f then OS_AddRange (2 * gN g) vcBegin vcEnd 0 outputs else outputs);
           in_vc = (if in_channel = 2 * gN g then vcEnd else fl_vc f);
           (outputs, in_port) =
             (if in_vc > vcBegin + 1 then
                (fst (fold (\<lambda>n (os, cur, dest).
                   (if cur smod k \<noteq> dest smod k then
                      (let dist2 = k - 2 * ((dest smod k - cur smod k + k) smod k) in
                       if dist2 > 0 then OS_AddRange (2 * n) (vcBegin + 3) (vcBegin + 3) 1 os
                       else OS_AddRange (2 * n + 1) (vcBegin + 3) (vcBegin + 3) 1 os)
                    else os, cur sdiv k, dest sdiv k)) (range0 (gN g)) (outputs, rv_id r, fl_dest f)), 2 * gN g)
              else (outputs, in_channel));
           (out_port, part, rn) = dor_next_torus g (rv_id r) (fl_dest f) in_port True (Some (fl_ph f)) False rn;
           f = f\<lparr>fl_ph := the part\<rparr>
       in if fl_ph f = 0 then Inr (f, OS_AddRange out_port vcBegin vcBegin 0 outputs, rn)
          else Inr (f, OS_AddRange out_port (vcBegin + 1) (vcBegin + 1) 0 outputs, rn))"

definition chaos_torus :: route where
  "chaos_torus g r f in_channel inject outputs rn =
     (let outputs = OS_Clear outputs; k = gK g in
      if inject then Inr (f, OS_AddRange (- 1) 0 0 0 outputs, rn)
      else
        let cur = rv_id r; dest = fl_dest f in
        if cur \<noteq> dest then
          Inr (f, fst (fold (\<lambda>n (os, cur, dest).
            (if cur smod k \<noteq> dest smod k then
               (let dist2 = k - 2 * ((dest smod k - cur smod k + k) smod k);
                    os = (if dist2 \<ge> 0 then OS_AddRange (2 * n) 0 0 0 os else os)
                in if dist2 \<le> 0 then OS_AddRange (2 * n + 1) 0 0 0 os else os)
             else os, cur sdiv k, dest sdiv k)) (range0 (gN g)) (outputs, cur, dest)), rn)
        else Inr (f, OS_AddRange (2 * gN g) 0 0 0 outputs, rn))"

section \<open>Butterflies\<close>

definition fly_port :: "globals \<Rightarrow> int \<Rightarrow> int \<Rightarrow> int" where
  "fly_port g rid dest =
     (let stage = (rid * gK g) sdiv gNodes g
      in fold (\<lambda>_ d. d sdiv gK g) [stage..gN g - 2] dest smod gK g)"

definition dest_tag_fly :: route where
  "dest_tag_fly g r f in_channel inject outputs rn =
     bnd (vc_range g f inject) (\<lambda>(vcBegin, vcEnd).
     let out_port = (if inject then - 1 else fly_port g (rv_id r) (fl_dest f))
     in Inr (f, offer out_port vcBegin vcEnd outputs, rn))"

section \<open>The table\<close>

text \<open>
  \<^verbatim>\<open>InitializeRoutingMap\<close>: the VC ranges of the classes from the configuration's arrays or integers, and the
  names under which the functions are registered. \<^verbatim>\<open>back()\<close> of an empty vector is undefined.
\<close>

definition vresize :: "int \<Rightarrow> 'a \<Rightarrow> 'a list \<Rightarrow> 'a list" where
  "vresize n x xs = take (nat n) xs @ replicate (nat n - length xs) x"

definition class_vcs :: "int list \<Rightarrow> int \<Rightarrow> int \<Rightarrow> int \<Rightarrow> int list res" where
  "class_vcs arr single dflt classes =
     (let v = (if arr = [] then if single < 0 then replicate (nat classes) dflt else [single] else arr) in
      if v = [] then Inl OutOfBounds else Inr (vresize classes (last v) v))"

definition InitializeRoutingMap ::
    "int \<Rightarrow> int \<Rightarrow> int list \<times> int \<Rightarrow> int list \<times> int \<Rightarrow> globals \<Rightarrow> globals res" where
  "InitializeRoutingMap num_vcs classes start_vc end_vc g =
     bnd (class_vcs (fst start_vc) (snd start_vc) 0 classes) (\<lambda>b.
     bnd (class_vcs (fst end_vc) (snd end_vc) (num_vcs - 1) classes) (\<lambda>e.
     bnd (for_each (\<lambda>cl _. assert_that (vat b cl \<le> vat e cl) ''gBeginVCs[cl] <= gEndVCs[cl]'') (range0 classes) ()) (\<lambda>_.
     Inr (g\<lparr>gBeginVCs := b, gEndVCs := e\<rparr>))))"

definition gRoutingFunctionMap :: "string \<Rightarrow> route option" where
  "gRoutingFunctionMap = map_of
     [(''nca_fattree'', fattree_nca), (''anca_fattree'', fattree_anca), (''nca_qtree'', qtree_nca),
      (''nca_tree4'', tree4_nca), (''anca_tree4'', tree4_anca), (''dor_mesh'', dim_order_mesh),
      (''xy_yx_mesh'', xy_yx_mesh), (''adaptive_xy_yx_mesh'', adaptive_xy_yx_mesh),
      (''dim_order_mesh'', dim_order_mesh), (''dim_order_ni_mesh'', dim_order_ni_mesh),
      (''dim_order_pni_mesh'', dim_order_pni_mesh), (''dim_order_torus'', dim_order_torus),
      (''dim_order_ni_torus'', dim_order_ni_torus), (''dim_order_bal_torus'', dim_order_bal_torus),
      (''romm_mesh'', romm_mesh), (''romm_ni_mesh'', romm_ni_mesh), (''min_adapt_mesh'', min_adapt_mesh),
      (''min_adapt_torus'', min_adapt_torus), (''planar_adapt_mesh'', planar_adapt_mesh),
      (''valiant_mesh'', valiant_mesh), (''valiant_torus'', valiant_torus), (''valiant_ni_torus'', valiant_ni_torus),
      (''dest_tag_fly'', dest_tag_fly), (''chaos_mesh'', chaos_mesh), (''chaos_torus'', chaos_torus)]"

section \<open>Shared facts\<close>

lemma vc_range_Inr: "vc_range g f inject = Inr (b, e) \<longleftrightarrow>
    0 \<le> fl_cl f \<and> fl_cl f < vlen (gBeginVCs g) \<and> fl_cl f < vlen (gEndVCs g) \<and>
    b = vat (gBeginVCs g) (fl_cl f) \<and> e = vat (gEndVCs g) (fl_cl f) \<and>
    (b \<le> fl_vc f \<and> fl_vc f \<le> e \<or> inject \<and> fl_vc f < 0)"
  by (auto simp: vc_range_def bnd_Inr_iff vget_Inr_iff)

lemma offer_eq: "offer p b e os = [\<lparr>vc_start = b, vc_end = e, se_pri = 0, output_port = p\<rparr>]"
  by (simp add: offer_def)

end
