(* ===== verification/Mesh.thy ===== *)
theory Mesh
  imports Routing
begin

text \<open>
  Dimension-order routing on meshes. \<open>dor_next_mesh\<close> picks the lowest (or highest) dimension in which
  the coordinates differ and steps towards the destination; the locale \<open>minimal_routing\<close> turns that into delivery
  in exactly as many hops as the Manhattan distance, and a numbering of the channels that grows along every route
  shows that the routes cannot deadlock.
\<close>

section \<open>The dimension chosen\<close>

lemma scan_dims_spec:
  assumes "0 < k" "0 \<le> cur" "0 \<le> dest"
  shows "\<exists>m. scan_dims stop k lim n cur dest = (n + int m, cur div k ^ m, dest div k ^ m) \<and>
    (n \<le> lim \<longrightarrow> n + int m \<le> lim) \<and> (\<forall>i < m. \<not> stop (n + int i) (cur div k ^ i) (dest div k ^ i)) \<and>
    (n + int m < lim \<longrightarrow> stop (n + int m) (cur div k ^ m) (dest div k ^ m))"
  using assms
proof (induction stop k lim n cur dest rule: scan_dims.induct)
  case (1 stop k lim n cur dest)
  show ?case
  proof (cases "n < lim \<and> \<not> stop n cur dest")
    case True
    then obtain m where m: "scan_dims stop k lim (n + 1) (cur div k) (dest div k) =
        (n + 1 + int m, cur div k div k ^ m, dest div k div k ^ m)"
      "n + 1 \<le> lim \<longrightarrow> n + 1 + int m \<le> lim"
      "\<forall>i < m. \<not> stop (n + 1 + int i) (cur div k div k ^ i) (dest div k div k ^ i)"
      "n + 1 + int m < lim \<longrightarrow> stop (n + 1 + int m) (cur div k div k ^ m) (dest div k div k ^ m)"
      using 1 by (fastforce simp: pos_imp_zdiv_nonneg_iff)
    have d: "x div k ^ Suc j = x div k div k ^ j" for x j using 1(2) by (simp add: zdiv_zmult2_eq)
    have "scan_dims stop k lim n cur dest = (n + int (Suc m), cur div k ^ Suc m, dest div k ^ Suc m)"
      using True m(1) 1(2-4) by (subst scan_dims.simps) (simp add: d del: power_Suc)
    moreover have "\<forall>i < Suc m. \<not> stop (n + int i) (cur div k ^ i) (dest div k ^ i)"
    proof (intro allI impI)
      fix i assume "i < Suc m"
      then show "\<not> stop (n + int i) (cur div k ^ i) (dest div k ^ i)"
        using True m(3) by (cases i) (auto simp: d add.assoc simp del: power_Suc)
    qed
    ultimately show ?thesis using True m(2,4)
      by (intro exI [of _ "Suc m"]) (simp add: d add.assoc del: power_Suc)
  next
    case False
    then show ?thesis by (subst scan_dims.simps) auto
  qed
qed

definition mesh_ok :: "globals \<Rightarrow> bool" where
  "mesh_ok g \<longleftrightarrow> 0 < gK g \<and> 0 \<le> gN g \<and> gNodes g = gK g ^ nat (gN g)"

definition on_mesh :: "globals \<Rightarrow> int \<Rightarrow> bool" where
  "on_mesh g x \<longleftrightarrow> 0 \<le> x \<and> x < gK g ^ nat (gN g)"

text \<open>The port towards the destination in dimension \<open>d\<close>.\<close>

definition toward :: "int \<Rightarrow> nat \<Rightarrow> int \<Rightarrow> int \<Rightarrow> int" where
  "toward k d cur dest = 2 * int d + (if digit k d cur < digit k d dest then 0 else 1)"

lemma mesh_differ:
  assumes "mesh_ok g" "on_mesh g cur" "on_mesh g dest" "cur \<noteq> dest"
  shows "\<exists>d < nat (gN g). digit (gK g) d cur \<noteq> digit (gK g) d dest" "0 < gN g"
proof -
  show "\<exists>d < nat (gN g). digit (gK g) d cur \<noteq> digit (gK g) d dest"
    using digit_differs [of "gK g" cur "nat (gN g)" dest] assms by (auto simp: mesh_ok_def on_mesh_def)
  then show "0 < gN g" by auto
qed

lemma dor_ascending:
  assumes "mesh_ok g" "on_mesh g cur" "on_mesh g dest" "cur \<noteq> dest"
  shows "\<exists>d < nat (gN g). dor_next_mesh g cur dest False = toward (gK g) d cur dest \<and>
    digit (gK g) d cur \<noteq> digit (gK g) d dest \<and> (\<forall>i < d. digit (gK g) i cur = digit (gK g) i dest)"
proof -
  let ?k = "gK g"
  have k: "0 < ?k" and nn: "0 \<le> cur" "0 \<le> dest" using assms(1-3) by (auto simp: mesh_ok_def on_mesh_def)
  have dg: "(x div ?k ^ i) smod ?k = digit ?k i x" if "0 \<le> x" for x i
    using that k by (simp add: digit_def pos_imp_zdiv_nonneg_iff)
  from scan_dims_spec [OF k nn, of "\<lambda>_ c e. c smod ?k \<noteq> e smod ?k" "gN g - 1" 0] obtain m where
    m: "scan_dims (\<lambda>_ c e. c smod ?k \<noteq> e smod ?k) ?k (gN g - 1) 0 cur dest = (int m, cur div ?k ^ m, dest div ?k ^ m)"
      "int m \<le> gN g - 1" "\<forall>i < m. digit ?k i cur = digit ?k i dest"
      "int m < gN g - 1 \<longrightarrow> digit ?k m cur \<noteq> digit ?k m dest"
    using mesh_differ(2) [OF assms] dg nn by auto
  have "digit ?k m cur \<noteq> digit ?k m dest"
  proof (cases "int m < gN g - 1")
    case False
    with m(2) have "nat (gN g) = Suc m" by simp
    with mesh_differ(1) [OF assms] m(3) show ?thesis using less_Suc_eq by auto
  qed (use m(4) in simp)
  moreover have "dor_next_mesh g cur dest False = toward ?k m cur dest"
    using assms(4) m(1) nn by (simp add: dor_next_mesh_def toward_def dg)
  ultimately show ?thesis using m(2,3) by (intro exI [of _ m]) auto
qed

text \<open>
  The descending scan shifts the number to the left: after \<open>j\<close> steps it holds \<open>(x mod k ^ (n - j)) * k ^ j\<close>.
\<close>

definition shifted :: "int \<Rightarrow> nat \<Rightarrow> nat \<Rightarrow> int \<Rightarrow> int" where
  "shifted k N d x = (x mod k ^ Suc d) * k ^ (N - Suc d)"

lemma shifted_digit:
  assumes "0 < k" "d < N"
  shows "(shifted k N d x * k) div k ^ N = digit k d x" "0 < d \<Longrightarrow> (shifted k N d x * k) mod k ^ N = shifted k N (d - 1) x"
    "0 \<le> shifted k N d x"
proof -
  have e: "shifted k N d x * k = (x mod k ^ Suc d) * k ^ (N - d)"
    using assms(2) by (simp add: shifted_def Suc_diff_Suc [symmetric])
  have N: "k ^ N = k ^ d * k ^ (N - d)" using assms(2) by (simp add: power_add [symmetric])
  have "(x mod k ^ Suc d) div k ^ d = (x div k ^ d) mod k"
    using zmod_zmult2_eq [of k x "k ^ d"] assms(1) by (simp add: mult.commute)
  then show "(shifted k N d x * k) div k ^ N = digit k d x" using assms(1) by (simp add: e N digit_def)
  have "x mod k ^ Suc d mod k ^ d = x mod k ^ d" by (simp add: mod_mod_cancel)
  then show "(shifted k N d x * k) mod k ^ N = shifted k N (d - 1) x" if "0 < d"
    using assms that unfolding e N by (cases d) (simp_all add: shifted_def del: power_Suc)
  show "0 \<le> shifted k N d x" using assms(1) by (simp add: shifted_def)
qed

lemma scan_down_spec:
  assumes "0 < k" "d < N"
  shows "\<exists>m \<le> d. scan_down k (k ^ N) (int d) (shifted k N d x) (shifted k N d y) = (int m, shifted k N m x, shifted k N m y) \<and>
    (\<forall>i. m < i \<and> i \<le> d \<longrightarrow> digit k i x = digit k i y) \<and> (0 < m \<longrightarrow> digit k m x \<noteq> digit k m y)"
  using assms(2)
proof (induction d)
  case 0
  then show ?case by (subst scan_down.simps) simp
next
  case (Suc d)
  note S = shifted_digit [OF assms(1) Suc.prems]
  have t: "(shifted k N (Suc d) z * k) sdiv k ^ N = digit k (Suc d) z"
    "(shifted k N (Suc d) z * k) smod k ^ N = shifted k N d z" for z
    using S [of z] assms(1) by simp_all
  show ?case
  proof (cases "digit k (Suc d) x = digit k (Suc d) y")
    case True
    from Suc obtain m where m: "m \<le> d"
      "scan_down k (k ^ N) (int d) (shifted k N d x) (shifted k N d y) = (int m, shifted k N m x, shifted k N m y)"
      "\<forall>i. m < i \<and> i \<le> d \<longrightarrow> digit k i x = digit k i y" "0 < m \<longrightarrow> digit k m x \<noteq> digit k m y" by auto
    have "scan_down k (k ^ N) (int (Suc d)) (shifted k N (Suc d) x) (shifted k N (Suc d) y) = (int m, shifted k N m x, shifted k N m y)"
      using True m(2) by (subst scan_down.simps) (simp add: t)
    with m True show ?thesis by (intro exI [of _ m]) (auto simp: le_Suc_eq)
  next
    case False
    then have "scan_down k (k ^ N) (int (Suc d)) (shifted k N (Suc d) x) (shifted k N (Suc d) y) =
        (int (Suc d), shifted k N (Suc d) x, shifted k N (Suc d) y)"
      by (subst scan_down.simps) (simp add: t)
    with False show ?thesis by (intro exI [of _ "Suc d"]) simp
  qed
qed

lemma dor_descending:
  assumes "mesh_ok g" "on_mesh g cur" "on_mesh g dest" "cur \<noteq> dest"
  shows "\<exists>d < nat (gN g). dor_next_mesh g cur dest True = toward (gK g) d cur dest \<and>
    digit (gK g) d cur \<noteq> digit (gK g) d dest \<and> (\<forall>i. d < i \<and> i < nat (gN g) \<longrightarrow> digit (gK g) i cur = digit (gK g) i dest)"
proof -
  let ?k = "gK g" and ?N = "nat (gN g)"
  have k: "0 < ?k" and nodes: "gNodes g = ?k ^ ?N" using assms(1) by (simp_all add: mesh_ok_def)
  obtain D where D: "?N = Suc D" "gN g - 1 = int D" using mesh_differ(2) [OF assms] by (cases ?N) auto
  have sh: "shifted ?k ?N D x = x" if "on_mesh g x" for x using that D(1) by (simp add: shifted_def on_mesh_def)
  from scan_down_spec [OF k, of D ?N cur dest] D(1) obtain m where
    m: "m \<le> D" "scan_down ?k (?k ^ ?N) (int D) (shifted ?k ?N D cur) (shifted ?k ?N D dest) = (int m, shifted ?k ?N m cur, shifted ?k ?N m dest)"
      "\<forall>i. m < i \<and> i \<le> D \<longrightarrow> digit ?k i cur = digit ?k i dest" "0 < m \<longrightarrow> digit ?k m cur \<noteq> digit ?k m dest" by auto
  have dg: "(shifted ?k ?N m x * ?k) sdiv ?k ^ ?N = digit ?k m x" for x
    using shifted_digit [OF k, of m ?N x] m(1) D(1) k by simp
  have "digit ?k m cur \<noteq> digit ?k m dest"
  proof (cases "0 < m")
    case False
    obtain d where "d < ?N" "digit ?k d cur \<noteq> digit ?k d dest" using mesh_differ(1) [OF assms] by blast
    with False m(3) D(1) show ?thesis by (cases "d = 0") auto
  qed (use m(4) in simp)
  moreover have "dor_next_mesh g cur dest True = toward ?k m cur dest"
    using assms(4) m(2) dg unfolding sh [OF assms(2)] sh [OF assms(3)]
    by (simp add: dor_next_mesh_def toward_def nodes D(2))
  ultimately show ?thesis using m(1,3) D(1) by (intro exI [of _ m]) auto
qed

lemma dor_at_dest [simp]: "dor_next_mesh g x x desc = 2 * gN g"
  by (simp add: dor_next_mesh_def)

section \<open>Hops and distance\<close>

definition mesh_dist :: "globals \<Rightarrow> int \<Rightarrow> int \<Rightarrow> nat" where
  "mesh_dist g x y = (\<Sum>i < nat (gN g). nat \<bar>digit (gK g) i x - digit (gK g) i y\<bar>)"

lemma toward_port:
  assumes "d < nat (gN g)"
  shows "0 \<le> toward k d cur dest" "toward k d cur dest < 2 * gN g" "toward k d cur dest div 2 = int d"
    "even (toward k d cur dest) \<longleftrightarrow> digit k d cur < digit k d dest"
  using assms by (auto simp: toward_def)

lemma hop_toward:
  assumes "mesh_ok g" "on_mesh g cur" "d < nat (gN g)" "digit (gK g) d cur \<noteq> digit (gK g) d dest"
  defines "nxt \<equiv> knc_hop (gK g) cur (toward (gK g) d cur dest)"
  shows "on_mesh g nxt"
    and "digit (gK g) e nxt = (if e = d then digit (gK g) d cur + (if digit (gK g) d cur < digit (gK g) d dest then 1 else - 1)
       else digit (gK g) e cur)"
proof -
  let ?k = "gK g" and ?d = "int d"
  have k: "0 < ?k" and c: "0 \<le> cur" "cur < ?k ^ nat (gN g)" and d: "0 \<le> ?d" "?d < gN g"
    using assms(1-3) by (auto simp: mesh_ok_def on_mesh_def)
  note P = toward_port [OF assms(3), of ?k cur dest]
  have rc: "0 \<le> digit ?k d cur" "digit ?k d cur < ?k" and rd: "0 \<le> digit ?k d dest" "digit ?k d dest < ?k"
    using digit_range [OF k] by auto
  have n: "nxt = (if digit ?k d cur < digit ?k d dest then knc_RightNode ?k cur ?d else knc_LeftNode ?k cur ?d)"
    unfolding nxt_def knc_hop_def P(3,4) by simp
  show "on_mesh g nxt" using knc_Node_range [OF k c d] by (simp add: n on_mesh_def)
  show "digit ?k e nxt = (if e = d then digit ?k d cur + (if digit ?k d cur < digit ?k d dest then 1 else - 1) else digit ?k e cur)"
    using rc rd assms(4) by (simp add: n digit_RightNode [OF k c(1)] digit_LeftNode [OF k c(1)])
qed

lemma mesh_dist_hop:
  assumes "mesh_ok g" "on_mesh g cur" "d < nat (gN g)" "digit (gK g) d cur \<noteq> digit (gK g) d dest"
  shows "Suc (mesh_dist g (knc_hop (gK g) cur (toward (gK g) d cur dest)) dest) = mesh_dist g cur dest"
proof -
  let ?k = "gK g" and ?n = "knc_hop (gK g) cur (toward (gK g) d cur dest)" and ?I = "{..<nat (gN g)}"
  note H = hop_toward [OF assms]
  have "(\<Sum>i \<in> ?I - {d}. nat \<bar>digit ?k i ?n - digit ?k i dest\<bar>) = (\<Sum>i \<in> ?I - {d}. nat \<bar>digit ?k i cur - digit ?k i dest\<bar>)"
    by (rule sum.cong) (auto simp: H(2))
  moreover have "Suc (nat \<bar>digit ?k d ?n - digit ?k d dest\<bar>) = nat \<bar>digit ?k d cur - digit ?k d dest\<bar>"
    using assms(4) by (simp add: H(2)) arith
  moreover have "(\<Sum>i < nat (gN g). f i) = f d + (\<Sum>i \<in> ?I - {d}. f i)" for f :: "nat \<Rightarrow> nat"
    using assms(3) by (simp add: sum.remove)
  ultimately show ?thesis unfolding mesh_dist_def by simp
qed

lemma mesh_dist_0:
  assumes "mesh_ok g" "on_mesh g x" "on_mesh g y"
  shows "mesh_dist g x y = 0 \<longleftrightarrow> x = y"
proof
  assume "mesh_dist g x y = 0"
  then have "\<forall>i < nat (gN g). digit (gK g) i x = digit (gK g) i y" by (simp add: mesh_dist_def)
  then show "x = y" using digits_unique [of "gK g" x "nat (gN g)" y] assms by (auto simp: mesh_ok_def on_mesh_def)
qed (simp add: mesh_dist_def)

lemma dor_minimal:
  assumes "mesh_ok g" "on_mesh g cur" "on_mesh g dest" "cur \<noteq> dest"
  shows "\<exists>d < nat (gN g). dor_next_mesh g cur dest desc = toward (gK g) d cur dest \<and> digit (gK g) d cur \<noteq> digit (gK g) d dest"
  using dor_ascending [OF assms] dor_descending [OF assms] by (cases desc) auto

section \<open>Packets on the network\<close>

text \<open>
  A packet is in a router, came in on a port, and the generator is in some state. It hops over any output and any VC that
  the routing function offers, whatever the credits and faults the function saw.
\<close>

record packet =
  pk_net :: globals
  pk_at :: int
  pk_in :: int
  pk_flit :: flit
  pk_rng :: rng

inductive hops :: "route \<Rightarrow> packet \<Rightarrow> packet \<Rightarrow> bool" for R :: route where
  hop: "rv_id r = pk_at s \<Longrightarrow> R (pk_net s) r (pk_flit s) (pk_in s) False os (pk_rng s) = Inr (f, out, rn) \<Longrightarrow>
    e \<in> set out \<Longrightarrow> output_port e \<noteq> 2 * gN (pk_net s) \<Longrightarrow> vc_start e \<le> v \<Longrightarrow> v \<le> vc_end e \<Longrightarrow>
    hops R s \<lparr>pk_net = pk_net s, pk_at = knc_hop (gK (pk_net s)) (pk_at s) (output_port e), pk_in = flip (output_port e),
      pk_flit = f\<lparr>fl_vc := v\<rparr>, pk_rng = rn\<rparr>"

text \<open>The packet can leave the network here and nowhere else.\<close>

definition ejects :: "route \<Rightarrow> packet \<Rightarrow> bool" where
  "ejects R s \<longleftrightarrow> (\<forall>r os. rv_id r = pk_at s \<longrightarrow> (\<exists>f out rn.
     R (pk_net s) r (pk_flit s) (pk_in s) False os (pk_rng s) = Inr (f, out, rn) \<and> out \<noteq> [] \<and>
     (\<forall>e \<in> set out. output_port e = 2 * gN (pk_net s) \<and> vc_start e \<le> vc_end e)))"

locale minimal_routing =
  fixes step :: "'s \<Rightarrow> 's \<Rightarrow> bool"
    and good :: "'s \<Rightarrow> bool"
    and dist :: "'s \<Rightarrow> nat"
    and arrived :: "'s \<Rightarrow> bool"
  assumes progress: "good s \<Longrightarrow> dist s \<noteq> 0 \<Longrightarrow> \<exists>s'. step s s'"
    and minimal: "good s \<Longrightarrow> step s s' \<Longrightarrow> good s' \<and> Suc (dist s') = dist s"
    and arrives: "good s \<Longrightarrow> dist s = 0 \<Longrightarrow> arrived s"
begin

lemma run_keeps:
  assumes "(step ^^ n) s s'" "good s"
  shows "good s' \<and> dist s' + n = dist s"
  using assms
proof (induction n arbitrary: s')
  case (Suc n)
  then obtain t where "(step ^^ n) s t" "step t s'" by auto
  with Suc.IH [of t] Suc.prems(2) minimal [of t s'] show ?case by auto
qed simp

lemma run_exists:
  assumes "good s" "n \<le> dist s"
  shows "\<exists>s'. (step ^^ n) s s'"
  using assms(2)
proof (induction n)
  case (Suc n)
  then obtain t where t: "(step ^^ n) s t" by auto
  with run_keeps [OF t assms(1)] Suc.prems have "good t" "dist t \<noteq> 0" by auto
  with progress t show ?case by (metis relpowp_Suc_I)
qed auto

text \<open>
  Every run ends after exactly \<open>dist s\<close> steps, and there are such runs.
\<close>

lemma delivers:
  assumes "good s"
  shows "(\<exists>s'. (step ^^ dist s) s s') \<and>
    (\<forall>n s'. (step ^^ n) s s' \<longrightarrow> n \<le> dist s \<and> (if n = dist s then arrived s' else \<exists>s''. step s' s''))"
proof (intro conjI allI impI)
  show "\<exists>s'. (step ^^ dist s) s s'" by (rule run_exists [OF assms order_refl])
  fix n s' assume "(step ^^ n) s s'"
  from run_keeps [OF this assms] have k: "good s'" "dist s' + n = dist s" by auto
  then show "n \<le> dist s" by simp
  show "if n = dist s then arrived s' else \<exists>s''. step s' s''"
    using k progress arrives by (cases "n = dist s") auto
qed

end

section \<open>Minimal routing functions\<close>

definition flit_ok :: "globals \<Rightarrow> flit \<Rightarrow> bool" where
  "flit_ok g f \<longleftrightarrow> 0 \<le> fl_cl f \<and> fl_cl f < vlen (gBeginVCs g) \<and> fl_cl f < vlen (gEndVCs g) \<and>
     vat (gBeginVCs g) (fl_cl f) \<le> fl_vc f \<and> fl_vc f \<le> vat (gEndVCs g) (fl_cl f)"

lemma vc_range_ok: "flit_ok g f \<Longrightarrow> vc_range g f inject = Inr (vat (gBeginVCs g) (fl_cl f), vat (gEndVCs g) (fl_cl f))"
  by (simp add: vc_range_Inr flit_ok_def)

text \<open>A packet that has a place in the network, a destination in it and a VC of its class.\<close>

definition mesh_good :: "(globals \<Rightarrow> int \<Rightarrow> bool) \<Rightarrow> packet \<Rightarrow> bool" where
  "mesh_good enough s \<longleftrightarrow> mesh_ok (pk_net s) \<and> on_mesh (pk_net s) (pk_at s) \<and> on_mesh (pk_net s) (fl_dest (pk_flit s)) \<and>
     flit_ok (pk_net s) (pk_flit s) \<and> enough (pk_net s) (fl_cl (pk_flit s))"

definition pk_dist :: "packet \<Rightarrow> nat" where
  "pk_dist s = mesh_dist (pk_net s) (pk_at s) (fl_dest (pk_flit s))"

text \<open>
  What a routing function on a mesh promises: it does not fail, keeps the flit's class and destination, offers a
  range of the class's VCs, ejects at the destination and only there, and otherwise offers hops towards the destination.
  \<open>enough\<close> is what it needs of the number of VCs.
\<close>

locale mesh_router =
  fixes R :: route
    and enough :: "globals \<Rightarrow> int \<Rightarrow> bool"
  assumes routes: "mesh_ok g \<Longrightarrow> on_mesh g (rv_id r) \<Longrightarrow> on_mesh g (fl_dest f) \<Longrightarrow> flit_ok g f \<Longrightarrow> enough g (fl_cl f) \<Longrightarrow>
      \<exists>f' out rn'. R g r f inp False os rn = Inr (f', out, rn') \<and> fl_cl f' = fl_cl f \<and> fl_dest f' = fl_dest f \<and> out \<noteq> [] \<and>
        (\<forall>e \<in> set out. vat (gBeginVCs g) (fl_cl f) \<le> vc_start e \<and> vc_start e \<le> vc_end e \<and> vc_end e \<le> vat (gEndVCs g) (fl_cl f) \<and>
           (if rv_id r = fl_dest f then output_port e = 2 * gN g
            else \<exists>d < nat (gN g). digit (gK g) d (rv_id r) \<noteq> digit (gK g) d (fl_dest f) \<and>
              output_port e = toward (gK g) d (rv_id r) (fl_dest f)))"
begin

lemma hop_minimal:
  assumes "mesh_good enough s" "hops R s s'"
  shows "mesh_good enough s' \<and> Suc (pk_dist s') = pk_dist s"
  using assms(2)
proof (cases rule: hops.cases)
  case (hop r os f out rn e v)
  let ?g = "pk_net s" and ?k = "gK (pk_net s)" and ?d = "fl_dest (pk_flit s)"
  have G: "mesh_ok ?g" "on_mesh ?g (pk_at s)" "on_mesh ?g ?d" "flit_ok ?g (pk_flit s)" "enough ?g (fl_cl (pk_flit s))"
    using assms(1) by (auto simp: mesh_good_def)
  have post: "fl_cl f = fl_cl (pk_flit s)" "fl_dest f = ?d" "vat (gBeginVCs ?g) (fl_cl (pk_flit s)) \<le> v"
      "v \<le> vat (gEndVCs ?g) (fl_cl (pk_flit s))"
      "if pk_at s = ?d then output_port e = 2 * gN ?g
       else \<exists>d < nat (gN ?g). digit ?k d (pk_at s) \<noteq> digit ?k d ?d \<and> output_port e = toward ?k d (pk_at s) ?d"
    using routes [of ?g r "pk_flit s" "pk_in s" os "pk_rng s"] G hop by fastforce+
  with hop obtain d where d: "d < nat (gN ?g)" "digit ?k d (pk_at s) \<noteq> digit ?k d ?d" "output_port e = toward ?k d (pk_at s) ?d"
    by (auto split: if_splits)
  note H = hop_toward(1) [OF G(1,2) d(1,2)] mesh_dist_hop [OF G(1,2) d(1,2)]
  show ?thesis using G post(1-4) H by (simp add: hop mesh_good_def pk_dist_def flit_ok_def d(3))
qed

end

sublocale mesh_router \<subseteq> minimal_routing "hops R" "mesh_good enough" pk_dist "ejects R"
proof (unfold_locales, goal_cases)
  case (1 s)
  let ?g = "pk_net s"
  let ?r = "\<lparr>rv_id = pk_at s, rv_used_credit = (\<lambda>_. 0), rv_faults = []\<rparr>"
  have G: "mesh_ok ?g" "on_mesh ?g (rv_id ?r)" "on_mesh ?g (fl_dest (pk_flit s))" "flit_ok ?g (pk_flit s)" "enough ?g (fl_cl (pk_flit s))"
    using 1(1) by (auto simp: mesh_good_def)
  have ne: "pk_at s \<noteq> fl_dest (pk_flit s)" using 1(2) mesh_dist_0 [OF G(1-3)] by (simp add: pk_dist_def)
  from routes [OF G, of "pk_in s" "[]" "pk_rng s"] ne obtain f' out rn' e where
    R: "R ?g ?r (pk_flit s) (pk_in s) False [] (pk_rng s) = Inr (f', out, rn')" "e \<in> set out" "vc_start e \<le> vc_end e"
      "\<exists>d < nat (gN ?g). output_port e = toward (gK ?g) d (pk_at s) (fl_dest (pk_flit s))"
    by (force simp: neq_Nil_conv)
  then have "output_port e \<noteq> 2 * gN ?g" using toward_port(2) by fastforce
  with R hops.hop [of ?r s R "[]" f' out rn' e "vc_start e"] show ?case by auto
next
  case (2 s s')
  then show ?case by (rule hop_minimal)
next
  case (3 s)
  let ?g = "pk_net s"
  have G: "mesh_ok ?g" "on_mesh ?g (pk_at s)" "on_mesh ?g (fl_dest (pk_flit s))" "flit_ok ?g (pk_flit s)" "enough ?g (fl_cl (pk_flit s))"
    using 3(1) by (auto simp: mesh_good_def)
  have d: "pk_at s = fl_dest (pk_flit s)" using 3(2) mesh_dist_0 [OF G(1-3)] by (simp add: pk_dist_def)
  show ?case
    unfolding ejects_def
  proof (intro allI impI)
    fix r :: rview and os assume r: "rv_id r = pk_at s"
    show "\<exists>f out rn. R ?g r (pk_flit s) (pk_in s) False os (pk_rng s) = Inr (f, out, rn) \<and> out \<noteq> [] \<and>
       (\<forall>e \<in> set out. output_port e = 2 * gN ?g \<and> vc_start e \<le> vc_end e)"
      using routes [OF G(1) _ G(3-5), of r "pk_in s" os "pk_rng s"] G(2) r d by fastforce
  qed
qed

text \<open>The interpretations: the number of VCs each function needs, and its contract.\<close>

definition vcs_of_class :: "globals \<Rightarrow> int \<Rightarrow> int" where
  "vcs_of_class g cl = vat (gEndVCs g) cl - vat (gBeginVCs g) cl + 1"

definition any_vcs :: "globals \<Rightarrow> int \<Rightarrow> bool" where
  "any_vcs g cl = True"

definition two_vcs :: "globals \<Rightarrow> int \<Rightarrow> bool" where
  "two_vcs g cl \<longleftrightarrow> 2 \<le> vcs_of_class g cl"

definition vc_per_node :: "globals \<Rightarrow> int \<Rightarrow> bool" where
  "vc_per_node g cl \<longleftrightarrow> gNodes g \<le> vcs_of_class g cl"

definition vc_per_coord :: "globals \<Rightarrow> int \<Rightarrow> bool" where
  "vc_per_coord g cl \<longleftrightarrow> gK g \<le> vcs_of_class g cl"

interpretation dom: mesh_router dim_order_mesh any_vcs
proof (unfold_locales, goal_cases)
  case (1 g r f inp os rn)
  have "vat (gBeginVCs g) (fl_cl f) \<le> vat (gEndVCs g) (fl_cl f)" using 1(4) by (simp add: flit_ok_def)
  moreover have "\<exists>d < nat (gN g). digit (gK g) d (rv_id r) \<noteq> digit (gK g) d (fl_dest f) \<and>
      dor_next_mesh g (rv_id r) (fl_dest f) False = toward (gK g) d (rv_id r) (fl_dest f)" if "rv_id r \<noteq> fl_dest f"
    using dor_minimal [OF 1(1-3) that] by blast
  ultimately show ?case by (simp add: dim_order_mesh_def vc_range_ok [OF 1(4)] offer_eq)
qed

text \<open>Dividing a class of VCs into equal parts.\<close>

lemma vc_parts:
  assumes "0 < (m::int)" "m \<le> e - b + 1" "0 \<le> x" "x < m"
  defines "p \<equiv> (e - b + 1) sdiv m"
  shows "0 < p" "b \<le> b + x * p" "b + x * p \<le> b + x * p + p - 1" "b + x * p + p - 1 \<le> e"
proof -
  have p: "p = (e - b + 1) div m" using assms by simp
  then show "0 < p" using assms(1,2) by (simp add: pos_imp_zdiv_pos_iff)
  then show "b \<le> b + x * p" "b + x * p \<le> b + x * p + p - 1" using assms(3) by simp_all
  have "(x + 1) * p \<le> m * p" using assms(4) \<open>0 < p\<close> by (intro mult_right_mono) auto
  also have "m * p \<le> e - b + 1" using assms(1) by (simp add: p minus_mod_eq_mult_div [symmetric])
  finally show "b + x * p + p - 1 \<le> e" by (simp add: algebra_simps)
qed

lemma fold_div:
  assumes "0 < (k::int)" "0 \<le> x"
  shows "fold (\<lambda>_ d. d sdiv k) xs x = x div k ^ length xs"
  using assms(2)
proof (induction xs arbitrary: x)
  case (Cons a xs)
  have "x sdiv k = x div k" "0 \<le> x div k" using assms(1) Cons.prems by (simp_all add: pos_imp_zdiv_nonneg_iff)
  then show ?case using Cons.IH [of "x div k"] assms(1) by (simp add: zdiv_zmult2_eq)
qed simp

lemma vcs_for_dest_ok:
  assumes "mesh_ok g" "on_mesh g (fl_dest f)" "gNodes g \<le> e - b + 1"
  shows "\<exists>b' e'. vcs_for_dest g f (b, e) = Inr (b', e') \<and> b \<le> b' \<and> b' \<le> e' \<and> e' \<le> e"
proof -
  have "0 < gNodes g" "0 \<le> fl_dest f" "fl_dest f < gNodes g" using assms by (auto simp: mesh_ok_def on_mesh_def)
  with vc_parts [of "gNodes g" e b "fl_dest f"] assms(3) show ?thesis by (simp add: vcs_for_dest_def Let_def)
qed

interpretation dni: mesh_router dim_order_ni_mesh vc_per_node
proof (unfold_locales, goal_cases)
  case (1 g r f inp os rn)
  let ?b = "vat (gBeginVCs g) (fl_cl f)" and ?e = "vat (gEndVCs g) (fl_cl f)"
  have r: "?b \<le> ?e" using 1(4) by (simp add: flit_ok_def)
  show ?case
  proof (cases "rv_id r = fl_dest f")
    case True
    then show ?thesis using r by (simp add: dim_order_ni_mesh_def vc_range_ok [OF 1(4)] offer_eq)
  next
    case False
    have "gNodes g \<le> ?e - ?b + 1" using 1(5) by (simp add: vc_per_node_def vcs_of_class_def)
    from vcs_for_dest_ok [OF 1(1,3) this] obtain b' e' where "vcs_for_dest g f (?b, ?e) = Inr (b', e')"
      "?b \<le> b'" "b' \<le> e'" "e' \<le> ?e" by blast
    then show ?thesis using False dor_minimal [OF 1(1-3) False, of False]
      by (auto simp: dim_order_ni_mesh_def vc_range_ok [OF 1(4)] offer_eq)
  qed
qed

interpretation dpni: mesh_router dim_order_pni_mesh vc_per_coord
proof (unfold_locales, goal_cases)
  case (1 g r f inp os rn)
  let ?b = "vat (gBeginVCs g) (fl_cl f)" and ?e = "vat (gEndVCs g) (fl_cl f)" and ?k = "gK g"
  have r: "?b \<le> ?e" using 1(4) by (simp add: flit_ok_def)
  have k: "0 < ?k" and nn: "0 \<le> fl_dest f" using 1 by (auto simp: mesh_ok_def on_mesh_def)
  show ?case
  proof (cases "rv_id r = fl_dest f")
    case True
    then show ?thesis using r by (simp add: dim_order_pni_mesh_def vc_range_ok [OF 1(4)] offer_eq)
  next
    case False
    obtain d where d: "d < nat (gN g)" "dor_next_mesh g (rv_id r) (fl_dest f) False = toward ?k d (rv_id r) (fl_dest f)"
      "digit ?k d (rv_id r) \<noteq> digit ?k d (fl_dest f)" using dor_minimal [OF 1(1-3) False] by blast
    note P = toward_port [OF d(1), of ?k "rv_id r" "fl_dest f"]
    have c: "fold (\<lambda>_ d. d sdiv ?k) (range0 (toward ?k d (rv_id r) (fl_dest f) sdiv 2)) (fl_dest f) smod ?k = digit ?k d (fl_dest f)"
      using P k nn by (simp add: fold_div digit_def pos_imp_zdiv_nonneg_iff range0_def)
    have rd: "0 \<le> digit ?k d (fl_dest f)" "digit ?k d (fl_dest f) < ?k" using digit_range [OF k] by auto
    have "?k \<le> ?e - ?b + 1" using 1(5) by (simp add: vc_per_coord_def vcs_of_class_def)
    note V = vc_parts [OF k this rd]
    show ?thesis
      using False V rd d
      by (auto simp: dim_order_pni_mesh_def vc_range_ok [OF 1(4)] offer_eq Let_def c)
  qed
qed

lemma vc_halves:
  assumes "2 \<le> e - b + (1::int)"
  defines "a \<equiv> (e - b + 1) sdiv 2"
  shows "0 < a" "b \<le> e - a" "b + a \<le> e"
  using assms(1) by (auto simp: a_def)

interpretation xyyx: mesh_router xy_yx_mesh two_vcs
proof (unfold_locales, goal_cases)
  case (1 g r f inp os rn)
  let ?b = "vat (gBeginVCs g) (fl_cl f)" and ?e = "vat (gEndVCs g) (fl_cl f)"
  have r: "?b \<le> ?e" using 1(4) by (simp add: flit_ok_def)
  have h: "2 \<le> ?e - ?b + 1" using 1(5) by (simp add: two_vcs_def vcs_of_class_def)
  show ?case
  proof (cases "rv_id r = fl_dest f")
    case False
    with dor_minimal [OF 1(1-3) False, of False] dor_minimal [OF 1(1-3) False, of True] vc_halves [OF h] show ?thesis
      by (auto simp: xy_yx_mesh_def vc_range_ok [OF 1(4)] offer_eq Let_def split: prod.splits)
  qed (use r in \<open>simp add: xy_yx_mesh_def vc_range_ok [OF 1(4)] offer_eq\<close>)
qed

interpretation axyyx: mesh_router adaptive_xy_yx_mesh two_vcs
proof (unfold_locales, goal_cases)
  case (1 g r f inp os rn)
  let ?b = "vat (gBeginVCs g) (fl_cl f)" and ?e = "vat (gEndVCs g) (fl_cl f)"
  have r: "?b \<le> ?e" using 1(4) by (simp add: flit_ok_def)
  have h: "2 \<le> ?e - ?b + 1" using 1(5) by (simp add: two_vcs_def vcs_of_class_def)
  show ?case
  proof (cases "rv_id r = fl_dest f")
    case False
    with dor_minimal [OF 1(1-3) False, of False] dor_minimal [OF 1(1-3) False, of True] vc_halves [OF h] show ?thesis
      by (auto simp: adaptive_xy_yx_mesh_def vc_range_ok [OF 1(4)] offer_eq Let_def split: prod.splits)
  qed (use r in \<open>simp add: adaptive_xy_yx_mesh_def vc_range_ok [OF 1(4)] offer_eq\<close>)
qed

end
