(* ===== verification/Deadlock.thy ===== *)
theory Deadlock
  imports Mesh
begin

text \<open>
  Deadlock freedom of the mesh routing functions by the channel dependency graph: a virtual channel depends on the next one
  a packet may ask for while it holds the first. A numbering of the channels that grows along every
  dependency shows that the graph has no cycle.
\<close>

section \<open>Channel dependencies\<close>

text \<open>The router, output port and VC of a hop.\<close>

definition chan_of :: "packet \<Rightarrow> packet \<Rightarrow> int \<times> int \<times> int" where
  "chan_of s s' = (pk_at s, flip (pk_in s'), fl_vc (pk_flit s'))"

definition chan_deps :: "route \<Rightarrow> (globals \<Rightarrow> int \<Rightarrow> bool) \<Rightarrow> globals \<Rightarrow> int \<Rightarrow> ((int \<times> int \<times> int) \<times> (int \<times> int \<times> int)) set" where
  "chan_deps R enough g cl = {(c1, c2). \<exists>s s' s''. mesh_good enough s \<and> pk_net s = g \<and> fl_cl (pk_flit s) = cl \<and>
     hops R s s' \<and> hops R s' s'' \<and> c1 = chan_of s s' \<and> c2 = chan_of s' s''}"

lemma acyclic_by_rank:
  assumes "\<And>x y. (x, y) \<in> r \<Longrightarrow> rank x < (rank y :: nat)"
  shows "acyclic r"
proof -
  have "r \<subseteq> measure rank" using assms by auto
  then show ?thesis by (rule acyclic_subset [OF wf_acyclic [OF wf_measure]])
qed

lemma flip_flip [simp]: "flip (flip p) = p"
  by (auto simp: flip_def)

text \<open>
  Dimensions in the order they are used, and within a dimension the coordinate in the direction of travel. \<open>desc\<close> is the
  order of \<open>dor_next_mesh\<close>.
\<close>

definition dor_rank :: "globals \<Rightarrow> bool \<Rightarrow> int \<Rightarrow> int \<Rightarrow> nat" where
  "dor_rank g desc a p =
     (let d = nat (p div 2); i = (if desc then nat (gN g) - 1 - d else d) in
      i * nat (gK g) + nat (if even p then digit (gK g) d a else gK g - 1 - digit (gK g) d a))"

lemma dor_rank_toward:
  assumes "d < nat (gN g)"
  shows "dor_rank g desc a (toward (gK g) d a dest) = (if desc then nat (gN g) - 1 - d else d) * nat (gK g) +
    nat (if digit (gK g) d a < digit (gK g) d dest then digit (gK g) d a else gK g - 1 - digit (gK g) d a)"
  using toward_port [OF assms] by (simp add: dor_rank_def Let_def)

lemma rank_less:
  assumes "i < (j::nat)" "x < k"
  shows "i * k + x < j * k + y"
proof -
  have "i * k + x < Suc i * k" using assms(2) by simp
  also have "\<dots> \<le> j * k" using assms(1) by (intro mult_right_mono) auto
  finally show ?thesis by simp
qed

lemma dor_rank_increases:
  fixes g :: globals and desc :: bool
  assumes "mesh_ok g" "on_mesh g a" "on_mesh g dest" "a \<noteq> dest"
  defines "p \<equiv> dor_next_mesh g a dest desc"
  defines "b \<equiv> knc_hop (gK g) a p"
  assumes "b \<noteq> dest"
  shows "dor_rank g desc a p < dor_rank g desc b (dor_next_mesh g b dest desc)"
proof -
  let ?k = "gK g" and ?N = "nat (gN g)"
  have k: "0 < ?k" using assms(1) by (simp add: mesh_ok_def)
  obtain d where d: "d < ?N" "p = toward ?k d a dest" "digit ?k d a \<noteq> digit ?k d dest"
    "if desc then \<forall>i. d < i \<and> i < ?N \<longrightarrow> digit ?k i a = digit ?k i dest else \<forall>i < d. digit ?k i a = digit ?k i dest"
    using dor_ascending [OF assms(1-4)] dor_descending [OF assms(1-4)] by (cases desc) (auto simp: p_def)
  note H = hop_toward [OF assms(1,2) d(1,3), folded d(2), folded b_def]
  obtain e where e: "e < ?N" "dor_next_mesh g b dest desc = toward ?k e b dest" "digit ?k e b \<noteq> digit ?k e dest"
    using dor_minimal [OF assms(1) H(1) assms(3,7)] by blast
  have r: "0 \<le> digit ?k i x" "digit ?k i x < ?k" for i x using digit_range [OF k] by auto
  have b: "nat (if digit ?k d a < digit ?k d dest then digit ?k d a else ?k - 1 - digit ?k d a) < nat ?k"
    using r [of d a] k by auto
  consider "e = d" | "e \<noteq> d" by blast
  then show ?thesis
  proof cases
    case 1
    have "nat (if digit ?k d a < digit ?k d dest then digit ?k d a else ?k - 1 - digit ?k d a) <
      nat (if digit ?k d b < digit ?k d dest then digit ?k d b else ?k - 1 - digit ?k d b)"
      using H(2) [of d] e(3) d(3) r [of d a] r [of d b] 1 by (auto split: if_splits)
    then show ?thesis using 1 by (simp add: d(2) e(2) dor_rank_toward [OF d(1)])
  next
    case 2
    have "digit ?k e a \<noteq> digit ?k e dest" using H(2) [of e] e(3) 2 by simp
    with d(4) 2 e(1) have "if desc then e < d else d < e" by (auto split: if_splits) (metis linorder_neqE_nat)+
    then have "(if desc then ?N - 1 - d else d) < (if desc then ?N - 1 - e else e)" using d(1) e(1) by auto
    then show ?thesis unfolding d(2) e(2) dor_rank_toward [OF d(1)] dor_rank_toward [OF e(1)] by (rule rank_less [OF _ b])
  qed
qed

section \<open>Dimension order\<close>

lemma dom_hop:
  assumes "mesh_good any_vcs s" "hops dim_order_mesh s s'"
  shows "pk_at s \<noteq> fl_dest (pk_flit s)" "pk_net s' = pk_net s" "fl_dest (pk_flit s') = fl_dest (pk_flit s)"
    "flip (pk_in s') = dor_next_mesh (pk_net s) (pk_at s) (fl_dest (pk_flit s)) False"
    "pk_at s' = knc_hop (gK (pk_net s)) (pk_at s) (flip (pk_in s'))"
proof -
  let ?g = "pk_net s" and ?f = "pk_flit s"
  have ok: "flit_ok ?g ?f" using assms(1) by (simp add: mesh_good_def)
  from assms(2) obtain r os f out rn e v where
    s': "s' = \<lparr>pk_net = ?g, pk_at = knc_hop (gK ?g) (pk_at s) (output_port e), pk_in = flip (output_port e),
        pk_flit = f\<lparr>fl_vc := v\<rparr>, pk_rng = rn\<rparr>"
    and r: "rv_id r = pk_at s" "dim_order_mesh ?g r ?f (pk_in s) False os (pk_rng s) = Inr (f, out, rn)" "e \<in> set out"
      "output_port e \<noteq> 2 * gN ?g"
    by (cases rule: hops.cases) auto
  have e: "f = ?f" "output_port e = dor_next_mesh ?g (pk_at s) (fl_dest ?f) False"
    using r by (auto simp: dim_order_mesh_def vc_range_ok [OF ok] offer_eq)
  show "pk_at s \<noteq> fl_dest ?f" using e(2) r(4) by (metis dor_at_dest)
  show "pk_net s' = ?g" "fl_dest (pk_flit s') = fl_dest ?f" "flip (pk_in s') = dor_next_mesh ?g (pk_at s) (fl_dest ?f) False"
    "pk_at s' = knc_hop (gK ?g) (pk_at s) (flip (pk_in s'))" by (simp_all add: s' e)
qed

text \<open>The two-order functions when the class has an even number of VCs.\<close>

definition even_vcs :: "globals \<Rightarrow> int \<Rightarrow> bool" where
  "even_vcs g cl \<longleftrightarrow> two_vcs g cl \<and> even (vcs_of_class g cl)"

definition upper_half :: "globals \<Rightarrow> int \<Rightarrow> int \<Rightarrow> bool" where
  "upper_half g cl v \<longleftrightarrow> vat (gBeginVCs g) cl + vcs_of_class g cl div 2 \<le> v"

lemma xyyx_hop:
  assumes "mesh_good even_vcs s" "hops xy_yx_mesh s s'"
  defines "desc \<equiv> upper_half (pk_net s) (fl_cl (pk_flit s)) (fl_vc (pk_flit s'))"
  shows "pk_at s \<noteq> fl_dest (pk_flit s)" "pk_net s' = pk_net s" "fl_dest (pk_flit s') = fl_dest (pk_flit s)"
    "fl_cl (pk_flit s') = fl_cl (pk_flit s)"
    "flip (pk_in s') = dor_next_mesh (pk_net s) (pk_at s) (fl_dest (pk_flit s)) desc"
    "pk_at s' = knc_hop (gK (pk_net s)) (pk_at s) (flip (pk_in s'))"
    "pk_in s < 2 * gN (pk_net s) \<Longrightarrow> desc \<longleftrightarrow> upper_half (pk_net s) (fl_cl (pk_flit s)) (fl_vc (pk_flit s))"
proof -
  let ?g = "pk_net s" and ?f = "pk_flit s"
  let ?b = "vat (gBeginVCs ?g) (fl_cl ?f)" and ?e = "vat (gEndVCs ?g) (fl_cl ?f)"
  have ok: "flit_ok ?g ?f" and ev: "even (?e - ?b + 1)" "2 \<le> ?e - ?b + 1"
    using assms(1) by (auto simp: mesh_good_def even_vcs_def two_vcs_def vcs_of_class_def)
  from ev(1) obtain h where "?e - ?b + 1 = 2 * h" by (rule evenE)
  with ev(2) have h: "?e = ?b + 2 * h - 1" "1 \<le> h" by auto
  have av: "(?e - ?b + 1) sdiv 2 = h" "vcs_of_class ?g (fl_cl ?f) div 2 = h" using h by (simp_all add: vcs_of_class_def)
  from assms(2) obtain r os f out rn e v where
    s': "s' = \<lparr>pk_net = ?g, pk_at = knc_hop (gK ?g) (pk_at s) (output_port e), pk_in = flip (output_port e),
        pk_flit = f\<lparr>fl_vc := v\<rparr>, pk_rng = rn\<rparr>"
    and r: "rv_id r = pk_at s" "xy_yx_mesh ?g r ?f (pk_in s) False os (pk_rng s) = Inr (f, out, rn)" "e \<in> set out"
      "output_port e \<noteq> 2 * gN ?g" "vc_start e \<le> v" "v \<le> vc_end e"
    by (cases rule: hops.cases) auto
  show ne: "pk_at s \<noteq> fl_dest ?f" using r by (auto simp: xy_yx_mesh_def vc_range_ok [OF ok] offer_eq)
  obtain xy rn1 where xy: "x_then_y ?g ?f (pk_in s) (?b + h) (pk_rng s) = (xy, rn1)" by fastforce
  have "xy_yx_mesh ?g r ?f (pk_in s) False os (pk_rng s) =
      (if xy then Inr (?f, offer (dor_next_mesh ?g (pk_at s) (fl_dest ?f) False) ?b (?e - h) os, rn1)
       else Inr (?f, offer (dor_next_mesh ?g (pk_at s) (fl_dest ?f) True) (?b + h) ?e os, rn1))"
    using ne h(2) by (simp add: xy_yx_mesh_def vc_range_ok [OF ok] Let_def av(1) r(1) xy)
  with r have "f = ?f" "out = (if xy then offer (dor_next_mesh ?g (pk_at s) (fl_dest ?f) False) ?b (?e - h) os
       else offer (dor_next_mesh ?g (pk_at s) (fl_dest ?f) True) (?b + h) ?e os)" by (auto split: if_splits)
  moreover have "?e - h = ?b + h - 1" using h by simp
  ultimately have "f = ?f" "if xy then output_port e = dor_next_mesh ?g (pk_at s) (fl_dest ?f) False \<and> v < ?b + h
      else output_port e = dor_next_mesh ?g (pk_at s) (fl_dest ?f) True \<and> ?b + h \<le> v"
    using r(3,5,6) by (auto simp: offer_eq split: if_splits)
  moreover have "pk_in s < 2 * gN ?g \<longrightarrow> xy = (fl_vc ?f < ?b + h)" using xy by (auto simp: x_then_y_def)
  ultimately have "f = ?f \<and> (\<exists>xy. (if xy then output_port e = dor_next_mesh ?g (pk_at s) (fl_dest ?f) False \<and> v < ?b + h
      else output_port e = dor_next_mesh ?g (pk_at s) (fl_dest ?f) True \<and> ?b + h \<le> v) \<and>
      (pk_in s < 2 * gN ?g \<longrightarrow> xy = (fl_vc ?f < ?b + h)))" by blast
  then have "f = ?f \<and> output_port e = dor_next_mesh ?g (pk_at s) (fl_dest ?f) (?b + h \<le> v) \<and>
      (pk_in s < 2 * gN ?g \<longrightarrow> (?b + h \<le> v) = (?b + h \<le> fl_vc ?f))"
    by (auto split: if_splits)
  then show "pk_net s' = ?g" "fl_dest (pk_flit s') = fl_dest ?f" "fl_cl (pk_flit s') = fl_cl ?f"
    "flip (pk_in s') = dor_next_mesh ?g (pk_at s) (fl_dest ?f) desc" "pk_at s' = knc_hop (gK ?g) (pk_at s) (flip (pk_in s'))"
    "pk_in s < 2 * gN ?g \<Longrightarrow> desc \<longleftrightarrow> upper_half ?g (fl_cl ?f) (fl_vc ?f)"
    unfolding desc_def by (auto simp: s' upper_half_def av)
qed

lemma good_even: "mesh_good even_vcs s \<Longrightarrow> mesh_good two_vcs s"
  by (simp add: mesh_good_def even_vcs_def)

lemma dom_dep:
  assumes "(c1, c2) \<in> chan_deps dim_order_mesh any_vcs g cl"
  shows "dor_rank g False (fst c1) (fst (snd c1)) < dor_rank g False (fst c2) (fst (snd c2))"
proof -
  from assms obtain s s' s'' where S: "mesh_good any_vcs s" "pk_net s = g" "hops dim_order_mesh s s'" "hops dim_order_mesh s' s''"
    "c1 = chan_of s s'" "c2 = chan_of s' s''" by (auto simp: chan_deps_def)
  have "mesh_good any_vcs s'" using dom.hop_minimal [OF S(1,3)] by blast
  note A = dom_hop [OF S(1,3)] and B = dom_hop [OF this S(4)]
  have G: "mesh_ok g" "on_mesh g (pk_at s)" "on_mesh g (fl_dest (pk_flit s))" using S(1,2) by (auto simp: mesh_good_def)
  show ?thesis using dor_rank_increases [OF G A(1), of False] A B S(2) by (simp add: S(5,6) chan_of_def)
qed

lemma xyyx_dep:
  assumes "(c1, c2) \<in> chan_deps xy_yx_mesh even_vcs g cl"
  shows "dor_rank g (upper_half g cl (snd (snd c1))) (fst c1) (fst (snd c1)) < dor_rank g (upper_half g cl (snd (snd c2))) (fst c2) (fst (snd c2))"
proof -
  from assms obtain s s' s'' where S: "mesh_good even_vcs s" "pk_net s = g" "hops xy_yx_mesh s s'" "hops xy_yx_mesh s' s''"
    "c1 = chan_of s s'" "c2 = chan_of s' s''" "fl_cl (pk_flit s) = cl" by (auto simp: chan_deps_def)
  note A = xyyx_hop [OF S(1,3)]
  have "mesh_good even_vcs s'"
    using xyyx.hop_minimal [OF good_even [OF S(1)] S(3)] S(1) A(2,4) by (simp add: mesh_good_def)
  note B = xyyx_hop [OF this S(4)]
  have G: "mesh_ok g" "on_mesh g (pk_at s)" "on_mesh g (fl_dest (pk_flit s))" using S(1,2) by (auto simp: mesh_good_def)
  let ?d = "upper_half g cl (fl_vc (pk_flit s'))"
  have "flip (pk_in s') < 2 * gN g"
    using dor_minimal [OF G A(1), of ?d] A(5) S(2,7) toward_port(2) by fastforce
  then have "pk_in s' < 2 * gN g" by (simp add: flip_def split: if_splits) presburger
  then have "upper_half g cl (fl_vc (pk_flit s'')) = ?d" using B(7) A(2,4) S(2,7) by simp
  then show ?thesis using dor_rank_increases [OF G A(1), of ?d] A B S(2,7) by (simp add: S(5,6) chan_of_def)
qed

section \<open>Adaptive routing\<close>

text \<open>
  All ranges that \<open>adapt_step\<close> adds have one priority, so the set keeps the one of the first dimension that differs.
\<close>

lemma adapt_loop:
  fixes a b pri :: int and m :: nat
  assumes "0 < k" "0 \<le> cur" "0 \<le> dest" "os_sorted os0"
  defines "st \<equiv> fold (adapt_step k a b pri) (range0 (int m)) (os0, cur, dest)"
  shows "snd st = (cur div k ^ m, dest div k ^ m) \<and> os_sorted (fst st) \<and> set os0 \<subseteq> set (fst st) \<and>
    (\<forall>e \<in> set (fst st). e \<in> set os0 \<or> (\<exists>d < m. digit k d cur \<noteq> digit k d dest \<and> (\<forall>i < d. digit k i cur = digit k i dest) \<and>
       output_port e = toward k d cur dest \<and> vc_start e = a \<and> vc_end e = b)) \<and>
    ((\<exists>d < m. digit k d cur \<noteq> digit k d dest) \<longrightarrow> pri \<in> se_pri ` set (fst st))"
  unfolding st_def
proof (induction m)
  case 0
  then show ?case using assms(4) by (simp add: range0_def)
next
  case (Suc m)
  let ?s = "fold (adapt_step k a b pri) (range0 (int m)) (os0, cur, dest)"
  have r: "range0 (int (Suc m)) = range0 (int m) @ [int m]" by (simp add: range0_def upto_rec2)
  obtain os where os: "?s = (os, cur div k ^ m, dest div k ^ m)" using Suc by (cases ?s) auto
  note IH = Suc.IH [unfolded os, simplified]
  have nn: "0 \<le> cur div k ^ m" "0 \<le> dest div k ^ m" using assms(1-3) by (simp_all add: pos_imp_zdiv_nonneg_iff)
  have dg: "(cur div k ^ m) smod k = digit k m cur" "(dest div k ^ m) smod k = digit k m dest"
    "(cur div k ^ m) sdiv k = cur div k ^ Suc m" "(dest div k ^ m) sdiv k = dest div k ^ Suc m"
    using nn assms(1) by (simp_all add: digit_def power_Suc2 zdiv_zmult2_eq del: power_Suc)
  show ?case
  proof (cases "digit k m cur = digit k m dest")
    case True
    then have "fold (adapt_step k a b pri) (range0 (int (Suc m))) (os0, cur, dest) = (os, cur div k ^ Suc m, dest div k ^ Suc m)"
      unfolding r by (simp add: os adapt_step_def dg del: power_Suc)
    then show ?thesis using IH True by (auto simp: less_Suc_eq simp del: power_Suc)
  next
    case False
    have st: "fold (adapt_step k a b pri) (range0 (int (Suc m))) (os0, cur, dest) =
        (OS_AddRange (toward k m cur dest) a b pri os, cur div k ^ Suc m, dest div k ^ Suc m)"
      using False unfolding r by (simp add: os adapt_step_def dg toward_def del: power_Suc)
    have S: "set (OS_AddRange (toward k m cur dest) a b pri os) = (if pri \<in> se_pri ` set os then set os
       else insert \<lparr>vc_start = a, vc_end = b, se_pri = pri, output_port = toward k m cur dest\<rparr> (set os))"
      using set_se_insert [of os] IH by (simp add: OS_AddRange_def)
    have "\<forall>i < m. digit k i cur = digit k i dest" if "pri \<notin> se_pri ` set os" using that IH by blast
    then show ?thesis unfolding st using IH False S by (auto simp: less_Suc_eq simp del: power_Suc split: if_splits)
  qed
qed

lemma dor_port_unique:
  assumes "mesh_ok g" "on_mesh g cur" "on_mesh g dest" "d < nat (gN g)" "digit (gK g) d cur \<noteq> digit (gK g) d dest"
    "\<forall>i < d. digit (gK g) i cur = digit (gK g) i dest"
  shows "toward (gK g) d cur dest = dor_next_mesh g cur dest False"
proof -
  have "cur \<noteq> dest" using assms(5) by auto
  from dor_ascending [OF assms(1-3) this] obtain e where
    e: "dor_next_mesh g cur dest False = toward (gK g) e cur dest" "digit (gK g) e cur \<noteq> digit (gK g) e dest"
      "\<forall>i < e. digit (gK g) i cur = digit (gK g) i dest" by blast
  with assms(5,6) have "e = d" by (metis linorder_neqE_nat)
  with e(1) show ?thesis by simp
qed

lemma adapt_ports:
  assumes "mesh_ok g" "on_mesh g cur" "on_mesh g dest" "os_sorted os0" "\<forall>e \<in> set os0. output_port e = dor_next_mesh g cur dest False"
  shows "\<forall>e \<in> set (fst (fold (adapt_step (gK g) a b pri) (range0 (gN g)) (os0, cur, dest))). output_port e = dor_next_mesh g cur dest False"
proof -
  have G: "0 < gK g" "0 \<le> cur" "0 \<le> dest" "int (nat (gN g)) = gN g" using assms(1-3) by (auto simp: mesh_ok_def on_mesh_def)
  show ?thesis
    using adapt_loop [OF G(1-3) assms(4), of a b pri "nat (gN g)"] assms(5) dor_port_unique [OF assms(1-3)]
    unfolding G(4) by metis
qed

section \<open>Properties\<close>

text \<open>
  C9: On a mesh, every packet that \<^verbatim>\<open>dim_order_mesh\<close> routes reaches its destination after exactly as many hops as the
  Manhattan distance, over whichever VCs it is given: such a run exists, no run is longer, a packet is never stuck before
  and is offered the ejection port, and only that, when it arrives.
\<close>

theorem dim_order_mesh_delivers:
  assumes "mesh_good any_vcs s"
  shows "(\<exists>s'. (hops dim_order_mesh ^^ pk_dist s) s s') \<and>
    (\<forall>n s'. (hops dim_order_mesh ^^ n) s s' \<longrightarrow> n \<le> pk_dist s \<and>
       (if n = pk_dist s then ejects dim_order_mesh s' else \<exists>s''. hops dim_order_mesh s' s''))"
  by (rule dom.delivers [OF assms])

definition mesh44 :: globals where
  "mesh44 = \<lparr>gK = 4, gN = 2, gNodes = 16, gBeginVCs = [0], gEndVCs = [3]\<rparr>"

definition packet44 :: packet where
  "packet44 = \<lparr>pk_net = mesh44, pk_at = 1, pk_in = 4, pk_flit = flit0\<lparr>fl_cl := 0, fl_vc := 0, fl_src := 1, fl_dest := 14\<rparr>, pk_rng = new_rng\<rparr>"

lemma good44: "mesh_good any_vcs packet44" "mesh_good two_vcs packet44" "mesh_good even_vcs packet44"
  by (simp_all add: mesh_good_def packet44_def mesh44_def mesh_ok_def on_mesh_def flit_ok_def flit0_def any_vcs_def
      even_vcs_def two_vcs_def vcs_of_class_def vat_def)

lemma dist44: "pk_dist packet44 = 4"
proof -
  have "{..<2::nat} = {0, 1}" by auto
  then show ?thesis by (simp add: pk_dist_def packet44_def mesh44_def mesh_dist_def digit_def flit0_def)
qed

theorem dim_order_mesh_delivers_witness:
  "(\<exists>s'. (hops dim_order_mesh ^^ 4) packet44 s')"
  using dim_order_mesh_delivers [OF good44(1)] by (simp add: dist44)

text \<open>
  C10: The channel dependency graph of \<^verbatim>\<open>dim_order_mesh\<close> has no cycle, on a mesh of any radix and dimension: packets that wait
  for each other's virtual channels cannot wait in a circle.
\<close>

theorem dim_order_mesh_deadlock_free: "acyclic (chan_deps dim_order_mesh any_vcs g cl)"
  by (rule acyclic_by_rank [where rank = "\<lambda>(a, p, v). dor_rank g False a p"]) (use dom_dep in fastforce)

text \<open>
  C11: The channel dependency graph of \<^verbatim>\<open>xy_yx_mesh\<close> has no cycle when the class has an even number of VCs: the
  two halves carry the two dimension orders and no packet changes halves.
\<close>

theorem xy_yx_mesh_deadlock_free: "acyclic (chan_deps xy_yx_mesh even_vcs g cl)"
  by (rule acyclic_by_rank [where rank = "\<lambda>(a, p, v). dor_rank g (upper_half g cl v) a p"]) (use xyyx_dep in fastforce)

text \<open>
  C30: \<^verbatim>\<open>min_adapt_mesh\<close> and \<^verbatim>\<open>chaos_mesh\<close> are not adaptive: away from the destination every output they offer leads
  to the port of dimension-order routing, because the output set keeps one range for each priority.
\<close>

theorem adaptive_mesh_offers_dor_only:
  assumes "mesh_ok g" "on_mesh g (rv_id r)" "on_mesh g (fl_dest f)" "rv_id r \<noteq> fl_dest f"
    and "min_adapt_mesh g r f inp False os rn = Inr (f', out, rn') \<or> chaos_mesh g r f inp False os rn = Inr (f', out, rn')"
  shows "\<forall>e \<in> set out. output_port e = dor_next_mesh g (rv_id r) (fl_dest f) False"
  using assms(5)
proof (elim disjE)
  assume "chaos_mesh g r f inp False os rn = Inr (f', out, rn')"
  then have "out = fst (fold (adapt_step (gK g) 0 0 0) (range0 (gN g)) ([], rv_id r, fl_dest f))"
    using assms(4) by (auto simp: chaos_mesh_def Let_def)
  then show ?thesis using adapt_ports [OF assms(1-3) os_sorted_Nil, of 0 0 0] by simp
next
  assume "min_adapt_mesh g r f inp False os rn = Inr (f', out, rn')"
  then obtain b e where "out = [\<lparr>vc_start = 0, vc_end = b, se_pri = b, output_port = dor_next_mesh g (rv_id r) (fl_dest f) False\<rparr>] \<or>
      out = fst (fold (adapt_step (gK g) (b + 1) e 1) (range0 (gN g))
        ([\<lparr>vc_start = 0, vc_end = b, se_pri = b, output_port = dor_next_mesh g (rv_id r) (fl_dest f) False\<rparr>], rv_id r, fl_dest f))"
    using assms(4) by (auto simp: min_adapt_mesh_def bnd_Inr_iff Let_def split: if_splits)
  then show ?thesis
    using adapt_ports [OF assms(1-3), of "[\<lparr>vc_start = 0, vc_end = b, se_pri = b, output_port = dor_next_mesh g (rv_id r) (fl_dest f) False\<rparr>]"]
    by (auto simp: os_sorted_def)
qed

definition view44 :: rview where
  "view44 = \<lparr>rv_id = 1, rv_used_credit = (\<lambda>_. 0), rv_faults = []\<rparr>"

theorem adaptive_mesh_offers_dor_only_witness:
  "list_all (\<lambda>e. output_port e = dor_next_mesh mesh44 1 14 False)
     (fst (fold (adapt_step 4 0 0 0) (range0 2) ([], 1, 14)))"
proof -
  have c: "min_adapt_mesh mesh44 view44 (flit0\<lparr>fl_dest := 14\<rparr>) 0 False [] new_rng = Inr x \<or>
      chaos_mesh mesh44 view44 (flit0\<lparr>fl_dest := 14\<rparr>) 0 False [] new_rng = Inr x"
    if "x = (flit0\<lparr>fl_dest := 14\<rparr>, fst (fold (adapt_step 4 0 0 0) (range0 2) ([], 1, 14)), new_rng)" for x
    using that by (simp add: chaos_mesh_def view44_def mesh44_def Let_def)
  show ?thesis
    using adaptive_mesh_offers_dor_only [OF _ _ _ _ c [OF refl]]
    by (simp add: mesh44_def view44_def mesh_ok_def on_mesh_def list_all_iff)
qed

text \<open>
  C31: With an odd number of VCs in the class the two orders of \<^verbatim>\<open>xy_yx_mesh\<close> share the middle VC: a packet routed in XY order
  may be given it, and the next router then routes it in YX order.
\<close>

theorem xy_yx_mesh_odd_mixes:
  assumes "flit_ok g f" "rv_id r \<noteq> fl_dest f" "rv_id r' \<noteq> fl_dest f" "inp < 2 * gN g" "inp' < 2 * gN g"
    and "vcs_of_class g (fl_cl f) = 2 * h + 1" "0 < h" "fl_vc f < vat (gBeginVCs g) (fl_cl f) + h"
  shows "\<exists>e e'. xy_yx_mesh g r f inp False os rn = Inr (f, [e], rn) \<and>
    output_port e = dor_next_mesh g (rv_id r) (fl_dest f) False \<and>
    vc_start e \<le> vat (gBeginVCs g) (fl_cl f) + h \<and> vat (gBeginVCs g) (fl_cl f) + h \<le> vc_end e \<and>
    xy_yx_mesh g r' (f\<lparr>fl_vc := vat (gBeginVCs g) (fl_cl f) + h\<rparr>) inp' False os rn =
      Inr (f\<lparr>fl_vc := vat (gBeginVCs g) (fl_cl f) + h\<rparr>, [e'], rn) \<and>
    output_port e' = dor_next_mesh g (rv_id r') (fl_dest f) True"
proof -
  let ?b = "vat (gBeginVCs g) (fl_cl f)" and ?f = "f\<lparr>fl_vc := vat (gBeginVCs g) (fl_cl f) + h\<rparr>"
  have e: "vat (gEndVCs g) (fl_cl f) = ?b + 2 * h" using assms(6) by (simp add: vcs_of_class_def)
  have ok: "flit_ok g ?f" using assms(1,7) by (simp add: flit_ok_def e)
  show ?thesis
    using assms by (simp add: xy_yx_mesh_def vc_range_ok [OF assms(1)] vc_range_ok [OF ok] x_then_y_def offer_eq Let_def e)
qed

definition mesh_odd :: globals where
  "mesh_odd = \<lparr>gK = 4, gN = 2, gNodes = 16, gBeginVCs = [0], gEndVCs = [2]\<rparr>"

theorem xy_yx_mesh_odd_mixes_witness:
  "\<exists>e e'. xy_yx_mesh mesh_odd view44 (flit0\<lparr>fl_cl := 0, fl_vc := 0, fl_dest := 14\<rparr>) 0 False [] new_rng =
      Inr (flit0\<lparr>fl_cl := 0, fl_vc := 0, fl_dest := 14\<rparr>, [e], new_rng) \<and> vc_start e \<le> 1 \<and> 1 \<le> vc_end e \<and>
    xy_yx_mesh mesh_odd view44 (flit0\<lparr>fl_cl := 0, fl_vc := 1, fl_dest := 14\<rparr>) 0 False [] new_rng =
      Inr (flit0\<lparr>fl_cl := 0, fl_vc := 1, fl_dest := 14\<rparr>, [e'], new_rng) \<and> output_port e' = dor_next_mesh mesh_odd 1 14 True"
  using xy_yx_mesh_odd_mixes [of mesh_odd "flit0\<lparr>fl_cl := 0, fl_vc := 0, fl_dest := 14\<rparr>" view44 view44 0 0 1 "[]" new_rng]
  by (auto simp: mesh_odd_def view44_def flit_ok_def flit0_def vcs_of_class_def vat_def)

end
