(* ===== verification/Buffer_State.thy ===== *)
theory Buffer_State
  imports Flits Digits
begin

text \<open>
  The upstream view of a downstream buffer: \<^verbatim>\<open>BufferState\<close> and its buffer policies (\<^verbatim>\<open>buffer_state.cpp\<close>). A
  policy reads the occupancies and the owners of the VCs from the \<^verbatim>\<open>BufferState\<close> that holds it: \<open>core\<close> is
  that part of the state, \<open>policy\<close> the object behind \<^verbatim>\<open>_buffer_policy\<close>. Subclasses extend the record of their superclass. The
  time \<^verbatim>\<open>GetSimTime()\<close> is an argument. The \<^verbatim>\<open>TRACK_BUFFERS\<close> code is not compiled and not modelled.
\<close>

section \<open>State\<close>

text \<open>The owner of a VC is a \<^verbatim>\<open>long\<close> tag stored in a \<^verbatim>\<open>vector<int>\<close>.\<close>

record core =
  bs_wait_for_tail_credit :: bool
  bs_size :: int
  bs_occupancy :: int
  bs_vc_occupancy :: "int list"
  bs_vcs :: int
  bs_in_use_by :: "int list"
  bs_tail_sent :: "bool list"
  bs_last_id :: "int list"
  bs_last_pid :: "int list"

record shared_policy =
  sp_buf_size :: int
  sp_vc_map :: "int list"
  sp_private_size :: "int list"
  sp_private_occ :: "int list"
  sp_shared_size :: int
  sp_shared_occ :: int
  sp_reserved :: "int list"

record limited_policy = shared_policy +
  lp_vcs :: int
  lp_active_vcs :: int
  lp_max_held_slots :: int

record feedback_policy = shared_policy +
  fp_vcs :: int
  fp_occupancy_limit :: "int list"
  fp_round_trip_time :: "int list"
  fp_flit_sent_time :: "int list list"
  fp_min_latency :: int
  fp_total_mapped_size :: int
  fp_aging_scale :: int
  fp_offset :: int

record simple_feedback_policy = feedback_policy +
  sf_pending_credits :: "int list"

datatype policy =
    PrivatePolicy int
  | SharedPolicy shared_policy
  | LimitedPolicy limited_policy
  | DynamicPolicy limited_policy
  | ShiftingPolicy limited_policy
  | FeedbackPolicy feedback_policy
  | SimpleFeedbackPolicy simple_feedback_policy
  | NullPolicy

text \<open>The configuration values the constructors read; arrays come with the integer of the same name.\<close>

record buf_config =
  cfg_num_vcs :: int
  cfg_buf_size :: int
  cfg_vc_buf_size :: int
  cfg_private_bufs :: int
  cfg_private_buf_size :: "int list \<times> int"
  cfg_private_buf_start_vc :: "int list \<times> int"
  cfg_private_buf_end_vc :: "int list \<times> int"
  cfg_max_held_slots :: int
  cfg_feedback_aging_scale :: int
  cfg_feedback_offset :: int
  cfg_wait_for_tail_credit :: bool
  cfg_buffer_policy :: string

section \<open>Queries of the buffer state\<close>

definition OccupancyFor :: "'a core_scheme \<Rightarrow> int \<Rightarrow> int res" where
  "OccupancyFor c vc = bnd (assert_that (vc \<ge> 0 \<and> vc < bs_vcs c) ''vc'') (\<lambda>_. Inr (vat (bs_vc_occupancy c) vc))"

definition IsEmptyFor :: "'a core_scheme \<Rightarrow> int \<Rightarrow> bool res" where
  "IsEmptyFor c vc = bnd (assert_that (vc \<ge> 0 \<and> vc < bs_vcs c) ''vc'') (\<lambda>_. Inr (vat (bs_vc_occupancy c) vc = 0))"

definition IsAvailableFor :: "'a core_scheme \<Rightarrow> int \<Rightarrow> bool res" where
  "IsAvailableFor c vc = bnd (assert_that (vc \<ge> 0 \<and> vc < bs_vcs c) ''vc'') (\<lambda>_. Inr (vat (bs_in_use_by c) vc < 0))"

definition UsedBy :: "'a core_scheme \<Rightarrow> int \<Rightarrow> int res" where
  "UsedBy c vc = bnd (assert_that (vc \<ge> 0 \<and> vc < bs_vcs c) ''vc'') (\<lambda>_. Inr (vat (bs_in_use_by c) vc))"

definition Occupancy :: "'a core_scheme \<Rightarrow> int" where
  "Occupancy c = bs_occupancy c"

definition IsFull :: "'a core_scheme \<Rightarrow> bool res" where
  "IsFull c = bnd (assert_that (bs_occupancy c \<le> bs_size c) ''_occupancy <= _size'') (\<lambda>_. Inr (bs_occupancy c = bs_size c))"

section \<open>Private buffers\<close>

definition new_PrivatePolicy :: "buf_config \<Rightarrow> int res" where
  "new_PrivatePolicy cfg =
     (let vcs = cfg_num_vcs cfg; buf_size = cfg_buf_size cfg in
      bnd (if buf_size \<le> 0 then Inr (cfg_vc_buf_size cfg) else if vcs = 0 then Inl DivByZero else Inr (buf_size sdiv vcs))
        (\<lambda>vc_buf_size. bnd (assert_that (vc_buf_size > 0) ''_vc_buf_size > 0'') (\<lambda>_. Inr vc_buf_size)))"

definition Private_SendingFlit :: "core \<Rightarrow> flit \<Rightarrow> int \<Rightarrow> int res" where
  "Private_SendingFlit c f p =
     bnd (OccupancyFor c (fl_vc f)) (\<lambda>occ.
     if occ > p then Inl (ErrorMsg ''Buffer overflow for VC'') else Inr p)"

definition Private_IsFullFor :: "core \<Rightarrow> int \<Rightarrow> int \<Rightarrow> bool res" where
  "Private_IsFullFor c p vc = bnd (OccupancyFor c vc) (\<lambda>occ. Inr (occ \<ge> p))"

definition Private_AvailableFor :: "core \<Rightarrow> int \<Rightarrow> int \<Rightarrow> int res" where
  "Private_AvailableFor c p vc = bnd (OccupancyFor c vc) (\<lambda>occ. Inr (p - occ))"

section \<open>Shared buffers\<close>

text \<open>A vector from the array or, when that is empty, from the integer; \<^verbatim>\<open>dflt\<close> when the integer is negative.\<close>

definition array_or :: "int list \<times> int \<Rightarrow> int list \<Rightarrow> int list" where
  "array_or a dflt = (if fst a = [] then if snd a < 0 then dflt else [snd a] else fst a)"

definition map_vcs :: "int list \<Rightarrow> int list \<Rightarrow> int \<Rightarrow> int list \<Rightarrow> int list res" where
  "map_vcs start_vc end_vc i vc_map =
     bnd (vget start_vc i) (\<lambda>s.
     bnd (vget end_vc i) (\<lambda>e.
     bnd (assert_that (s \<le> e) ''start_vc[i] <= end_vc[i]'') (\<lambda>_.
     for_each (\<lambda>v m. bnd (vget m v) (\<lambda>x. bnd (assert_that (x < 0) ''_private_buf_vc_map[v] < 0'') (\<lambda>_. vset m v i)))
       [s..e] vc_map)))"

definition new_SharedPolicy :: "buf_config \<Rightarrow> shared_policy res" where
  "new_SharedPolicy cfg =
     (let vcs = cfg_num_vcs cfg;
          num = (if cfg_private_bufs cfg < 0 then vcs else if cfg_private_bufs cfg = 0 then 1 else cfg_private_bufs cfg);
          buf_size = (if cfg_buf_size cfg < 0 then vcs * cfg_vc_buf_size cfg else cfg_buf_size cfg);
          sizes = array_or (cfg_private_buf_size cfg) [buf_size sdiv num];
          sizes = take (nat num) sizes @ replicate (nat num - length sizes) (last sizes);
          start_vc = array_or (cfg_private_buf_start_vc cfg) (map (\<lambda>i. (i * vcs) sdiv num) (range0 num));
          end_vc = array_or (cfg_private_buf_end_vc cfg) (map (\<lambda>i. ((i + 1) * vcs) sdiv num - 1) (range0 num))
      in bnd (for_each (\<lambda>i (shared, m). bnd (map_vcs start_vc end_vc i m) (\<lambda>m. Inr (shared - vat sizes i, m)))
                (range0 num) (buf_size, replicate (nat vcs) (- 1))) (\<lambda>(shared, m).
         bnd (assert_that (shared \<ge> 0) ''_shared_buf_size >= 0'') (\<lambda>_.
         Inr \<lparr>sp_buf_size = buf_size, sp_vc_map = m, sp_private_size = sizes, sp_private_occ = replicate (nat num) 0,
              sp_shared_size = shared, sp_shared_occ = 0, sp_reserved = replicate (nat vcs) 0\<rparr>)))"

definition ProcessFreeSlot :: "int \<Rightarrow> 'a shared_policy_scheme \<Rightarrow> 'a shared_policy_scheme res" where
  "ProcessFreeSlot vc p =
     (let i = vat (sp_vc_map p) vc in
      bnd (vget (sp_private_occ p) i) (\<lambda>occ.
      let occ = occ - 1; p = p\<lparr>sp_private_occ := vupd (sp_private_occ p) i occ\<rparr> in
      if occ < 0 then Inl (ErrorMsg ''Private buffer occupancy fell below zero for buffer'')
      else if occ \<ge> vat (sp_private_size p) i then
        (let p = p\<lparr>sp_shared_occ := sp_shared_occ p - 1\<rparr> in
         if sp_shared_occ p < 0 then Inl (ErrorMsg ''Shared buffer occupancy fell below zero.'') else Inr p)
      else Inr p))"

text \<open>
  \<^verbatim>\<open>while (_reserved_slots[vc])\<close>: the counter is never negative, so the loop runs once for each reserved
  slot.
\<close>

definition release_reserved :: "int \<Rightarrow> 'a shared_policy_scheme \<Rightarrow> 'a shared_policy_scheme res" where
  "release_reserved vc p =
     for_each (\<lambda>_ p. ProcessFreeSlot vc (p\<lparr>sp_reserved := vupd (sp_reserved p) vc (vat (sp_reserved p) vc - 1)\<rparr>))
       (range0 (vat (sp_reserved p) vc)) p"

text \<open>The branch of \<^verbatim>\<open>SendingFlit\<close> that takes a slot of the private or of the shared buffer.\<close>

definition occupy_slot :: "int \<Rightarrow> 'a shared_policy_scheme \<Rightarrow> 'a shared_policy_scheme res" where
  "occupy_slot vc p =
     (let i = vat (sp_vc_map p) vc in
      bnd (vget (sp_private_occ p) i) (\<lambda>occ.
      let occ = occ + 1; p = p\<lparr>sp_private_occ := vupd (sp_private_occ p) i occ\<rparr> in
      if occ > vat (sp_private_size p) i then
        (let p = p\<lparr>sp_shared_occ := sp_shared_occ p + 1\<rparr> in
         if sp_shared_occ p > sp_shared_size p then Inl (ErrorMsg ''Shared buffer overflow.'') else Inr p)
      else Inr p))"

definition Shared_SendingFlit :: "flit \<Rightarrow> 'a shared_policy_scheme \<Rightarrow> 'a shared_policy_scheme res" where
  "Shared_SendingFlit f p =
     (let vc = fl_vc f in
      bnd (if vat (sp_reserved p) vc > 0 then
             Inr (p\<lparr>sp_reserved := vupd (sp_reserved p) vc (vat (sp_reserved p) vc - 1)\<rparr>)
           else occupy_slot vc p) (\<lambda>p.
      if fl_tail f then release_reserved vc p else Inr p))"

definition Shared_FreeSlotFor :: "core \<Rightarrow> int \<Rightarrow> 'a shared_policy_scheme \<Rightarrow> 'a shared_policy_scheme res" where
  "Shared_FreeSlotFor c vc p =
     bnd (IsAvailableFor c vc) (\<lambda>available.
     bnd (if available then Inr False else IsEmptyFor c vc) (\<lambda>reserve.
     if reserve then Inr (p\<lparr>sp_reserved := vupd (sp_reserved p) vc (vat (sp_reserved p) vc + 1)\<rparr>)
     else ProcessFreeSlot vc p))"

definition Shared_IsFullFor :: "'a shared_policy_scheme \<Rightarrow> int \<Rightarrow> bool res" where
  "Shared_IsFullFor p vc =
     bnd (vget (sp_vc_map p) vc) (\<lambda>i.
     bnd (vget (sp_private_occ p) i) (\<lambda>occ.
     Inr (vat (sp_reserved p) vc = 0 \<and> occ \<ge> vat (sp_private_size p) i \<and> sp_shared_occ p \<ge> sp_shared_size p)))"

definition Shared_AvailableFor :: "'a shared_policy_scheme \<Rightarrow> int \<Rightarrow> int res" where
  "Shared_AvailableFor p vc =
     bnd (vget (sp_vc_map p) vc) (\<lambda>i.
     bnd (vget (sp_private_occ p) i) (\<lambda>occ.
     Inr (vat (sp_reserved p) vc + max (vat (sp_private_size p) i - occ) 0 + (sp_shared_size p - sp_shared_occ p))))"

definition Shared_LimitFor :: "'a shared_policy_scheme \<Rightarrow> int \<Rightarrow> int res" where
  "Shared_LimitFor p vc =
     bnd (vget (sp_vc_map p) vc) (\<lambda>i.
     bnd (vget (sp_private_size p) i) (\<lambda>psize. Inr (psize + sp_shared_size p)))"

section \<open>Limited shared buffers\<close>

definition new_LimitedPolicy :: "buf_config \<Rightarrow> limited_policy res" where
  "new_LimitedPolicy cfg =
     bnd (new_SharedPolicy cfg) (\<lambda>p.
     Inr (shared_policy.extend p
       \<lparr>lp_vcs = cfg_num_vcs cfg, lp_active_vcs = 0,
        lp_max_held_slots = (if cfg_max_held_slots cfg < 0 then sp_buf_size p else cfg_max_held_slots cfg)\<rparr>))"

definition Limited_TakeBuffer :: "limited_policy \<Rightarrow> limited_policy res" where
  "Limited_TakeBuffer p =
     (let p = p\<lparr>lp_active_vcs := lp_active_vcs p + 1\<rparr> in
      if lp_active_vcs p > lp_vcs p then Inl (ErrorMsg ''Number of active VCs is too large.'') else Inr p)"

definition Limited_SendingFlit :: "flit \<Rightarrow> limited_policy \<Rightarrow> limited_policy res" where
  "Limited_SendingFlit f p =
     bnd (Shared_SendingFlit f p) (\<lambda>p.
     if fl_tail f then
       (let p = p\<lparr>lp_active_vcs := lp_active_vcs p - 1\<rparr> in
        if lp_active_vcs p < 0 then Inl (ErrorMsg ''Number of active VCs fell below zero.'') else Inr p)
     else Inr p)"

definition Limited_IsFullFor :: "core \<Rightarrow> limited_policy \<Rightarrow> int \<Rightarrow> bool res" where
  "Limited_IsFullFor c p vc =
     bnd (Shared_IsFullFor p vc) (\<lambda>full.
     if full then Inr True else bnd (OccupancyFor c vc) (\<lambda>occ. Inr (occ \<ge> lp_max_held_slots p)))"

definition Limited_AvailableFor :: "core \<Rightarrow> limited_policy \<Rightarrow> int \<Rightarrow> int res" where
  "Limited_AvailableFor c p vc =
     bnd (Shared_AvailableFor p vc) (\<lambda>a.
     bnd (OccupancyFor c vc) (\<lambda>occ. Inr (min a (lp_max_held_slots p - occ))))"

definition Limited_LimitFor :: "limited_policy \<Rightarrow> int \<Rightarrow> int res" where
  "Limited_LimitFor p vc = bnd (Shared_LimitFor p vc) (\<lambda>l. Inr (min l (lp_max_held_slots p)))"

text \<open>The limit shared out among the active VCs.\<close>

definition new_DynamicPolicy :: "buf_config \<Rightarrow> limited_policy res" where
  "new_DynamicPolicy cfg = bnd (new_LimitedPolicy cfg) (\<lambda>p. Inr (p\<lparr>lp_max_held_slots := sp_buf_size p\<rparr>))"

definition Dynamic_TakeBuffer :: "limited_policy \<Rightarrow> limited_policy res" where
  "Dynamic_TakeBuffer p =
     bnd (Limited_TakeBuffer p) (\<lambda>p.
     bnd (assert_that (lp_active_vcs p > 0) ''_active_vcs > 0'') (\<lambda>_.
     let p = p\<lparr>lp_max_held_slots := sp_buf_size p sdiv lp_active_vcs p\<rparr> in
     bnd (assert_that (lp_max_held_slots p > 0) ''_max_held_slots > 0'') (\<lambda>_. Inr p)))"

definition Dynamic_SendingFlit :: "flit \<Rightarrow> limited_policy \<Rightarrow> limited_policy res" where
  "Dynamic_SendingFlit f p =
     bnd (Limited_SendingFlit f p) (\<lambda>p.
     let p = (if fl_tail f \<and> lp_active_vcs p \<noteq> 0 then p\<lparr>lp_max_held_slots := sp_buf_size p sdiv lp_active_vcs p\<rparr> else p) in
     bnd (assert_that (lp_max_held_slots p > 0) ''_max_held_slots > 0'') (\<lambda>_. Inr p))"

text \<open>
  \<^verbatim>\<open>while (i) { slots >>= 1; i >>= 1; }\<close>. It is entered with \<^verbatim>\<open>_active_vcs - 1\<close>, which is never
  negative.
\<close>

function shift_slots :: "int \<Rightarrow> int \<Rightarrow> int" where
  "shift_slots slots i = (if i \<le> 0 then slots else shift_slots (drop_bit 1 slots) (drop_bit 1 i))"
  by pat_completeness auto

termination
  by (relation "measure (nat \<circ> snd)") (auto simp: drop_bit_eq_div)

declare shift_slots.simps [simp del]

definition Shifting_TakeBuffer :: "limited_policy \<Rightarrow> limited_policy res" where
  "Shifting_TakeBuffer p =
     bnd (Limited_TakeBuffer p) (\<lambda>p.
     bnd (assert_that (lp_active_vcs p \<noteq> 0) ''_active_vcs'') (\<lambda>_.
     let p = p\<lparr>lp_max_held_slots := shift_slots (sp_buf_size p) (lp_active_vcs p - 1)\<rparr> in
     bnd (assert_that (lp_max_held_slots p > 0) ''_max_held_slots > 0'') (\<lambda>_. Inr p)))"

definition Shifting_SendingFlit :: "flit \<Rightarrow> limited_policy \<Rightarrow> limited_policy res" where
  "Shifting_SendingFlit f p =
     bnd (Limited_SendingFlit f p) (\<lambda>p.
     let p = (if fl_tail f \<and> lp_active_vcs p \<noteq> 0
              then p\<lparr>lp_max_held_slots := shift_slots (sp_buf_size p) (lp_active_vcs p - 1)\<rparr> else p) in
     bnd (assert_that (lp_max_held_slots p > 0) ''_max_held_slots > 0'') (\<lambda>_. Inr p))"

section \<open>Feedback\<close>

definition new_FeedbackPolicy :: "buf_config \<Rightarrow> feedback_policy res" where
  "new_FeedbackPolicy cfg =
     bnd (new_SharedPolicy cfg) (\<lambda>p.
     let vcs = cfg_num_vcs cfg in
     Inr (shared_policy.extend p
       \<lparr>fp_vcs = vcs, fp_occupancy_limit = replicate (nat vcs) (sp_buf_size p), fp_round_trip_time = replicate (nat vcs) (- 1),
        fp_flit_sent_time = replicate (nat vcs) [], fp_min_latency = - 1, fp_total_mapped_size = sp_buf_size p * vcs,
        fp_aging_scale = cfg_feedback_aging_scale cfg, fp_offset = cfg_feedback_offset cfg\<rparr>))"

definition Feedback_SetMinLatency :: "int \<Rightarrow> 'a feedback_policy_scheme \<Rightarrow> 'a feedback_policy_scheme" where
  "Feedback_SetMinLatency min_latency p = p\<lparr>fp_min_latency := min_latency\<rparr>"

definition Feedback_SendingFlit :: "int \<Rightarrow> flit \<Rightarrow> 'a feedback_policy_scheme \<Rightarrow> 'a feedback_policy_scheme res" where
  "Feedback_SendingFlit now f p =
     bnd (Shared_SendingFlit f p) (\<lambda>p.
     Inr (p\<lparr>fp_flit_sent_time := vupd (fp_flit_sent_time p) (fl_vc f) (vat (fp_flit_sent_time p) (fl_vc f) @ [int32 now])\<rparr>))"

definition ComputeRTT :: "'a feedback_policy_scheme \<Rightarrow> int \<Rightarrow> int \<Rightarrow> int" where
  "ComputeRTT p vc last_rtt =
     (let rtt = vat (fp_round_trip_time p) vc in
      if rtt < 0 then last_rtt
      else drop_bit (nat (fp_aging_scale p)) (push_bit (nat (fp_aging_scale p)) rtt + last_rtt - rtt))"

definition ComputeLimit :: "'a feedback_policy_scheme \<Rightarrow> int \<Rightarrow> int res" where
  "ComputeLimit p rtt =
     bnd (assert_that (fp_min_latency p \<ge> 0) ''_min_latency >= 0'') (\<lambda>_.
     Inr (max (push_bit 1 (fp_min_latency p) - rtt + fp_offset p) 1))"

definition ComputeMaxSlots :: "int \<Rightarrow> 'a feedback_policy_scheme \<Rightarrow> int \<Rightarrow> int res" where
  "ComputeMaxSlots now p vc =
     (let max_slots = vat (fp_occupancy_limit p) vc in
      if vat (fp_flit_sent_time p) vc \<noteq> [] then
        (let min_rtt = int32 (now - hd (vat (fp_flit_sent_time p) vc)); rtt = ComputeRTT p vc min_rtt in
         bnd (ComputeLimit p rtt) (\<lambda>limit. Inr (min max_slots limit)))
      else Inr max_slots)"

definition Feedback_FreeSlotFor :: "int \<Rightarrow> core \<Rightarrow> int \<Rightarrow> 'a feedback_policy_scheme \<Rightarrow> 'a feedback_policy_scheme res" where
  "Feedback_FreeSlotFor now c vc p =
     bnd (Shared_FreeSlotFor c vc p) (\<lambda>p.
     bnd (assert_that (vat (fp_flit_sent_time p) vc \<noteq> []) ''!_flit_sent_time[vc].empty()'') (\<lambda>_.
     let last_rtt = int32 (now - hd (vat (fp_flit_sent_time p) vc));
         p = p\<lparr>fp_flit_sent_time := vupd (fp_flit_sent_time p) vc (tl (vat (fp_flit_sent_time p) vc))\<rparr>;
         rtt = ComputeRTT p vc last_rtt;
         p = p\<lparr>fp_round_trip_time := vupd (fp_round_trip_time p) vc rtt\<rparr> in
     bnd (ComputeLimit p rtt) (\<lambda>limit.
     Inr (p\<lparr>fp_total_mapped_size := fp_total_mapped_size p + (limit - vat (fp_occupancy_limit p) vc),
            fp_occupancy_limit := vupd (fp_occupancy_limit p) vc limit\<rparr>))))"

definition Feedback_IsFullFor :: "int \<Rightarrow> core \<Rightarrow> 'a feedback_policy_scheme \<Rightarrow> int \<Rightarrow> bool res" where
  "Feedback_IsFullFor now c p vc =
     bnd (Shared_IsFullFor p vc) (\<lambda>full.
     if full then Inr True
     else bnd (OccupancyFor c vc) (\<lambda>occ. bnd (ComputeMaxSlots now p vc) (\<lambda>m. Inr (occ \<ge> m))))"

definition Feedback_AvailableFor :: "int \<Rightarrow> core \<Rightarrow> 'a feedback_policy_scheme \<Rightarrow> int \<Rightarrow> int res" where
  "Feedback_AvailableFor now c p vc =
     bnd (Shared_AvailableFor p vc) (\<lambda>a.
     bnd (ComputeMaxSlots now p vc) (\<lambda>m.
     bnd (OccupancyFor c vc) (\<lambda>occ. Inr (min a (m - occ)))))"

definition Feedback_LimitFor :: "int \<Rightarrow> 'a feedback_policy_scheme \<Rightarrow> int \<Rightarrow> int res" where
  "Feedback_LimitFor now p vc =
     bnd (Shared_LimitFor p vc) (\<lambda>l. bnd (ComputeMaxSlots now p vc) (\<lambda>m. Inr (min l m)))"

text \<open>One probe flit per VC at a time; the credits of the flits ahead of it are counted off.\<close>

definition new_SimpleFeedbackPolicy :: "buf_config \<Rightarrow> simple_feedback_policy res" where
  "new_SimpleFeedbackPolicy cfg =
     bnd (new_FeedbackPolicy cfg) (\<lambda>p.
     Inr (feedback_policy.extend p \<lparr>sf_pending_credits = replicate (nat (fp_vcs p)) 0\<rparr>))"

definition SimpleFeedback_SendingFlit :: "int \<Rightarrow> core \<Rightarrow> flit \<Rightarrow> simple_feedback_policy \<Rightarrow> simple_feedback_policy res" where
  "SimpleFeedback_SendingFlit now c f p =
     (let vc = fl_vc f in
      if vat (fp_flit_sent_time p) vc = [] then
        bnd (OccupancyFor c vc) (\<lambda>occ.
        bnd (assert_that (occ > 0) ''_buffer_state->OccupancyFor(vc) > 0'') (\<lambda>_.
        Feedback_SendingFlit now f (p\<lparr>sf_pending_credits := vupd (sf_pending_credits p) vc (occ - 1)\<rparr>)))
      else Shared_SendingFlit f p)"

definition SimpleFeedback_FreeSlotFor :: "int \<Rightarrow> core \<Rightarrow> int \<Rightarrow> simple_feedback_policy \<Rightarrow> simple_feedback_policy res" where
  "SimpleFeedback_FreeSlotFor now c vc p =
     (if vat (fp_flit_sent_time p) vc \<noteq> [] \<and> vat (sf_pending_credits p) vc = 0 then Feedback_FreeSlotFor now c vc p
      else
        bnd (if vat (sf_pending_credits p) vc > 0 then
               bnd (assert_that (vat (fp_flit_sent_time p) vc \<noteq> []) ''!_flit_sent_time[vc].empty()'') (\<lambda>_.
               Inr (p\<lparr>sf_pending_credits := vupd (sf_pending_credits p) vc (vat (sf_pending_credits p) vc - 1)\<rparr>))
             else Inr p) (Shared_FreeSlotFor c vc))"

section \<open>Virtual calls\<close>

text \<open>\<^verbatim>\<open>New\<close> returns a null pointer for an unknown name.\<close>

definition BufferPolicy_New :: "buf_config \<Rightarrow> policy res" where
  "BufferPolicy_New cfg =
     (let n = cfg_buffer_policy cfg in
      if n = ''private'' then bnd (new_PrivatePolicy cfg) (Inr \<circ> PrivatePolicy)
      else if n = ''shared'' then bnd (new_SharedPolicy cfg) (Inr \<circ> SharedPolicy)
      else if n = ''limited'' then bnd (new_LimitedPolicy cfg) (Inr \<circ> LimitedPolicy)
      else if n = ''dynamic'' then bnd (new_DynamicPolicy cfg) (Inr \<circ> DynamicPolicy)
      else if n = ''shifting'' then bnd (new_DynamicPolicy cfg) (Inr \<circ> ShiftingPolicy)
      else if n = ''feedback'' then bnd (new_FeedbackPolicy cfg) (Inr \<circ> FeedbackPolicy)
      else if n = ''simplefeedback'' then bnd (new_SimpleFeedbackPolicy cfg) (Inr \<circ> SimpleFeedbackPolicy)
      else Inr NullPolicy)"

fun policy_TakeBuffer :: "policy \<Rightarrow> policy res" where
  "policy_TakeBuffer (PrivatePolicy p) = Inr (PrivatePolicy p)"
| "policy_TakeBuffer (SharedPolicy p) = Inr (SharedPolicy p)"
| "policy_TakeBuffer (LimitedPolicy p) = bnd (Limited_TakeBuffer p) (Inr \<circ> LimitedPolicy)"
| "policy_TakeBuffer (DynamicPolicy p) = bnd (Dynamic_TakeBuffer p) (Inr \<circ> DynamicPolicy)"
| "policy_TakeBuffer (ShiftingPolicy p) = bnd (Shifting_TakeBuffer p) (Inr \<circ> ShiftingPolicy)"
| "policy_TakeBuffer (FeedbackPolicy p) = Inr (FeedbackPolicy p)"
| "policy_TakeBuffer (SimpleFeedbackPolicy p) = Inr (SimpleFeedbackPolicy p)"
| "policy_TakeBuffer NullPolicy = Inl NullPointer"

fun policy_SendingFlit :: "int \<Rightarrow> core \<Rightarrow> flit \<Rightarrow> policy \<Rightarrow> policy res" where
  "policy_SendingFlit now c f (PrivatePolicy p) = bnd (Private_SendingFlit c f p) (Inr \<circ> PrivatePolicy)"
| "policy_SendingFlit now c f (SharedPolicy p) = bnd (Shared_SendingFlit f p) (Inr \<circ> SharedPolicy)"
| "policy_SendingFlit now c f (LimitedPolicy p) = bnd (Limited_SendingFlit f p) (Inr \<circ> LimitedPolicy)"
| "policy_SendingFlit now c f (DynamicPolicy p) = bnd (Dynamic_SendingFlit f p) (Inr \<circ> DynamicPolicy)"
| "policy_SendingFlit now c f (ShiftingPolicy p) = bnd (Shifting_SendingFlit f p) (Inr \<circ> ShiftingPolicy)"
| "policy_SendingFlit now c f (FeedbackPolicy p) = bnd (Feedback_SendingFlit now f p) (Inr \<circ> FeedbackPolicy)"
| "policy_SendingFlit now c f (SimpleFeedbackPolicy p) =
     bnd (SimpleFeedback_SendingFlit now c f p) (Inr \<circ> SimpleFeedbackPolicy)"
| "policy_SendingFlit now c f NullPolicy = Inl NullPointer"

fun policy_FreeSlotFor :: "int \<Rightarrow> core \<Rightarrow> int \<Rightarrow> policy \<Rightarrow> policy res" where
  "policy_FreeSlotFor now c vc (PrivatePolicy p) = Inr (PrivatePolicy p)"
| "policy_FreeSlotFor now c vc (SharedPolicy p) = bnd (Shared_FreeSlotFor c vc p) (Inr \<circ> SharedPolicy)"
| "policy_FreeSlotFor now c vc (LimitedPolicy p) = bnd (Shared_FreeSlotFor c vc p) (Inr \<circ> LimitedPolicy)"
| "policy_FreeSlotFor now c vc (DynamicPolicy p) = bnd (Shared_FreeSlotFor c vc p) (Inr \<circ> DynamicPolicy)"
| "policy_FreeSlotFor now c vc (ShiftingPolicy p) = bnd (Shared_FreeSlotFor c vc p) (Inr \<circ> ShiftingPolicy)"
| "policy_FreeSlotFor now c vc (FeedbackPolicy p) = bnd (Feedback_FreeSlotFor now c vc p) (Inr \<circ> FeedbackPolicy)"
| "policy_FreeSlotFor now c vc (SimpleFeedbackPolicy p) =
     bnd (SimpleFeedback_FreeSlotFor now c vc p) (Inr \<circ> SimpleFeedbackPolicy)"
| "policy_FreeSlotFor now c vc NullPolicy = Inl NullPointer"

fun policy_IsFullFor :: "int \<Rightarrow> core \<Rightarrow> policy \<Rightarrow> int \<Rightarrow> bool res" where
  "policy_IsFullFor now c (PrivatePolicy p) vc = Private_IsFullFor c p vc"
| "policy_IsFullFor now c (SharedPolicy p) vc = Shared_IsFullFor p vc"
| "policy_IsFullFor now c (LimitedPolicy p) vc = Limited_IsFullFor c p vc"
| "policy_IsFullFor now c (DynamicPolicy p) vc = Limited_IsFullFor c p vc"
| "policy_IsFullFor now c (ShiftingPolicy p) vc = Limited_IsFullFor c p vc"
| "policy_IsFullFor now c (FeedbackPolicy p) vc = Feedback_IsFullFor now c p vc"
| "policy_IsFullFor now c (SimpleFeedbackPolicy p) vc = Feedback_IsFullFor now c p vc"
| "policy_IsFullFor now c NullPolicy vc = Inl NullPointer"

fun policy_AvailableFor :: "int \<Rightarrow> core \<Rightarrow> policy \<Rightarrow> int \<Rightarrow> int res" where
  "policy_AvailableFor now c (PrivatePolicy p) vc = Private_AvailableFor c p vc"
| "policy_AvailableFor now c (SharedPolicy p) vc = Shared_AvailableFor p vc"
| "policy_AvailableFor now c (LimitedPolicy p) vc = Limited_AvailableFor c p vc"
| "policy_AvailableFor now c (DynamicPolicy p) vc = Limited_AvailableFor c p vc"
| "policy_AvailableFor now c (ShiftingPolicy p) vc = Limited_AvailableFor c p vc"
| "policy_AvailableFor now c (FeedbackPolicy p) vc = Feedback_AvailableFor now c p vc"
| "policy_AvailableFor now c (SimpleFeedbackPolicy p) vc = Feedback_AvailableFor now c p vc"
| "policy_AvailableFor now c NullPolicy vc = Inl NullPointer"

fun policy_LimitFor :: "int \<Rightarrow> policy \<Rightarrow> int \<Rightarrow> int res" where
  "policy_LimitFor now (PrivatePolicy p) vc = Inr p"
| "policy_LimitFor now (SharedPolicy p) vc = Shared_LimitFor p vc"
| "policy_LimitFor now (LimitedPolicy p) vc = Limited_LimitFor p vc"
| "policy_LimitFor now (DynamicPolicy p) vc = Limited_LimitFor p vc"
| "policy_LimitFor now (ShiftingPolicy p) vc = Limited_LimitFor p vc"
| "policy_LimitFor now (FeedbackPolicy p) vc = Feedback_LimitFor now p vc"
| "policy_LimitFor now (SimpleFeedbackPolicy p) vc = Feedback_LimitFor now p vc"
| "policy_LimitFor now NullPolicy vc = Inl NullPointer"

fun policy_SetMinLatency :: "int \<Rightarrow> policy \<Rightarrow> policy res" where
  "policy_SetMinLatency l (FeedbackPolicy p) = Inr (FeedbackPolicy (Feedback_SetMinLatency l p))"
| "policy_SetMinLatency l (SimpleFeedbackPolicy p) = Inr (SimpleFeedbackPolicy (Feedback_SetMinLatency l p))"
| "policy_SetMinLatency l NullPolicy = Inl NullPointer"
| "policy_SetMinLatency l p = Inr p"

section \<open>The buffer state\<close>

text \<open>
  The operations of \<^verbatim>\<open>BufferState\<close>. Each is split where the code
  calls the policy: \<open>core_take\<close>, \<open>core_sending\<close>, \<open>core_sent\<close> and \<open>core_credit\<close> are the updates of
  the fields before and after that call. The assertion on \<^verbatim>\<open>_in_use_by\<close> in \<^verbatim>\<open>ProcessCredit\<close> repeats the check for an
  idle VC just above it.
\<close>

record buffer_state =
  bs_core :: core
  bs_policy :: policy

definition new_BufferState :: "buf_config \<Rightarrow> buffer_state res" where
  "new_BufferState cfg =
     (let vcs = cfg_num_vcs cfg;
          sz = (if cfg_buf_size cfg < 0 then vcs * cfg_vc_buf_size cfg else cfg_buf_size cfg)
      in bnd (BufferPolicy_New cfg) (\<lambda>p.
         Inr \<lparr>bs_core = \<lparr>bs_wait_for_tail_credit = cfg_wait_for_tail_credit cfg, bs_size = sz, bs_occupancy = 0,
                           bs_vc_occupancy = replicate (nat vcs) 0, bs_vcs = vcs, bs_in_use_by = replicate (nat vcs) (- 1),
                           bs_tail_sent = replicate (nat vcs) False, bs_last_id = replicate (nat vcs) (- 1),
                           bs_last_pid = replicate (nat vcs) (- 1)\<rparr>,
              bs_policy = p\<rparr>))"

definition core_take :: "int \<Rightarrow> int \<Rightarrow> core \<Rightarrow> core" where
  "core_take vc tag c = c\<lparr>bs_in_use_by := vupd (bs_in_use_by c) vc tag, bs_tail_sent := vupd (bs_tail_sent c) vc False\<rparr>"

definition TakeBuffer :: "int \<Rightarrow> int \<Rightarrow> buffer_state \<Rightarrow> buffer_state res" where
  "TakeBuffer vc tag b =
     (let c = bs_core b in
      bnd (assert_that (vc \<ge> 0 \<and> vc < bs_vcs c) ''vc'') (\<lambda>_.
      if vat (bs_in_use_by c) vc \<ge> 0 then Inl (ErrorMsg ''Buffer taken while in use for VC'')
      else bnd (policy_TakeBuffer (bs_policy b)) (\<lambda>p. Inr (b\<lparr>bs_core := core_take vc (int32 tag) c, bs_policy := p\<rparr>))))"

definition core_sending :: "int \<Rightarrow> core \<Rightarrow> core" where
  "core_sending vc c = c\<lparr>bs_occupancy := bs_occupancy c + 1,
     bs_vc_occupancy := vupd (bs_vc_occupancy c) vc (vat (bs_vc_occupancy c) vc + 1)\<rparr>"

definition core_sent :: "flit \<Rightarrow> core \<Rightarrow> core" where
  "core_sent f c =
     (let vc = fl_vc f;
          c = (if fl_tail f then c\<lparr>bs_tail_sent := vupd (bs_tail_sent c) vc True\<rparr> else c);
          c = (if fl_tail f \<and> \<not> bs_wait_for_tail_credit c then c\<lparr>bs_in_use_by := vupd (bs_in_use_by c) vc (- 1)\<rparr> else c)
      in c\<lparr>bs_last_id := vupd (bs_last_id c) vc (int32 (fl_id f)), bs_last_pid := vupd (bs_last_pid c) vc (int32 (fl_pid f))\<rparr>)"

definition SendingFlit :: "int \<Rightarrow> flit \<Rightarrow> buffer_state \<Rightarrow> buffer_state res" where
  "SendingFlit now f b =
     (let vc = fl_vc f; c = bs_core b in
      bnd (assert_that (vc \<ge> 0 \<and> vc < bs_vcs c) ''f && vc'') (\<lambda>_.
      if bs_occupancy c + 1 > bs_size c then Inl (ErrorMsg ''Buffer overflow.'')
      else
        let c = core_sending vc c in
        bnd (policy_SendingFlit now c f (bs_policy b)) (\<lambda>p. Inr (b\<lparr>bs_core := core_sent f c, bs_policy := p\<rparr>))))"

definition core_credit :: "int \<Rightarrow> core \<Rightarrow> core" where
  "core_credit vc c =
     (let occ = vat (bs_vc_occupancy c) vc - 1;
          c = c\<lparr>bs_occupancy := bs_occupancy c - 1, bs_vc_occupancy := vupd (bs_vc_occupancy c) vc occ\<rparr>
      in if bs_wait_for_tail_credit c \<and> occ = 0 \<and> vat (bs_tail_sent c) vc
         then c\<lparr>bs_in_use_by := vupd (bs_in_use_by c) vc (- 1)\<rparr> else c)"

definition credit_for :: "int \<Rightarrow> int \<Rightarrow> buffer_state \<Rightarrow> buffer_state res" where
  "credit_for now vc b =
     (let c = bs_core b in
      bnd (assert_that (vc \<ge> 0 \<and> vc < bs_vcs c) ''vc'') (\<lambda>_.
      if bs_wait_for_tail_credit c \<and> vat (bs_in_use_by c) vc < 0 then Inl (ErrorMsg ''Received credit for idle VC'')
      else if bs_occupancy c - 1 < 0 then Inl (ErrorMsg ''Buffer occupancy fell below zero.'')
      else if vat (bs_vc_occupancy c) vc - 1 < 0 then Inl (ErrorMsg ''Buffer occupancy fell below zero for VC'')
      else
        let c = core_credit vc c in
        bnd (policy_FreeSlotFor now c vc (bs_policy b)) (\<lambda>p. Inr (b\<lparr>bs_core := c, bs_policy := p\<rparr>))))"

definition ProcessCredit :: "int \<Rightarrow> credit \<Rightarrow> buffer_state \<Rightarrow> buffer_state res" where
  "ProcessCredit now c b = for_each (credit_for now) (cr_vc c) b"

definition IsFullFor :: "int \<Rightarrow> buffer_state \<Rightarrow> int \<Rightarrow> bool res" where
  "IsFullFor now b vc = policy_IsFullFor now (bs_core b) (bs_policy b) vc"

definition AvailableFor :: "int \<Rightarrow> buffer_state \<Rightarrow> int \<Rightarrow> int res" where
  "AvailableFor now b vc = policy_AvailableFor now (bs_core b) (bs_policy b) vc"

definition LimitFor :: "int \<Rightarrow> buffer_state \<Rightarrow> int \<Rightarrow> int res" where
  "LimitFor now b vc = policy_LimitFor now (bs_policy b) vc"

definition SetMinLatency :: "int \<Rightarrow> buffer_state \<Rightarrow> buffer_state res" where
  "SetMinLatency l b = bnd (policy_SetMinLatency l (bs_policy b)) (\<lambda>p. Inr (b\<lparr>bs_policy := p\<rparr>))"

end
