(* ===== verification/Buffer_Laws.thy ===== *)
theory Buffer_Laws
  imports Buffer_State
begin

text \<open>
  Under the credit protocol no operation of \<^verbatim>\<open>BufferState\<close> reports an error, whatever the buffer policy. The
  protocol: a VC is taken only when it is available, a flit is sent only on a VC that is taken, whose tail was
  not sent and which is not full, and credits return only for flits in the buffer. The locale
  \<open>buffer_policy\<close> is the contract of a policy; each policy class is shown to meet it.
\<close>

section \<open>Vectors that count\<close>

lemma sum_vupd:
  assumes "finite A" "i \<in> A" "A \<subseteq> {0..<vlen xs}"
  shows "(\<Sum>v\<in>A. vat (vupd xs i x) v) = (\<Sum>v\<in>A. vat xs v) + (x - vat xs i :: int)"
proof -
  have r: "0 \<le> v \<and> v < vlen xs" if "v \<in> A" for v using assms(3) that by auto
  have "(\<Sum>v\<in>A - {i}. vat (vupd xs i x) v) = (\<Sum>v\<in>A - {i}. vat xs v)"
    using r assms(2) by (intro sum.cong) (auto simp: vat_vupd_neq)
  moreover have "vat (vupd xs i x) i = x" using r [OF assms(2)] by simp
  ultimately show ?thesis using assms(1,2) by (simp add: sum.remove)
qed

lemma sum_fun_upd:
  assumes "finite A" "i \<in> A"
  shows "(\<Sum>v\<in>A. (h(i := x)) v) = (\<Sum>v\<in>A. h v) + (x - h i :: int)"
  using assms by (simp add: sum.remove)

section \<open>The fields of the buffer state\<close>

definition vc_ok :: "bool \<Rightarrow> int \<Rightarrow> int \<Rightarrow> bool \<Rightarrow> bool" where
  "vc_ok wait occ owner tail \<longleftrightarrow> 0 \<le> occ \<and> (if wait then 0 < occ \<longrightarrow> 0 \<le> owner else 0 \<le> owner \<longrightarrow> \<not> tail)"

definition core_ok :: "core \<Rightarrow> bool" where
  "core_ok c \<longleftrightarrow>
     0 \<le> bs_vcs c \<and> vlen (bs_vc_occupancy c) = bs_vcs c \<and> vlen (bs_in_use_by c) = bs_vcs c \<and>
     vlen (bs_tail_sent c) = bs_vcs c \<and> vlen (bs_last_id c) = bs_vcs c \<and> vlen (bs_last_pid c) = bs_vcs c \<and>
     bs_occupancy c = (\<Sum>v\<in>{0..<bs_vcs c}. vat (bs_vc_occupancy c) v) \<and>
     (\<forall>v\<in>{0..<bs_vcs c}. vc_ok (bs_wait_for_tail_credit c) (vat (bs_vc_occupancy c) v) (vat (bs_in_use_by c) v) (vat (bs_tail_sent c) v))"

definition opened :: "core \<Rightarrow> int \<Rightarrow> bool" where
  "opened c v \<longleftrightarrow> v \<in> {0..<bs_vcs c} \<and> 0 \<le> vat (bs_in_use_by c) v \<and> \<not> vat (bs_tail_sent c) v"

lemmas core_defs = core_take_def core_sending_def core_sent_def core_credit_def Let_def

lemma core_fields [simp]:
  "bs_vcs (core_take v t c) = bs_vcs c" "bs_vcs (core_sending v c) = bs_vcs c"
  "bs_vcs (core_sent f c) = bs_vcs c" "bs_vcs (core_credit v c) = bs_vcs c"
  "bs_size (core_take v t c) = bs_size c" "bs_size (core_sending v c) = bs_size c"
  "bs_size (core_sent f c) = bs_size c" "bs_size (core_credit v c) = bs_size c"
  by (simp_all add: core_defs)

lemma core_okD:
  assumes "core_ok c"
  shows "0 \<le> bs_vcs c" "vlen (bs_vc_occupancy c) = bs_vcs c" "vlen (bs_in_use_by c) = bs_vcs c"
    "vlen (bs_tail_sent c) = bs_vcs c" "vlen (bs_last_id c) = bs_vcs c" "vlen (bs_last_pid c) = bs_vcs c"
    "bs_occupancy c = (\<Sum>v\<in>{0..<bs_vcs c}. vat (bs_vc_occupancy c) v)"
    "v \<in> {0..<bs_vcs c} \<Longrightarrow> vc_ok (bs_wait_for_tail_credit c) (vat (bs_vc_occupancy c) v) (vat (bs_in_use_by c) v) (vat (bs_tail_sent c) v)"
  using assms unfolding core_ok_def by blast+

lemma occ_nonneg: "core_ok c \<Longrightarrow> v \<in> {0..<bs_vcs c} \<Longrightarrow> 0 \<le> vat (bs_vc_occupancy c) v"
  using core_okD(8) vc_ok_def by blast

text \<open>What the operations do to the fields of each VC.\<close>

lemma core_take_vc:
  assumes "core_ok c" "v \<in> {0..<bs_vcs c}" "w \<in> {0..<bs_vcs c}"
  shows "vat (bs_in_use_by (core_take v tag c)) w = (if w = v then tag else vat (bs_in_use_by c) w)"
    "vat (bs_tail_sent (core_take v tag c)) w = (w \<noteq> v \<and> vat (bs_tail_sent c) w)"
    "vat (bs_vc_occupancy (core_take v tag c)) w = vat (bs_vc_occupancy c) w"
  using assms(2,3) core_okD(1-4) [OF assms(1)] by (auto simp: core_take_def)

lemma core_sending_vc:
  assumes "core_ok c" "v \<in> {0..<bs_vcs c}" "w \<in> {0..<bs_vcs c}"
  shows "vat (bs_vc_occupancy (core_sending v c)) w = (if w = v then vat (bs_vc_occupancy c) w + 1 else vat (bs_vc_occupancy c) w)"
  using assms(2,3) core_okD(1-4) [OF assms(1)] by (auto simp: core_sending_def)

lemma core_sent_vc:
  assumes "core_ok c" "fl_vc f \<in> {0..<bs_vcs c}" "w \<in> {0..<bs_vcs c}"
  shows "vat (bs_vc_occupancy (core_sent f (core_sending (fl_vc f) c))) w =
      (if w = fl_vc f then vat (bs_vc_occupancy c) w + 1 else vat (bs_vc_occupancy c) w)"
    "vat (bs_tail_sent (core_sent f (core_sending (fl_vc f) c))) w = (w = fl_vc f \<and> fl_tail f \<or> vat (bs_tail_sent c) w)"
    "vat (bs_in_use_by (core_sent f (core_sending (fl_vc f) c))) w =
      (if w = fl_vc f \<and> fl_tail f \<and> \<not> bs_wait_for_tail_credit c then - 1 else vat (bs_in_use_by c) w)"
  using assms(2,3) core_okD(1-4) [OF assms(1)] by (auto simp: core_sending_def core_sent_def Let_def)

lemma core_credit_vc:
  assumes "core_ok c" "v \<in> {0..<bs_vcs c}" "w \<in> {0..<bs_vcs c}"
  shows "vat (bs_vc_occupancy (core_credit v c)) w = (if w = v then vat (bs_vc_occupancy c) w - 1 else vat (bs_vc_occupancy c) w)"
    "vat (bs_tail_sent (core_credit v c)) w = vat (bs_tail_sent c) w"
    "vat (bs_in_use_by (core_credit v c)) w =
      (if w = v \<and> bs_wait_for_tail_credit c \<and> vat (bs_vc_occupancy c) v = 1 \<and> vat (bs_tail_sent c) v then - 1
       else vat (bs_in_use_by c) w)"
  using assms(2,3) core_okD(1-4) [OF assms(1)] by (auto simp: core_credit_def Let_def)

lemma core_take_ok:
  assumes c: "core_ok c" and v: "v \<in> {0..<bs_vcs c}" and t: "0 \<le> tag"
  shows "core_ok (core_take v tag c)"
proof -
  have "vc_ok (bs_wait_for_tail_credit c) (vat (bs_vc_occupancy (core_take v tag c)) w)
      (vat (bs_in_use_by (core_take v tag c)) w) (vat (bs_tail_sent (core_take v tag c)) w)"
    if w: "w \<in> {0..<bs_vcs c}" for w
    using core_okD(8) [OF c w] t unfolding core_take_vc [OF c v w] vc_ok_def by auto
  then show ?thesis using core_okD(1-7) [OF c] unfolding core_ok_def core_fields
    by (auto simp: core_take_def simp del: atLeastLessThan_iff)
qed

lemma core_sent_ok:
  assumes c: "core_ok c" and o: "opened c (fl_vc f)"
  shows "core_ok (core_sent f (core_sending (fl_vc f) c))" (is "core_ok ?c")
proof -
  from o have v: "fl_vc f \<in> {0..<bs_vcs c}" and u: "0 \<le> vat (bs_in_use_by c) (fl_vc f)" by (auto simp: opened_def)
  have "vc_ok (bs_wait_for_tail_credit c) (vat (bs_vc_occupancy ?c) w) (vat (bs_in_use_by ?c) w) (vat (bs_tail_sent ?c) w)"
    if w: "w \<in> {0..<bs_vcs c}" for w
    using core_okD(8) [OF c w] u unfolding core_sent_vc [OF c v w] vc_ok_def by (auto split: if_splits)
  moreover have "bs_occupancy ?c = (\<Sum>w\<in>{0..<bs_vcs c}. vat (bs_vc_occupancy ?c) w)"
    using core_okD [OF c] v by (simp add: core_defs sum_vupd del: atLeastLessThan_iff)
  moreover have "bs_wait_for_tail_credit ?c = bs_wait_for_tail_credit c" by (simp add: core_defs)
  ultimately show ?thesis using core_okD(1-6) [OF c] unfolding core_ok_def core_fields
    by (auto simp: core_defs simp del: atLeastLessThan_iff)
qed

lemma core_credit_ok:
  assumes c: "core_ok c" and v: "v \<in> {0..<bs_vcs c}" and o: "0 < vat (bs_vc_occupancy c) v"
  shows "core_ok (core_credit v c)" (is "core_ok ?c")
proof -
  have "vc_ok (bs_wait_for_tail_credit c) (vat (bs_vc_occupancy ?c) w) (vat (bs_in_use_by ?c) w) (vat (bs_tail_sent ?c) w)"
    if w: "w \<in> {0..<bs_vcs c}" for w
    using core_okD(8) [OF c w] o unfolding core_credit_vc [OF c v w] vc_ok_def by (auto split: if_splits)
  moreover have "bs_occupancy ?c = (\<Sum>w\<in>{0..<bs_vcs c}. vat (bs_vc_occupancy ?c) w)"
    using core_okD [OF c] v by (simp add: core_defs sum_vupd del: atLeastLessThan_iff)
  moreover have "bs_wait_for_tail_credit ?c = bs_wait_for_tail_credit c" by (simp add: core_defs)
  ultimately show ?thesis using core_okD(1-6) [OF c] unfolding core_ok_def core_fields
    by (auto simp: core_defs simp del: atLeastLessThan_iff)
qed

lemma core_occ_pos:
  assumes "core_ok c" "v \<in> {0..<bs_vcs c}" "0 < vat (bs_vc_occupancy c) v"
  shows "0 < bs_occupancy c"
proof -
  have "vat (bs_vc_occupancy c) v \<le> (\<Sum>v\<in>{0..<bs_vcs c}. vat (bs_vc_occupancy c) v)"
    using assms(2) occ_nonneg [OF assms(1)] by (intro member_le_sum) blast+
  then show ?thesis using assms(3) core_okD(7) [OF assms(1)] by simp
qed

lemma queries_ok:
  assumes "v \<in> {0..<bs_vcs c}"
  shows "OccupancyFor c v = Inr (vat (bs_vc_occupancy c) v)" "IsEmptyFor c v = Inr (vat (bs_vc_occupancy c) v = 0)"
    "IsAvailableFor c v = Inr (vat (bs_in_use_by c) v < 0)"
  using assms by (simp_all add: OccupancyFor_def IsEmptyFor_def IsAvailableFor_def)

section \<open>The contract of a policy\<close>

text \<open>
  \<open>roomy c p v\<close> says that the buffer has a slot for another flit of \<open>v\<close>. A VC that is not full has; a VC can become full
  by the policy's own limit while there is still a slot, as when taking a VC lowers the limit.
\<close>

locale buffer_policy =
  fixes inv :: "core \<Rightarrow> 'p \<Rightarrow> bool"
    and take_buf :: "'p \<Rightarrow> 'p res"
    and send :: "int \<Rightarrow> core \<Rightarrow> flit \<Rightarrow> 'p \<Rightarrow> 'p res"
    and free :: "int \<Rightarrow> core \<Rightarrow> int \<Rightarrow> 'p \<Rightarrow> 'p res"
    and full :: "int \<Rightarrow> core \<Rightarrow> 'p \<Rightarrow> int \<Rightarrow> bool res"
    and avail :: "int \<Rightarrow> core \<Rightarrow> 'p \<Rightarrow> int \<Rightarrow> int res"
    and roomy :: "core \<Rightarrow> 'p \<Rightarrow> int \<Rightarrow> bool"
  assumes take_ok: "\<lbrakk>core_ok c; inv c p; v \<in> {0..<bs_vcs c}; vat (bs_in_use_by c) v < 0; 0 \<le> tag\<rbrakk>
      \<Longrightarrow> \<exists>p'. take_buf p = Inr p' \<and> inv (core_take v tag c) p' \<and> (roomy c p v \<longrightarrow> roomy (core_take v tag c) p' v)"
    and full_avail: "\<lbrakk>core_ok c; inv c p; v \<in> {0..<bs_vcs c}\<rbrakk> \<Longrightarrow> \<exists>a. avail now c p v = Inr a \<and> full now c p v = Inr (a \<le> 0)"
    and full_room: "\<lbrakk>core_ok c; inv c p; v \<in> {0..<bs_vcs c}; full now c p v = Inr False\<rbrakk> \<Longrightarrow> roomy c p v"
    and room: "\<lbrakk>core_ok c; inv c p; v \<in> {0..<bs_vcs c}; roomy c p v\<rbrakk> \<Longrightarrow> bs_occupancy c < bs_size c"
    and send_ok: "\<lbrakk>core_ok c; inv c p; opened c (fl_vc f); roomy c p (fl_vc f)\<rbrakk>
      \<Longrightarrow> \<exists>p'. send now (core_sending (fl_vc f) c) f p = Inr p' \<and> inv (core_sent f (core_sending (fl_vc f) c)) p'"
    and free_ok: "\<lbrakk>core_ok c; inv c p; v \<in> {0..<bs_vcs c}; 0 < vat (bs_vc_occupancy c) v\<rbrakk>
      \<Longrightarrow> \<exists>p'. free now (core_credit v c) v p = Inr p' \<and> inv (core_credit v c) p'"

section \<open>Private buffers\<close>

definition private_inv :: "core \<Rightarrow> int \<Rightarrow> bool" where
  "private_inv c p \<longleftrightarrow> bs_vcs c * p \<le> bs_size c \<and> (\<forall>v\<in>{0..<bs_vcs c}. vat (bs_vc_occupancy c) v \<le> p)"

lemma private_room:
  assumes c: "core_ok c" and p: "private_inv c p" and v: "v \<in> {0..<bs_vcs c}" "vat (bs_vc_occupancy c) v < p"
  shows "bs_occupancy c < bs_size c"
proof -
  have "(\<Sum>v\<in>{0..<bs_vcs c}. vat (bs_vc_occupancy c) v) < (\<Sum>v\<in>{0..<bs_vcs c}. p)"
    using p v by (intro sum_strict_mono_ex1) (auto simp: private_inv_def)
  then show ?thesis using c p by (simp add: core_ok_def private_inv_def)
qed

lemma private_full:
  assumes "core_ok c" "v \<in> {0..<bs_vcs c}"
  shows "Private_IsFullFor c p v = Inr (vat (bs_vc_occupancy c) v \<ge> p)" "Private_AvailableFor c p v = Inr (p - vat (bs_vc_occupancy c) v)"
  using assms by (simp_all add: Private_IsFullFor_def Private_AvailableFor_def queries_ok)

interpretation pri: buffer_policy private_inv Inr "\<lambda>_. Private_SendingFlit" "\<lambda>_ _ _. Inr" "\<lambda>_. Private_IsFullFor" "\<lambda>_. Private_AvailableFor"
  "\<lambda>c p v. vat (bs_vc_occupancy c) v < p"
proof (unfold_locales, goal_cases)
  case (1 c p v tag)
  then show ?case using core_take_vc(3) [OF 1(1,3)] by (simp add: private_inv_def)
next
  case (2 c p v now)
  then show ?case using private_full [OF 2(1,3)] by simp
next
  case (3 c p v now)
  then show ?case using private_full [OF 3(1,3)] by simp
next
  case (4 c p v)
  then show ?case using private_room by blast
next
  case (5 c p f now)
  have v: "fl_vc f \<in> {0..<bs_vcs c}" using 5(3) by (simp add: opened_def)
  show ?case using 5(2,4) v core_sent_vc(1) [OF 5(1) v] core_sending_vc [OF 5(1) v v]
    by (auto simp: private_inv_def Private_SendingFlit_def queries_ok simp del: atLeastLessThan_iff)
next
  case (6 c p v now)
  then show ?case using core_credit_vc(1) [OF 6(1,3)] by (auto simp: private_inv_def simp del: atLeastLessThan_iff)
qed

section \<open>Shared buffers\<close>

text \<open>
  The accounting of slots, for any number \<open>h v\<close> of slots held by VC \<open>v\<close>: the occupancy of a private buffer
  counts the slots held by the VCs mapped to it, and what exceeds its size is in the shared buffer.
\<close>

definition mapped :: "int \<Rightarrow> 'a shared_policy_scheme \<Rightarrow> int \<Rightarrow> int set" where
  "mapped n p i = {v \<in> {0..<n}. vat (sp_vc_map p) v = i}"

definition over :: "int list \<Rightarrow> int list \<Rightarrow> int" where
  "over sizes occ = (\<Sum>i\<in>{0..<vlen occ}. max 0 (vat occ i - vat sizes i))"

definition slots_ok :: "int \<Rightarrow> (int \<Rightarrow> int) \<Rightarrow> 'a shared_policy_scheme \<Rightarrow> bool" where
  "slots_ok n h p \<longleftrightarrow>
     vlen (sp_vc_map p) = n \<and> vlen (sp_reserved p) = n \<and> vlen (sp_private_size p) = vlen (sp_private_occ p) \<and>
     (\<forall>v\<in>{0..<n}. 0 \<le> h v \<and> vat (sp_vc_map p) v \<in> {0..<vlen (sp_private_occ p)}) \<and>
     sp_buf_size p = (\<Sum>i\<in>{0..<vlen (sp_private_occ p)}. vat (sp_private_size p) i) + sp_shared_size p \<and>
     (\<forall>i\<in>{0..<vlen (sp_private_occ p)}. 0 \<le> vat (sp_private_size p) i \<and> vat (sp_private_occ p) i = (\<Sum>v\<in>mapped n p i. h v)) \<and>
     sp_shared_occ p = over (sp_private_size p) (sp_private_occ p) \<and> sp_shared_occ p \<le> sp_shared_size p"

lemma slots_okD:
  assumes "slots_ok n h p"
  shows "vlen (sp_vc_map p) = n" "vlen (sp_reserved p) = n" "vlen (sp_private_size p) = vlen (sp_private_occ p)"
    "v \<in> {0..<n} \<Longrightarrow> 0 \<le> h v" "v \<in> {0..<n} \<Longrightarrow> vat (sp_vc_map p) v \<in> {0..<vlen (sp_private_occ p)}"
    "sp_buf_size p = (\<Sum>i\<in>{0..<vlen (sp_private_occ p)}. vat (sp_private_size p) i) + sp_shared_size p"
    "i \<in> {0..<vlen (sp_private_occ p)} \<Longrightarrow> 0 \<le> vat (sp_private_size p) i"
    "i \<in> {0..<vlen (sp_private_occ p)} \<Longrightarrow> vat (sp_private_occ p) i = (\<Sum>v\<in>mapped n p i. h v)"
    "sp_shared_occ p = over (sp_private_size p) (sp_private_occ p)" "sp_shared_occ p \<le> sp_shared_size p"
  using assms unfolding slots_ok_def by blast+

lemma over_nonneg: "0 \<le> over sizes occ"
  by (simp add: over_def sum_nonneg)

lemma over_vupd:
  assumes "i \<in> {0..<vlen occ}"
  shows "over sizes (vupd occ i x) = over sizes occ + (max 0 (x - vat sizes i) - max 0 (vat occ i - vat sizes i))"
proof -
  have "(\<Sum>j\<in>{0..<vlen occ} - {i}. max 0 (vat (vupd occ i x) j - vat sizes j)) =
      (\<Sum>j\<in>{0..<vlen occ} - {i}. max 0 (vat occ j - vat sizes j))"
    using assms by (intro sum.cong) auto
  then show ?thesis using assms by (simp add: over_def sum.remove [of _ i])
qed

lemma over_ge: "i \<in> {0..<vlen occ} \<Longrightarrow> vat occ i - vat sizes i \<le> over sizes occ"
  unfolding over_def
  by (rule order_trans [of _ "max 0 (vat occ i - vat sizes i)"]) (simp, intro member_le_sum, auto)

lemma mapped_simps [simp]:
  "mapped n (p\<lparr>sp_private_occ := a\<rparr>) i = mapped n p i" "mapped n (p\<lparr>sp_shared_occ := b\<rparr>) i = mapped n p i"
  "mapped n (p\<lparr>sp_reserved := r\<rparr>) i = mapped n p i"
  by (simp_all add: mapped_def)

lemma finite_mapped [simp]: "finite (mapped n p i)"
  by (rule finite_subset [of _ "{0..<n}"]) (auto simp: mapped_def)

text \<open>The slots held never exceed the buffer.\<close>

lemma slots_bound:
  assumes "slots_ok n h p"
  shows "(\<Sum>v\<in>{0..<n}. h v) \<le> sp_buf_size p"
proof -
  note D = slots_okD [OF assms]
  let ?I = "{0..<vlen (sp_private_occ p)}"
  have "(\<Sum>v\<in>{0..<n}. h v) = (\<Sum>i\<in>?I. \<Sum>v\<in>mapped n p i. h v)"
    unfolding mapped_def using D(5) by (intro sum.group [symmetric]) auto
  also have "\<dots> = (\<Sum>i\<in>?I. vat (sp_private_occ p) i)" using D(8) by (intro sum.cong) auto
  also have "\<dots> \<le> (\<Sum>i\<in>?I. vat (sp_private_size p) i + max 0 (vat (sp_private_occ p) i - vat (sp_private_size p) i))"
    by (intro sum_mono) auto
  also have "\<dots> = (\<Sum>i\<in>?I. vat (sp_private_size p) i) + sp_shared_occ p"
    by (simp add: sum.distrib D(9) over_def)
  finally show ?thesis using D(6,10) by simp
qed

lemma private_occ_ge:
  assumes "slots_ok n h p" "v \<in> {0..<n}"
  shows "h v \<le> vat (sp_private_occ p) (vat (sp_vc_map p) v)"
proof -
  note D = slots_okD [OF assms(1)]
  have "h v \<le> (\<Sum>w\<in>mapped n p (vat (sp_vc_map p) v). h w)"
  proof (intro member_le_sum finite_mapped)
    show "v \<in> mapped n p (vat (sp_vc_map p) v)" using assms(2) by (simp add: mapped_def)
  qed (use D(4) in \<open>auto simp: mapped_def\<close>)
  then show ?thesis using D(8) [OF D(5) [OF assms(2)]] by simp
qed

text \<open>Moving one slot in or out of the count of a private buffer.\<close>

lemma slots_move:
  assumes p: "slots_ok n h p" and v: "v \<in> {0..<n}" and i: "i = vat (sp_vc_map p) v" and x: "0 \<le> h v + x"
    and s: "over (sp_private_size p) (vupd (sp_private_occ p) i (vat (sp_private_occ p) i + x)) \<le> sp_shared_size p"
  shows "slots_ok n (h(v := h v + x))
    (p\<lparr>sp_private_occ := vupd (sp_private_occ p) i (vat (sp_private_occ p) i + x),
       sp_shared_occ := over (sp_private_size p) (vupd (sp_private_occ p) i (vat (sp_private_occ p) i + x))\<rparr>)"
proof -
  note D = slots_okD [OF p]
  have iI: "i \<in> {0..<vlen (sp_private_occ p)}" using D(5) [OF v] i by simp
  have sums: "vat (vupd (sp_private_occ p) i (vat (sp_private_occ p) i + x)) j = (\<Sum>w\<in>mapped n p j. (h(v := h v + x)) w)"
    if j: "j \<in> {0..<vlen (sp_private_occ p)}" for j
  proof (cases "j = i")
    case True
    have "v \<in> mapped n p i" using v i by (simp add: mapped_def)
    then show ?thesis using True D(8) [OF iI] iI by (simp add: sum_fun_upd del: fun_upd_apply)
  next
    case False
    then have "v \<notin> mapped n p j" using i by (auto simp: mapped_def)
    then have "(\<Sum>w\<in>mapped n p j. (h(v := h v + x)) w) = (\<Sum>w\<in>mapped n p j. h w)" by (intro sum.cong) auto
    then show ?thesis using False D(8) [OF j] iI j by simp
  qed
  show ?thesis unfolding slots_ok_def using D(1-7) s x sums
    by (simp add: D(6) del: atLeastLessThan_iff fun_upd_apply) (simp del: atLeastLessThan_iff)
qed

lemma ProcessFreeSlot_ok:
  assumes p: "slots_ok n h p" and v: "v \<in> {0..<n}" and h: "0 < h v"
  shows "\<exists>po so. ProcessFreeSlot v p = Inr (p\<lparr>sp_private_occ := po, sp_shared_occ := so\<rparr>) \<and>
    slots_ok n (h(v := h v - 1)) (p\<lparr>sp_private_occ := po, sp_shared_occ := so\<rparr>)"
proof -
  note D = slots_okD [OF p]
  define i where "i = vat (sp_vc_map p) v"
  have iI: "i \<in> {0..<vlen (sp_private_occ p)}" using D(5) [OF v] by (simp add: i_def)
  have pos: "0 < vat (sp_private_occ p) i" using private_occ_ge [OF p v] h by (simp add: i_def)
  let ?po = "vupd (sp_private_occ p) i (vat (sp_private_occ p) i - 1)"
  have ov: "over (sp_private_size p) ?po =
      sp_shared_occ p - (if vat (sp_private_occ p) i > vat (sp_private_size p) i then 1 else 0)"
    using over_vupd [OF iI, of "sp_private_size p" "vat (sp_private_occ p) i - 1"] D(9) by auto
  have "ProcessFreeSlot v p = Inr (p\<lparr>sp_private_occ := ?po, sp_shared_occ := over (sp_private_size p) ?po\<rparr>)"
    using pos iI over_nonneg [of "sp_private_size p" ?po] unfolding ov
    by (auto simp: ProcessFreeSlot_def Let_def i_def [symmetric])
  moreover have "slots_ok n (h(v := h v - 1)) (p\<lparr>sp_private_occ := ?po, sp_shared_occ := over (sp_private_size p) ?po\<rparr>)"
    using slots_move [OF p v i_def, of "- 1"] h ov D(10) by simp
  ultimately show ?thesis by blast
qed

lemma occupy_slot_ok:
  assumes p: "slots_ok n h p" and v: "v \<in> {0..<n}"
    and room: "vat (sp_private_occ p) (vat (sp_vc_map p) v) < vat (sp_private_size p) (vat (sp_vc_map p) v) \<or>
      sp_shared_occ p < sp_shared_size p"
  shows "\<exists>po so. occupy_slot v p = Inr (p\<lparr>sp_private_occ := po, sp_shared_occ := so\<rparr>) \<and>
    slots_ok n (h(v := h v + 1)) (p\<lparr>sp_private_occ := po, sp_shared_occ := so\<rparr>)"
proof -
  note D = slots_okD [OF p]
  define i where "i = vat (sp_vc_map p) v"
  have iI: "i \<in> {0..<vlen (sp_private_occ p)}" using D(5) [OF v] by (simp add: i_def)
  let ?po = "vupd (sp_private_occ p) i (vat (sp_private_occ p) i + 1)"
  have ov: "over (sp_private_size p) ?po =
      sp_shared_occ p + (if vat (sp_private_occ p) i + 1 > vat (sp_private_size p) i then 1 else 0)"
    using over_vupd [OF iI, of "sp_private_size p" "vat (sp_private_occ p) i + 1"] D(9) by auto
  have le: "over (sp_private_size p) ?po \<le> sp_shared_size p"
    using room D(10) unfolding ov i_def [symmetric] by auto
  have "occupy_slot v p = Inr (p\<lparr>sp_private_occ := ?po, sp_shared_occ := over (sp_private_size p) ?po\<rparr>)"
    using iI le unfolding ov by (auto simp: occupy_slot_def Let_def i_def [symmetric])
  moreover have "slots_ok n (h(v := h v + 1)) (p\<lparr>sp_private_occ := ?po, sp_shared_occ := over (sp_private_size p) ?po\<rparr>)"
    using slots_move [OF p v i_def, of 1] D(4) [OF v] le by simp
  ultimately show ?thesis by blast
qed

lemma slots_cong:
  assumes p: "slots_ok n h p" and eq: "\<And>v. v \<in> {0..<n} \<Longrightarrow> h v = h' v"
  shows "slots_ok n h' p"
proof -
  have "(\<Sum>v\<in>mapped n p i. h' v) = (\<Sum>v\<in>mapped n p i. h v)" for i
    by (intro sum.cong) (auto simp: mapped_def eq)
  then show ?thesis using p eq unfolding slots_ok_def by (simp del: atLeastLessThan_iff)
qed

lemma slots_reserved: "slots_ok n h p \<Longrightarrow> vlen r = n \<Longrightarrow> slots_ok n h (p\<lparr>sp_reserved := r\<rparr>)"
  by (simp add: slots_ok_def del: atLeastLessThan_iff)

text \<open>
  A VC holds a slot for each of its flits and a reserved one: it has at most one, while it is open and
  has no flits in the buffer.
\<close>

definition held :: "core \<Rightarrow> 'a shared_policy_scheme \<Rightarrow> int \<Rightarrow> int" where
  "held c p v = vat (bs_vc_occupancy c) v + vat (sp_reserved p) v"

definition shared_inv :: "core \<Rightarrow> 'a shared_policy_scheme \<Rightarrow> bool" where
  "shared_inv c p \<longleftrightarrow> slots_ok (bs_vcs c) (held c p) p \<and> bs_size c = sp_buf_size p \<and>
     (\<forall>v\<in>{0..<bs_vcs c}. vat (sp_reserved p) v = 0 \<or> vat (sp_reserved p) v = 1 \<and> opened c v \<and> vat (bs_vc_occupancy c) v = 0)"

lemma shared_invD:
  assumes "shared_inv c p"
  shows "slots_ok (bs_vcs c) (held c p) p" "bs_size c = sp_buf_size p"
    "v \<in> {0..<bs_vcs c} \<Longrightarrow> vat (sp_reserved p) v = 0 \<or> vat (sp_reserved p) v = 1 \<and> opened c v \<and> vat (bs_vc_occupancy c) v = 0"
  using assms unfolding shared_inv_def by blast+

lemma shared_full:
  assumes p: "shared_inv c p" and v: "v \<in> {0..<bs_vcs c}"
  shows "\<exists>a. Shared_AvailableFor p v = Inr a \<and> 0 \<le> a \<and> Shared_IsFullFor p v = Inr (a \<le> 0) \<and>
    (0 < a \<longrightarrow> 0 < vat (sp_reserved p) v \<or>
      vat (sp_private_occ p) (vat (sp_vc_map p) v) < vat (sp_private_size p) (vat (sp_vc_map p) v) \<or>
      sp_shared_occ p < sp_shared_size p)"
proof -
  note D = slots_okD [OF shared_invD(1) [OF p]]
  have "vget (sp_vc_map p) v = Inr (vat (sp_vc_map p) v)" using v D(1) by simp
  moreover have "vget (sp_private_occ p) (vat (sp_vc_map p) v) = Inr (vat (sp_private_occ p) (vat (sp_vc_map p) v))"
    using D(5) [OF v] by simp
  moreover have "0 \<le> vat (sp_reserved p) v" using shared_invD(3) [OF p v] by auto
  ultimately show ?thesis using D(10) by (auto simp: Shared_AvailableFor_def Shared_IsFullFor_def)
qed

lemma shared_take:
  assumes c: "core_ok c" and p: "shared_inv c p" and v: "v \<in> {0..<bs_vcs c}" "vat (bs_in_use_by c) v < 0"
  shows "shared_inv (core_take v tag c) p"
proof -
  have o: "opened (core_take v tag c) w" if "w \<in> {0..<bs_vcs c}" "opened c w" for w
    using that v(2) core_take_vc [OF c v(1) that(1)] by (auto simp: opened_def)
  have "held (core_take v tag c) p w = held c p w" if "w \<in> {0..<bs_vcs c}" for w
    using core_take_vc(3) [OF c v(1) that] by (simp add: held_def)
  then have "slots_ok (bs_vcs c) (held (core_take v tag c) p) p"
    using slots_cong [OF shared_invD(1) [OF p]] by metis
  then show ?thesis unfolding shared_inv_def core_fields
    using shared_invD(2,3) [OF p] o core_take_vc(3) [OF c v(1)] by (simp del: atLeastLessThan_iff) blast
qed

text \<open>The two ways a flit gets its slot; there is nothing left to release at a tail.\<close>

lemma release_none: "vat (sp_reserved p) v \<le> 0 \<Longrightarrow> release_reserved v p = Inr p"
  by (simp add: release_reserved_def range0_def)

lemma shared_sent_inv:
  assumes c: "core_ok c" and p: "shared_inv c p" and v: "fl_vc f \<in> {0..<bs_vcs c}"
    and rs: "rs = vupd (sp_reserved p) (fl_vc f) 0"
    and s: "slots_ok (bs_vcs c) h (p\<lparr>sp_private_occ := po, sp_shared_occ := so\<rparr>)"
    and h: "\<And>w. w \<in> {0..<bs_vcs c} \<Longrightarrow> h w = vat (bs_vc_occupancy c) w + (if w = fl_vc f then 1 else vat (sp_reserved p) w)"
  shows "shared_inv (core_sent f (core_sending (fl_vc f) c)) (p\<lparr>sp_private_occ := po, sp_shared_occ := so, sp_reserved := rs\<rparr>)"
    (is "shared_inv ?c ?p")
proof -
  note D = slots_okD [OF shared_invD(1) [OF p]]
  have rs': "vat rs w = (if w = fl_vc f then 0 else vat (sp_reserved p) w)" if "w \<in> {0..<bs_vcs c}" for w
    using v that D(2) by (simp add: rs)
  have opn: "opened ?c w" if "w \<in> {0..<bs_vcs c}" "opened c w" "w \<noteq> fl_vc f" for w
    using that core_sent_vc [OF c v that(1)] by (simp add: opened_def)
  have "slots_ok (bs_vcs c) h ?p" using slots_reserved [OF s] D(2) by (simp add: rs)
  then have "slots_ok (bs_vcs c) (held ?c ?p) ?p"
    by (rule slots_cong) (use h rs' core_sent_vc(1) [OF c v] in \<open>simp add: held_def del: atLeastLessThan_iff\<close>)
  then show ?thesis unfolding shared_inv_def core_fields
    using shared_invD(2,3) [OF p] opn rs' core_sent_vc(1) [OF c v] by (auto simp del: atLeastLessThan_iff)
qed

lemma shared_send:
  assumes c: "core_ok c" and p: "shared_inv c p" and o: "opened c (fl_vc f)"
    and full: "Shared_IsFullFor p (fl_vc f) = Inr False"
  shows "\<exists>po so rs. Shared_SendingFlit f p = Inr (p\<lparr>sp_private_occ := po, sp_shared_occ := so, sp_reserved := rs\<rparr>) \<and>
    shared_inv (core_sent f (core_sending (fl_vc f) c)) (p\<lparr>sp_private_occ := po, sp_shared_occ := so, sp_reserved := rs\<rparr>)"
proof -
  let ?v = "fl_vc f" and ?c = "core_sent f (core_sending (fl_vc f) c)"
  have v: "?v \<in> {0..<bs_vcs c}" using o by (simp add: opened_def)
  note D = slots_okD [OF shared_invD(1) [OF p]]
  define rs where "rs = vupd (sp_reserved p) ?v 0"
  show ?thesis
  proof (cases "vat (sp_reserved p) ?v = 0")
    case True
    then have "rs = sp_reserved p" using D(2) v unfolding rs_def by (intro vec_eqI) auto
    then have r: "p\<lparr>sp_private_occ := po, sp_shared_occ := so, sp_reserved := rs\<rparr> = p\<lparr>sp_private_occ := po, sp_shared_occ := so\<rparr>" for po so
      by simp
    from shared_full [OF p v] full True obtain po so where
      q: "occupy_slot ?v p = Inr (p\<lparr>sp_private_occ := po, sp_shared_occ := so\<rparr>)"
        "slots_ok (bs_vcs c) ((held c p)(?v := held c p ?v + 1)) (p\<lparr>sp_private_occ := po, sp_shared_occ := so\<rparr>)"
      using occupy_slot_ok [OF shared_invD(1) [OF p] v] by auto
    then have "Shared_SendingFlit f p = Inr (p\<lparr>sp_private_occ := po, sp_shared_occ := so, sp_reserved := rs\<rparr>)"
      using True by (simp add: Shared_SendingFlit_def r release_none)
    moreover have "shared_inv ?c (p\<lparr>sp_private_occ := po, sp_shared_occ := so, sp_reserved := rs\<rparr>)"
      by (rule shared_sent_inv [OF c p v rs_def q(2)]) (use True in \<open>auto simp: held_def simp del: atLeastLessThan_iff\<close>)
    ultimately show ?thesis by blast
  next
    case False
    then have r: "vat (sp_reserved p) ?v = 1" "vat (bs_vc_occupancy c) ?v = 0" using shared_invD(3) [OF p v] by auto
    have "vat rs ?v = 0" using v D(2) by (simp add: rs_def)
    then have "Shared_SendingFlit f p = Inr (p\<lparr>sp_private_occ := sp_private_occ p, sp_shared_occ := sp_shared_occ p, sp_reserved := rs\<rparr>)"
      using r by (simp add: Shared_SendingFlit_def release_none rs_def Let_def)
    moreover have "shared_inv ?c (p\<lparr>sp_private_occ := sp_private_occ p, sp_shared_occ := sp_shared_occ p, sp_reserved := rs\<rparr>)"
      by (rule shared_sent_inv [OF c p v rs_def, of "held c p"])
        (use r shared_invD(1) [OF p] in \<open>auto simp: held_def simp del: atLeastLessThan_iff\<close>)
    ultimately show ?thesis by blast
  qed
qed

text \<open>
  A credit returns the slot, or leaves it reserved when the VC is empty but still open. A VC in use whose last
  flit has left the buffer is open.
\<close>

lemma shared_free:
  assumes c: "core_ok c" and p: "shared_inv c p" and v: "v \<in> {0..<bs_vcs c}" and o: "0 < vat (bs_vc_occupancy c) v"
  shows "\<exists>po so rs. Shared_FreeSlotFor (core_credit v c) v p = Inr (p\<lparr>sp_private_occ := po, sp_shared_occ := so, sp_reserved := rs\<rparr>) \<and>
    shared_inv (core_credit v c) (p\<lparr>sp_private_occ := po, sp_shared_occ := so, sp_reserved := rs\<rparr>)"
proof -
  let ?c = "core_credit v c"
  note D = slots_okD [OF shared_invD(1) [OF p]]
  have res0: "vat (sp_reserved p) v = 0" using shared_invD(3) [OF p v] o by auto
  have opn: "opened ?c w" if "w \<in> {0..<bs_vcs c}" "opened c w" "w \<noteq> v" for w
    using that core_credit_vc [OF c v that(1)] by (simp add: opened_def)
  have q: "Shared_FreeSlotFor ?c v p =
      (if 0 \<le> vat (bs_in_use_by ?c) v \<and> vat (bs_vc_occupancy ?c) v = 0
       then Inr (p\<lparr>sp_reserved := vupd (sp_reserved p) v 1\<rparr>) else ProcessFreeSlot v p)"
    using v res0 by (auto simp: Shared_FreeSlotFor_def queries_ok)
  show ?thesis
  proof (cases "0 \<le> vat (bs_in_use_by ?c) v \<and> vat (bs_vc_occupancy ?c) v = 0")
    case True
    let ?p = "p\<lparr>sp_reserved := vupd (sp_reserved p) v 1\<rparr>"
    have rs: "vat (vupd (sp_reserved p) v 1) w = (if w = v then 1 else vat (sp_reserved p) w)" if "w \<in> {0..<bs_vcs c}" for w
      using that v D(2) by simp
    have "opened ?c v"
      using True core_okD(8) [OF core_credit_ok [OF c v o]] core_okD(8) [OF c v] v core_credit_vc [OF c v v]
      by (auto simp: opened_def vc_ok_def split: if_splits)
    moreover have "slots_ok (bs_vcs c) (held ?c ?p) ?p"
      by (rule slots_cong [OF slots_reserved [OF shared_invD(1) [OF p]]])
        (use v D(2) res0 core_credit_vc(1) [OF c v] in \<open>auto simp: held_def\<close>)
    ultimately have "shared_inv ?c ?p" unfolding shared_inv_def core_fields
      using True shared_invD(2,3) [OF p] opn rs core_credit_vc(1) [OF c v] by (auto simp del: atLeastLessThan_iff)
    then show ?thesis using q True 
      by - (rule exI [of _ "sp_private_occ p"], rule exI [of _ "sp_shared_occ p"], rule exI [of _ "vupd (sp_reserved p) v 1"], simp)
  next
    case False
    have "0 < held c p v" using o res0 by (simp add: held_def)
    then obtain po so where f: "ProcessFreeSlot v p = Inr (p\<lparr>sp_private_occ := po, sp_shared_occ := so\<rparr>)"
        "slots_ok (bs_vcs c) ((held c p)(v := held c p v - 1)) (p\<lparr>sp_private_occ := po, sp_shared_occ := so\<rparr>)" (is "slots_ok _ _ ?p")
      using ProcessFreeSlot_ok [OF shared_invD(1) [OF p] v] by blast
    have "slots_ok (bs_vcs c) (held ?c ?p) ?p"
      by (rule slots_cong [OF f(2)]) (use core_credit_vc(1) [OF c v] in \<open>auto simp: held_def simp del: atLeastLessThan_iff\<close>)
    then have "shared_inv ?c ?p" unfolding shared_inv_def core_fields
      using shared_invD(2,3) [OF p] opn res0 core_credit_vc(1) [OF c v] by (auto simp del: atLeastLessThan_iff)
    then show ?thesis using q False f(1) 
      by - (rule exI [of _ po], rule exI [of _ so], rule exI [of _ "sp_reserved p"], auto)
  qed
qed

lemma shared_room:
  assumes c: "core_ok c" and p: "shared_inv c p" and v: "v \<in> {0..<bs_vcs c}" and full: "Shared_IsFullFor p v = Inr False"
  shows "bs_occupancy c < bs_size c"
proof (cases "vat (sp_reserved p) v = 0")
  case True
  then obtain po so where "slots_ok (bs_vcs c) ((held c p)(v := held c p v + 1)) (p\<lparr>sp_private_occ := po, sp_shared_occ := so\<rparr>)"
    using shared_full [OF p v] full occupy_slot_ok [OF shared_invD(1) [OF p] v] by auto
  from slots_bound [OF this] have "(\<Sum>w\<in>{0..<bs_vcs c}. held c p w) + 1 \<le> bs_size c"
    using shared_invD(2) [OF p] v by (simp add: sum_fun_upd del: fun_upd_apply atLeastLessThan_iff)
  moreover have "bs_occupancy c \<le> (\<Sum>w\<in>{0..<bs_vcs c}. held c p w)"
    unfolding core_okD(7) [OF c] held_def using shared_invD(3) [OF p] by (intro sum_mono) fastforce
  ultimately show ?thesis by simp
next
  case False
  then have r: "vat (sp_reserved p) v = 1" using shared_invD(3) [OF p v] by auto
  have "bs_occupancy c < (\<Sum>w\<in>{0..<bs_vcs c}. held c p w)"
    unfolding core_okD(7) [OF c] held_def using shared_invD(3) [OF p] r v
    by (intro sum_strict_mono_ex1) (fastforce intro: bexI [of _ v])+
  then show ?thesis using slots_bound [OF shared_invD(1) [OF p]] shared_invD(2) [OF p] by simp
qed

interpretation sh: buffer_policy shared_inv Inr "\<lambda>_ _. Shared_SendingFlit" "\<lambda>_. Shared_FreeSlotFor" "\<lambda>_ _. Shared_IsFullFor"
  "\<lambda>_ _. Shared_AvailableFor" "\<lambda>_ p v. Shared_IsFullFor p v = Inr False"
proof (unfold_locales, goal_cases)
  case (1 c p v tag)
  then show ?case using shared_take by blast
next
  case (2 c p v now)
  then show ?case using shared_full by blast
next
  case (4 c p v)
  then show ?case using shared_room by blast
next
  case (5 c p f now)
  then show ?case using shared_send by blast
next
  case (6 c p v now)
  then show ?case using shared_free by blast
qed

section \<open>Limited shared buffers\<close>

definition active :: "core \<Rightarrow> int" where
  "active c = int (card {v. opened c v})"

lemma finite_opened [simp]: "finite {v. opened c v}"
  by (rule finite_subset [of _ "{0..<bs_vcs c}"]) (auto simp: opened_def)

lemma active_range: "0 \<le> bs_vcs c \<Longrightarrow> active c \<le> bs_vcs c"
proof -
  assume n: "0 \<le> bs_vcs c"
  have "card {v. opened c v} \<le> card {0..<bs_vcs c}" by (rule card_mono) (auto simp: opened_def)
  then show ?thesis using n by (simp add: active_def nat_le_iff)
qed

lemma active_take:
  assumes c: "core_ok c" and v: "v \<in> {0..<bs_vcs c}" "vat (bs_in_use_by c) v < 0" and t: "0 \<le> tag"
  shows "active (core_take v tag c) = active c + 1"
proof -
  have "opened (core_take v tag c) w \<longleftrightarrow> w = v \<or> opened c w" for w
    using v t core_take_vc [OF c v(1), of w tag] by (auto simp: opened_def simp del: atLeastLessThan_iff)
  then have "{w. opened (core_take v tag c) w} = insert v {w. opened c w}" by auto
  moreover have "v \<notin> {w. opened c w}" using v by (auto simp: opened_def)
  ultimately show ?thesis by (simp add: active_def)
qed

lemma active_sent:
  assumes c: "core_ok c" and o: "opened c (fl_vc f)"
  shows "active (core_sent f (core_sending (fl_vc f) c)) = (if fl_tail f then active c - 1 else active c)" "0 < active c"
proof -
  have v: "fl_vc f \<in> {0..<bs_vcs c}" using o by (simp add: opened_def)
  let ?c = "core_sent f (core_sending (fl_vc f) c)"
  have eq: "opened ?c w \<longleftrightarrow> opened c w \<and> \<not> (w = fl_vc f \<and> fl_tail f)" for w
    using v core_sent_vc [OF c v, of w] by (auto simp: opened_def simp del: atLeastLessThan_iff)
  have pos: "0 < card {w. opened c w}" using o by (auto simp: card_gt_0_iff)
  have "{w. opened ?c w} = (if fl_tail f then {w. opened c w} - {fl_vc f} else {w. opened c w})" using eq by auto
  then show "active ?c = (if fl_tail f then active c - 1 else active c)" using o pos by (auto simp: active_def)
  show "0 < active c" using pos by (simp add: active_def)
qed

lemma active_credit:
  assumes c: "core_ok c" and v: "v \<in> {0..<bs_vcs c}" and o: "0 < vat (bs_vc_occupancy c) v"
  shows "active (core_credit v c) = active c"
proof -
  have "opened (core_credit v c) w \<longleftrightarrow> opened c w" for w
    using core_credit_vc [OF c v, of w] by (auto simp: opened_def split: if_splits simp del: atLeastLessThan_iff)
  then show ?thesis by (simp add: active_def)
qed

definition limited_inv :: "core \<Rightarrow> limited_policy \<Rightarrow> bool" where
  "limited_inv c p \<longleftrightarrow> shared_inv c p \<and> lp_vcs p = bs_vcs c \<and> lp_active_vcs p = active c"

lemma shared_inv_limited [simp]:
  "shared_inv c (p\<lparr>lp_active_vcs := a\<rparr>) = shared_inv c p" "shared_inv c (p\<lparr>lp_max_held_slots := m\<rparr>) = shared_inv c p"
  by (simp_all add: shared_inv_def held_def [abs_def] slots_ok_def mapped_def)

lemma limited_take:
  assumes c: "core_ok c" and p: "limited_inv c p" and v: "v \<in> {0..<bs_vcs c}" "vat (bs_in_use_by c) v < 0" "0 \<le> tag"
  shows "Limited_TakeBuffer p = Inr (p\<lparr>lp_active_vcs := active c + 1\<rparr>)" "active c + 1 \<le> bs_vcs c"
    "limited_inv (core_take v tag c) (p\<lparr>lp_active_vcs := active c + 1\<rparr>)"
proof -
  have "active (core_take v tag c) \<le> bs_vcs c" using active_range [of "core_take v tag c"] core_okD(1) [OF c] by simp
  then show a: "active c + 1 \<le> bs_vcs c" using active_take [OF c v] by simp
  then show "Limited_TakeBuffer p = Inr (p\<lparr>lp_active_vcs := active c + 1\<rparr>)"
    using p by (simp add: Limited_TakeBuffer_def limited_inv_def Let_def)
  show "limited_inv (core_take v tag c) (p\<lparr>lp_active_vcs := active c + 1\<rparr>)"
    using p shared_take [OF c _ v(1,2), of p] active_take [OF c v] by (simp add: limited_inv_def)
qed

lemma limited_full:
  assumes p: "limited_inv c p" and v: "v \<in> {0..<bs_vcs c}"
  shows "\<exists>a. Limited_AvailableFor c p v = Inr a \<and> Limited_IsFullFor c p v = Inr (a \<le> 0)"
    "Limited_IsFullFor c p v = Inr False \<Longrightarrow> Shared_IsFullFor p v = Inr False"
proof -
  obtain a where "Shared_AvailableFor p v = Inr a" "Shared_IsFullFor p v = Inr (a \<le> 0)"
    using shared_full [of c p] p v unfolding limited_inv_def by blast
  then show "\<exists>a. Limited_AvailableFor c p v = Inr a \<and> Limited_IsFullFor c p v = Inr (a \<le> 0)"
    "Limited_IsFullFor c p v = Inr False \<Longrightarrow> Shared_IsFullFor p v = Inr False"
    using v by (auto simp: Limited_AvailableFor_def Limited_IsFullFor_def queries_ok min_le_iff_disj split: if_splits)
qed

lemma limited_send:
  assumes c: "core_ok c" and p: "limited_inv c p" and o: "opened c (fl_vc f)" and full: "Shared_IsFullFor p (fl_vc f) = Inr False"
  shows "\<exists>p'. Limited_SendingFlit f p = Inr p' \<and> limited_inv (core_sent f (core_sending (fl_vc f) c)) p' \<and>
    sp_buf_size p' = sp_buf_size p \<and> lp_max_held_slots p' = lp_max_held_slots p \<and> 0 \<le> lp_active_vcs p'"
proof -
  have s: "shared_inv c p" and a: "lp_active_vcs p = active c" "lp_vcs p = bs_vcs c" using p by (simp_all add: limited_inv_def)
  obtain q where q: "Shared_SendingFlit f p = Inr q" "shared_inv (core_sent f (core_sending (fl_vc f) c)) q"
      "sp_buf_size q = sp_buf_size p" "lp_max_held_slots q = lp_max_held_slots p" "lp_active_vcs q = active c" "lp_vcs q = bs_vcs c"
    using shared_send [OF c s o full] a by auto
  show ?thesis
    using q active_sent [OF c o]
    by (intro exI [of _ "if fl_tail f then q\<lparr>lp_active_vcs := active c - 1\<rparr> else q"])
      (auto simp: Limited_SendingFlit_def Let_def limited_inv_def)
qed

lemma limited_free:
  assumes c: "core_ok c" and p: "limited_inv c p" and v: "v \<in> {0..<bs_vcs c}" and o: "0 < vat (bs_vc_occupancy c) v"
  shows "\<exists>p'. Shared_FreeSlotFor (core_credit v c) v p = Inr p' \<and> limited_inv (core_credit v c) p' \<and>
    sp_buf_size p' = sp_buf_size p \<and> lp_max_held_slots p' = lp_max_held_slots p"
proof -
  have s: "shared_inv c p" using p by (simp add: limited_inv_def)
  obtain q where "Shared_FreeSlotFor (core_credit v c) v p = Inr q" "shared_inv (core_credit v c) q" "sp_buf_size q = sp_buf_size p"
      "lp_max_held_slots q = lp_max_held_slots p" "lp_active_vcs q = lp_active_vcs p" "lp_vcs q = lp_vcs p"
    using shared_free [OF c s v o] by auto
  then show ?thesis using p active_credit [OF c v o] by (auto simp: limited_inv_def)
qed

end
