(* ===== verification/Credit_Protocol.thy ===== *)
theory Credit_Protocol
  imports Buffer_Laws
begin

text \<open>
  The limited, dynamic, shifting and feedback policies meet the contract \<open>buffer_policy\<close>, so does the virtual dispatch over
  all of them, and a \<^verbatim>\<open>BufferState\<close> driven by the credit protocol never aborts.
\<close>

section \<open>Limits on the slots of a VC\<close>

interpretation lim: buffer_policy limited_inv Limited_TakeBuffer "\<lambda>_ _. Limited_SendingFlit" "\<lambda>_. Shared_FreeSlotFor"
  "\<lambda>_. Limited_IsFullFor" "\<lambda>_. Limited_AvailableFor" "\<lambda>_ p v. Shared_IsFullFor p v = Inr False"
proof (unfold_locales, goal_cases)
  case (1 c p v tag)
  then show ?case using limited_take [OF 1] by (auto simp: Shared_IsFullFor_def)
next
  case (2 c p v now)
  then show ?case using limited_full(1) by blast
next
  case (3 c p v now)
  then show ?case using limited_full(2) by blast
next
  case (4 c p v)
  then show ?case using shared_room [of c p v] by (simp add: limited_inv_def)
next
  case (5 c p f now)
  then show ?case using limited_send by blast
next
  case (6 c p v now)
  then show ?case using limited_free by blast
qed

text \<open>
  The dynamic and the shifting policy recompute the limit as \<open>lim s a\<close> from the size \<open>s\<close> of the buffer and the number
  \<open>a\<close> of open VCs. The limit stays positive when it is for all \<open>a\<close> up to the number of VCs.
\<close>

definition rescaled_inv :: "(int \<Rightarrow> int \<Rightarrow> int) \<Rightarrow> core \<Rightarrow> limited_policy \<Rightarrow> bool" where
  "rescaled_inv lim c p \<longleftrightarrow> limited_inv c p \<and> 0 < lp_max_held_slots p \<and>
     (\<forall>a\<in>{1..bs_vcs c}. 0 < lim (sp_buf_size p) a)"

lemma rescaled_take_ok:
  assumes c: "core_ok c" and p: "rescaled_inv lim c p" and v: "v \<in> {0..<bs_vcs c}" "vat (bs_in_use_by c) v < 0" "0 \<le> tag"
  shows "\<exists>p'. Limited_TakeBuffer p = Inr p' \<and> 0 < lp_active_vcs p' \<and> 0 < lim (sp_buf_size p') (lp_active_vcs p') \<and>
    Shared_IsFullFor p' v = Shared_IsFullFor p v \<and>
    rescaled_inv lim (core_take v tag c) (p'\<lparr>lp_max_held_slots := lim (sp_buf_size p') (lp_active_vcs p')\<rparr>)"
proof -
  have l: "limited_inv c p" using p by (simp add: rescaled_inv_def)
  note t = limited_take [OF c l v]
  have "active c + 1 \<in> {1..bs_vcs c}" using t(2) by (simp add: active_def)
  then have "0 < lim (sp_buf_size p) (active c + 1)" using p unfolding rescaled_inv_def by blast
  then show ?thesis using t p by (auto simp: rescaled_inv_def limited_inv_def active_def Shared_IsFullFor_def)
qed

lemma rescaled_send_ok:
  assumes c: "core_ok c" and p: "rescaled_inv lim c p" and o: "opened c (fl_vc f)" and full: "Shared_IsFullFor p (fl_vc f) = Inr False"
  shows "\<exists>p'. Limited_SendingFlit f p = Inr p' \<and> (let q = if fl_tail f \<and> lp_active_vcs p' \<noteq> 0
      then p'\<lparr>lp_max_held_slots := lim (sp_buf_size p') (lp_active_vcs p')\<rparr> else p' in
      0 < lp_max_held_slots q \<and> rescaled_inv lim (core_sent f (core_sending (fl_vc f) c)) q)"
proof -
  let ?c = "core_sent f (core_sending (fl_vc f) c)"
  have l: "limited_inv c p" using p by (simp add: rescaled_inv_def)
  obtain q where q: "Limited_SendingFlit f p = Inr q" "limited_inv ?c q" "sp_buf_size q = sp_buf_size p"
      "lp_max_held_slots q = lp_max_held_slots p" "0 \<le> lp_active_vcs q"
    using limited_send [OF c l o full] by blast
  have "lp_active_vcs q \<le> bs_vcs c"
    using q(2) active_range [of ?c] core_okD(1) [OF c] by (simp add: limited_inv_def)
  then have "lp_active_vcs q \<noteq> 0 \<Longrightarrow> 0 < lim (sp_buf_size q) (lp_active_vcs q)"
    using p q(3,5) unfolding rescaled_inv_def by auto
  then show ?thesis using q p by (auto simp: rescaled_inv_def Let_def limited_inv_def)
qed

lemma rescaled_free_ok:
  assumes c: "core_ok c" and p: "rescaled_inv lim c p" and v: "v \<in> {0..<bs_vcs c}" and o: "0 < vat (bs_vc_occupancy c) v"
  shows "\<exists>p'. Shared_FreeSlotFor (core_credit v c) v p = Inr p' \<and> rescaled_inv lim (core_credit v c) p'"
  using limited_free [OF c _ v o, of p] p by (auto simp: rescaled_inv_def)

lemma rescaled_full:
  assumes "core_ok c" "rescaled_inv lim c p" "v \<in> {0..<bs_vcs c}"
  shows "\<exists>a. Limited_AvailableFor c p v = Inr a \<and> Limited_IsFullFor c p v = Inr (a \<le> 0)"
    "Limited_IsFullFor c p v = Inr False \<Longrightarrow> Shared_IsFullFor p v = Inr False"
    "Shared_IsFullFor p v = Inr False \<Longrightarrow> bs_occupancy c < bs_size c"
  using assms limited_full [of c p v] shared_room [of c p v] by (auto simp: rescaled_inv_def limited_inv_def)

interpretation dyn: buffer_policy "rescaled_inv (\<lambda>s a. s sdiv a)" Dynamic_TakeBuffer "\<lambda>_ _. Dynamic_SendingFlit" "\<lambda>_. Shared_FreeSlotFor"
  "\<lambda>_. Limited_IsFullFor" "\<lambda>_. Limited_AvailableFor" "\<lambda>_ p v. Shared_IsFullFor p v = Inr False"
proof (unfold_locales, goal_cases)
  case (1 c p v tag)
  from rescaled_take_ok [OF 1] show ?case by (auto simp: Dynamic_TakeBuffer_def Let_def Shared_IsFullFor_def)
next
  case (5 c p f now)
  from rescaled_send_ok [OF 5] show ?case by (fastforce simp: Dynamic_SendingFlit_def Let_def)
qed (auto intro: rescaled_full rescaled_free_ok simp del: atLeastLessThan_iff)

interpretation shf: buffer_policy "rescaled_inv (\<lambda>s a. shift_slots s (a - 1))" Shifting_TakeBuffer "\<lambda>_ _. Shifting_SendingFlit" "\<lambda>_. Shared_FreeSlotFor"
  "\<lambda>_. Limited_IsFullFor" "\<lambda>_. Limited_AvailableFor" "\<lambda>_ p v. Shared_IsFullFor p v = Inr False"
proof (unfold_locales, goal_cases)
  case (1 c p v tag)
  from rescaled_take_ok [OF 1] show ?case by (auto simp: Shifting_TakeBuffer_def Let_def Shared_IsFullFor_def)
next
  case (5 c p f now)
  from rescaled_send_ok [OF 5] show ?case by (fastforce simp: Shifting_SendingFlit_def Let_def)
qed (auto intro: rescaled_full rescaled_free_ok simp del: atLeastLessThan_iff)

section \<open>Feedback\<close>

definition feedback_base :: "core \<Rightarrow> 'a feedback_policy_scheme \<Rightarrow> bool" where
  "feedback_base c p \<longleftrightarrow> shared_inv c p \<and> vlen (fp_occupancy_limit p) = bs_vcs c \<and> vlen (fp_round_trip_time p) = bs_vcs c \<and>
     vlen (fp_flit_sent_time p) = bs_vcs c \<and> 0 \<le> fp_min_latency p \<and>
     fp_total_mapped_size p = (\<Sum>v\<in>{0..<bs_vcs c}. vat (fp_occupancy_limit p) v)"

lemma shared_inv_feedback [simp]:
  "shared_inv c (p\<lparr>fp_occupancy_limit := a\<rparr>) = shared_inv c p" "shared_inv c (p\<lparr>fp_round_trip_time := b\<rparr>) = shared_inv c p"
  "shared_inv c (p\<lparr>fp_flit_sent_time := q\<rparr>) = shared_inv c p" "shared_inv c (p\<lparr>fp_total_mapped_size := t\<rparr>) = shared_inv c p"
  "shared_inv c (s\<lparr>sf_pending_credits := r\<rparr>) = shared_inv c s"
  by (simp_all add: shared_inv_def held_def [abs_def] slots_ok_def mapped_def)

lemma feedback_base_pending [simp]: "feedback_base c (p\<lparr>sf_pending_credits := r\<rparr>) = feedback_base c p"
  by (simp add: feedback_base_def)

lemma ComputeMaxSlots_ok: "0 \<le> fp_min_latency p \<Longrightarrow> \<exists>m. ComputeMaxSlots now p v = Inr m"
  by (simp add: ComputeMaxSlots_def ComputeLimit_def Let_def)

lemma feedback_full:
  assumes p: "feedback_base c p" and v: "v \<in> {0..<bs_vcs c}"
  shows "\<exists>a. Feedback_AvailableFor now c p v = Inr a \<and> Feedback_IsFullFor now c p v = Inr (a \<le> 0)"
    "Feedback_IsFullFor now c p v = Inr False \<Longrightarrow> Shared_IsFullFor p v = Inr False"
proof -
  obtain a m where "Shared_AvailableFor p v = Inr a" "Shared_IsFullFor p v = Inr (a \<le> 0)" "ComputeMaxSlots now p v = Inr m"
    using shared_full [of c p] ComputeMaxSlots_ok p v unfolding feedback_base_def by blast
  then show "\<exists>a. Feedback_AvailableFor now c p v = Inr a \<and> Feedback_IsFullFor now c p v = Inr (a \<le> 0)"
    "Feedback_IsFullFor now c p v = Inr False \<Longrightarrow> Shared_IsFullFor p v = Inr False"
    using v by (auto simp: Feedback_AvailableFor_def Feedback_IsFullFor_def queries_ok min_le_iff_disj split: if_splits)
qed

lemma feedback_room:
  "core_ok c \<Longrightarrow> feedback_base c p \<Longrightarrow> v \<in> {0..<bs_vcs c} \<Longrightarrow> Shared_IsFullFor p v = Inr False \<Longrightarrow> bs_occupancy c < bs_size c"
  using shared_room [of c p v] by (simp add: feedback_base_def)

text \<open>Sending keeps all but the slot counters; a flit whose time is recorded adds it to the queue of its VC.\<close>

lemma feedback_shared_send:
  assumes c: "core_ok c" and p: "feedback_base c p" and o: "opened c (fl_vc f)" and full: "Shared_IsFullFor p (fl_vc f) = Inr False"
  shows "\<exists>p'. Shared_SendingFlit f p = Inr p' \<and> feedback_base (core_sent f (core_sending (fl_vc f) c)) p' \<and>
    fp_flit_sent_time p' = fp_flit_sent_time p \<and> feedback_policy.more p' = feedback_policy.more p"
proof -
  have s: "shared_inv c p" using p by (simp add: feedback_base_def)
  from shared_send [OF c s o full] p show ?thesis by (auto simp: feedback_base_def)
qed

lemma feedback_shared_free:
  assumes c: "core_ok c" and p: "feedback_base c p" and v: "v \<in> {0..<bs_vcs c}" and o: "0 < vat (bs_vc_occupancy c) v"
  shows "\<exists>p'. Shared_FreeSlotFor (core_credit v c) v p = Inr p' \<and> feedback_base (core_credit v c) p' \<and>
    fp_flit_sent_time p' = fp_flit_sent_time p \<and> feedback_policy.more p' = feedback_policy.more p"
proof -
  have s: "shared_inv c p" using p by (simp add: feedback_base_def)
  from shared_free [OF c s v o] p show ?thesis by (auto simp: feedback_base_def)
qed

lemma feedback_send:
  assumes c: "core_ok c" and p: "feedback_base c p" and o: "opened c (fl_vc f)" and full: "Shared_IsFullFor p (fl_vc f) = Inr False"
  shows "\<exists>p'. Feedback_SendingFlit now f p = Inr p' \<and> feedback_base (core_sent f (core_sending (fl_vc f) c)) p' \<and>
    fp_flit_sent_time p' = vupd (fp_flit_sent_time p) (fl_vc f) (vat (fp_flit_sent_time p) (fl_vc f) @ [int32 now]) \<and>
    feedback_policy.more p' = feedback_policy.more p"
  using feedback_shared_send [OF assms] by (auto simp: Feedback_SendingFlit_def feedback_base_def)

lemma feedback_free:
  assumes c: "core_ok c" and p: "feedback_base c p" and v: "v \<in> {0..<bs_vcs c}" and o: "0 < vat (bs_vc_occupancy c) v"
    and q: "vat (fp_flit_sent_time p) v \<noteq> []"
  shows "\<exists>p'. Feedback_FreeSlotFor now (core_credit v c) v p = Inr p' \<and> feedback_base (core_credit v c) p' \<and>
    fp_flit_sent_time p' = vupd (fp_flit_sent_time p) v (tl (vat (fp_flit_sent_time p) v)) \<and>
    feedback_policy.more p' = feedback_policy.more p"
proof -
  obtain r where r: "Shared_FreeSlotFor (core_credit v c) v p = Inr r" "feedback_base (core_credit v c) r"
      "fp_flit_sent_time r = fp_flit_sent_time p" "feedback_policy.more r = feedback_policy.more p"
    using feedback_shared_free [OF c p v o] by blast
  have "{0..<bs_vcs c} \<subseteq> {0..<vlen (fp_occupancy_limit r)}" using r(2) by (simp add: feedback_base_def)
  then show ?thesis using r q v
    by (auto simp: Feedback_FreeSlotFor_def ComputeLimit_def Let_def feedback_base_def sum_vupd simp del: atLeastLessThan_iff ivl_subset)
qed

text \<open>Every flit in the buffer has its time in the queue of its VC.\<close>

definition feedback_inv :: "core \<Rightarrow> feedback_policy \<Rightarrow> bool" where
  "feedback_inv c p \<longleftrightarrow> feedback_base c p \<and>
     (\<forall>v\<in>{0..<bs_vcs c}. vlen (vat (fp_flit_sent_time p) v) = vat (bs_vc_occupancy c) v)"

text \<open>At most one probe per VC; the credits still to come before its own are those of flits in the buffer.\<close>

definition probe_ok :: "int list \<Rightarrow> int \<Rightarrow> int \<Rightarrow> bool" where
  "probe_ok q pending occ \<longleftrightarrow> (if q = [] then pending = 0 else length q = 1 \<and> 0 \<le> pending \<and> pending < occ)"

definition simple_inv :: "core \<Rightarrow> simple_feedback_policy \<Rightarrow> bool" where
  "simple_inv c p \<longleftrightarrow> feedback_base c p \<and> vlen (sf_pending_credits p) = bs_vcs c \<and>
     (\<forall>v\<in>{0..<bs_vcs c}. probe_ok (vat (fp_flit_sent_time p) v) (vat (sf_pending_credits p) v) (vat (bs_vc_occupancy c) v))"

lemma vat_vupd_in:
  assumes "v \<in> {0..<n}" "w \<in> {0..<n}" "vlen xs = n"
  shows "vat (vupd xs v x) w = (if w = v then x else vat xs w)"
  using assms by simp

lemma vupd_same: "vupd xs i (vat xs i) = xs"
  by (simp add: vupd_def vat_def)

lemma more_pending:
  fixes p q :: simple_feedback_policy
  shows "feedback_policy.more p = feedback_policy.more q \<Longrightarrow> sf_pending_credits p = sf_pending_credits q"
  by (cases p; cases q) simp

lemma feedback_baseD:
  assumes "feedback_base c p"
  shows "shared_inv c p" "vlen (fp_flit_sent_time p) = bs_vcs c" "0 \<le> fp_min_latency p"
  using assms by (simp_all add: feedback_base_def)

lemma feedback_take:
  assumes c: "core_ok c" and p: "feedback_base c p" and v: "v \<in> {0..<bs_vcs c}" "vat (bs_in_use_by c) v < 0"
  shows "feedback_base (core_take v tag c) p"
  using p shared_take [OF c feedback_baseD(1) [OF p] v] by (simp add: feedback_base_def)

interpretation fb: buffer_policy feedback_inv Inr "\<lambda>now _. Feedback_SendingFlit now" Feedback_FreeSlotFor Feedback_IsFullFor Feedback_AvailableFor
  "\<lambda>_ p v. Shared_IsFullFor p v = Inr False"
proof (unfold_locales, goal_cases)
  case (1 c p v tag)
  then show ?case using feedback_take [of c p v tag] core_take_vc(3) [of c v]
    by (auto simp: feedback_inv_def simp del: atLeastLessThan_iff)
next
  case (5 c p f now)
  have p: "feedback_base c p" and v: "fl_vc f \<in> {0..<bs_vcs c}" using 5 by (simp_all add: feedback_inv_def opened_def)
  from feedback_send [OF 5(1) p 5(3,4), of now] 5(2) show ?case
    using core_sent_vc(1) [OF 5(1) v] vat_vupd_in [OF v _ feedback_baseD(2) [OF p]]
    by (auto simp: feedback_inv_def simp del: atLeastLessThan_iff)
next
  case (6 c p v now)
  have p: "feedback_base c p" and q: "vlen (vat (fp_flit_sent_time p) v) = vat (bs_vc_occupancy c) v"
    using 6 by (auto simp: feedback_inv_def)
  then have "vat (fp_flit_sent_time p) v \<noteq> []" using 6(4) by auto
  moreover from this have "vlen (tl (vat (fp_flit_sent_time p) v)) = vat (bs_vc_occupancy c) v - 1"
    using q by (cases "vat (fp_flit_sent_time p) v") auto
  ultimately show ?case using feedback_free [OF 6(1) p 6(3,4), of now] 6(2)
      core_credit_vc(1) [OF 6(1,3)] vat_vupd_in [OF 6(3) _ feedback_baseD(2) [OF p]]
    by (auto simp: feedback_inv_def simp del: atLeastLessThan_iff)
qed (auto simp: feedback_inv_def intro: feedback_full feedback_room simp del: atLeastLessThan_iff)

lemma simple_send:
  assumes c: "core_ok c" and p: "simple_inv c p" and o: "opened c (fl_vc f)" and full: "Shared_IsFullFor p (fl_vc f) = Inr False"
  shows "\<exists>p'. SimpleFeedback_SendingFlit now (core_sending (fl_vc f) c) f p = Inr p' \<and> simple_inv (core_sent f (core_sending (fl_vc f) c)) p'"
proof -
  let ?v = "fl_vc f" and ?c = "core_sent f (core_sending (fl_vc f) c)"
  have b: "feedback_base c p" and v: "?v \<in> {0..<bs_vcs c}" and n: "vlen (sf_pending_credits p) = bs_vcs c"
    using p o by (simp_all add: simple_inv_def opened_def)
  have pr: "probe_ok (vat (fp_flit_sent_time p) w) (vat (sf_pending_credits p) w) (vat (bs_vc_occupancy c) w)" if "w \<in> {0..<bs_vcs c}" for w
    using p that unfolding simple_inv_def by blast
  show ?thesis
  proof (cases "vat (fp_flit_sent_time p) ?v = []")
    case True
    let ?p = "p\<lparr>sf_pending_credits := vupd (sf_pending_credits p) ?v (vat (bs_vc_occupancy c) ?v)\<rparr>"
    have b': "feedback_base c ?p" and full': "Shared_IsFullFor ?p ?v = Inr False" using b full by (simp_all add: Shared_IsFullFor_def)
    from feedback_send [OF c b' o full', of now] obtain q where q: "Feedback_SendingFlit now f ?p = Inr q" "feedback_base ?c q"
        "fp_flit_sent_time q = vupd (fp_flit_sent_time p) ?v [int32 now]" "sf_pending_credits q = sf_pending_credits ?p"
      using True by (auto dest: more_pending)
    have "SimpleFeedback_SendingFlit now (core_sending ?v c) f p = Inr q"
      using True q(1) core_sending_vc [OF c v v] occ_nonneg [OF c v] v by (simp add: SimpleFeedback_SendingFlit_def queries_ok Let_def)
    moreover have "probe_ok (vat (fp_flit_sent_time q) w) (vat (sf_pending_credits q) w) (vat (bs_vc_occupancy ?c) w)"
      if w: "w \<in> {0..<bs_vcs c}" for w
      using pr [OF w] occ_nonneg [OF c v] unfolding q(3,4) core_sent_vc(1) [OF c v w]
      by (simp add: vat_vupd_in [OF v w feedback_baseD(2) [OF b]] vat_vupd_in [OF v w n]) (simp add: probe_ok_def)
    ultimately show ?thesis using q n unfolding simple_inv_def by auto
  next
    case False
    from feedback_shared_send [OF c b o full] obtain q where q: "Shared_SendingFlit f p = Inr q" "feedback_base ?c q"
        "fp_flit_sent_time q = fp_flit_sent_time p" "sf_pending_credits q = sf_pending_credits p"
      by (auto dest: more_pending)
    have "probe_ok (vat (fp_flit_sent_time q) w) (vat (sf_pending_credits q) w) (vat (bs_vc_occupancy ?c) w)"
      if w: "w \<in> {0..<bs_vcs c}" for w
      using pr [OF w] False unfolding q(3,4) core_sent_vc(1) [OF c v w] by (auto simp: probe_ok_def)
    then show ?thesis using False q n unfolding simple_inv_def by (auto simp: SimpleFeedback_SendingFlit_def Let_def)
  qed
qed

lemma simple_free:
  assumes c: "core_ok c" and p: "simple_inv c p" and v: "v \<in> {0..<bs_vcs c}" and o: "0 < vat (bs_vc_occupancy c) v"
  shows "\<exists>p'. SimpleFeedback_FreeSlotFor now (core_credit v c) v p = Inr p' \<and> simple_inv (core_credit v c) p'"
proof -
  let ?c = "core_credit v c" and ?q = "vat (fp_flit_sent_time p) v" and ?n = "vat (sf_pending_credits p) v"
  have b: "feedback_base c p" and n: "vlen (sf_pending_credits p) = bs_vcs c" using p by (simp_all add: simple_inv_def)
  have pr: "probe_ok (vat (fp_flit_sent_time p) w) (vat (sf_pending_credits p) w) (vat (bs_vc_occupancy c) w)" if "w \<in> {0..<bs_vcs c}" for w
    using p that unfolding simple_inv_def by blast
  show ?thesis
  proof (cases "?q \<noteq> [] \<and> ?n = 0")
    case True
    then have tl: "tl ?q = []" using pr [OF v] by (cases ?q) (auto simp: probe_ok_def)
    from feedback_free [OF c b v o, of now] True obtain q where q: "Feedback_FreeSlotFor now ?c v p = Inr q" "feedback_base ?c q"
        "fp_flit_sent_time q = vupd (fp_flit_sent_time p) v []" "sf_pending_credits q = sf_pending_credits p"
      by (auto dest: more_pending simp: tl)
    have "probe_ok (vat (fp_flit_sent_time q) w) (vat (sf_pending_credits q) w) (vat (bs_vc_occupancy ?c) w)"
      if w: "w \<in> {0..<bs_vcs c}" for w
      using pr [OF w] True unfolding q(3,4) core_credit_vc(1) [OF c v w] vat_vupd_in [OF v w feedback_baseD(2) [OF b]]
      by (auto simp: probe_ok_def)
    then show ?thesis using True q n unfolding simple_inv_def by (auto simp: SimpleFeedback_FreeSlotFor_def)
  next
    case False
    let ?p = "p\<lparr>sf_pending_credits := vupd (sf_pending_credits p) v (max 0 (?n - 1))\<rparr>"
    have n0: "0 \<le> ?n" using pr [OF v] by (auto simp: probe_ok_def split: if_splits)
    have "SimpleFeedback_FreeSlotFor now ?c v p = Shared_FreeSlotFor ?c v ?p"
    proof (cases "?n = 0")
      case True
      then have "vupd (sf_pending_credits p) v (max 0 (?n - 1)) = sf_pending_credits p"
        using vupd_same [of "sf_pending_credits p" v] by simp
      then show ?thesis using False True by (simp add: SimpleFeedback_FreeSlotFor_def)
    next
      case pos: False
      then have "0 < ?n" "max 0 (?n - 1) = ?n - 1" "?q \<noteq> []" using n0 pr [OF v] by (auto simp: probe_ok_def)
      then show ?thesis by (simp add: SimpleFeedback_FreeSlotFor_def)
    qed
    moreover have b': "feedback_base c ?p" using b by simp
    moreover obtain q where q: "Shared_FreeSlotFor ?c v ?p = Inr q" "feedback_base ?c q" "fp_flit_sent_time q = fp_flit_sent_time p"
        "sf_pending_credits q = sf_pending_credits ?p"
      using feedback_shared_free [OF c b' v o] by (auto dest: more_pending)
    moreover have "probe_ok (vat (fp_flit_sent_time q) w) (vat (sf_pending_credits q) w) (vat (bs_vc_occupancy ?c) w)"
      if w: "w \<in> {0..<bs_vcs c}" for w
      using pr [OF w] False n0 unfolding q(3,4) core_credit_vc(1) [OF c v w]
      by (simp add: vat_vupd_in [OF v w n]) (auto simp: probe_ok_def)
    ultimately show ?thesis using n unfolding simple_inv_def by auto
  qed
qed

interpretation sfb: buffer_policy simple_inv Inr SimpleFeedback_SendingFlit SimpleFeedback_FreeSlotFor Feedback_IsFullFor Feedback_AvailableFor
  "\<lambda>_ p v. Shared_IsFullFor p v = Inr False"
proof (unfold_locales, goal_cases)
  case (1 c p v tag)
  then show ?case using feedback_take [of c p v tag] core_take_vc(3) [of c v]
    by (auto simp: simple_inv_def simp del: atLeastLessThan_iff)
next
  case (5 c p f now)
  then show ?case by (rule simple_send)
next
  case (6 c p v now)
  then show ?case by (rule simple_free)
qed (auto simp: simple_inv_def intro: feedback_full feedback_room simp del: atLeastLessThan_iff)

end
