(* ===== verification/Buffer_Safety.thy ===== *)
theory Buffer_Safety
  imports Credit_Protocol
begin

text \<open>
  The virtual dispatch over the buffer policies meets the contract, the constructors establish the invariant, and a
  \<^verbatim>\<open>BufferState\<close> driven by the credit protocol never aborts.
\<close>

section \<open>Dispatch\<close>

fun policy_inv :: "core \<Rightarrow> policy \<Rightarrow> bool" where
  "policy_inv c (PrivatePolicy p) = private_inv c p"
| "policy_inv c (SharedPolicy p) = shared_inv c p"
| "policy_inv c (LimitedPolicy p) = limited_inv c p"
| "policy_inv c (DynamicPolicy p) = rescaled_inv (\<lambda>s a. s sdiv a) c p"
| "policy_inv c (ShiftingPolicy p) = rescaled_inv (\<lambda>s a. shift_slots s (a - 1)) c p"
| "policy_inv c (FeedbackPolicy p) = feedback_inv c p"
| "policy_inv c (SimpleFeedbackPolicy p) = simple_inv c p"
| "policy_inv c NullPolicy = False"

fun policy_roomy :: "core \<Rightarrow> policy \<Rightarrow> int \<Rightarrow> bool" where
  "policy_roomy c (PrivatePolicy p) v \<longleftrightarrow> vat (bs_vc_occupancy c) v < p"
| "policy_roomy c (SharedPolicy p) v \<longleftrightarrow> Shared_IsFullFor p v = Inr False"
| "policy_roomy c (LimitedPolicy p) v \<longleftrightarrow> Shared_IsFullFor p v = Inr False"
| "policy_roomy c (DynamicPolicy p) v \<longleftrightarrow> Shared_IsFullFor p v = Inr False"
| "policy_roomy c (ShiftingPolicy p) v \<longleftrightarrow> Shared_IsFullFor p v = Inr False"
| "policy_roomy c (FeedbackPolicy p) v \<longleftrightarrow> Shared_IsFullFor p v = Inr False"
| "policy_roomy c (SimpleFeedbackPolicy p) v \<longleftrightarrow> Shared_IsFullFor p v = Inr False"
| "policy_roomy c NullPolicy v \<longleftrightarrow> False"

interpretation bp: buffer_policy policy_inv policy_TakeBuffer policy_SendingFlit policy_FreeSlotFor policy_IsFullFor policy_AvailableFor
  policy_roomy
proof (unfold_locales, goal_cases)
  case (1 c p v tag)
  from 1(2) show ?case
    by (cases p) (auto dest!: pri.take_ok [OF 1(1) _ 1(3-5)]
      sh.take_ok [OF 1(1) _ 1(3-5)]
      lim.take_ok [OF 1(1) _ 1(3-5)]
      dyn.take_ok [OF 1(1) _ 1(3-5)]
      shf.take_ok [OF 1(1) _ 1(3-5)]
      fb.take_ok [OF 1(1) _ 1(3-5)]
      sfb.take_ok [OF 1(1) _ 1(3-5)])
next
  case (2 c p v now)
  from 2(2) show ?case
    by (cases p) (auto dest!: pri.full_avail [OF 2(1) _ 2(3)]
      sh.full_avail [OF 2(1) _ 2(3)]
      lim.full_avail [OF 2(1) _ 2(3)]
      dyn.full_avail [OF 2(1) _ 2(3)]
      shf.full_avail [OF 2(1) _ 2(3)]
      fb.full_avail [OF 2(1) _ 2(3), of _ now]
      sfb.full_avail [OF 2(1) _ 2(3), of _ now])
next
  case (3 c p v now)
  from 3(2,4) show ?case
    by (cases p) (auto dest!: pri.full_room [OF 3(1) _ 3(3)]
      sh.full_room [OF 3(1) _ 3(3)]
      lim.full_room [OF 3(1) _ 3(3)]
      dyn.full_room [OF 3(1) _ 3(3)]
      shf.full_room [OF 3(1) _ 3(3)]
      fb.full_room [OF 3(1) _ 3(3), of _ now]
      sfb.full_room [OF 3(1) _ 3(3), of _ now])
next
  case (4 c p v)
  from 4(2,4) show ?case
    by (cases p) (auto dest!: pri.room [OF 4(1) _ 4(3)]
      sh.room [OF 4(1) _ 4(3)]
      lim.room [OF 4(1) _ 4(3)]
      dyn.room [OF 4(1) _ 4(3)]
      shf.room [OF 4(1) _ 4(3)]
      fb.room [OF 4(1) _ 4(3)]
      sfb.room [OF 4(1) _ 4(3)])
next
  case (5 c p f now)
  from 5(2,4) show ?case
    by (cases p) (auto dest!: pri.send_ok [OF 5(1) _ 5(3)]
      sh.send_ok [OF 5(1) _ 5(3)]
      lim.send_ok [OF 5(1) _ 5(3)]
      dyn.send_ok [OF 5(1) _ 5(3)]
      shf.send_ok [OF 5(1) _ 5(3)]
      fb.send_ok [OF 5(1) _ 5(3), of _ now]
      sfb.send_ok [OF 5(1) _ 5(3), of _ now])
next
  case (6 c p v now)
  from 6(2) show ?case
    by (cases p) (auto dest!: pri.free_ok [OF 6(1) _ 6(3,4)]
      sh.free_ok [OF 6(1) _ 6(3,4)]
      lim.free_ok [OF 6(1) _ 6(3,4)]
      dyn.free_ok [OF 6(1) _ 6(3,4)]
      shf.free_ok [OF 6(1) _ 6(3,4)]
      fb.free_ok [OF 6(1) _ 6(3,4), of _ now]
      sfb.free_ok [OF 6(1) _ 6(3,4), of _ now])
qed

section \<open>The protocol\<close>

datatype bs_op = Take int int | Send int flit | Start int flit | Return int credit

fun bs_step :: "bs_op \<Rightarrow> buffer_state \<Rightarrow> buffer_state res" where
  "bs_step (Take vc tag) b = TakeBuffer vc tag b"
| "bs_step (Send now f) b = SendingFlit now f b"
| "bs_step (Start now f) b = bnd (TakeBuffer (fl_vc f) (fl_pid f) b) (SendingFlit now f)"
| "bs_step (Return now cr) b = ProcessCredit now cr b"

fun legal :: "bs_op \<Rightarrow> buffer_state \<Rightarrow> bool" where
  "legal (Take vc tag) b \<longleftrightarrow> IsAvailableFor (bs_core b) vc = Inr True \<and> 0 \<le> tag \<and> tag < 2147483648"
| "legal (Send now f) b \<longleftrightarrow> opened (bs_core b) (fl_vc f) \<and> IsFullFor now b (fl_vc f) = Inr False"
| "legal (Start now f) b \<longleftrightarrow> IsAvailableFor (bs_core b) (fl_vc f) = Inr True \<and> IsFullFor now b (fl_vc f) = Inr False \<and>
     0 \<le> fl_pid f \<and> fl_pid f < 2147483648"
| "legal (Return now cr) b \<longleftrightarrow> distinct (cr_vc cr) \<and>
     list_all (\<lambda>vc. vc \<in> {0..<bs_vcs (bs_core b)} \<and> 0 < vat (bs_vc_occupancy (bs_core b)) vc) (cr_vc cr)"

fun legal_run :: "bs_op list \<Rightarrow> buffer_state \<Rightarrow> bool" where
  "legal_run [] b \<longleftrightarrow> True"
| "legal_run (op # ops) b \<longleftrightarrow> legal op b \<and> (case bs_step op b of Inl e \<Rightarrow> True | Inr b' \<Rightarrow> legal_run ops b')"

definition bs_inv :: "buffer_state \<Rightarrow> bool" where
  "bs_inv b \<longleftrightarrow> core_ok (bs_core b) \<and> policy_inv (bs_core b) (bs_policy b)"

lemma TakeBuffer_ok:
  assumes b: "bs_inv b" and l: "legal (Take vc tag) b"
  shows "\<exists>b'. TakeBuffer vc tag b = Inr b' \<and> bs_inv b' \<and> bs_core b' = core_take vc tag (bs_core b) \<and>
    (policy_roomy (bs_core b) (bs_policy b) vc \<longrightarrow> policy_roomy (bs_core b') (bs_policy b') vc)"
proof -
  let ?c = "bs_core b"
  have c: "core_ok ?c" and p: "policy_inv ?c (bs_policy b)" using b by (simp_all add: bs_inv_def)
  have v: "vc \<in> {0..<bs_vcs ?c}" and u: "vat (bs_in_use_by ?c) vc < 0" and t: "0 \<le> tag" "int32 tag = tag"
    using l by (auto simp: IsAvailableFor_def bnd_Inr_iff)
  from bp.take_ok [OF c p v u t(1)] core_take_ok [OF c v t(1)] show ?thesis
    using v u t(2) by (auto simp: TakeBuffer_def Let_def bs_inv_def)
qed

lemma SendingFlit_roomy:
  assumes b: "bs_inv b" and o: "opened (bs_core b) (fl_vc f)" and r: "policy_roomy (bs_core b) (bs_policy b) (fl_vc f)"
  shows "\<exists>b'. SendingFlit now f b = Inr b' \<and> bs_inv b' \<and> bs_core b' = core_sent f (core_sending (fl_vc f) (bs_core b))"
proof -
  let ?c = "bs_core b"
  have c: "core_ok ?c" and p: "policy_inv ?c (bs_policy b)" using b by (simp_all add: bs_inv_def)
  have v: "fl_vc f \<in> {0..<bs_vcs ?c}" using o by (simp add: opened_def)
  from bp.send_ok [OF c p o r, of now] core_sent_ok [OF c o] bp.room [OF c p v r] show ?thesis
    using v by (auto simp: SendingFlit_def Let_def bs_inv_def)
qed

lemma full_roomy:
  "bs_inv b \<Longrightarrow> v \<in> {0..<bs_vcs (bs_core b)} \<Longrightarrow> IsFullFor now b v = Inr False \<Longrightarrow> policy_roomy (bs_core b) (bs_policy b) v"
  using bp.full_room [of "bs_core b" "bs_policy b" v now] by (simp add: bs_inv_def IsFullFor_def)

lemma SendingFlit_ok:
  assumes b: "bs_inv b" and l: "legal (Send now f) b"
  shows "\<exists>b'. SendingFlit now f b = Inr b' \<and> bs_inv b' \<and> bs_core b' = core_sent f (core_sending (fl_vc f) (bs_core b))"
proof -
  have o: "opened (bs_core b) (fl_vc f)" and "IsFullFor now b (fl_vc f) = Inr False" using l by simp_all
  then have "policy_roomy (bs_core b) (bs_policy b) (fl_vc f)" using full_roomy [OF b] by (simp add: opened_def)
  from SendingFlit_roomy [OF b o this] show ?thesis .
qed

text \<open>The head flit of a packet: the VC is taken just before, which may lower the limit of a dynamic policy.\<close>

lemma Start_ok:
  assumes b: "bs_inv b" and l: "legal (Start now f) b"
  shows "\<exists>b'. bs_step (Start now f) b = Inr b' \<and> bs_inv b' \<and>
    bs_core b' = core_sent f (core_sending (fl_vc f) (core_take (fl_vc f) (fl_pid f) (bs_core b)))"
proof -
  have v: "fl_vc f \<in> {0..<bs_vcs (bs_core b)}" using l by (auto simp: IsAvailableFor_def bnd_Inr_iff)
  have r: "policy_roomy (bs_core b) (bs_policy b) (fl_vc f)" using full_roomy [OF b v, of now] l by simp
  have c: "core_ok (bs_core b)" using b by (simp add: bs_inv_def)
  obtain b1 where b1: "TakeBuffer (fl_vc f) (fl_pid f) b = Inr b1" "bs_inv b1" "bs_core b1 = core_take (fl_vc f) (fl_pid f) (bs_core b)"
      "policy_roomy (bs_core b1) (bs_policy b1) (fl_vc f)"
    using TakeBuffer_ok [OF b, of "fl_vc f" "fl_pid f"] l r by auto
  have "opened (bs_core b1) (fl_vc f)" using l core_take_vc [OF c v v] v by (simp add: b1(3) opened_def)
  from SendingFlit_roomy [OF b1(2) this b1(4)] show ?thesis by (simp add: b1)
qed

lemma credit_for_ok:
  assumes b: "bs_inv b" and v: "vc \<in> {0..<bs_vcs (bs_core b)}" and o: "0 < vat (bs_vc_occupancy (bs_core b)) vc"
  shows "\<exists>b'. credit_for now vc b = Inr b' \<and> bs_inv b' \<and> bs_core b' = core_credit vc (bs_core b)"
proof -
  let ?c = "bs_core b"
  have c: "core_ok ?c" and p: "policy_inv ?c (bs_policy b)" using b by (simp_all add: bs_inv_def)
  have "\<not> (bs_wait_for_tail_credit ?c \<and> vat (bs_in_use_by ?c) vc < 0)"
    using core_okD(8) [OF c v] o by (auto simp: vc_ok_def)
  with bp.free_ok [OF c p v o, of now] core_credit_ok [OF c v o] core_occ_pos [OF c v o] show ?thesis
    using v o by (auto simp: credit_for_def Let_def bs_inv_def)
qed

text \<open>A credit can free a VC, but only one whose tail was sent.\<close>

definition frees :: "core \<Rightarrow> core \<Rightarrow> bool" where
  "frees c c' \<longleftrightarrow> bs_vcs c' = bs_vcs c \<and>
     (\<forall>w\<in>{0..<bs_vcs c}. (opened c' w \<longleftrightarrow> opened c w) \<and> (opened c w \<longrightarrow> vat (bs_in_use_by c') w = vat (bs_in_use_by c) w) \<and>
        (vat (bs_in_use_by c) w < 0 \<longrightarrow> vat (bs_in_use_by c') w < 0))"

lemma frees_trans: "frees a b \<Longrightarrow> frees b c \<Longrightarrow> frees a c"
  unfolding frees_def by simp

lemma core_credit_frees:
  assumes "core_ok c" "v \<in> {0..<bs_vcs c}"
  shows "frees c (core_credit v c)"
  unfolding frees_def opened_def core_fields using core_credit_vc(2,3) [OF assms] by auto

lemma ProcessCredit_ok:
  assumes b: "bs_inv b" and l: "legal (Return now cr) b"
  shows "\<exists>b'. ProcessCredit now cr b = Inr b' \<and> bs_inv b' \<and> bs_size (bs_core b') = bs_size (bs_core b) \<and> frees (bs_core b) (bs_core b')"
proof -
  let ?P = "\<lambda>done s. bs_inv s \<and> bs_size (bs_core s) = bs_size (bs_core b) \<and> bs_vcs (bs_core s) = bs_vcs (bs_core b) \<and>
    frees (bs_core b) (bs_core s) \<and>
    (\<forall>w\<in>{0..<bs_vcs (bs_core b)}. w \<notin> set done \<longrightarrow> vat (bs_vc_occupancy (bs_core s)) w = vat (bs_vc_occupancy (bs_core b)) w)"
  have "\<exists>s'. for_each (credit_for now) (cr_vc cr) b = Inr s' \<and> ?P (cr_vc cr) s'"
  proof (rule for_each_prefix [where P = ?P])
    fix ds x rest s
    assume e: "cr_vc cr = ds @ x # rest" and P: "?P ds s"
    have n: "bs_vcs (bs_core s) = bs_vcs (bs_core b)" using P by blast
    have x: "x \<in> {0..<bs_vcs (bs_core b)}" "0 < vat (bs_vc_occupancy (bs_core b)) x" "x \<notin> set ds"
      using l e by auto
    then have x': "x \<in> {0..<bs_vcs (bs_core s)}" "0 < vat (bs_vc_occupancy (bs_core s)) x" using P by auto
    from credit_for_ok [OF _ x', of now] P obtain s' where s': "credit_for now x s = Inr s'" "bs_inv s'"
        "bs_core s' = core_credit x (bs_core s)" by blast
    have c: "core_ok (bs_core s)" using P by (simp add: bs_inv_def)
    have "frees (bs_core b) (bs_core s')" using frees_trans core_credit_frees [OF c x'(1)] P s'(3) by metis
    with core_credit_vc(1) [OF c x'(1)] show "\<exists>s'. credit_for now x s = Inr s' \<and> ?P (ds @ [x]) s'"
      using s' P n by (auto simp del: atLeastLessThan_iff)
  qed (use b in \<open>auto simp: frees_def\<close>)
  then show ?thesis by (auto simp: ProcessCredit_def)
qed

lemma bs_step_ok:
  assumes "bs_inv b" "legal op b"
  shows "\<exists>b'. bs_step op b = Inr b' \<and> bs_inv b' \<and> bs_size (bs_core b') = bs_size (bs_core b)"
proof (cases op)
  case (Take vc tag)
  then show ?thesis using TakeBuffer_ok [of b vc tag] assms by auto
next
  case (Send now f)
  then show ?thesis using SendingFlit_ok [of b now f] assms by auto
next
  case (Start now f)
  then show ?thesis using Start_ok [of b now f] assms by auto
next
  case (Return now cr)
  then show ?thesis using ProcessCredit_ok [of b now cr] assms by auto
qed

lemma bs_run_ok:
  "bs_inv b \<Longrightarrow> legal_run ops b \<Longrightarrow> \<exists>b'. for_each bs_step ops b = Inr b' \<and> bs_inv b' \<and> bs_size (bs_core b') = bs_size (bs_core b)"
proof (induction ops arbitrary: b)
  case (Cons op ops)
  obtain b1 where b1: "bs_step op b = Inr b1" "bs_inv b1" "bs_size (bs_core b1) = bs_size (bs_core b)"
    using bs_step_ok [of b op] Cons.prems by auto
  with Cons.IH [OF b1(2)] Cons.prems show ?case by simp
qed simp

text \<open>In every state of a legal run the buffer holds between none and all of its slots.\<close>

lemma private_le:
  assumes c: "core_ok c" and p: "private_inv c p"
  shows "bs_occupancy c \<le> bs_size c"
proof -
  have "(\<Sum>v\<in>{0..<bs_vcs c}. vat (bs_vc_occupancy c) v) \<le> (\<Sum>v\<in>{0..<bs_vcs c}. p)"
    using p by (intro sum_mono) (auto simp: private_inv_def)
  then show ?thesis using core_okD(1,7) [OF c] p by (simp add: private_inv_def)
qed

lemma shared_le:
  assumes c: "core_ok c" and p: "shared_inv c p"
  shows "bs_occupancy c \<le> bs_size c"
proof -
  have "bs_occupancy c \<le> (\<Sum>w\<in>{0..<bs_vcs c}. held c p w)"
    unfolding core_okD(7) [OF c] held_def using shared_invD(3) [OF p] by (intro sum_mono) fastforce
  then show ?thesis using slots_bound [OF shared_invD(1) [OF p]] shared_invD(2) [OF p] by simp
qed

lemma occupancy_range:
  assumes "bs_inv b"
  shows "0 \<le> bs_occupancy (bs_core b)" "bs_occupancy (bs_core b) \<le> bs_size (bs_core b)"
proof -
  have c: "core_ok (bs_core b)" and p: "policy_inv (bs_core b) (bs_policy b)" using assms by (simp_all add: bs_inv_def)
  show "0 \<le> bs_occupancy (bs_core b)" unfolding core_okD(7) [OF c] by (intro sum_nonneg occ_nonneg [OF c])
  from p show "bs_occupancy (bs_core b) \<le> bs_size (bs_core b)"
    by (cases "bs_policy b")
      (auto simp: limited_inv_def rescaled_inv_def feedback_inv_def simple_inv_def feedback_base_def intro: private_le [OF c] shared_le [OF c])
qed

section \<open>The constructors\<close>

lemma map_vcs_ok:
  assumes se: "vget start_vc i = Inr s" "vget end_vc i = Inr e" "0 \<le> s" "s \<le> e" "e < vlen m"
    and free: "\<And>v. v \<in> {s..e} \<Longrightarrow> vat m v < 0"
  shows "\<exists>m'. map_vcs start_vc end_vc i m = Inr m' \<and> vlen m' = vlen m \<and>
    (\<forall>v\<in>{0..<vlen m}. vat m' v = (if v \<in> {s..e} then i else vat m v))"
proof -
  let ?f = "\<lambda>v m. bnd (vget m v) (\<lambda>x. bnd (assert_that (x < 0) ''_private_buf_vc_map[v] < 0'') (\<lambda>_. vset m v i))"
  let ?P = "\<lambda>done m'. vlen m' = vlen m \<and> (\<forall>v\<in>{0..<vlen m}. vat m' v = (if v \<in> set done then i else vat m v))"
  have "\<exists>m'. for_each ?f [s..e] m = Inr m' \<and> ?P [s..e] m'"
  proof (rule for_each_prefix [where P = ?P])
    fix ds v rest m'
    assume l: "[s..e] = ds @ v # rest" and P: "?P ds m'"
    have "v \<in> set [s..e]" using l by simp
    then have v: "v \<in> {s..e}" by simp
    have "distinct [s..e]" by simp
    then have "v \<notin> set ds" unfolding l by simp
    then have "vat m' v < 0" using P free [OF v] v se by auto
    moreover have "0 \<le> v" "v < vlen m'" using v se P by auto
    ultimately show "\<exists>m''. ?f v m' = Inr m'' \<and> ?P (ds @ [v]) m''" using P by auto
  qed simp
  then show ?thesis using se by (auto simp: map_vcs_def)
qed

text \<open>The default split of the VCs among the private buffers.\<close>

lemma split_vcs:
  assumes "1 \<le> (m::int)" "m \<le> n" "0 \<le> i" "i < m"
  shows "0 \<le> i * n div m" "i * n div m \<le> (i + 1) * n div m - 1" "(i + 1) * n div m - 1 < n"
proof -
  show "0 \<le> i * n div m" using assms by (simp add: pos_imp_zdiv_nonneg_iff)
  have "i * n div m + 1 = (i * n + m) div m" using assms(1) div_add_self2 [of m "i * n"] by simp
  also have "\<dots> \<le> (i + 1) * n div m" using assms by (intro zdiv_mono1) (auto simp: algebra_simps)
  finally show "i * n div m \<le> (i + 1) * n div m - 1" by simp
  have "(i + 1) * n div m \<le> m * n div m" using assms by (intro zdiv_mono1 mult_right_mono) auto
  then show "(i + 1) * n div m - 1 < n" using assms by simp
qed

definition num_private_bufs :: "buf_config \<Rightarrow> int" where
  "num_private_bufs cfg = (if cfg_private_bufs cfg < 0 then cfg_num_vcs cfg else if cfg_private_bufs cfg = 0 then 1 else cfg_private_bufs cfg)"

definition buf_slots :: "buf_config \<Rightarrow> int" where
  "buf_slots cfg = (if cfg_buf_size cfg < 0 then cfg_num_vcs cfg * cfg_vc_buf_size cfg else cfg_buf_size cfg)"

definition private_slots :: "buf_config \<Rightarrow> int" where
  "private_slots cfg = (if snd (cfg_private_buf_size cfg) < 0 then buf_slots cfg div num_private_bufs cfg else snd (cfg_private_buf_size cfg))"

definition good_shared :: "buf_config \<Rightarrow> bool" where
  "good_shared cfg \<longleftrightarrow> 1 \<le> cfg_num_vcs cfg \<and> num_private_bufs cfg \<le> cfg_num_vcs cfg \<and> 0 \<le> buf_slots cfg \<and>
     num_private_bufs cfg * private_slots cfg \<le> buf_slots cfg \<and> fst (cfg_private_buf_size cfg) = [] \<and>
     fst (cfg_private_buf_start_vc cfg) = [] \<and> snd (cfg_private_buf_start_vc cfg) < 0 \<and>
     fst (cfg_private_buf_end_vc cfg) = [] \<and> snd (cfg_private_buf_end_vc cfg) < 0"

lemma map_all_vcs:
  assumes m: "1 \<le> m" "m \<le> n"
  defines "st \<equiv> map (\<lambda>i. (i * n) sdiv m) (range0 m)" and "en \<equiv> map (\<lambda>i. ((i + 1) * n) sdiv m - 1) (range0 m)"
  shows "\<exists>vm. for_each (\<lambda>i (sh, vm). bnd (map_vcs st en i vm) (\<lambda>vm. Inr (sh - vat (replicate (nat m) x) i, vm)))
      (range0 m) (bs, replicate (nat n) (- 1)) = Inr (bs - m * x, vm) \<and> vlen vm = n \<and> (\<forall>v\<in>{0..<n}. vat vm v \<in> {0..<m})"
proof -
  let ?f = "\<lambda>i (sh, vm). bnd (map_vcs st en i vm) (\<lambda>vm. Inr (sh - vat (replicate (nat m) x) i, vm))"
  let ?P = "\<lambda>done (sh, vm). sh = bs - int (length done) * x \<and> vlen vm = n \<and>
    (\<forall>v\<in>{0..<n}. if v < int (length done) * n div m then vat vm v \<in> {0..<m} else vat vm v = - 1)"
  have "\<exists>s'. for_each ?f (range0 m) (bs, replicate (nat n) (- 1)) = Inr s' \<and> ?P (range0 m) s'"
  proof (rule for_each_prefix [where P = ?P])
    fix ds i rest s
    assume l: "range0 m = ds @ i # rest" and P: "?P ds s"
    obtain sh vm where s: "s = (sh, vm)" by (cases s)
    have i: "i = int (length ds)" "i < m"
    proof -
      have len: "vlen (range0 m) = m" using m by simp
      then have lt: "int (length ds) < m" unfolding l by (simp add: vlen_def)
      have "vat (range0 m) (int (length ds)) = i" unfolding l by (simp add: vat_def)
      then show "i = int (length ds)" using vat_range0 [of "int (length ds)" m] lt by simp
      with lt show "i < m" by simp
    qed
    note sp = split_vcs [OF m, of i]
    have se: "vget st i = Inr (i * n div m)" "vget en i = Inr ((i + 1) * n div m - 1)"
      using i m by (auto simp: st_def en_def vat_range0)
    have "0 \<le> i" using i by simp
    have neg: "vat vm v < 0" if v: "v \<in> {i * n div m..(i + 1) * n div m - 1}" for v
    proof -
      have "v \<in> {0..<n}" using v sp i by auto
      then show ?thesis using P v i unfolding s by (auto split: if_splits)
    qed
    obtain vm' where vm': "map_vcs st en i vm = Inr vm'" "vlen vm' = n"
        "\<forall>v\<in>{0..<n}. vat vm' v = (if v \<in> {i * n div m..(i + 1) * n div m - 1} then i else vat vm v)"
      using map_vcs_ok [OF se sp(1,2) _ neg] sp(3) P s \<open>0 \<le> i\<close> i by auto
    have "if v < (i + 1) * n div m then vat vm' v \<in> {0..<m} else vat vm' v = - 1" if v: "v \<in> {0..<n}" for v
      using bspec [OF vm'(3) v] P v i \<open>0 \<le> i\<close> sp(2) unfolding s by (auto split: if_splits)
    then show "\<exists>s'. ?f i s = Inr s' \<and> ?P (ds @ [i]) s'"
      using vm'(1,2) P i unfolding s by (simp add: algebra_simps del: atLeastLessThan_iff)
  qed (use m in auto)
  moreover have "int (length (range0 m)) = m" using m vlen_range0 [of m] by (simp add: vlen_def)
  ultimately show ?thesis using m by auto
qed

lemma new_SharedPolicy_ok:
  assumes g: "good_shared cfg"
  shows "\<exists>p. new_SharedPolicy cfg = Inr p \<and> sp_buf_size p = buf_slots cfg \<and> slots_ok (cfg_num_vcs cfg) (\<lambda>_. 0) p \<and>
    sp_reserved p = replicate (nat (cfg_num_vcs cfg)) 0"
proof -
  define n m x where "n = cfg_num_vcs cfg" and "m = num_private_bufs cfg" and "x = private_slots cfg"
  have m: "1 \<le> m" "m \<le> n" "0 \<le> buf_slots cfg" "m * x \<le> buf_slots cfg" "1 \<le> n"
    using g by (auto simp: n_def m_def x_def good_shared_def num_private_bufs_def)
  have x: "0 \<le> x" using m by (auto simp: x_def private_slots_def m_def pos_imp_zdiv_nonneg_iff)
  let ?st = "map (\<lambda>i. (i * n) sdiv m) (range0 m)" and ?en = "map (\<lambda>i. ((i + 1) * n) sdiv m - 1) (range0 m)"
  have sizes: "array_or (cfg_private_buf_size cfg) [buf_slots cfg sdiv m] = [x]"
    using g m by (simp add: array_or_def good_shared_def x_def private_slots_def m_def)
  have st: "array_or (cfg_private_buf_start_vc cfg) ?st = ?st" "array_or (cfg_private_buf_end_vc cfg) ?en = ?en"
    using g by (simp_all add: array_or_def good_shared_def)
  have rep: "take (nat m) [x] @ replicate (nat m - length [x]) (last [x]) = replicate (nat m) x"
    using m by (cases "nat m") auto
  obtain vm where vm: "for_each (\<lambda>i (sh, vm). bnd (map_vcs ?st ?en i vm) (\<lambda>vm. Inr (sh - vat (replicate (nat m) x) i, vm)))
      (range0 m) (buf_slots cfg, replicate (nat n) (- 1)) = Inr (buf_slots cfg - m * x, vm)" "vlen vm = n"
      "\<forall>v\<in>{0..<n}. vat vm v \<in> {0..<m}"
    using map_all_vcs [OF m(1,2), of x "buf_slots cfg"] by blast
  let ?p = "\<lparr>sp_buf_size = buf_slots cfg, sp_vc_map = vm, sp_private_size = replicate (nat m) x, sp_private_occ = replicate (nat m) 0,
    sp_shared_size = buf_slots cfg - m * x, sp_shared_occ = 0, sp_reserved = replicate (nat n) 0\<rparr>"
  have "new_SharedPolicy cfg = Inr ?p"
    using vm(1) m(4) unfolding new_SharedPolicy_def Let_def
    by (fold buf_slots_def num_private_bufs_def n_def) (fold m_def, simp only: sizes st rep bnd_simps prod.case, simp)
  moreover have "slots_ok n (\<lambda>_. 0) ?p"
    using vm(2,3) m x by (simp add: slots_ok_def over_def)
  ultimately show ?thesis by (auto simp: n_def)
qed

definition idle_core :: "buf_config \<Rightarrow> core" where
  "idle_core cfg =
     (let n = nat (cfg_num_vcs cfg) in
      \<lparr>bs_wait_for_tail_credit = cfg_wait_for_tail_credit cfg, bs_size = buf_slots cfg, bs_occupancy = 0,
       bs_vc_occupancy = replicate n 0, bs_vcs = cfg_num_vcs cfg, bs_in_use_by = replicate n (- 1),
       bs_tail_sent = replicate n False, bs_last_id = replicate n (- 1), bs_last_pid = replicate n (- 1)\<rparr>)"

lemma new_BufferState_core:
  "new_BufferState cfg = bnd (BufferPolicy_New cfg) (\<lambda>p. Inr \<lparr>bs_core = idle_core cfg, bs_policy = p\<rparr>)"
  by (simp add: new_BufferState_def idle_core_def buf_slots_def Let_def)

lemma idle_core_simps [simp]:
  "bs_vcs (idle_core cfg) = cfg_num_vcs cfg" "bs_size (idle_core cfg) = buf_slots cfg"
  by (simp_all add: idle_core_def Let_def)

lemma idle_core_vc:
  assumes "v \<in> {0..<cfg_num_vcs cfg}"
  shows "vat (bs_vc_occupancy (idle_core cfg)) v = 0" "\<not> opened (idle_core cfg) v"
  using assms by (simp_all add: idle_core_def Let_def opened_def)

lemma idle_core_ok: "0 \<le> cfg_num_vcs cfg \<Longrightarrow> core_ok (idle_core cfg)"
  by (simp add: core_ok_def idle_core_def Let_def vc_ok_def)

lemma idle_active: "active (idle_core cfg) = 0"
proof -
  have "{v. opened (idle_core cfg) v} = {}" using idle_core_vc(2) [of _ cfg] by (auto simp: opened_def)
  then show ?thesis by (simp add: active_def)
qed

lemma idle_shared:
  assumes "slots_ok (cfg_num_vcs cfg) (\<lambda>_. 0) p" "sp_buf_size p = buf_slots cfg" "sp_reserved p = replicate (nat (cfg_num_vcs cfg)) 0"
  shows "shared_inv (idle_core cfg) p"
proof -
  have "slots_ok (cfg_num_vcs cfg) (held (idle_core cfg) p) p"
    by (rule slots_cong [OF assms(1)]) (use idle_core_vc(1) assms(3) in \<open>simp add: held_def\<close>)
  then show ?thesis using assms(2,3) by (simp add: shared_inv_def)
qed

lemma slots_extend: "slots_ok n h (shared_policy.extend p r) = slots_ok n h p"
  by (simp add: slots_ok_def mapped_def shared_policy.defs)

lemma shift_slots_le: "0 \<le> s \<Longrightarrow> shift_slots s i \<le> s"
proof (induction s i rule: shift_slots.induct)
  case (1 s i)
  have "drop_bit 1 s \<le> s" "0 \<le> drop_bit 1 s" using 1 by (simp_all add: drop_bit_eq_div)
  then show ?case using 1 by (subst shift_slots.simps) (auto intro: order_trans)
qed

lemma shift_slots_mono: "0 \<le> s \<Longrightarrow> i \<le> j \<Longrightarrow> shift_slots s j \<le> shift_slots s i"
proof (induction s j arbitrary: i rule: shift_slots.induct)
  case (1 s j)
  show ?case
  proof (cases "0 < i")
    case True
    have "shift_slots (drop_bit 1 s) (drop_bit 1 j) \<le> shift_slots (drop_bit 1 s) (drop_bit 1 i)"
      using 1 True by (intro "1.IH") (auto simp: drop_bit_eq_div intro: zdiv_mono1)
    then show ?thesis using True 1 by (subst (1 2) shift_slots.simps) simp
  next
    case False
    then have "shift_slots s i = s" by (subst shift_slots.simps) simp
    then show ?thesis using shift_slots_le [of s j] 1 by simp
  qed
qed

text \<open>Configurations for which the constructors succeed; with the dynamic policies every VC must be worth a slot.\<close>

definition good_config :: "buf_config \<Rightarrow> bool" where
  "good_config cfg \<longleftrightarrow>
     (let n = cfg_buffer_policy cfg in
      if n = ''private'' then 1 \<le> cfg_num_vcs cfg \<and>
        (if cfg_buf_size cfg < 0 then 0 < cfg_vc_buf_size cfg else cfg_num_vcs cfg \<le> cfg_buf_size cfg)
      else good_shared cfg \<and> n \<in> {''shared'', ''limited'', ''dynamic'', ''shifting'', ''feedback'', ''simplefeedback''} \<and>
        (n = ''dynamic'' \<longrightarrow> cfg_num_vcs cfg \<le> buf_slots cfg) \<and>
        (n = ''shifting'' \<longrightarrow> 0 < shift_slots (buf_slots cfg) (cfg_num_vcs cfg - 1)))"

lemma new_PrivatePolicy_ok:
  assumes "good_config cfg" "cfg_buffer_policy cfg = ''private''"
  shows "\<exists>p. new_PrivatePolicy cfg = Inr p \<and> private_inv (idle_core cfg) p"
proof -
  define p where "p = (if cfg_buf_size cfg < 0 then cfg_vc_buf_size cfg else cfg_buf_size cfg div cfg_num_vcs cfg)"
  have n: "1 \<le> cfg_num_vcs cfg" using assms by (simp add: good_config_def Let_def)
  have p: "0 < p" using assms by (auto simp: p_def good_config_def Let_def pos_imp_zdiv_pos_iff split: if_splits)
  have "new_PrivatePolicy cfg = Inr p"
    using assms p by (auto simp: new_PrivatePolicy_def good_config_def Let_def p_def split: if_splits)
  moreover have "cfg_num_vcs cfg * p \<le> buf_slots cfg"
    using n by (auto simp: p_def buf_slots_def minus_mod_eq_mult_div [symmetric])
  then have "private_inv (idle_core cfg) p" using idle_core_vc(1) p by (simp add: private_inv_def)
  ultimately show ?thesis by blast
qed

text \<open>The traffic manager and the router construct a \<^verbatim>\<open>BufferState\<close> and set its minimum latency.\<close>

definition boot :: "buf_config \<Rightarrow> int \<Rightarrow> buffer_state res" where
  "boot cfg l = bnd (new_BufferState cfg) (SetMinLatency l)"

definition with_latency :: "int \<Rightarrow> policy \<Rightarrow> policy" where
  "with_latency l p = (case p of FeedbackPolicy q \<Rightarrow> FeedbackPolicy (Feedback_SetMinLatency l q)
     | SimpleFeedbackPolicy q \<Rightarrow> SimpleFeedbackPolicy (Feedback_SetMinLatency l q) | _ \<Rightarrow> p)"

lemma boot_policy:
  "BufferPolicy_New cfg = Inr p \<Longrightarrow> p \<noteq> NullPolicy \<Longrightarrow> boot cfg l = Inr \<lparr>bs_core = idle_core cfg, bs_policy = with_latency l p\<rparr>"
  by (cases p) (simp_all add: boot_def new_BufferState_core SetMinLatency_def with_latency_def)

lemma idle_limited:
  assumes "slots_ok (cfg_num_vcs cfg) (\<lambda>_. 0) p" "sp_buf_size p = buf_slots cfg" "sp_reserved p = replicate (nat (cfg_num_vcs cfg)) 0"
  shows "limited_inv (idle_core cfg) (shared_policy.extend p \<lparr>lp_vcs = cfg_num_vcs cfg, lp_active_vcs = 0, lp_max_held_slots = k\<rparr>)"
  (is "limited_inv _ ?p")
proof -
  have "slots_ok (cfg_num_vcs cfg) (\<lambda>_. 0) ?p" using assms(1) by (simp add: slots_extend)
  from idle_shared [OF this] assms show ?thesis by (simp add: limited_inv_def idle_active shared_policy.defs)
qed

lemma idle_feedback:
  assumes "slots_ok (cfg_num_vcs cfg) (\<lambda>_. 0) p" "sp_buf_size p = buf_slots cfg" "sp_reserved p = replicate (nat (cfg_num_vcs cfg)) 0"
    "0 \<le> cfg_num_vcs cfg" "0 \<le> l"
  shows "feedback_base (idle_core cfg) (shared_policy.extend p
      \<lparr>fp_vcs = cfg_num_vcs cfg, fp_occupancy_limit = replicate (nat (cfg_num_vcs cfg)) (sp_buf_size p),
       fp_round_trip_time = replicate (nat (cfg_num_vcs cfg)) (- 1), fp_flit_sent_time = replicate (nat (cfg_num_vcs cfg)) [],
       fp_min_latency = l, fp_total_mapped_size = sp_buf_size p * cfg_num_vcs cfg, fp_aging_scale = a, fp_offset = o1, \<dots> = z\<rparr>)"
    (is "feedback_base _ ?p")
proof -
  have "slots_ok (cfg_num_vcs cfg) (\<lambda>_. 0) ?p" using assms(1) by (simp add: slots_extend)
  from idle_shared [OF this] assms show ?thesis
    by (simp add: feedback_base_def shared_policy.defs)
qed

lemma BufferPolicy_New_ok:
  assumes g: "good_config cfg" and l: "0 \<le> l"
  shows "\<exists>p. BufferPolicy_New cfg = Inr p \<and> p \<noteq> NullPolicy \<and> policy_inv (idle_core cfg) (with_latency l p)"
proof (cases "cfg_buffer_policy cfg = ''private''")
  case True
  from new_PrivatePolicy_ok [OF g this] True show ?thesis by (auto simp: BufferPolicy_New_def with_latency_def)
next
  case False
  then have gs: "good_shared cfg" and n: "0 \<le> cfg_num_vcs cfg" using g by (auto simp: good_config_def good_shared_def Let_def)
  obtain p where p: "new_SharedPolicy cfg = Inr p" "sp_buf_size p = buf_slots cfg" "slots_ok (cfg_num_vcs cfg) (\<lambda>_. 0) p"
      "sp_reserved p = replicate (nat (cfg_num_vcs cfg)) 0"
    using new_SharedPolicy_ok [OF gs] by blast
  note lim = idle_limited [OF p(3,2,4)] and fb = idle_feedback [OF p(3,2,4) n l] and sh = idle_shared [OF p(3,2,4)]
  have pos: "0 < buf_slots cfg div a" if "cfg_num_vcs cfg \<le> buf_slots cfg" "a \<in> {1..cfg_num_vcs cfg}" for a
    using that by (auto simp: pos_imp_zdiv_pos_iff)
  consider "cfg_buffer_policy cfg = ''shared''" | "cfg_buffer_policy cfg = ''limited''" | "cfg_buffer_policy cfg = ''dynamic''"
    | "cfg_buffer_policy cfg = ''shifting''" | "cfg_buffer_policy cfg = ''feedback''" | "cfg_buffer_policy cfg = ''simplefeedback''"
    using g False by (auto simp: good_config_def Let_def)
  then show ?thesis
  proof cases
    case 1
    then show ?thesis using p(1) sh by (simp add: BufferPolicy_New_def with_latency_def)
  next
    case 2
    then show ?thesis using p(1) lim by (simp add: BufferPolicy_New_def with_latency_def new_LimitedPolicy_def)
  next
    case 3
    have le: "cfg_num_vcs cfg \<le> buf_slots cfg" "1 \<le> cfg_num_vcs cfg" using g 3 gs by (auto simp: good_config_def good_shared_def Let_def)
    have "rescaled_inv (\<lambda>s a. s sdiv a) (idle_core cfg)
        (shared_policy.extend p \<lparr>lp_vcs = cfg_num_vcs cfg, lp_active_vcs = 0, lp_max_held_slots = buf_slots cfg\<rparr>)"
      using lim [of "buf_slots cfg"] le pos p(2) by (auto simp: rescaled_inv_def shared_policy.defs)
    then show ?thesis using p(1,2) 3
      by (simp add: BufferPolicy_New_def with_latency_def new_DynamicPolicy_def new_LimitedPolicy_def shared_policy.defs)
  next
    case 4
    have s: "0 < shift_slots (buf_slots cfg) (cfg_num_vcs cfg - 1)" "0 \<le> buf_slots cfg" using g 4 gs by (auto simp: good_config_def good_shared_def Let_def)
    have "0 < shift_slots (buf_slots cfg) (a - 1)" if "a \<in> {1..cfg_num_vcs cfg}" for a
      using s shift_slots_mono [of "buf_slots cfg" "a - 1" "cfg_num_vcs cfg - 1"] that by auto
    moreover have "0 < buf_slots cfg" using s shift_slots_le [of "buf_slots cfg" "cfg_num_vcs cfg - 1"] by simp
    ultimately have "rescaled_inv (\<lambda>s a. shift_slots s (a - 1)) (idle_core cfg)
        (shared_policy.extend p \<lparr>lp_vcs = cfg_num_vcs cfg, lp_active_vcs = 0, lp_max_held_slots = buf_slots cfg\<rparr>)"
      using lim [of "buf_slots cfg"] p(2) by (auto simp: rescaled_inv_def shared_policy.defs)
    then show ?thesis using p(1,2) 4
      by (simp add: BufferPolicy_New_def with_latency_def new_DynamicPolicy_def new_LimitedPolicy_def shared_policy.defs)
  next
    case 5
    then show ?thesis using p(1) fb idle_core_vc(1) [of _ cfg] n
      by (auto simp: BufferPolicy_New_def with_latency_def new_FeedbackPolicy_def feedback_inv_def Feedback_SetMinLatency_def shared_policy.defs Let_def)
  next
    case 6
    then show ?thesis using p(1) fb n
      by (auto simp: BufferPolicy_New_def with_latency_def new_FeedbackPolicy_def new_SimpleFeedbackPolicy_def simple_inv_def probe_ok_def
          Feedback_SetMinLatency_def shared_policy.defs feedback_policy.defs Let_def)
  qed
qed

lemma boot_inv:
  assumes "good_config cfg" "0 \<le> l"
  shows "\<exists>b. boot cfg l = Inr b \<and> bs_inv b \<and> bs_size (bs_core b) = buf_slots cfg"
proof -
  have n: "0 \<le> cfg_num_vcs cfg" using assms(1) by (auto simp: good_config_def good_shared_def Let_def split: if_splits)
  from BufferPolicy_New_ok [OF assms] boot_policy [of cfg _ l] idle_core_ok [OF n] show ?thesis by (auto simp: bs_inv_def)
qed

section \<open>Properties\<close>

text \<open>
  C24: In a good configuration the constructor of \<^verbatim>\<open>BufferState\<close> succeeds for each of the seven policies, and the new buffer is empty and
  has the configured number of slots.
\<close>

theorem BufferState_constructed:
  assumes "good_config cfg" "0 \<le> l"
  shows "\<exists>b. boot cfg l = Inr b \<and> Occupancy (bs_core b) = 0 \<and> bs_size (bs_core b) = buf_slots cfg \<and> bs_vcs (bs_core b) = cfg_num_vcs cfg"
proof -
  from BufferPolicy_New_ok [OF assms] obtain p where "BufferPolicy_New cfg = Inr p" "p \<noteq> NullPolicy" by blast
  from boot_policy [OF this] show ?thesis by (simp add: Occupancy_def idle_core_def Let_def)
qed

definition cfg_shared :: buf_config where
  "cfg_shared = \<lparr>cfg_num_vcs = 2, cfg_buf_size = 3, cfg_vc_buf_size = 8, cfg_private_bufs = - 1, cfg_private_buf_size = ([], 1),
     cfg_private_buf_start_vc = ([], - 1), cfg_private_buf_end_vc = ([], - 1), cfg_max_held_slots = - 1,
     cfg_feedback_aging_scale = 1, cfg_feedback_offset = 0, cfg_wait_for_tail_credit = False, cfg_buffer_policy = ''shared''\<rparr>"

lemma cfg_shared_good: "good_config cfg_shared"
  by code_simp

theorem BufferState_constructed_witness:
  "\<exists>b. boot cfg_shared 2 = Inr b \<and> Occupancy (bs_core b) = 0 \<and> bs_size (bs_core b) = 3 \<and> bs_vcs (bs_core b) = 2"
  using BufferState_constructed [OF cfg_shared_good, of 2] by (simp add: buf_slots_def cfg_shared_def)

text \<open>
  C12: In a good configuration a \<^verbatim>\<open>BufferState\<close> driven by the credit protocol never aborts, whatever the policy. VCs are taken when available, with tags below \<open>2 ^ 31\<close>, flits
  are sent on open VCs that are not full, credits return for flits in the buffer. Then no overflow, underflow or
  assertion is ever reported and the occupancy stays between zero and the number of slots.
\<close>

theorem credit_protocol_safe:
  assumes "good_config cfg" "0 \<le> l" and b: "boot cfg l = Inr b" and r: "legal_run ops b"
  shows "\<exists>s. for_each bs_step ops b = Inr s \<and> 0 \<le> Occupancy (bs_core s) \<and> Occupancy (bs_core s) \<le> buf_slots cfg"
proof -
  from boot_inv [OF assms(1,2)] b have i: "bs_inv b" "bs_size (bs_core b) = buf_slots cfg" by auto
  from bs_run_ok [OF i(1) r] obtain s where s: "for_each bs_step ops b = Inr s" "bs_inv s" "bs_size (bs_core s) = buf_slots cfg"
    using i(2) by auto
  with occupancy_range [OF s(2)] show ?thesis by (simp add: Occupancy_def)
qed

definition some_flit :: "int \<Rightarrow> bool \<Rightarrow> flit" where
  "some_flit vc t = flit0\<lparr>fl_vc := vc, fl_tail := t\<rparr>"

definition credit_of :: "int list \<Rightarrow> credit" where
  "credit_of vcs = \<lparr>cr_vc = vcs, cr_head = False, cr_tail = False, cr_id = 0\<rparr>"

definition some_ops :: "bs_op list" where
  "some_ops = [Start 1 (some_flit 0 False\<lparr>fl_pid := 5\<rparr>), Take 1 6, Send 2 (some_flit 0 False), Return 4 (credit_of [0]),
     Send 5 (some_flit 1 True), Return 6 (credit_of [0, 1]), Send 7 (some_flit 0 True)]"

definition b_shared :: buffer_state where
  "b_shared = (case boot cfg_shared 2 of Inr b \<Rightarrow> b | Inl e \<Rightarrow> undefined)"

lemma b_shared_boot: "boot cfg_shared 2 = Inr b_shared"
  using boot_inv [OF cfg_shared_good, of 2] by (auto simp: b_shared_def)

theorem credit_protocol_safe_witness:
  "legal_run some_ops b_shared \<and> (\<exists>s. for_each bs_step some_ops b_shared = Inr s \<and> 0 \<le> Occupancy (bs_core s) \<and> Occupancy (bs_core s) \<le> 3)"
proof -
  have "legal_run some_ops b_shared" by code_simp
  moreover have "buf_slots cfg_shared = 3" by code_simp
  ultimately show ?thesis using credit_protocol_safe [OF cfg_shared_good _ b_shared_boot, of some_ops] by simp
qed

text \<open>
  After every legal run, for every policy, \<^verbatim>\<open>IsFullFor(vc)\<close> holds just when \<^verbatim>\<open>AvailableFor(vc)\<close> is not positive.
\<close>

theorem full_iff_none_available:
  assumes "good_config cfg" "0 \<le> l" and b: "boot cfg l = Inr b" and r: "legal_run ops b" and s: "for_each bs_step ops b = Inr s"
    and v: "0 \<le> vc" "vc < bs_vcs (bs_core s)"
  shows "\<exists>a. AvailableFor now s vc = Inr a \<and> IsFullFor now s vc = Inr (a \<le> 0)"
proof -
  from boot_inv [OF assms(1,2)] b have i: "bs_inv b" by auto
  from bs_run_ok [OF i r] s have "bs_inv s" by auto
  then show ?thesis using bp.full_avail [of "bs_core s" "bs_policy s" vc now] v
    by (simp add: bs_inv_def AvailableFor_def IsFullFor_def)
qed

theorem full_iff_none_available_witness:
  "\<exists>s. for_each bs_step some_ops b_shared = Inr s \<and> bs_vcs (bs_core s) = 2 \<and>
     (\<exists>a. AvailableFor 8 s 1 = Inr a \<and> IsFullFor 8 s 1 = Inr (a \<le> 0))"
proof -
  have l: "legal_run some_ops b_shared" by code_simp
  have "(case for_each bs_step some_ops b_shared of Inl e \<Rightarrow> False | Inr s \<Rightarrow> bs_vcs (bs_core s) = 2)" by code_simp
  then obtain s where s: "for_each bs_step some_ops b_shared = Inr s" "bs_vcs (bs_core s) = 2" by (auto split: sum.splits)
  from full_iff_none_available [OF cfg_shared_good _ b_shared_boot l s(1), of 1 8] s show ?thesis by auto
qed

text \<open>
  C25: A configured \<^verbatim>\<open>buf_size\<close> of zero is read in two ways: the private policy takes it as unset and uses
  \<^verbatim>\<open>vc_buf_size\<close>, the buffer state takes it as the size. The policy then says that a VC has room, and the first flit
  sent aborts with an overflow.
\<close>

theorem private_zero_buf_size:
  assumes "cfg_buffer_policy cfg = ''private''" "cfg_buf_size cfg = 0" "0 < cfg_vc_buf_size cfg" "0 \<le> fl_vc f" "fl_vc f < cfg_num_vcs cfg"
  shows "\<exists>b. new_BufferState cfg = Inr b \<and> IsFullFor now b (fl_vc f) = Inr False \<and>
    SendingFlit now f b = Inl (ErrorMsg ''Buffer overflow.'')"
  using assms idle_core_vc(1) [of "fl_vc f" cfg]
  by (simp add: new_BufferState_core BufferPolicy_New_def new_PrivatePolicy_def IsFullFor_def Private_IsFullFor_def queries_ok
      SendingFlit_def idle_core_def buf_slots_def Let_def)

theorem private_zero_buf_size_witness:
  "\<exists>b. new_BufferState (cfg_shared\<lparr>cfg_buffer_policy := ''private'', cfg_buf_size := 0\<rparr>) = Inr b \<and>
     IsFullFor 0 b 1 = Inr False \<and> SendingFlit 0 (some_flit 1 True) b = Inl (ErrorMsg ''Buffer overflow.'')"
  using private_zero_buf_size [of "cfg_shared\<lparr>cfg_buffer_policy := ''private'', cfg_buf_size := 0\<rparr>" "some_flit 1 True" 0]
  by (simp add: cfg_shared_def some_flit_def)

text \<open>
  C26: The owner of a VC is kept in an \<^verbatim>\<open>int\<close>. Right after a VC was taken for the packet \<open>tag\<close> it looks available exactly when bit 31
  of the packet number is set (the first such number is \<open>2 ^ 31\<close>), and exactly then a second packet can take it.
\<close>

theorem taken_but_available:
  assumes "bs_inv b" "0 \<le> vc" "vc < bs_vcs (bs_core b)" and b': "TakeBuffer vc tag b = Inr b'"
  shows "IsAvailableFor (bs_core b') vc = Inr (2147483648 \<le> tag mod 4294967296) \<and>
    (tag mod 4294967296 < 2147483648 \<longrightarrow> TakeBuffer vc tag2 b' = Inl (ErrorMsg ''Buffer taken while in use for VC''))"
proof -
  have c: "core_ok (bs_core b)" and v: "vc \<in> {0..<bs_vcs (bs_core b)}" using assms by (auto simp: bs_inv_def)
  have neg: "int32 tag < 0 \<longleftrightarrow> 2147483648 \<le> tag mod 4294967296"
    using pos_mod_bound [of 4294967296 tag] pos_mod_sign [of 4294967296 tag] by (simp add: int32_low Let_def not_less)
  have b: "bs_core b' = core_take vc (int32 tag) (bs_core b)"
    using b' by (auto simp: TakeBuffer_def Let_def bnd_Inr_iff split: if_splits)
  then have "vat (bs_in_use_by (bs_core b')) vc = int32 tag" "bs_vcs (bs_core b') = bs_vcs (bs_core b)"
    using core_take_vc(1) [OF c v v] by (simp_all add: core_take_def)
  then show ?thesis using v neg by (auto simp: queries_ok IsAvailableFor_def TakeBuffer_def Let_def)
qed

theorem taken_but_available_witness:
  "\<exists>b'. TakeBuffer 1 2147483650 b_shared = Inr b' \<and> IsAvailableFor (bs_core b') 1 = Inr True"
proof -
  have i: "bs_inv b_shared" using boot_inv [OF cfg_shared_good, of 2] b_shared_boot by simp
  have "(case TakeBuffer 1 2147483650 b_shared of Inl e \<Rightarrow> False | Inr b' \<Rightarrow> True)" by code_simp
  then obtain b' where "TakeBuffer 1 2147483650 b_shared = Inr b'" by (auto split: sum.splits)
  moreover have "bs_vcs (bs_core b_shared) = 2" by code_simp
  ultimately show ?thesis using taken_but_available [OF i, of 1 2147483650 b'] by simp
qed

end
