(* ===== verification/Channels.thy ===== *)
theory Channels
  imports Flits
begin

text \<open>
  Channels with a fixed latency (\<^verbatim>\<open>channel.hpp\<close>, \<^verbatim>\<open>flitchannel.cpp\<close>) and the pipeline registers of the routers
  (\<^verbatim>\<open>pipefifo.hpp\<close>). Both implement a delay line: a list of the values in flight. The time of \<^verbatim>\<open>GetSimTime()\<close> is
  an argument; it is a \<^verbatim>\<open>long long\<close>, but a channel keeps due times in an \<^verbatim>\<open>int\<close>.
\<close>

section \<open>Channels\<close>

record 'a chan =
  ch_delay :: int
  ch_input :: "'a option"
  ch_output :: "'a option"
  ch_queue :: "(int \<times> 'a) list"

definition new_Channel :: "'a chan" where
  "new_Channel = \<lparr>ch_delay = 1, ch_input = None, ch_output = None, ch_queue = []\<rparr>"

definition Channel_SetLatency :: "int \<Rightarrow> ('a, 'b) chan_scheme \<Rightarrow> ('a, 'b) chan_scheme res" where
  "Channel_SetLatency cycles c =
     (if cycles \<le> 0 then Inl (ErrorMsg ''Channel must have positive delay.'') else Inr (c\<lparr>ch_delay := cycles\<rparr>))"

definition Channel_Send :: "'a option \<Rightarrow> ('a, 'b) chan_scheme \<Rightarrow> ('a, 'b) chan_scheme" where
  "Channel_Send x c = c\<lparr>ch_input := x\<rparr>"

definition Channel_Receive :: "('a, 'b) chan_scheme \<Rightarrow> 'a option" where
  "Channel_Receive c = ch_output c"

definition Channel_ReadInputs :: "int \<Rightarrow> ('a, 'b) chan_scheme \<Rightarrow> ('a, 'b) chan_scheme" where
  "Channel_ReadInputs now c =
     (case ch_input c of
        Some x \<Rightarrow> c\<lparr>ch_queue := ch_queue c @ [(int32 (now + ch_delay c - 1), x)], ch_input := None\<rparr>
      | None \<Rightarrow> c)"

definition Channel_WriteOutputs :: "int \<Rightarrow> ('a, 'b) chan_scheme \<Rightarrow> ('a, 'b) chan_scheme res" where
  "Channel_WriteOutputs now c =
     (let c = c\<lparr>ch_output := None\<rparr> in
      case ch_queue c of
        [] \<Rightarrow> Inr c
      | (time, x) # rest \<Rightarrow>
          if now < time then Inr c
          else bnd (assert_that (now = time) ''GetSimTime() == time'') (\<lambda>_.
               Inr (c\<lparr>ch_output := Some x, ch_queue := rest\<rparr>)))"

text \<open>A flit channel also counts the flits of each class and the idle cycles.\<close>

record flit_chan = "flit chan" +
  fc_source_port :: int
  fc_sink_port :: int
  fc_active :: "int list"
  fc_idle :: int

definition new_FlitChannel :: "int \<Rightarrow> flit_chan" where
  "new_FlitChannel classes =
     chan.extend new_Channel \<lparr>fc_source_port = - 1, fc_sink_port = - 1, fc_active = replicate (nat classes) 0, fc_idle = 0\<rparr>"

definition FlitChannel_SetSource :: "int \<Rightarrow> flit_chan \<Rightarrow> flit_chan" where
  "FlitChannel_SetSource port c = c\<lparr>fc_source_port := port\<rparr>"

definition FlitChannel_SetSink :: "int \<Rightarrow> flit_chan \<Rightarrow> flit_chan" where
  "FlitChannel_SetSink port c = c\<lparr>fc_sink_port := port\<rparr>"

definition FlitChannel_Send :: "flit option \<Rightarrow> flit_chan \<Rightarrow> flit_chan res" where
  "FlitChannel_Send x c =
     (case x of
        Some f \<Rightarrow> bnd (vget (fc_active c) (fl_cl f)) (\<lambda>n.
          Inr (Channel_Send x (c\<lparr>fc_active := vupd (fc_active c) (fl_cl f) (n + 1)\<rparr>)))
      | None \<Rightarrow> Inr (Channel_Send x (c\<lparr>fc_idle := fc_idle c + 1\<rparr>)))"

section \<open>Pipeline registers\<close>

record 'a pipefifo =
  pf_lanes :: int
  pf_depth :: int
  pf_pipe_len :: int
  pf_pipe_ptr :: int
  pf_data :: "'a option list list"

definition new_PipelineFIFO :: "int \<Rightarrow> int \<Rightarrow> 'a pipefifo" where
  "new_PipelineFIFO lanes depth =
     \<lparr>pf_lanes = lanes, pf_depth = depth, pf_pipe_len = depth + 1, pf_pipe_ptr = 0,
      pf_data = replicate (nat lanes) (replicate (nat (depth + 1)) None)\<rparr>"

definition PipelineFIFO_Write :: "'a option \<Rightarrow> int \<Rightarrow> 'a pipefifo \<Rightarrow> 'a pipefifo res" where
  "PipelineFIFO_Write x lane p =
     bnd (vget (pf_data p) lane) (\<lambda>d. bnd (vset d (pf_pipe_ptr p) x) (\<lambda>d. Inr (p\<lparr>pf_data := vupd (pf_data p) lane d\<rparr>)))"

definition PipelineFIFO_WriteAll :: "'a option \<Rightarrow> 'a pipefifo \<Rightarrow> 'a pipefifo res" where
  "PipelineFIFO_WriteAll x p = for_each (PipelineFIFO_Write x) (range0 (pf_lanes p)) p"

definition PipelineFIFO_Read :: "int \<Rightarrow> 'a pipefifo \<Rightarrow> 'a option res" where
  "PipelineFIFO_Read lane p = bnd (vget (pf_data p) lane) (\<lambda>d. vget d (pf_pipe_ptr p))"

definition PipelineFIFO_Advance :: "'a pipefifo \<Rightarrow> 'a pipefifo" where
  "PipelineFIFO_Advance p = p\<lparr>pf_pipe_ptr := (pf_pipe_ptr p + 1) smod pf_pipe_len p\<rparr>"

section \<open>Delay lines\<close>

text \<open>
  The specification: the state stands for the list \<open>pipe s\<close> of the values in flight, and a step puts a value in at the
  back and takes one out at the front. \<open>ok n s\<close> says that the state is good for \<open>n\<close> further steps.
\<close>

primrec run_line :: "('a option \<Rightarrow> 's \<Rightarrow> ('s \<times> 'a option) res) \<Rightarrow> 'a option list \<Rightarrow> 's \<Rightarrow> ('s \<times> 'a option list) res" where
  "run_line step [] s = Inr (s, [])"
| "run_line step (x # xs) s = bnd (step x s) (\<lambda>(s, y). bnd (run_line step xs s) (\<lambda>(s, ys). Inr (s, y # ys)))"

locale delay_line =
  fixes step :: "'a option \<Rightarrow> 's \<Rightarrow> ('s \<times> 'a option) res" and pipe :: "'s \<Rightarrow> 'a option list" and ok :: "nat \<Rightarrow> 's \<Rightarrow> bool"
  assumes step_ok: "ok (Suc n) s \<Longrightarrow> \<exists>s'. step x s = Inr (s', hd (pipe s @ [x])) \<and> ok n s' \<and> pipe s' = tl (pipe s @ [x])"
begin

lemma run_delays:
  "ok (length xs + n) s \<Longrightarrow> \<exists>s'. run_line step xs s = Inr (s', take (length xs) (pipe s @ xs)) \<and> ok n s' \<and> pipe s' = drop (length xs) (pipe s @ xs)"
proof (induction xs arbitrary: s)
  case (Cons x xs)
  have "ok (Suc (length xs + n)) s" using Cons.prems by simp
  then obtain s1 where s1: "step x s = Inr (s1, hd (pipe s @ [x]))" "ok (length xs + n) s1" "pipe s1 = tl (pipe s @ [x])"
    using step_ok by blast
  from Cons.IH [OF s1(2)] obtain s2 where s2: "run_line step xs s1 = Inr (s2, take (length xs) (pipe s1 @ xs))" "ok n s2"
      "pipe s2 = drop (length xs) (pipe s1 @ xs)" by blast
  have e: "pipe s @ x # xs = hd (pipe s @ [x]) # pipe s1 @ xs" using s1(3) by (cases "pipe s") auto
  show ?case unfolding e using s1(1) s2 by (simp del: take_append drop_append)
qed simp

end

text \<open>One cycle of a channel: the sender puts \<open>x\<close> in, then the two phases of the channel run at time \<open>now\<close>.\<close>

definition chan_cycle :: "'a option \<Rightarrow> int \<times> 'a chan \<Rightarrow> ((int \<times> 'a chan) \<times> 'a option) res" where
  "chan_cycle x s =
     (let (now, c) = s in
      bnd (Channel_WriteOutputs now (Channel_ReadInputs now (Channel_Send x c))) (\<lambda>c. Inr ((now + 1, c), Channel_Receive c)))"

definition chan_pipe :: "int \<times> 'a chan \<Rightarrow> 'a option list" where
  "chan_pipe s = map (\<lambda>i. map_of (ch_queue (snd s)) (fst s + int i)) [0..<nat (ch_delay (snd s)) - 1]"

definition chan_ok :: "nat \<Rightarrow> int \<times> 'a chan \<Rightarrow> bool" where
  "chan_ok n s \<longleftrightarrow> 1 \<le> ch_delay (snd s) \<and> 0 \<le> fst s \<and> fst s + int n + ch_delay (snd s) < 2147483648 \<and>
     sorted_wrt (<) (map fst (ch_queue (snd s))) \<and>
     (\<forall>t\<in>fst ` set (ch_queue (snd s)). fst s \<le> t \<and> t < fst s + ch_delay (snd s) - 1)"

lemma chan_step:
  assumes "chan_ok (Suc n) s"
  shows "\<exists>s'. chan_cycle x s = Inr (s', hd (chan_pipe s @ [x])) \<and> chan_ok n s' \<and> chan_pipe s' = tl (chan_pipe s @ [x])"
proof -
  obtain now c where s: "s = (now, c)" by (cases s)
  let ?d = "ch_delay c" and ?q = "ch_queue c"
  define q where "q = (case x of Some y \<Rightarrow> ?q @ [(now + ?d - 1, y)] | None \<Rightarrow> ?q)"
  have d: "1 \<le> ?d" "0 \<le> now" "now + int n + ?d < 2147483647" and srt: "sorted_wrt (<) (map fst ?q)"
    and tm: "\<And>t. t \<in> fst ` set ?q \<Longrightarrow> now \<le> t \<and> t < now + ?d - 1"
    using assms by (auto simp: s chan_ok_def)
  have read: "Channel_ReadInputs now (Channel_Send x c) = c\<lparr>ch_input := None, ch_queue := q\<rparr>"
    using d by (cases x) (simp_all add: Channel_ReadInputs_def Channel_Send_def q_def)
  have srt': "sorted_wrt (<) (map fst q)" using srt tm by (cases x) (auto simp: q_def sorted_wrt_append)
  have tm': "now \<le> t \<and> t < now + ?d" if "t \<in> fst ` set q" for t
  proof -
    have "t \<in> fst ` set ?q \<or> t = now + ?d - 1" using that by (cases x) (auto simp: q_def)
    then show ?thesis using tm [of t] d by (elim disjE) simp_all
  qed
  have old: "map_of q t = map_of ?q t" if "t \<noteq> now + ?d - 1" for t
    using that by (cases x) (auto simp: q_def map_add_def split: option.splits)
  have "map_of ?q (now + ?d - 1) = None" unfolding map_of_eq_None_iff using tm by auto
  then have new: "map_of q (now + ?d - 1) = x"
    by (cases x) (auto simp: q_def map_add_def)
  have L: "chan_pipe s @ [x] = map (\<lambda>i. map_of q (now + int i)) [0..<nat ?d]"
  proof -
    obtain m where m: "nat ?d = Suc m" using d by (cases "nat ?d") auto
    then have last: "now + ?d - 1 = now + int m" by linarith
    have "map (\<lambda>i. map_of ?q (now + int i)) [0..<m] = map (\<lambda>i. map_of q (now + int i)) [0..<m]"
      by (rule map_cong) (auto simp: old last)
    then show ?thesis using new by (simp add: chan_pipe_def s m last)
  qed
  have hd: "hd (chan_pipe s @ [x]) = map_of q now" unfolding L using d by (simp add: hd_map)
  have tl: "tl (chan_pipe s @ [x]) = map (\<lambda>i. map_of q (now + 1 + int i)) [0..<nat ?d - 1]"
    unfolding L by (rule nth_equalityI) (auto simp: nth_tl algebra_simps)
  show ?thesis
  proof (cases "map_of q now")
    case None
    have gt: "now < t" if "t \<in> fst ` set q" for t
      using tm' [OF that] None that by (force simp: map_of_eq_None_iff)
    have "Channel_WriteOutputs now (c\<lparr>ch_input := None, ch_queue := q\<rparr>) = Inr (c\<lparr>ch_input := None, ch_queue := q, ch_output := None\<rparr>)"
      using gt by (cases q) (auto simp: Channel_WriteOutputs_def)
    then show ?thesis unfolding hd tl None
      using d srt' tm' gt by (fastforce simp: s chan_cycle_def read Channel_Receive_def chan_ok_def chan_pipe_def)
  next
    case (Some y)
    then have "now \<in> fst ` set q" by (metis map_of_eq_None_iff option.distinct(1))
    then obtain t y' r where q: "q = (t, y') # r" by (cases q) auto
    have "t = now"
    proof -
      have "now \<le> t" using tm' [of t] by (simp add: q)
      moreover have "\<not> now < t" using \<open>now \<in> fst ` set q\<close> srt' by (auto simp: q)
      ultimately show ?thesis by simp
    qed
    then have y: "y' = y" using Some by (simp add: q)
    have gt: "now < u" if "u \<in> fst ` set r" for u using srt' that \<open>t = now\<close> by (auto simp: q)
    have "map_of q (now + 1 + int i) = map_of r (now + 1 + int i)" for i using \<open>t = now\<close> by (simp add: q)
    moreover have "Channel_WriteOutputs now (c\<lparr>ch_input := None, ch_queue := q\<rparr>) = Inr (c\<lparr>ch_input := None, ch_queue := r, ch_output := Some y\<rparr>)"
      using y \<open>t = now\<close> by (simp add: Channel_WriteOutputs_def q)
    ultimately show ?thesis unfolding hd tl Some
      using d srt' tm' gt by (fastforce simp: s chan_cycle_def read Channel_Receive_def chan_ok_def chan_pipe_def q)
  qed
qed

interpretation chl: delay_line chan_cycle chan_pipe chan_ok
  by unfold_locales (rule chan_step)

text \<open>
  One cycle of a lane of a pipeline register: write, advance, read. The values in flight are those in the slots after the
  pointer.
\<close>

definition fifo_cycle :: "int \<Rightarrow> 'a option \<Rightarrow> 'a pipefifo \<Rightarrow> ('a pipefifo \<times> 'a option) res" where
  "fifo_cycle lane x p =
     bnd (PipelineFIFO_Write x lane p) (\<lambda>p. let p = PipelineFIFO_Advance p in bnd (PipelineFIFO_Read lane p) (\<lambda>y. Inr (p, y)))"

definition fifo_pipe :: "int \<Rightarrow> 'a pipefifo \<Rightarrow> 'a option list" where
  "fifo_pipe lane p =
     map (\<lambda>i. vat (vat (pf_data p) lane) ((pf_pipe_ptr p + 1 + int i) mod pf_pipe_len p)) [0..<nat (pf_depth p)]"

definition fifo_ok :: "int \<Rightarrow> nat \<Rightarrow> 'a pipefifo \<Rightarrow> bool" where
  "fifo_ok lane n p \<longleftrightarrow> 0 \<le> pf_depth p \<and> pf_pipe_len p = pf_depth p + 1 \<and> 0 \<le> pf_pipe_ptr p \<and> pf_pipe_ptr p < pf_pipe_len p \<and>
     0 \<le> lane \<and> lane < vlen (pf_data p) \<and> vlen (vat (pf_data p) lane) = pf_pipe_len p"

lemma mod_once: "0 \<le> (a::int) \<Longrightarrow> a < 2 * l \<Longrightarrow> a mod l = (if a < l then a else a - l)"
  using minus_mod_self2 [of a l] mod_pos_pos_trivial [of "a - l" l] by auto

lemma fifo_step:
  assumes ok: "fifo_ok lane (Suc n) p"
  shows "\<exists>p'. fifo_cycle lane x p = Inr (p', hd (fifo_pipe lane p @ [x])) \<and> fifo_ok lane n p' \<and> fifo_pipe lane p' = tl (fifo_pipe lane p @ [x])"
proof -
  let ?l = "pf_pipe_len p" and ?r = "pf_pipe_ptr p" and ?d = "vat (pf_data p) lane"
  have l: "0 < ?l" "?l = pf_depth p + 1" "0 \<le> ?r" "?r < ?l" "vlen ?d = ?l" "0 \<le> lane" "lane < vlen (pf_data p)"
    using ok by (auto simp: fifo_ok_def)
  define d where "d = vupd ?d ?r x"
  define p' where "p' = p\<lparr>pf_data := vupd (pf_data p) lane d, pf_pipe_ptr := (?r + 1) mod ?l\<rparr>"
  have slot: "vat d ((?r + 1 + int i) mod ?l) = (if i < nat (pf_depth p) then vat ?d ((?r + 1 + int i) mod ?l) else x)"
    if "i \<le> nat (pf_depth p)" for i
  proof -
    have "(?r + 1 + int i) mod ?l = ?r \<longleftrightarrow> i = nat (pf_depth p)"
    proof -
      have "(?r + 1 + int i) mod ?l = (if ?r + 1 + int i < ?l then ?r + 1 + int i else ?r + 1 + int i - ?l)"
        using l that by (intro mod_once) auto
      then show ?thesis using l that by auto
    qed
    moreover have "0 \<le> (?r + 1 + int i) mod ?l" "(?r + 1 + int i) mod ?l < ?l" using l(1) by simp_all
    ultimately show ?thesis using l that by (auto simp: d_def)
  qed
  have L: "fifo_pipe lane p @ [x] = map (\<lambda>i. vat d ((?r + 1 + int i) mod ?l)) [0..<Suc (nat (pf_depth p))]"
    using slot [of "nat (pf_depth p)"] slot by (auto simp: fifo_pipe_def)
  have "0 \<le> (?r + 1) mod ?l" "(?r + 1) mod ?l < ?l" using l(1) by simp_all
  then have "fifo_cycle lane x p = Inr (p', vat d ((?r + 1) mod ?l))"
    using l(1,3-7) by (simp add: fifo_cycle_def PipelineFIFO_Write_def PipelineFIFO_Advance_def PipelineFIFO_Read_def Let_def d_def p'_def)
  moreover have "hd (fifo_pipe lane p @ [x]) = vat d ((?r + 1) mod ?l)" unfolding L by (simp add: hd_map del: upt_Suc)
  moreover have "fifo_ok lane n p'" using l pos_mod_bound [OF l(1), of "?r + 1"] by (simp add: fifo_ok_def p'_def d_def)
  moreover have "((?r + 1) mod ?l + 1 + int i) mod ?l = (?r + 1 + int (Suc i)) mod ?l" for i
    using mod_add_left_eq [of "?r + 1" ?l "1 + int i"] by (simp add: algebra_simps)
  then have "fifo_pipe lane p' = tl (fifo_pipe lane p @ [x])"
    unfolding L using l(6,7) by (intro nth_equalityI) (simp_all add: fifo_pipe_def p'_def nth_tl del: upt_Suc of_nat_Suc)
  ultimately show ?thesis by simp
qed

interpretation pfl: delay_line "fifo_cycle lane" "fifo_pipe lane" "fifo_ok lane" for lane
  by unfold_locales (rule fifo_step)

section \<open>Properties\<close>

text \<open>
  C21: A channel of latency \<open>d\<close> refines a delay line: whatever is sent, cycle after cycle, comes out in the same order exactly
  \<open>d - 1\<close> cycles later, nothing is lost or doubled, and no assertion fails, as long as the time stays below \<open>2 ^ 31\<close>.
\<close>

theorem Channel_refines_delay_line:
  assumes "0 < d" and c: "Channel_SetLatency d (new_Channel :: 'a chan) = Inr c" and "0 \<le> now" "now + vlen xs + d < 2147483648"
  shows "\<exists>s. run_line chan_cycle xs (now, c) = Inr (s, take (length xs) (replicate (nat d - 1) None @ xs)) \<and>
    chan_pipe s = drop (length xs) (replicate (nat d - 1) None @ xs)"
proof -
  have c': "c = new_Channel\<lparr>ch_delay := d\<rparr>" using assms by (simp add: Channel_SetLatency_def)
  have "chan_ok (length xs + 0) (now, c)" using assms by (simp add: chan_ok_def c' new_Channel_def vlen_def)
  moreover have "chan_pipe (now, c) = replicate (nat d - 1) None"
    by (simp add: chan_pipe_def c' new_Channel_def map_replicate_const)
  ultimately show ?thesis using chl.run_delays [of xs 0 "(now, c)"] by auto
qed

theorem Channel_refines_delay_line_witness:
  "\<exists>s. run_line chan_cycle [Some 7, None, Some (8::int), Some 9] (5, new_Channel\<lparr>ch_delay := 3\<rparr>) = Inr (s, [None, None, Some 7, None]) \<and>
     chan_pipe s = [Some 8, Some 9]"
  using Channel_refines_delay_line [of 3 "new_Channel\<lparr>ch_delay := 3\<rparr>" 5 "[Some 7, None, Some (8::int), Some 9]"]
  by (simp add: Channel_SetLatency_def numeral_2_eq_2)

text \<open>
  A pipeline register of depth \<open>d\<close> refines the same delay line on each of its lanes: what is written comes out \<open>d\<close>
  cycles later, in order.
\<close>

theorem PipelineFIFO_refines_delay_line:
  fixes xs :: "'a option list"
  assumes "0 \<le> lane" "lane < lanes" "0 \<le> depth"
  shows "\<exists>p. run_line (fifo_cycle lane) xs (new_PipelineFIFO lanes depth) = Inr (p, take (length xs) (replicate (nat depth) None @ xs))"
proof -
  have "fifo_ok lane (length xs + 0) (new_PipelineFIFO lanes depth :: 'a pipefifo)" using assms by (simp add: fifo_ok_def new_PipelineFIFO_def)
  moreover have "vat (replicate (nat (depth + 1)) (None :: 'a option)) ((1 + int i) mod (depth + 1)) = None" for i
    using assms pos_mod_bound [of "depth + 1" "1 + int i"] by simp
  then have "fifo_pipe lane (new_PipelineFIFO lanes depth :: 'a pipefifo) = replicate (nat depth) None"
    using assms by (simp add: fifo_pipe_def new_PipelineFIFO_def map_replicate_const)
  ultimately show ?thesis using pfl.run_delays [of lane xs 0 "new_PipelineFIFO lanes depth"] by auto
qed

theorem PipelineFIFO_refines_delay_line_witness:
  "\<exists>p. run_line (fifo_cycle 1) [Some (4::int), Some 5, None] (new_PipelineFIFO 2 1) = Inr (p, [None, Some 4, Some 5])"
  using PipelineFIFO_refines_delay_line [of 1 2 1 "[Some (4::int), Some 5, None]"] by simp

text \<open>
  C28: The due time is kept in an \<^verbatim>\<open>int\<close>. From time \<open>2 ^ 31\<close> on (up to \<open>2 ^ 32\<close>) every value sent over an idle channel makes the
  assertion on the due time fail in the same cycle.
\<close>

theorem Channel_time_overflow:
  fixes c :: "'a chan"
  assumes "1 \<le> ch_delay c" "2147483648 \<le> now" "now + ch_delay c \<le> 4294967296" "ch_queue c = []"
  shows "chan_cycle (Some x) (now, c) = Inl (AssertFail ''GetSimTime() == time'')"
proof -
  have "(now + ch_delay c - 1 + 2147483648) mod 4294967296 = now + ch_delay c - 1 - 2147483648"
    using assms by (subst mod_once) auto
  then have "int32 (now + ch_delay c - 1) < 0" "int32 (now + ch_delay c - 1) \<noteq> now" using assms by (auto simp: int32_def)
  then show ?thesis using assms
    by (simp add: chan_cycle_def Channel_Send_def Channel_ReadInputs_def Channel_WriteOutputs_def Let_def)
qed

theorem Channel_time_overflow_witness:
  "chan_cycle (Some (1::int)) (2147483648, new_Channel) = Inl (AssertFail ''GetSimTime() == time'')"
  using Channel_time_overflow [of "new_Channel :: int chan" 2147483648 1] by (simp add: new_Channel_def)

end
