(* ===== verification/Vc.thy ===== *)
theory Vc
  imports Channels Digits
begin

text \<open>
  The input buffer of a router: virtual channels (\<^verbatim>\<open>vc.cpp\<close>) and the buffer that holds them (\<^verbatim>\<open>buffer.cpp\<close>). A flit is
  passed by value: \<^verbatim>\<open>AddFlit\<close> writes the priority into the flit it stores. The route set of a VC is a list, \<open>None\<close> when it
  is a null pointer. Watch output is left out.
\<close>

section \<open>Virtual channels\<close>

datatype eVCState = VC_idle | VC_routing | VC_vc_alloc | VC_active

datatype ePrioType = local_age_based | queue_length_based | hop_count_based | pri_none | pri_other

record vc =
  vc_buffer :: "flit list"
  vc_state :: eVCState
  vc_route_set :: "output_set option"
  vc_out_port :: int
  vc_out_vc :: int
  vc_pri_type :: ePrioType
  vc_pri :: int
  vc_priority_donation :: bool
  vc_watched :: bool
  vc_expected_pid :: int
  vc_last_id :: int
  vc_last_pid :: int
  vc_lookahead_routing :: bool

definition new_VC :: "bool \<Rightarrow> string \<Rightarrow> bool \<Rightarrow> vc" where
  "new_VC routing_delay priority donation =
     \<lparr>vc_buffer = [], vc_state = VC_idle, vc_route_set = (if \<not> routing_delay then None else Some []), vc_out_port = - 1,
      vc_out_vc = - 1,
      vc_pri_type = (if priority = ''local_age'' then local_age_based
        else if priority = ''queue_length'' then queue_length_based
        else if priority = ''hop_count'' then hop_count_based
        else if priority = ''none'' then pri_none else pri_other),
      vc_pri = 0, vc_priority_donation = donation, vc_watched = False, vc_expected_pid = - 1, vc_last_id = - 1,
      vc_last_pid = - 1, vc_lookahead_routing = \<not> routing_delay\<rparr>"

text \<open>The flit that donates its priority: the first of highest priority.\<close>

definition donor :: "flit \<Rightarrow> flit list \<Rightarrow> flit" where
  "donor f rest = fold (\<lambda>bf df. if fl_pri bf > fl_pri df then bf else df) rest f"

definition VC_UpdatePriority :: "vc \<Rightarrow> vc" where
  "VC_UpdatePriority v =
     (case vc_buffer v of
        [] \<Rightarrow> v
      | f # rest \<Rightarrow>
          if vc_pri_type v = queue_length_based then v\<lparr>vc_pri := vlen (vc_buffer v)\<rparr>
          else if vc_pri_type v \<noteq> pri_none then
            v\<lparr>vc_pri := fl_pri (if vc_pri_type v \<noteq> local_age_based \<and> vc_priority_donation v then donor f rest else f)\<rparr>
          else v)"

definition VC_AddFlit :: "int \<Rightarrow> flit \<Rightarrow> vc \<Rightarrow> vc res" where
  "VC_AddFlit now f v =
     bnd (if vc_expected_pid v \<ge> 0 then
            if fl_pid f \<noteq> vc_expected_pid v then Inl (ErrorMsg ''Received flit with unexpected packet ID'')
            else Inr (if fl_tail f then v\<lparr>vc_expected_pid := - 1\<rparr> else v)
          else Inr (if \<not> fl_tail f then v\<lparr>vc_expected_pid := int32 (fl_pid f)\<rparr> else v)) (\<lambda>v.
     bnd (if vc_pri_type v = local_age_based then
            let p = int32 (INT_MAX - now) in bnd (assert_that (p \<ge> 0) ''f->pri >= 0'') (\<lambda>_. Inr (f\<lparr>fl_pri := p\<rparr>))
          else if vc_pri_type v = hop_count_based then
            bnd (assert_that (fl_hops f \<ge> 0) ''f->pri >= 0'') (\<lambda>_. Inr (f\<lparr>fl_pri := fl_hops f\<rparr>))
          else Inr f) (\<lambda>f.
     Inr (VC_UpdatePriority (v\<lparr>vc_buffer := vc_buffer v @ [f]\<rparr>))))"

definition VC_FrontFlit :: "vc \<Rightarrow> flit option" where
  "VC_FrontFlit v = (case vc_buffer v of [] \<Rightarrow> None | f # _ \<Rightarrow> Some f)"

definition VC_RemoveFlit :: "vc \<Rightarrow> (vc \<times> flit) res" where
  "VC_RemoveFlit v =
     (case vc_buffer v of
        [] \<Rightarrow> Inl (ErrorMsg ''Trying to remove flit from empty buffer.'')
      | f # rest \<Rightarrow>
          Inr (VC_UpdatePriority (v\<lparr>vc_buffer := rest, vc_last_id := int32 (fl_id f), vc_last_pid := int32 (fl_pid f)\<rparr>), f))"

definition VC_Empty :: "vc \<Rightarrow> bool" where
  "VC_Empty v \<longleftrightarrow> vc_buffer v = []"

definition VC_SetState :: "eVCState \<Rightarrow> vc \<Rightarrow> vc" where
  "VC_SetState s v = v\<lparr>vc_state := s\<rparr>"

definition VC_SetRouteSet :: "output_set option \<Rightarrow> vc \<Rightarrow> vc" where
  "VC_SetRouteSet os v = v\<lparr>vc_route_set := os, vc_out_port := - 1, vc_out_vc := - 1\<rparr>"

definition VC_SetOutput :: "int \<Rightarrow> int \<Rightarrow> vc \<Rightarrow> vc" where
  "VC_SetOutput port out v = v\<lparr>vc_out_port := port, vc_out_vc := out\<rparr>"

definition VC_GetOccupancy :: "vc \<Rightarrow> int" where
  "VC_GetOccupancy v = vlen (vc_buffer v)"

text \<open>The routing function writes through the pointer to the route set; what it writes is an argument.\<close>

definition VC_Route :: "output_set res \<Rightarrow> vc \<Rightarrow> vc res" where
  "VC_Route rf v =
     (if vc_route_set v = None then Inl NullPointer
      else bnd rf (\<lambda>os. Inr (v\<lparr>vc_route_set := Some os, vc_out_port := - 1, vc_out_vc := - 1\<rparr>)))"

section \<open>Buffers\<close>

record buffer =
  buf_occupancy :: int
  buf_size :: int
  buf_vc :: "vc list"

definition new_Buffer :: "int \<Rightarrow> int \<Rightarrow> int \<Rightarrow> vc \<Rightarrow> buffer" where
  "new_Buffer num_vcs size_cfg vc_buf_size v =
     \<lparr>buf_occupancy = 0, buf_size = (if size_cfg < 0 then num_vcs * vc_buf_size else size_cfg), buf_vc = replicate (nat num_vcs) v\<rparr>"

definition Buffer_AddFlit :: "int \<Rightarrow> int \<Rightarrow> flit \<Rightarrow> buffer \<Rightarrow> buffer res" where
  "Buffer_AddFlit now i f b =
     (if buf_occupancy b \<ge> buf_size b then Inl (ErrorMsg ''Flit buffer overflow.'')
      else
        let b = b\<lparr>buf_occupancy := buf_occupancy b + 1\<rparr> in
        bnd (vget (buf_vc b) i) (\<lambda>v. bnd (VC_AddFlit now f v) (\<lambda>v. Inr (b\<lparr>buf_vc := vupd (buf_vc b) i v\<rparr>))))"

definition Buffer_RemoveFlit :: "int \<Rightarrow> buffer \<Rightarrow> (buffer \<times> flit) res" where
  "Buffer_RemoveFlit i b =
     (let b = b\<lparr>buf_occupancy := buf_occupancy b - 1\<rparr> in
      bnd (vget (buf_vc b) i) (\<lambda>v. bnd (VC_RemoveFlit v) (\<lambda>(v, f). Inr (b\<lparr>buf_vc := vupd (buf_vc b) i v\<rparr>, f))))"

definition Buffer_FrontFlit :: "int \<Rightarrow> buffer \<Rightarrow> flit option res" where
  "Buffer_FrontFlit i b = bnd (vget (buf_vc b) i) (\<lambda>v. Inr (VC_FrontFlit v))"

definition Buffer_Empty :: "int \<Rightarrow> buffer \<Rightarrow> bool res" where
  "Buffer_Empty i b = bnd (vget (buf_vc b) i) (\<lambda>v. Inr (VC_Empty v))"

definition Buffer_Full :: "buffer \<Rightarrow> bool" where
  "Buffer_Full b \<longleftrightarrow> buf_occupancy b \<ge> buf_size b"

text \<open>The other members apply the operation of the same name to one VC.\<close>

definition buffer_at :: "(vc \<Rightarrow> vc) \<Rightarrow> int \<Rightarrow> buffer \<Rightarrow> buffer res" where
  "buffer_at g i b = bnd (vget (buf_vc b) i) (\<lambda>v. Inr (b\<lparr>buf_vc := vupd (buf_vc b) i (g v)\<rparr>))"

definition Buffer_SetState :: "int \<Rightarrow> eVCState \<Rightarrow> buffer \<Rightarrow> buffer res" where
  "Buffer_SetState i s = buffer_at (VC_SetState s) i"

definition Buffer_SetRouteSet :: "int \<Rightarrow> output_set option \<Rightarrow> buffer \<Rightarrow> buffer res" where
  "Buffer_SetRouteSet i os = buffer_at (VC_SetRouteSet os) i"

definition Buffer_SetOutput :: "int \<Rightarrow> int \<Rightarrow> int \<Rightarrow> buffer \<Rightarrow> buffer res" where
  "Buffer_SetOutput i port out = buffer_at (VC_SetOutput port out) i"

definition Buffer_Route :: "int \<Rightarrow> output_set res \<Rightarrow> buffer \<Rightarrow> buffer res" where
  "Buffer_Route i rf b = bnd (vget (buf_vc b) i) (\<lambda>v. bnd (VC_Route rf v) (\<lambda>v. Inr (b\<lparr>buf_vc := vupd (buf_vc b) i v\<rparr>)))"

section \<open>Packets on a VC\<close>

text \<open>
  \<open>pid_ok\<close>: the packet number fits the \<^verbatim>\<open>int\<close> it is stored in. \<open>pri_ok\<close>: the assertions on the new priority hold.
  \<open>next_pid\<close> is what \<^verbatim>\<open>_expected_pid\<close> becomes.
\<close>

definition pid_ok :: "flit \<Rightarrow> bool" where
  "pid_ok f \<longleftrightarrow> 0 \<le> fl_pid f \<and> fl_pid f < 2147483648"

definition pri_ok :: "int \<Rightarrow> flit \<Rightarrow> bool" where
  "pri_ok now f \<longleftrightarrow> 0 \<le> now \<and> now < 2147483648 \<and> 0 \<le> fl_hops f"

definition next_pid :: "flit \<Rightarrow> int" where
  "next_pid f = (if fl_tail f then - 1 else fl_pid f)"

lemma UpdatePriority_fields [simp]:
  "vc_buffer (VC_UpdatePriority v) = vc_buffer v" "vc_expected_pid (VC_UpdatePriority v) = vc_expected_pid v"
  "vc_pri_type (VC_UpdatePriority v) = vc_pri_type v" "vc_priority_donation (VC_UpdatePriority v) = vc_priority_donation v"
  by (simp_all add: VC_UpdatePriority_def split: list.split)

lemma AddFlit_reject:
  "0 \<le> vc_expected_pid v \<Longrightarrow> fl_pid f \<noteq> vc_expected_pid v \<Longrightarrow>
     VC_AddFlit now f v = Inl (ErrorMsg ''Received flit with unexpected packet ID'')"
  by (simp add: VC_AddFlit_def)

lemma AddFlit_accept:
  assumes "0 \<le> vc_expected_pid v \<longrightarrow> fl_pid f = vc_expected_pid v" "pid_ok f" "pri_ok now f" "- 1 \<le> vc_expected_pid v"
  shows "\<exists>v' p. VC_AddFlit now f v = Inr v' \<and> vc_expected_pid v' = next_pid f \<and> vc_buffer v' = vc_buffer v @ [f\<lparr>fl_pri := p\<rparr>]"
proof -
  define one where "one =
    (if vc_expected_pid v \<ge> 0 then
       if fl_pid f \<noteq> vc_expected_pid v then Inl (ErrorMsg ''Received flit with unexpected packet ID'')
       else Inr (if fl_tail f then v\<lparr>vc_expected_pid := - 1\<rparr> else v)
     else Inr (if \<not> fl_tail f then v\<lparr>vc_expected_pid := int32 (fl_pid f)\<rparr> else v))"
  have e: "vc_expected_pid v = - 1" if "\<not> 0 \<le> vc_expected_pid v" using that assms(4) by simp
  have pid: "int32 (fl_pid f) = fl_pid f" using assms(2) by (simp add: pid_ok_def)
  have "\<exists>u. one = Inr u \<and> vc_expected_pid u = next_pid f \<and> vc_buffer u = vc_buffer v \<and> vc_pri_type u = vc_pri_type v"
    using assms(1) e pid by (cases "0 \<le> vc_expected_pid v"; cases "fl_tail f") (simp_all add: one_def next_pid_def)
  then obtain u where u: "one = Inr u" "vc_expected_pid u = next_pid f" "vc_buffer u = vc_buffer v" by blast
  have age: "int32 (INT_MAX - now) = INT_MAX - now" "now \<le> INT_MAX" and hops: "0 \<le> fl_hops f"
    using assms(3) by (simp_all add: pri_ok_def INT_MAX_def)
  define p where "p = (if vc_pri_type u = local_age_based then INT_MAX - now
    else if vc_pri_type u = hop_count_based then fl_hops f else fl_pri f)"
  have "VC_AddFlit now f v = Inr (VC_UpdatePriority (u\<lparr>vc_buffer := vc_buffer u @ [f\<lparr>fl_pri := p\<rparr>]\<rparr>))"
    unfolding VC_AddFlit_def one_def [symmetric] u(1) p_def by (simp add: age hops)
  then show ?thesis using u by (intro exI [of _ "VC_UpdatePriority (u\<lparr>vc_buffer := vc_buffer u @ [f\<lparr>fl_pri := p\<rparr>]\<rparr>)"] exI [of _ p]) simp
qed

fun contiguous :: "int \<Rightarrow> flit list \<Rightarrow> bool" where
  "contiguous e [] \<longleftrightarrow> True"
| "contiguous e (f # fs) \<longleftrightarrow> (0 \<le> e \<longrightarrow> fl_pid f = e) \<and> contiguous (next_pid f) fs"

lemma AddFlits_iff:
  assumes "\<forall>f\<in>set fs. pid_ok f \<and> pri_ok now f" "- 1 \<le> vc_expected_pid v"
  shows "(\<exists>v'. for_each (VC_AddFlit now) fs v = Inr v') \<longleftrightarrow> contiguous (vc_expected_pid v) fs"
  using assms
proof (induction fs arbitrary: v)
  case (Cons f fs)
  show ?case
  proof (cases "0 \<le> vc_expected_pid v \<longrightarrow> fl_pid f = vc_expected_pid v")
    case True
    obtain v' p where v': "VC_AddFlit now f v = Inr v'" "vc_expected_pid v' = next_pid f"
      using AddFlit_accept [OF True] Cons.prems by auto
    have "- 1 \<le> next_pid f" using Cons.prems by (simp add: next_pid_def pid_ok_def)
    then show ?thesis using Cons.IH [of v'] Cons.prems v' True by simp
  next
    case False
    then show ?thesis by (auto simp: AddFlit_reject)
  qed
qed simp

lemma contiguous_adjacent:
  "\<forall>f\<in>set fs. pid_ok f \<Longrightarrow>
     contiguous e fs \<longleftrightarrow> (0 \<le> e \<and> fs \<noteq> [] \<longrightarrow> fl_pid (hd fs) = e) \<and>
       (\<forall>i. Suc i < length fs \<and> \<not> fl_tail (fs ! i) \<longrightarrow> fl_pid (fs ! Suc i) = fl_pid (fs ! i))"
proof (induction fs arbitrary: e)
  case (Cons f fs)
  have "(\<forall>i. Suc i < length (f # fs) \<and> \<not> fl_tail ((f # fs) ! i) \<longrightarrow> fl_pid ((f # fs) ! Suc i) = fl_pid ((f # fs) ! i)) \<longleftrightarrow>
      (fs \<noteq> [] \<and> \<not> fl_tail f \<longrightarrow> fl_pid (hd fs) = fl_pid f) \<and>
      (\<forall>i. Suc i < length fs \<and> \<not> fl_tail (fs ! i) \<longrightarrow> fl_pid (fs ! Suc i) = fl_pid (fs ! i))" (is "?l \<longleftrightarrow> ?a \<and> ?b")
  proof
    assume l: ?l
    have ?a using spec [OF l, of 0] by (auto simp: hd_conv_nth)
    moreover have ?b using l by (metis Suc_less_eq length_Cons nth_Cons_Suc)
    ultimately show "?a \<and> ?b" ..
  next
    assume ab: "?a \<and> ?b"
    show ?l
    proof (intro allI impI)
      fix i
      assume i: "Suc i < length (f # fs) \<and> \<not> fl_tail ((f # fs) ! i)"
      show "fl_pid ((f # fs) ! Suc i) = fl_pid ((f # fs) ! i)"
        using ab i by (cases i) (auto simp: hd_conv_nth)
    qed
  qed
  moreover have "0 \<le> next_pid f \<longleftrightarrow> \<not> fl_tail f" using Cons.prems by (auto simp: next_pid_def pid_ok_def)
  ultimately show ?case using Cons.IH [of "next_pid f"] Cons.prems by (auto simp: next_pid_def)
qed simp

lemma donor_pri: "fl_pri (donor f rest) = Max (fl_pri ` set (f # rest))"
proof (induction rest arbitrary: f)
  case (Cons g rest)
  have "fl_pri (donor f (g # rest)) = Max (insert (max (fl_pri f) (fl_pri g)) (fl_pri ` set rest))"
    using Cons.IH [of g] Cons.IH [of f] by (auto simp: donor_def max_def)
  also have "\<dots> = Max (fl_pri ` set (f # g # rest))"
    by (cases "rest = []") (simp_all add: max.assoc)
  finally show ?case .
qed (simp add: donor_def)

section \<open>Properties\<close>

text \<open>
  C22: Starting empty, a VC accepts a stream of flits exactly when packets are not interleaved on it: a flit that follows one
  which is not a tail belongs to the same packet.
\<close>

theorem VC_accepts_uninterleaved:
  assumes "\<forall>f\<in>set fs. pid_ok f \<and> pri_ok now f"
  shows "(\<exists>v. for_each (VC_AddFlit now) fs (new_VC rd pri don) = Inr v) \<longleftrightarrow>
    (\<forall>i. Suc i < length fs \<and> \<not> fl_tail (fs ! i) \<longrightarrow> fl_pid (fs ! Suc i) = fl_pid (fs ! i))"
proof -
  have "vc_expected_pid (new_VC rd pri don) = - 1" by (simp add: new_VC_def)
  then show ?thesis using AddFlits_iff [OF assms, of "new_VC rd pri don"] contiguous_adjacent [of fs "- 1"] assms by auto
qed

definition pkt_flit :: "int \<Rightarrow> bool \<Rightarrow> int \<Rightarrow> flit" where
  "pkt_flit pid t p = flit0\<lparr>fl_pid := pid, fl_tail := t, fl_pri := p\<rparr>"

theorem VC_accepts_uninterleaved_witness:
  "(\<exists>v. for_each (VC_AddFlit 9) [pkt_flit 3 False 0, pkt_flit 3 True 0, pkt_flit 4 True 0] (new_VC True ''none'' False) = Inr v)"
proof -
  have "list_all (\<lambda>f. pid_ok f \<and> pri_ok 9 f) [pkt_flit 3 False 0, pkt_flit 3 True 0, pkt_flit 4 True 0]"
    by (simp add: pkt_flit_def flit0_def pid_ok_def pri_ok_def)
  then have "\<forall>f\<in>set [pkt_flit 3 False 0, pkt_flit 3 True 0, pkt_flit 4 True 0]. pid_ok f \<and> pri_ok 9 f" by (simp add: list_all_iff)
  from VC_accepts_uninterleaved [OF this, of True "''none''" False] show ?thesis
    by (auto simp: pkt_flit_def less_Suc_eq nth_Cons')
qed

text \<open>
  C27: The packet number is compared with a copy kept in an \<^verbatim>\<open>int\<close>. When the first flit of a packet of several flits enters an
  unused VC, the next flit of the same packet is rejected as belonging to another packet exactly when the packet number does not
  fit an \<^verbatim>\<open>int\<close> and its copy is not negative, that is for numbers from \<open>2 ^ 32\<close> on whose bit 31 is clear. (For the numbers with
  bit 31 set the copy is negative and no packet is expected at all.)
\<close>

theorem VC_rejects_large_pid:
  assumes "0 \<le> fl_pid f" "\<not> fl_tail f" "fl_pid g = fl_pid f" "VC_AddFlit now f (new_VC rd pri don) = Inr v"
  shows "VC_AddFlit now' g v = Inl (ErrorMsg ''Received flit with unexpected packet ID'') \<longleftrightarrow>
    4294967296 \<le> fl_pid f \<and> fl_pid f mod 4294967296 < 2147483648"
proof -
  have e: "vc_expected_pid v = int32 (fl_pid f)"
    using assms(2,4) by (auto simp: VC_AddFlit_def new_VC_def bnd_Inr_iff)
  have "VC_AddFlit now' g v = Inl (ErrorMsg ''Received flit with unexpected packet ID'') \<longleftrightarrow> 0 \<le> int32 (fl_pid f) \<and> fl_pid f \<noteq> int32 (fl_pid f)"
    using assms(3) by (auto simp: VC_AddFlit_def e assert_that_def Let_def)
  also have "\<dots> \<longleftrightarrow> 4294967296 \<le> fl_pid f \<and> fl_pid f mod 4294967296 < 2147483648"
    using assms(1) pos_mod_bound [of 4294967296 "fl_pid f"] by (cases "fl_pid f < 4294967296") (auto simp: int32_low Let_def)
  finally show ?thesis .
qed

theorem VC_rejects_large_pid_witness:
  "\<exists>v. VC_AddFlit 0 (pkt_flit 4294967300 False 0) (new_VC True ''none'' False) = Inr v \<and>
     VC_AddFlit 0 (pkt_flit 4294967300 True 0) v = Inl (ErrorMsg ''Received flit with unexpected packet ID'')"
proof -
  have "\<exists>v. VC_AddFlit 0 (pkt_flit 4294967300 False 0) (new_VC True ''none'' False) = Inr v"
    by (simp add: VC_AddFlit_def new_VC_def pkt_flit_def flit0_def)
  then obtain v where v: "VC_AddFlit 0 (pkt_flit 4294967300 False 0) (new_VC True ''none'' False) = Inr v" ..
  from VC_rejects_large_pid [OF _ _ _ v, of "pkt_flit 4294967300 True 0" 0] v show ?thesis
    by (simp add: pkt_flit_def flit0_def)
qed

text \<open>
  C23: The priority of a VC after a flit was added or removed. When the buffer is not empty it is its length, the priority of the
  front flit, or with priority donation the highest priority in the buffer, as configured; otherwise it is unchanged.
\<close>

theorem VC_priority:
  assumes "VC_AddFlit now f v = Inr v' \<or> VC_RemoveFlit v = Inr (v', f)"
  shows "vc_pri v' =
    (if vc_buffer v' = [] \<or> vc_pri_type v' = pri_none then vc_pri v
     else if vc_pri_type v' = queue_length_based then vlen (vc_buffer v')
     else if vc_pri_type v' = local_age_based \<or> \<not> vc_priority_donation v' then fl_pri (hd (vc_buffer v'))
     else Max (fl_pri ` set (vc_buffer v')))"
proof -
  obtain u where u: "v' = VC_UpdatePriority u" "vc_pri u = vc_pri v"
    using assms by (auto simp: VC_AddFlit_def VC_RemoveFlit_def bnd_Inr_iff Let_def split: if_splits list.splits)
  then show ?thesis
    by (cases "vc_buffer u") (simp_all add: donor_pri VC_UpdatePriority_def)
qed

theorem VC_priority_witness:
  "\<exists>v1 v2. VC_AddFlit 0 (pkt_flit 1 False 2) (new_VC True ''other'' True) = Inr v1 \<and>
     VC_AddFlit 0 (pkt_flit 1 True 7) v1 = Inr v2 \<and> vc_pri v2 = 7"
proof -
  define v1 where "v1 = VC_UpdatePriority (new_VC True ''other'' True\<lparr>vc_expected_pid := 1, vc_buffer := [pkt_flit 1 False 2]\<rparr>)"
  define v2 where "v2 = VC_UpdatePriority (v1\<lparr>vc_expected_pid := - 1, vc_buffer := [pkt_flit 1 False 2, pkt_flit 1 True 7]\<rparr>)"
  have 1: "VC_AddFlit 0 (pkt_flit 1 False 2) (new_VC True ''other'' True) = Inr v1"
    by (simp add: VC_AddFlit_def new_VC_def v1_def pkt_flit_def flit0_def)
  have 2: "VC_AddFlit 0 (pkt_flit 1 True 7) v1 = Inr v2"
    by (simp add: VC_AddFlit_def v2_def) (simp add: v1_def new_VC_def pkt_flit_def flit0_def)
  have "vc_pri v2 = 7" using VC_priority [OF disjI1 [OF 2]]
    by (simp add: v2_def v1_def new_VC_def pkt_flit_def flit0_def)
  with 1 2 show ?thesis by blast
qed

end
