(* ===== verification/Link.thy ===== *)
theory Link
  imports Buffer_Safety Vc
begin

text \<open>
  A link from a sender to the input of a router: the \<^verbatim>\<open>BufferState\<close> of the sender, the flits it has accounted for that wait for the
  channel, the channel, the input \<^verbatim>\<open>Buffer\<close> of the receiver, the credits that wait there, the channel that carries them back, and those
  that arrived and are not processed yet. The sender is a router or the traffic manager. A router (\<^verbatim>\<open>iq_router.cpp\<close>) takes an output VC at VC
  allocation, in the name of the input VC (\<^verbatim>\<open>TakeBuffer(match_vc, input*_vcs + vc)\<close>), and sends the flits in later cycles; they
  pass the crossbar and the output queue. It collects the VCs it drains at an input in a cycle in one credit, which goes through
  \<^verbatim>\<open>_credit_buffer\<close>, and processes the credits it receives after a delay, from \<^verbatim>\<open>_proc_credits\<close>. The traffic manager takes the VC with the
  head flit, in the name of the packet. Which of these happens in a cycle, and when, is chosen by the environment.
\<close>

section \<open>One cycle\<close>

record link =
  lk_now :: int
  lk_up :: buffer_state
  lk_packet :: "int list"
  lk_out :: "flit list"
  lk_flits :: "flit chan"
  lk_buf :: buffer
  lk_back :: "credit list"
  lk_credits :: "credit chan"
  lk_proc :: "credit list"

text \<open>
  \<open>lk_packet\<close> is bookkeeping of the environment: for each VC the number of the packet of which the sender has sent the head and not yet the
  tail, and -1 otherwise. The code has it implicitly: the flits of an output VC come out of one input VC, in order.
\<close>

datatype tx =
    Acquire int int    \<comment> \<open>VC allocation: the VC and the tag of its new owner\<close>
  | Transmit flit      \<comment> \<open>a flit on a VC acquired before\<close>
  | Inject int flit    \<comment> \<open>a head flit on a VC acquired with it\<close>

type_synonym sender = "buffer_state \<times> int list \<times> flit list"

definition transmit :: "int \<Rightarrow> flit \<Rightarrow> sender \<Rightarrow> sender res" where
  "transmit now f = (\<lambda>(u, pk, out). bnd (SendingFlit now f u) (\<lambda>u. Inr (u, vupd pk (fl_vc f) (next_pid f), out @ [f])))"

fun link_tx :: "int \<Rightarrow> tx \<Rightarrow> sender \<Rightarrow> sender res" where
  "link_tx now (Acquire v tag) (u, pk, out) = bnd (TakeBuffer v tag u) (\<lambda>u. Inr (u, pk, out))"
| "link_tx now (Transmit f) st = transmit now f st"
| "link_tx now (Inject tag f) (u, pk, out) = bnd (TakeBuffer (fl_vc f) tag u) (\<lambda>u. transmit now f (u, pk, out))"

text \<open>
  An event: how many of the received credits are processed, what the sender does, which VCs the receiver drains, and whether a
  waiting flit and a waiting credit are put on their channels.
\<close>

record link_event =
  ev_process :: nat
  ev_tx :: "tx list"
  ev_drain :: "int list"
  ev_put :: bool
  ev_return :: bool

definition link_read :: "link \<Rightarrow> link res" where
  "link_read s =
     (let now = lk_now s; fc = Channel_ReadInputs now (lk_flits s); cc = Channel_ReadInputs now (lk_credits s) in
      bnd (case Channel_Receive fc of Some f \<Rightarrow> Buffer_AddFlit now (fl_vc f) f (lk_buf s) | None \<Rightarrow> Inr (lk_buf s)) (\<lambda>b.
      Inr (s\<lparr>lk_flits := fc, lk_credits := cc, lk_buf := b,
             lk_proc := lk_proc s @ (case Channel_Receive cc of Some c \<Rightarrow> [c] | None \<Rightarrow> [])\<rparr>)))"

definition credit_on :: "int list \<Rightarrow> credit" where
  "credit_on vs = \<lparr>cr_vc = sort vs, cr_head = False, cr_tail = False, cr_id = - 1\<rparr>"

definition drain :: "int \<Rightarrow> buffer \<Rightarrow> buffer res" where
  "drain v b = bnd (Buffer_RemoveFlit v b) (\<lambda>(b, f). Inr b)"

definition front :: "bool \<Rightarrow> 'a list \<Rightarrow> 'a option \<times> 'a list" where
  "front go q = (case q of x # r \<Rightarrow> if go then (Some x, r) else (None, q) | [] \<Rightarrow> (None, []))"

definition link_evaluate :: "link_event \<Rightarrow> link \<Rightarrow> link res" where
  "link_evaluate ev s =
     (let now = lk_now s; k = ev_process ev; vs = ev_drain ev in
      bnd (for_each (ProcessCredit now) (take k (lk_proc s)) (lk_up s)) (\<lambda>u.
      bnd (for_each (link_tx now) (ev_tx ev) (u, lk_packet s, lk_out s)) (\<lambda>(u, pk, out).
      bnd (for_each drain vs (lk_buf s)) (\<lambda>b.
      let (f, out) = front (ev_put ev) out; (c, bq) = front (ev_return ev) (lk_back s @ (if vs = [] then [] else [credit_on vs])) in
      Inr (s\<lparr>lk_proc := drop k (lk_proc s), lk_up := u, lk_packet := pk, lk_out := out, lk_buf := b, lk_back := bq,
             lk_flits := Channel_Send f (lk_flits s), lk_credits := Channel_Send c (lk_credits s)\<rparr>)))))"

definition link_write :: "link \<Rightarrow> link res" where
  "link_write s =
     bnd (Channel_WriteOutputs (lk_now s) (lk_flits s)) (\<lambda>fc.
     bnd (Channel_WriteOutputs (lk_now s) (lk_credits s)) (\<lambda>cc.
     Inr (s\<lparr>lk_flits := fc, lk_credits := cc, lk_now := lk_now s + 1\<rparr>)))"

definition link_cycle :: "link_event \<Rightarrow> link \<Rightarrow> link res" where
  "link_cycle ev s = bnd (link_read s) (\<lambda>s. bnd (link_evaluate ev s) link_write)"

text \<open>
  What the environment keeps to. A VC is acquired when it is available, with a tag below \<open>2 ^ 31\<close>. A flit is sent on an acquired VC that
  is not full, a head flit when no packet is under way on the VC and any other flit when it belongs to the packet under way. A VC is drained
  only when it holds a flit, and once in a cycle.
\<close>

definition flit_ok :: "int \<Rightarrow> flit \<Rightarrow> bool" where
  "flit_ok n f \<longleftrightarrow> fl_vc f \<in> {0..<n} \<and> pid_ok f \<and> 0 \<le> fl_hops f"

definition in_order :: "flit \<Rightarrow> int list \<Rightarrow> bool" where
  "in_order f pk \<longleftrightarrow> (if fl_head f then vat pk (fl_vc f) = - 1 else fl_pid f = vat pk (fl_vc f))"

fun legal_tx :: "int \<Rightarrow> tx \<Rightarrow> sender \<Rightarrow> bool" where
  "legal_tx now (Acquire v tag) (u, pk, out) \<longleftrightarrow> legal (Take v tag) u"
| "legal_tx now (Transmit f) (u, pk, out) \<longleftrightarrow> flit_ok (bs_vcs (bs_core u)) f \<and> legal (Send now f) u \<and> in_order f pk"
| "legal_tx now (Inject tag f) (u, pk, out) \<longleftrightarrow> flit_ok (bs_vcs (bs_core u)) f \<and> fl_head f \<and> legal (Take (fl_vc f) tag) u \<and>
     IsFullFor now u (fl_vc f) = Inr False"

fun legal_txs :: "int \<Rightarrow> tx list \<Rightarrow> sender \<Rightarrow> bool" where
  "legal_txs now [] st \<longleftrightarrow> True"
| "legal_txs now (x # xs) st \<longleftrightarrow> legal_tx now x st \<and> (case link_tx now x st of Inr st' \<Rightarrow> legal_txs now xs st' | Inl _ \<Rightarrow> True)"

definition legal_rx :: "int list \<Rightarrow> buffer \<Rightarrow> bool" where
  "legal_rx vs b \<longleftrightarrow> distinct vs \<and> (\<forall>v\<in>set vs. v \<in> {0..<vlen (buf_vc b)} \<and> vc_buffer (vat (buf_vc b) v) \<noteq> [])"

definition legal_event :: "link_event \<Rightarrow> link \<Rightarrow> bool" where
  "legal_event ev s \<longleftrightarrow>
     (case for_each (ProcessCredit (lk_now s)) (take (ev_process ev) (lk_proc s)) (lk_up s) of
        Inr u \<Rightarrow> legal_txs (lk_now s) (ev_tx ev) (u, lk_packet s, lk_out s) | Inl _ \<Rightarrow> True) \<and>
     legal_rx (ev_drain ev) (lk_buf s)"

fun legal_traffic :: "link_event list \<Rightarrow> link \<Rightarrow> bool" where
  "legal_traffic [] s \<longleftrightarrow> True"
| "legal_traffic (ev # evs) s \<longleftrightarrow>
     (case link_read s of Inr s1 \<Rightarrow> legal_event ev s1 | Inl _ \<Rightarrow> True) \<and>
     (case link_cycle ev s of Inr s2 \<Rightarrow> legal_traffic evs s2 | Inl _ \<Rightarrow> True)"

section \<open>The invariant\<close>

text \<open>
  For every VC, the slots the sender counts as occupied are the flits on their way, those in the buffer and the credits
  on their way back; the flits on their way continue the packet that the receiver expects and end with the one under way, whose VC is taken.
\<close>

definition last_pid :: "int \<Rightarrow> flit list \<Rightarrow> int" where
  "last_pid e fs = fold (\<lambda>f _. next_pid f) fs e"

definition vc_link :: "int \<Rightarrow> int \<Rightarrow> flit list \<Rightarrow> vc \<Rightarrow> nat \<Rightarrow> bool" where
  "vc_link occ own fs v k \<longleftrightarrow> occ = vlen fs + vlen (vc_buffer v) + int k \<and> - 1 \<le> vc_expected_pid v \<and>
     contiguous (vc_expected_pid v) fs \<and> last_pid (vc_expected_pid v) fs = own"

definition vc_held :: "buffer \<Rightarrow> int \<Rightarrow> int" where
  "vc_held b v = vlen (vc_buffer (vat (buf_vc b) v))"

definition vc_flits :: "flit list \<Rightarrow> int \<Rightarrow> flit list" where
  "vc_flits fl v = filter (\<lambda>f. fl_vc f = v) fl"

definition vc_credits :: "credit list \<Rightarrow> int \<Rightarrow> nat" where
  "vc_credits cl v = length (filter (\<lambda>c. v \<in> set (cr_vc c)) cl)"

definition credit_ok :: "int \<Rightarrow> credit \<Rightarrow> bool" where
  "credit_ok n c \<longleftrightarrow> distinct (cr_vc c) \<and> set (cr_vc c) \<subseteq> {0..<n}"

definition linked :: "buffer_state \<Rightarrow> int list \<Rightarrow> buffer \<Rightarrow> flit list \<Rightarrow> credit list \<Rightarrow> bool" where
  "linked u pk b fl cl \<longleftrightarrow>
     (let n = bs_vcs (bs_core u) in
      bs_inv u \<and> vlen (buf_vc b) = n \<and> buf_size b = bs_size (bs_core u) \<and> buf_occupancy b = (\<Sum>v\<in>{0..<n}. vc_held b v) \<and>
      (\<forall>f\<in>set fl. flit_ok n f) \<and> (\<forall>c\<in>set cl. credit_ok n c) \<and> vlen pk = n \<and>
      (\<forall>v\<in>{0..<n}. (0 \<le> vat pk v \<longrightarrow> opened (bs_core u) v) \<and>
        vc_link (vat (bs_vc_occupancy (bs_core u)) v) (vat pk v) (vc_flits fl v) (vat (buf_vc b) v) (vc_credits cl v)))"

primrec opt_list :: "'a option \<Rightarrow> 'a list" where
  "opt_list None = []"
| "opt_list (Some x) = [x]"

definition in_flight :: "('a, 'b) chan_scheme \<Rightarrow> 'a list" where
  "in_flight c = map snd (ch_queue c) @ opt_list (ch_input c)"

definition delivered :: "('a, 'b) chan_scheme \<Rightarrow> 'a list" where
  "delivered c = opt_list (ch_output c)"

definition link_flits :: "link \<Rightarrow> flit list" where
  "link_flits s = delivered (lk_flits s) @ in_flight (lk_flits s) @ lk_out s"

definition link_credits :: "link \<Rightarrow> credit list" where
  "link_credits s = lk_proc s @ delivered (lk_credits s) @ in_flight (lk_credits s) @ lk_back s"

definition link_inv :: "nat \<Rightarrow> link \<Rightarrow> bool" where
  "link_inv n s \<longleftrightarrow> chan_ok n (lk_now s, lk_flits s) \<and> chan_ok n (lk_now s, lk_credits s) \<and>
     linked (lk_up s) (lk_packet s) (lk_buf s) (link_flits s) (link_credits s)"

section \<open>Each operation keeps the invariant\<close>

lemma linkedD:
  assumes "linked u pk b fl cl"
  shows "bs_inv u" "core_ok (bs_core u)" "vlen (buf_vc b) = bs_vcs (bs_core u)" "buf_size b = bs_size (bs_core u)"
    "buf_occupancy b = (\<Sum>v\<in>{0..<bs_vcs (bs_core u)}. vc_held b v)"
    "f \<in> set fl \<Longrightarrow> flit_ok (bs_vcs (bs_core u)) f" "c \<in> set cl \<Longrightarrow> credit_ok (bs_vcs (bs_core u)) c"
    "v \<in> {0..<bs_vcs (bs_core u)} \<Longrightarrow>
       vc_link (vat (bs_vc_occupancy (bs_core u)) v) (vat pk v) (vc_flits fl v) (vat (buf_vc b) v) (vc_credits cl v)"
    "v \<in> {0..<bs_vcs (bs_core u)} \<Longrightarrow> 0 \<le> vat pk v \<Longrightarrow> opened (bs_core u) v" "vlen pk = bs_vcs (bs_core u)"
  using assms unfolding linked_def Let_def bs_inv_def by blast+

lemma vc_flits_simps [simp]:
  "vc_flits (f # fl) v = (if fl_vc f = v then f # vc_flits fl v else vc_flits fl v)"
  "vc_flits [] v = []" "vc_flits (fl @ gl) v = vc_flits fl v @ vc_flits gl v"
  by (simp_all add: vc_flits_def)

lemma vc_credits_simps [simp]:
  "vc_credits (c # cl) v = (if v \<in> set (cr_vc c) then Suc (vc_credits cl v) else vc_credits cl v)"
  "vc_credits [] v = 0" "vc_credits (cl @ dl) v = vc_credits cl v + vc_credits dl v"
  by (simp_all add: vc_credits_def)

lemma contiguous_snoc: "contiguous e (fs @ [f]) \<longleftrightarrow> contiguous e fs \<and> (0 \<le> last_pid e fs \<longrightarrow> fl_pid f = last_pid e fs)"
  by (induction fs arbitrary: e) (auto simp: last_pid_def)

lemma last_pid_snoc [simp]: "last_pid e (fs @ [f]) = next_pid f"
  by (simp add: last_pid_def)

lemma last_pid_Cons [simp]: "last_pid e (f # fs) = last_pid (next_pid f) fs"
  by (simp add: last_pid_def)

lemma vlen_snoc [simp]: "vlen (xs @ [x]) = vlen xs + 1"
  by (simp add: vlen_def)

text \<open>The buffer of the receiver has a slot for every flit on its way.\<close>

lemma buffer_room:
  assumes l: "linked u pk b (f # fl) cl"
  shows "buf_occupancy b < buf_size b"
proof -
  let ?n = "bs_vcs (bs_core u)" and ?o = "vat (bs_vc_occupancy (bs_core u))"
  have v: "fl_vc f \<in> {0..<?n}" using linkedD(6) [OF l, of f] by (simp add: flit_ok_def)
  have le: "vc_held b w \<le> ?o w" if "w \<in> {0..<?n}" for w
    using linkedD(8) [OF l that] vlen_nonneg [of "vc_flits (f # fl) w"] unfolding vc_link_def vc_held_def by linarith
  have lt: "vc_held b (fl_vc f) < ?o (fl_vc f)"
    using linkedD(8) [OF l v] unfolding vc_link_def vc_held_def by (auto simp: vlen_def)
  have "(\<Sum>w\<in>{0..<?n}. vc_held b w) < (\<Sum>w\<in>{0..<?n}. ?o w)" using le lt v by (intro sum_strict_mono_ex1) auto
  then show ?thesis using occupancy_range(2) [OF linkedD(1) [OF l]] core_okD(7) [OF linkedD(2) [OF l]] linkedD(4,5) [OF l] by simp
qed

lemma AddFlit_linked:
  assumes l: "linked u pk b (f # fl) cl" and t: "0 \<le> now" "now < 2147483648"
  shows "\<exists>b'. Buffer_AddFlit now (fl_vc f) f b = Inr b' \<and> linked u pk b' fl cl"
proof -
  let ?n = "bs_vcs (bs_core u)" and ?v = "fl_vc f"
  have f: "flit_ok ?n f" using linkedD(6) [OF l, of f] by simp
  then have v: "?v \<in> {0..<?n}" by (simp add: flit_ok_def)
  note k = linkedD(8) [OF l v]
  have "pri_ok now f" using f t by (simp add: pri_ok_def flit_ok_def)
  then obtain w p where w: "VC_AddFlit now f (vat (buf_vc b) ?v) = Inr w" "vc_expected_pid w = next_pid f"
      "vc_buffer w = vc_buffer (vat (buf_vc b) ?v) @ [f\<lparr>fl_pri := p\<rparr>]"
    using AddFlit_accept [of "vat (buf_vc b) ?v" f now] k f unfolding vc_link_def flit_ok_def by auto
  let ?b = "b\<lparr>buf_occupancy := buf_occupancy b + 1, buf_vc := vupd (buf_vc b) ?v w\<rparr>"
  have at: "vat (buf_vc ?b) x = (if x = ?v then w else vat (buf_vc b) x)" if "x \<in> {0..<?n}" for x
    using that v linkedD(3) [OF l] by (auto simp: vat_vupd_neq)
  have "Buffer_AddFlit now ?v f b = Inr ?b" using buffer_room [OF l] v linkedD(3) [OF l] w(1) by (simp add: Buffer_AddFlit_def Let_def)
  moreover have "linked u pk ?b fl cl"
  proof -
    have "(\<Sum>x\<in>{0..<?n}. vc_held ?b x) = (\<Sum>x\<in>{0..<?n}. ((vc_held b)(?v := vc_held b ?v + 1)) x)"
      using at w(3) by (intro sum.cong) (simp_all add: vc_held_def)
    also have "\<dots> = buf_occupancy b + 1" using sum_fun_upd [OF _ v] linkedD(5) [OF l] by simp
    finally have s: "buf_occupancy ?b = (\<Sum>x\<in>{0..<?n}. vc_held ?b x)" by simp
    have g: "- 1 \<le> next_pid f" using f by (simp add: flit_ok_def next_pid_def pid_ok_def)
    have "vc_link (vat (bs_vc_occupancy (bs_core u)) x) (vat pk x) (vc_flits fl x) (vat (buf_vc ?b) x) (vc_credits cl x)"
      if x: "x \<in> {0..<?n}" for x
      using linkedD(8) [OF l x] w g unfolding at [OF x] by (auto simp: vc_link_def)
    with s linkedD(1,3,4,6,7,9,10) [OF l] show ?thesis unfolding linked_def Let_def by simp
  qed
  ultimately show ?thesis by blast
qed

lemma link_last: "vc_link occ own fs v k \<Longrightarrow> \<forall>f\<in>set fs. pid_ok f \<Longrightarrow> - 1 \<le> own"
  by (cases fs rule: rev_cases) (auto simp: vc_link_def last_pid_def next_pid_def pid_ok_def)

lemma linked_no_credit: "cr_vc c = [] \<Longrightarrow> linked u pk b fl (c # cl) \<longleftrightarrow> linked u pk b fl cl"
  by (auto simp: linked_def Let_def credit_ok_def)

lemma linked_back: "linked u pk b fl (cl @ [credit_on []]) \<longleftrightarrow> linked u pk b fl cl"
  by (auto simp: linked_def Let_def credit_ok_def credit_on_def)

lemma RemoveFlit_linked:
  assumes l: "linked u pk b fl (cl @ [credit_on ds])" and v: "v \<in> {0..<vlen (buf_vc b)}" "v \<notin> set ds" and ne: "vc_buffer (vat (buf_vc b) v) \<noteq> []"
  shows "\<exists>w. drain v b = Inr (b\<lparr>buf_occupancy := buf_occupancy b - 1, buf_vc := vupd (buf_vc b) v w\<rparr>) \<and>
    linked u pk (b\<lparr>buf_occupancy := buf_occupancy b - 1, buf_vc := vupd (buf_vc b) v w\<rparr>) fl (cl @ [credit_on (ds @ [v])])"
proof -
  let ?n = "bs_vcs (bs_core u)"
  have v': "v \<in> {0..<?n}" using v linkedD(3) [OF l] by simp
  obtain f rest where r: "vc_buffer (vat (buf_vc b) v) = f # rest" using ne by (cases "vc_buffer (vat (buf_vc b) v)") auto
  then obtain w where w: "VC_RemoveFlit (vat (buf_vc b) v) = Inr (w, f)" "vc_buffer w = rest"
      "vc_expected_pid w = vc_expected_pid (vat (buf_vc b) v)"
    by (simp add: VC_RemoveFlit_def)
  let ?b = "b\<lparr>buf_occupancy := buf_occupancy b - 1, buf_vc := vupd (buf_vc b) v w\<rparr>"
  have at: "vat (buf_vc ?b) x = (if x = v then w else vat (buf_vc b) x)" if "x \<in> {0..<?n}" for x
    using that v' linkedD(3) [OF l] by (auto simp: vat_vupd_neq)
  have "drain v b = Inr ?b" using v w(1) by (simp add: drain_def Buffer_RemoveFlit_def Let_def)
  moreover have "linked u pk ?b fl (cl @ [credit_on (ds @ [v])])"
  proof -
    have "(\<Sum>x\<in>{0..<?n}. vc_held ?b x) = (\<Sum>x\<in>{0..<?n}. ((vc_held b)(v := vc_held b v - 1)) x)"
      using at w(2) r by (intro sum.cong) (simp_all add: vc_held_def)
    also have "\<dots> = buf_occupancy b - 1" using sum_fun_upd [OF _ v'] linkedD(5) [OF l] by simp
    finally have s: "buf_occupancy ?b = (\<Sum>x\<in>{0..<?n}. vc_held ?b x)" by simp
    have "vc_link (vat (bs_vc_occupancy (bs_core u)) x) (vat pk x) (vc_flits fl x) (vat (buf_vc ?b) x)
        (vc_credits (cl @ [credit_on (ds @ [v])]) x)"
      if x: "x \<in> {0..<?n}" for x
      using linkedD(8) [OF l x] w r v(2) unfolding at [OF x] by (auto simp: vc_link_def credit_on_def)
    moreover have "credit_ok ?n c" if "c \<in> set (cl @ [credit_on (ds @ [v])])" for c
      using that linkedD(7) [OF l, of "credit_on ds"] linkedD(7) [OF l, of c] v(2) v' by (auto simp: credit_ok_def credit_on_def)
    ultimately show ?thesis using s linkedD(1,3,4,6,9,10) [OF l] unfolding linked_def Let_def by (simp del: atLeastLessThan_iff)
  qed
  ultimately show ?thesis by blast
qed

lemma drains_linked:
  assumes "linked u pk b fl (cl @ [credit_on ds])" "distinct (ds @ vs)" "legal_rx vs b"
  shows "\<exists>b'. for_each drain vs b = Inr b' \<and> linked u pk b' fl (cl @ [credit_on (ds @ vs)])"
  using assms
proof (induction vs arbitrary: ds b)
  case (Cons v vs)
  obtain w where w: "drain v b = Inr (b\<lparr>buf_occupancy := buf_occupancy b - 1, buf_vc := vupd (buf_vc b) v w\<rparr>)" (is "_ = Inr ?b")
      "linked u pk (b\<lparr>buf_occupancy := buf_occupancy b - 1, buf_vc := vupd (buf_vc b) v w\<rparr>) fl (cl @ [credit_on (ds @ [v])])"
    using RemoveFlit_linked [OF Cons.prems(1), of v] Cons.prems(2,3) by (auto simp: legal_rx_def)
  have "legal_rx vs ?b" using Cons.prems(3) by (auto simp: legal_rx_def vat_vupd_neq)
  from Cons.IH [OF w(2) _ this] Cons.prems(2) w(1) show ?case by simp
qed auto

lemma drain_linked:
  assumes "linked u pk b fl cl" "legal_rx vs b"
  shows "\<exists>b'. for_each drain vs b = Inr b' \<and> linked u pk b' fl (cl @ (if vs = [] then [] else [credit_on vs]))"
  using drains_linked [of u pk b fl cl "[]" vs] assms by (auto simp: linked_back legal_rx_def)

text \<open>A credit gives back one slot for each of its VCs.\<close>

lemma credit_for_linked:
  assumes l: "linked u pk b fl (c # cl)" and vs: "cr_vc c = v # vs"
  shows "\<exists>u'. credit_for now v u = Inr u' \<and> linked u' pk b fl (c\<lparr>cr_vc := vs\<rparr> # cl)"
proof -
  let ?c = "bs_core u" and ?n = "bs_vcs (bs_core u)"
  have v: "v \<in> {0..<?n}" "v \<notin> set vs" and ok: "credit_ok ?n (c\<lparr>cr_vc := vs\<rparr>)"
    using linkedD(7) [OF l, of c] vs by (auto simp: credit_ok_def)
  have c: "core_ok ?c" by (rule linkedD(2) [OF l])
  have "0 < vat (bs_vc_occupancy ?c) v" using linkedD(8) [OF l v(1)] vs by (auto simp: vc_link_def vlen_def)
  from credit_for_ok [OF linkedD(1) [OF l] v(1) this] obtain u' where
    u': "credit_for now v u = Inr u'" "bs_inv u'" "bs_core u' = core_credit v ?c" by blast
  have "opened (bs_core u') x" if x: "x \<in> {0..<?n}" "0 \<le> vat pk x" for x
    using linkedD(9) [OF l x] unfolding opened_def u'(3) core_fields core_credit_vc [OF c v(1) x(1)] by auto
  moreover have "vc_link (vat (bs_vc_occupancy (bs_core u')) x) (vat pk x) (vc_flits fl x) (vat (buf_vc b) x) (vc_credits (c\<lparr>cr_vc := vs\<rparr> # cl) x)"
    if x: "x \<in> {0..<?n}" for x
    using linkedD(8) [OF l x] vs v(2) core_credit_vc(1) [OF c v(1) x] unfolding u'(3) by (auto simp: vc_link_def)
  ultimately have "linked u' pk b fl (c\<lparr>cr_vc := vs\<rparr> # cl)"
    using u'(2) ok linkedD(3,4,5,6,7,10) [OF l] unfolding linked_def Let_def u'(3) core_fields
    by (auto simp del: atLeastLessThan_iff vc_credits_simps)
  then show ?thesis using u'(1) by blast
qed

lemma ProcessCredit_linked:
  "linked u pk b fl (c # cl) \<Longrightarrow> \<exists>u'. ProcessCredit now c u = Inr u' \<and> linked u' pk b fl cl"
proof (induction "cr_vc c" arbitrary: c u)
  case Nil
  then show ?case by (simp add: ProcessCredit_def linked_no_credit)
next
  case (Cons v vs)
  obtain u1 where u1: "credit_for now v u = Inr u1" "linked u1 pk b fl (c\<lparr>cr_vc := vs\<rparr> # cl)"
    using credit_for_linked [OF Cons.prems Cons.hyps(2) [symmetric]] by blast
  from Cons.hyps(1) [OF _ u1(2)] u1(1) Cons.hyps(2) [symmetric] show ?case by (simp add: ProcessCredit_def)
qed

lemma credits_linked:
  "linked u pk b fl (cs @ cl) \<Longrightarrow> \<exists>u'. for_each (ProcessCredit now) cs u = Inr u' \<and> linked u' pk b fl cl"
proof (induction cs arbitrary: u)
  case (Cons c cs)
  obtain u1 where "ProcessCredit now c u = Inr u1" "linked u1 pk b fl (cs @ cl)" using ProcessCredit_linked [of u pk b fl c "cs @ cl" now] Cons.prems by auto
  with Cons.IH [of u1] show ?case by simp
qed simp

text \<open>The sender.\<close>

lemma acquire_linked:
  assumes l: "linked u pk b fl cl" and g: "legal (Take v tag) u"
  shows "\<exists>u'. TakeBuffer v tag u = Inr u' \<and> linked u' pk b fl cl \<and> bs_core u' = core_take v tag (bs_core u) \<and> opened (bs_core u') v \<and>
    vat pk v = - 1 \<and> (policy_roomy (bs_core u) (bs_policy u) v \<longrightarrow> policy_roomy (bs_core u') (bs_policy u') v)"
proof -
  let ?c = "bs_core u" and ?n = "bs_vcs (bs_core u)"
  have c: "core_ok ?c" by (rule linkedD(2) [OF l])
  have v: "v \<in> {0..<?n}" "\<not> opened ?c v" "0 \<le> tag" using g by (auto simp: IsAvailableFor_def opened_def bnd_Inr_iff)
  obtain u' where u': "TakeBuffer v tag u = Inr u'" "bs_inv u'" "bs_core u' = core_take v tag ?c"
      "policy_roomy ?c (bs_policy u) v \<longrightarrow> policy_roomy (bs_core u') (bs_policy u') v"
    using TakeBuffer_ok [OF linkedD(1) [OF l] g] by blast
  have o: "opened (bs_core u') v" using core_take_vc [OF c v(1) v(1)] v by (simp add: u'(3) opened_def)
  have "opened (bs_core u') x" if x: "x \<in> {0..<?n}" "0 \<le> vat pk x" for x
    using linkedD(9) [OF l x] o core_take_vc [OF c v(1) x(1)] unfolding opened_def u'(3) core_fields by auto
  moreover have "vc_link (vat (bs_vc_occupancy (bs_core u')) x) (vat pk x) (vc_flits fl x) (vat (buf_vc b) x) (vc_credits cl x)"
    if x: "x \<in> {0..<?n}" for x
    using linkedD(8) [OF l x] unfolding u'(3) core_take_vc(3) [OF c v(1) x] .
  ultimately have "linked u' pk b fl cl" using u'(2) linkedD(3,4,5,6,7,10) [OF l] unfolding linked_def Let_def u'(3) core_fields
    by (simp del: atLeastLessThan_iff)
  moreover have "vat pk v = - 1"
    using linkedD(9) [OF l v(1)] v(2) link_last [OF linkedD(8) [OF l v(1)]] linkedD(6) [OF l] by (force simp: vc_flits_def flit_ok_def)
  ultimately show ?thesis using u' o by blast
qed

lemma transmit_linked:
  assumes l: "linked u pk b fl cl" and f: "flit_ok (bs_vcs (bs_core u)) f" and o: "opened (bs_core u) (fl_vc f)"
    and room: "policy_roomy (bs_core u) (bs_policy u) (fl_vc f)" and ord: "in_order f pk"
  shows "\<exists>u'. transmit now f (u, pk, out) = Inr (u', vupd pk (fl_vc f) (next_pid f), out @ [f]) \<and>
    linked u' (vupd pk (fl_vc f) (next_pid f)) b (fl @ [f]) cl"
proof -
  let ?c = "bs_core u" and ?n = "bs_vcs (bs_core u)" and ?v = "fl_vc f" and ?pk = "vupd pk (fl_vc f) (next_pid f)"
  have c: "core_ok ?c" by (rule linkedD(2) [OF l])
  have v: "?v \<in> {0..<?n}" using f by (simp add: flit_ok_def)
  obtain u' where u': "SendingFlit now f u = Inr u'" "bs_inv u'" "bs_core u' = core_sent f (core_sending ?v ?c)"
    using SendingFlit_roomy [OF linkedD(1) [OF l] o room] by blast
  have pk: "vat ?pk x = (if x = ?v then next_pid f else vat pk x)" if "x \<in> {0..<?n}" for x
    using that v linkedD(10) [OF l] by (auto simp: vat_vupd_neq)
  have "opened (bs_core u') x" if x: "x \<in> {0..<?n}" "0 \<le> vat ?pk x" for x
    using x(2) o linkedD(9) [OF l x(1)] core_sent_vc [OF c v x(1)] unfolding opened_def u'(3) core_fields pk [OF x(1)]
    by (auto simp: next_pid_def split: if_splits)
  moreover have "vc_link (vat (bs_vc_occupancy (bs_core u')) x) (vat ?pk x) (vc_flits (fl @ [f]) x) (vat (buf_vc b) x) (vc_credits cl x)"
    if x: "x \<in> {0..<?n}" for x
    using linkedD(8) [OF l x] ord unfolding u'(3) core_sent_vc(1) [OF c v x] pk [OF x]
    by (auto simp: vc_link_def contiguous_snoc in_order_def split: if_splits)
  ultimately have "linked u' ?pk b (fl @ [f]) cl" using u'(2) f linkedD(3-7,10) [OF l] unfolding linked_def Let_def u'(3) core_fields
    by (auto simp del: atLeastLessThan_iff)
  then show ?thesis using u'(1) by (simp add: transmit_def)
qed

lemma tx_linked:
  assumes l: "linked u pk b (fl @ out) cl" and g: "legal_tx now x (u, pk, out)"
  shows "\<exists>u' pk' out'. link_tx now x (u, pk, out) = Inr (u', pk', out') \<and> linked u' pk' b (fl @ out') cl"
proof (cases x)
  case (Acquire v tag)
  then show ?thesis using acquire_linked [OF l, of v tag] g by auto
next
  case (Transmit f)
  then have f: "flit_ok (bs_vcs (bs_core u)) f" "opened (bs_core u) (fl_vc f)" "IsFullFor now u (fl_vc f) = Inr False" "in_order f pk" using g by auto
  have "policy_roomy (bs_core u) (bs_policy u) (fl_vc f)" using full_roomy [OF linkedD(1) [OF l] _ f(3)] f(2) by (simp add: opened_def)
  from transmit_linked [OF l f(1,2) this f(4), of now out] Transmit show ?thesis by auto
next
  case (Inject tag f)
  then have f: "flit_ok (bs_vcs (bs_core u)) f" "fl_head f" "legal (Take (fl_vc f) tag) u" "IsFullFor now u (fl_vc f) = Inr False" using g by auto
  have "policy_roomy (bs_core u) (bs_policy u) (fl_vc f)" using full_roomy [OF linkedD(1) [OF l] _ f(4)] f(1) by (simp add: flit_ok_def)
  then obtain u1 where u1: "TakeBuffer (fl_vc f) tag u = Inr u1" "linked u1 pk b (fl @ out) cl" "bs_core u1 = core_take (fl_vc f) tag (bs_core u)"
      "opened (bs_core u1) (fl_vc f)" "vat pk (fl_vc f) = - 1" "policy_roomy (bs_core u1) (bs_policy u1) (fl_vc f)"
    using acquire_linked [OF l f(3)] by blast
  have "flit_ok (bs_vcs (bs_core u1)) f" "in_order f pk" using f u1 by (simp_all add: in_order_def)
  from transmit_linked [OF u1(2) this(1) u1(4,6) this(2), of now out] Inject u1(1) show ?thesis by auto
qed

lemma txs_linked:
  assumes "linked u pk b (fl @ out) cl" "legal_txs now xs (u, pk, out)"
  shows "\<exists>u' pk' out'. for_each (link_tx now) xs (u, pk, out) = Inr (u', pk', out') \<and> linked u' pk' b (fl @ out') cl"
  using assms
proof (induction xs arbitrary: u pk out)
  case (Cons x xs)
  obtain u1 pk1 out1 where s: "link_tx now x (u, pk, out) = Inr (u1, pk1, out1)" "linked u1 pk1 b (fl @ out1) cl"
    using tx_linked [OF Cons.prems(1), of now x] Cons.prems(2) by auto
  with Cons.IH [OF s(2)] Cons.prems(2) show ?case by auto
qed auto

section \<open>A cycle keeps the invariant\<close>

lemma write_send: "Channel_WriteOutputs now (Channel_Send x c) = bnd (Channel_WriteOutputs now c) (\<lambda>c. Inr (Channel_Send x c))"
  by (auto simp: Channel_WriteOutputs_def Channel_Send_def Let_def assert_that_def split: list.splits prod.splits)

lemma write_flight: "Channel_WriteOutputs now c = Inr c' \<Longrightarrow> delivered c' @ in_flight c' = in_flight c"
  by (auto simp: Channel_WriteOutputs_def Let_def delivered_def in_flight_def bnd_Inr_iff split: list.splits prod.splits if_splits)

lemma read_flight [simp]:
  "in_flight (Channel_ReadInputs now c) = in_flight c" "ch_input (Channel_ReadInputs now c) = None"
  "ch_output (Channel_ReadInputs now c) = ch_output c"
  by (auto simp: Channel_ReadInputs_def in_flight_def split: option.splits)

lemma send_flight: "ch_input c = None \<Longrightarrow> in_flight (Channel_Send x c) = in_flight c @ opt_list x"
  by (simp add: in_flight_def Channel_Send_def)

lemma chan_phases:
  assumes "chan_ok (Suc n) (now, c)"
  shows "\<exists>c'. Channel_WriteOutputs now (Channel_Send x (Channel_ReadInputs now c)) = Inr c' \<and> chan_ok n (now + 1, c') \<and>
    delivered c' @ in_flight c' = in_flight c @ opt_list x"
proof -
  have "Channel_Send (ch_input c) c = c" by (simp add: Channel_Send_def)
  then obtain c1 where c1: "Channel_WriteOutputs now (Channel_ReadInputs now c) = Inr c1" "chan_ok n (now + 1, c1)"
    using chan_step [OF assms, of "ch_input c"] by (auto simp: chan_cycle_def bnd_Inr_iff)
  have w: "Channel_WriteOutputs now (Channel_Send x (Channel_ReadInputs now c)) = Inr (Channel_Send x c1)"
    using c1(1) by (simp add: write_send)
  have "chan_ok n (now + 1, Channel_Send x c1)" using c1(2) by (simp add: chan_ok_def Channel_Send_def)
  with write_flight [OF w] w show ?thesis by (simp add: send_flight)
qed

lemma link_read_ok:
  assumes "link_inv (Suc n) s"
  shows "\<exists>b q. link_read s = Inr (s\<lparr>lk_flits := Channel_ReadInputs (lk_now s) (lk_flits s),
      lk_credits := Channel_ReadInputs (lk_now s) (lk_credits s), lk_buf := b, lk_proc := q\<rparr>) \<and>
    linked (lk_up s) (lk_packet s) b (in_flight (lk_flits s) @ lk_out s) (q @ in_flight (lk_credits s) @ lk_back s)"
proof -
  let ?fl = "in_flight (lk_flits s) @ lk_out s" and ?now = "lk_now s"
  have t: "0 \<le> ?now" "?now < 2147483648" using assms by (auto simp: link_inv_def chan_ok_def)
  have l: "linked (lk_up s) (lk_packet s) (lk_buf s) (delivered (lk_flits s) @ ?fl) (link_credits s)"
    using assms by (simp add: link_inv_def link_flits_def)
  obtain b where b: "(case ch_output (lk_flits s) of Some f \<Rightarrow> Buffer_AddFlit ?now (fl_vc f) f (lk_buf s) | None \<Rightarrow> Inr (lk_buf s)) = Inr b"
      "linked (lk_up s) (lk_packet s) b ?fl (link_credits s)"
  proof (cases "ch_output (lk_flits s)")
    case None
    then show ?thesis using that l by (simp add: delivered_def)
  next
    case (Some f)
    then show ?thesis using that AddFlit_linked [of "lk_up s" "lk_packet s" "lk_buf s" f ?fl, OF _ t] l by (auto simp: delivered_def)
  qed
  show ?thesis by (intro exI [of _ b] exI [of _ "lk_proc s @ delivered (lk_credits s)"])
    (use b in \<open>auto simp: link_read_def Let_def Channel_Receive_def link_credits_def delivered_def split: option.splits\<close>)
qed

lemma front_split: "front go q = (x, r) \<Longrightarrow> opt_list x @ r = q"
  by (auto simp: front_def split: list.splits if_splits)

lemma evaluate_linked:
  assumes l: "linked (lk_up s) (lk_packet s) (lk_buf s) (fl @ lk_out s) (lk_proc s @ cl @ lk_back s)" and g: "legal_event ev s"
  shows "\<exists>q u pk out b bq f c. link_evaluate ev s = Inr (s\<lparr>lk_proc := q, lk_up := u, lk_packet := pk, lk_out := out, lk_buf := b, lk_back := bq,
      lk_flits := Channel_Send f (lk_flits s), lk_credits := Channel_Send c (lk_credits s)\<rparr>) \<and>
    linked u pk b ((fl @ opt_list f) @ out) (q @ (cl @ opt_list c) @ bq)"
proof -
  let ?q = "drop (ev_process ev) (lk_proc s)" and ?vs = "ev_drain ev"
  have "linked (lk_up s) (lk_packet s) (lk_buf s) (fl @ lk_out s) (take (ev_process ev) (lk_proc s) @ ?q @ cl @ lk_back s)"
    using l by (simp flip: append_assoc)
  from credits_linked [OF this] obtain u where u: "for_each (ProcessCredit (lk_now s)) (take (ev_process ev) (lk_proc s)) (lk_up s) = Inr u"
    "linked u (lk_packet s) (lk_buf s) (fl @ lk_out s) (?q @ cl @ lk_back s)" by blast
  from g u(1) have tx: "legal_txs (lk_now s) (ev_tx ev) (u, lk_packet s, lk_out s)" and rx: "legal_rx ?vs (lk_buf s)" by (simp_all add: legal_event_def)
  from txs_linked [OF u(2) tx] obtain u1 pk out where t: "for_each (link_tx (lk_now s)) (ev_tx ev) (u, lk_packet s, lk_out s) = Inr (u1, pk, out)"
    "linked u1 pk (lk_buf s) (fl @ out) (?q @ cl @ lk_back s)" by blast
  from drain_linked [OF t(2) rx] obtain b where b: "for_each drain ?vs (lk_buf s) = Inr b"
    "linked u1 pk b (fl @ out) (?q @ cl @ lk_back s @ (if ?vs = [] then [] else [credit_on ?vs]))" by auto
  obtain f out' where f: "front (ev_put ev) out = (f, out')" by (cases "front (ev_put ev) out")
  obtain c bq where c: "front (ev_return ev) (lk_back s @ (if ?vs = [] then [] else [credit_on ?vs])) = (c, bq)"
    by (cases "front (ev_return ev) (lk_back s @ (if ?vs = [] then [] else [credit_on ?vs]))")
  have "linked u1 pk b ((fl @ opt_list f) @ out') (?q @ (cl @ opt_list c) @ bq)"
    using b(2) front_split [OF f] front_split [OF c] by simp
  moreover have "link_evaluate ev s = Inr (s\<lparr>lk_proc := ?q, lk_up := u1, lk_packet := pk, lk_out := out', lk_buf := b, lk_back := bq,
      lk_flits := Channel_Send f (lk_flits s), lk_credits := Channel_Send c (lk_credits s)\<rparr>)"
    by (simp only: link_evaluate_def Let_def u(1) t(1) b(1) bnd_simps prod.case f c)
  ultimately show ?thesis by blast
qed

lemma link_cycle_ok:
  assumes i: "link_inv (Suc n) s"
  shows "\<exists>s1. link_read s = Inr s1 \<and> (legal_event ev s1 \<longrightarrow> (\<exists>s2. link_cycle ev s = Inr s2 \<and> link_inv n s2))"
proof -
  let ?now = "lk_now s" and ?fl = "in_flight (lk_flits s)" and ?cl = "in_flight (lk_credits s)"
  obtain b q where r: "link_read s = Inr (s\<lparr>lk_flits := Channel_ReadInputs ?now (lk_flits s),
      lk_credits := Channel_ReadInputs ?now (lk_credits s), lk_buf := b, lk_proc := q\<rparr>)" (is "_ = Inr ?s1")
    and l: "linked (lk_up s) (lk_packet s) b (?fl @ lk_out s) (q @ ?cl @ lk_back s)" using link_read_ok [OF i] by blast
  have "\<exists>s2. link_cycle ev s = Inr s2 \<and> link_inv n s2" if g: "legal_event ev ?s1"
  proof -
    have l1: "linked (lk_up ?s1) (lk_packet ?s1) (lk_buf ?s1) (?fl @ lk_out ?s1) (lk_proc ?s1 @ ?cl @ lk_back ?s1)" using l by simp
    obtain q2 u2 pk2 out2 b2 back2 f c where
        e: "link_evaluate ev ?s1 = Inr (?s1\<lparr>lk_proc := q2, lk_up := u2, lk_packet := pk2, lk_out := out2, lk_buf := b2, lk_back := back2,
          lk_flits := Channel_Send f (lk_flits ?s1), lk_credits := Channel_Send c (lk_credits ?s1)\<rparr>)"
      and l2: "linked u2 pk2 b2 ((?fl @ opt_list f) @ out2) (q2 @ (?cl @ opt_list c) @ back2)"
      using evaluate_linked [OF l1 g] by blast
    obtain fc where fc: "Channel_WriteOutputs ?now (Channel_Send f (Channel_ReadInputs ?now (lk_flits s))) = Inr fc"
        "chan_ok n (?now + 1, fc)" "delivered fc @ in_flight fc = ?fl @ opt_list f"
      using chan_phases [of n ?now "lk_flits s" f] i unfolding link_inv_def by blast
    obtain cc where cc: "Channel_WriteOutputs ?now (Channel_Send c (Channel_ReadInputs ?now (lk_credits s))) = Inr cc"
        "chan_ok n (?now + 1, cc)" "delivered cc @ in_flight cc = ?cl @ opt_list c"
      using chan_phases [of n ?now "lk_credits s" c] i unfolding link_inv_def by blast
    show ?thesis using l2 [folded fc(3) cc(3)] fc(1,2) cc(1,2)
      by (simp add: link_cycle_def r e link_write_def link_inv_def link_flits_def link_credits_def)
  qed
  then show ?thesis using r by blast
qed

lemma link_run_ok:
  "link_inv (length evs + n) s \<Longrightarrow> legal_traffic evs s \<Longrightarrow> \<exists>s'. for_each link_cycle evs s = Inr s' \<and> link_inv n s'"
proof (induction evs arbitrary: s)
  case (Cons ev evs)
  have "link_inv (Suc (length evs + n)) s" using Cons.prems by simp
  from link_cycle_ok [OF this, of ev] Cons.prems obtain s2 where s2: "link_cycle ev s = Inr s2" "link_inv (length evs + n) s2" by auto
  with Cons.IH [OF s2(2)] Cons.prems show ?case by simp
qed simp

section \<open>Properties\<close>

definition link_of :: "int \<Rightarrow> int \<Rightarrow> buffer_state \<Rightarrow> buffer \<Rightarrow> link" where
  "link_of d e u b = \<lparr>lk_now = 0, lk_up = u, lk_packet = replicate (nat (bs_vcs (bs_core u))) (- 1), lk_out = [],
     lk_flits = new_Channel\<lparr>ch_delay := d\<rparr>, lk_buf = b, lk_back = [], lk_credits = new_Channel\<lparr>ch_delay := e\<rparr>, lk_proc = []\<rparr>"

lemma link_of_inv:
  assumes g: "good_config cfg" "0 \<le> l" and u: "boot cfg l = Inr u" and t: "0 < d" "0 < e" "int n + max d e < 2147483648"
  shows "link_inv n (link_of d e u (new_Buffer (cfg_num_vcs cfg) (cfg_buf_size cfg) (cfg_vc_buf_size cfg) (new_VC rd pri don)))"
proof -
  let ?b = "new_Buffer (cfg_num_vcs cfg) (cfg_buf_size cfg) (cfg_vc_buf_size cfg) (new_VC rd pri don)"
  let ?pk = "replicate (nat (cfg_num_vcs cfg)) (- 1 :: int)"
  from BufferPolicy_New_ok [OF g] boot_policy [of cfg _ l] u have c: "bs_core u = idle_core cfg" by auto
  from boot_inv [OF g] u have i: "bs_inv u" by auto
  have n: "0 \<le> cfg_num_vcs cfg" using core_okD(1) [of "bs_core u"] i by (simp add: c bs_inv_def)
  have h: "vc_held ?b v = 0" "vat (buf_vc ?b) v = new_VC rd pri don" if "v \<in> {0..<cfg_num_vcs cfg}" for v
    using that by (simp_all add: vc_held_def new_Buffer_def new_VC_def)
  have "\<not> 0 \<le> vat ?pk v" "vc_link (vat (bs_vc_occupancy (idle_core cfg)) v) (vat ?pk v) [] (vat (buf_vc ?b) v) 0"
    if "v \<in> {0..<cfg_num_vcs cfg}" for v
    using that h [OF that] idle_core_vc [OF that] by (simp_all add: vc_link_def last_pid_def new_VC_def)
  then have "linked u ?pk ?b [] []"
    using i n h(1) unfolding linked_def Let_def c by (simp add: new_Buffer_def buf_slots_def vlen_def del: atLeastLessThan_iff)
  moreover have "int n + d < 2147483648" "int n + e < 2147483648" using t(3) by linarith+
  ultimately show ?thesis using t(1,2)
    by (simp add: link_inv_def link_of_def link_flits_def link_credits_def delivered_def in_flight_def new_Channel_def chan_ok_def c)
qed

text \<open>
  C13: A sender and a receiver joined by a link that follow the credit protocol never abort: the input buffer of the receiver does not overflow,
  no flit of a foreign packet arrives on a VC, no credit is unexpected, no channel assertion fails. The sender may be a router, which
  takes a VC at VC allocation in the name of an input VC and sends the flits later, or the traffic manager, which takes it with the head
  flit in the name of the packet. In a cycle any number of VCs may be taken, of flits accounted for and of VCs drained, whose numbers return in one credit;
  flits may wait for the channel, and credits before they are returned and before they are processed. After any such run the sender's count for a VC is the
  number of flits on their way, of those in the buffer and of credits for the VC on their way back.
\<close>

theorem link_safe:
  assumes g: "good_config cfg" "0 \<le> l" and u: "boot cfg l = Inr u" and t: "0 < d" "0 < e" "vlen evs + max d e < 2147483648"
    and s0: "s0 = link_of d e u (new_Buffer (cfg_num_vcs cfg) (cfg_buf_size cfg) (cfg_vc_buf_size cfg) (new_VC rd pri don))"
    and traffic: "legal_traffic evs s0"
  shows "\<exists>s. for_each link_cycle evs s0 = Inr s \<and> buf_occupancy (lk_buf s) \<le> buf_size (lk_buf s) \<and>
    (\<forall>v. 0 \<le> v \<and> v < bs_vcs (bs_core (lk_up s)) \<longrightarrow>
      OccupancyFor (bs_core (lk_up s)) v =
        Inr (vlen (vc_flits (link_flits s) v) + VC_GetOccupancy (vat (buf_vc (lk_buf s)) v) + int (vc_credits (link_credits s) v)))"
proof -
  have "link_inv (length evs + 0) s0" unfolding s0 by (rule link_of_inv [OF g u]) (use t in \<open>auto simp: vlen_def\<close>)
  from link_run_ok [OF this traffic] obtain s where s: "for_each link_cycle evs s0 = Inr s" "link_inv 0 s" by blast
  then have l: "linked (lk_up s) (lk_packet s) (lk_buf s) (link_flits s) (link_credits s)"
    by (simp add: link_inv_def)
  have le: "vc_held (lk_buf s) w \<le> vat (bs_vc_occupancy (bs_core (lk_up s))) w" if "w \<in> {0..<bs_vcs (bs_core (lk_up s))}" for w
    using linkedD(8) [OF l that] unfolding vc_link_def vc_held_def by (auto simp: vlen_def)
  have "buf_occupancy (lk_buf s) \<le> bs_occupancy (bs_core (lk_up s))"
    unfolding linkedD(5) [OF l] core_okD(7) [OF linkedD(2) [OF l]] by (intro sum_mono le)
  then have "buf_occupancy (lk_buf s) \<le> buf_size (lk_buf s)"
    using occupancy_range(2) [OF linkedD(1) [OF l]] linkedD(4) [OF l] by simp
  with s(1) linkedD(8) [OF l] show ?thesis by (auto simp: OccupancyFor_def VC_GetOccupancy_def vc_link_def)
qed

text \<open>
  VC 1 is taken for input VC 7 and VC 0 with its head flit, three flits are sent, both VCs are drained in one cycle and one credit for the two returns.
\<close>

definition idle_event :: link_event where
  "idle_event = \<lparr>ev_process = 1, ev_tx = [], ev_drain = [], ev_put = True, ev_return = True\<rparr>"

definition three_flits :: "link_event list" where
  "three_flits =
     [idle_event\<lparr>ev_tx := [Acquire 1 7]\<rparr>,
      idle_event\<lparr>ev_tx := [Transmit (pkt_flit 5 False 0\<lparr>fl_vc := 1, fl_head := True\<rparr>), Inject 6 (pkt_flit 6 True 0\<lparr>fl_vc := 0, fl_head := True\<rparr>)]\<rparr>,
      idle_event\<lparr>ev_tx := [Transmit (pkt_flit 5 True 0\<lparr>fl_vc := 1\<rparr>)]\<rparr>, idle_event,
      idle_event\<lparr>ev_drain := [1, 0]\<rparr>, idle_event, idle_event]"

definition link0 :: link where
  "link0 = link_of 1 1 b_shared (new_Buffer (cfg_num_vcs cfg_shared) (cfg_buf_size cfg_shared) (cfg_vc_buf_size cfg_shared) (new_VC True ''none'' False))"

theorem link_safe_witness:
  "legal_traffic three_flits link0 \<and> (\<exists>s. for_each link_cycle three_flits link0 = Inr s \<and> buf_occupancy (lk_buf s) \<le> buf_size (lk_buf s))"
proof -
  have "legal_traffic three_flits link0" by code_simp
  moreover have "vlen three_flits + max 1 1 < 2147483648" by (simp add: three_flits_def)
  ultimately show ?thesis using link_safe [OF cfg_shared_good _ b_shared_boot _ _ _ link0_def, of three_flits] by auto
qed

end
