(* ===== verification/Stats.thy ===== *)
theory Stats
  imports Prelude Complex_Main
begin

text \<open>
  Statistics (\<^verbatim>\<open>stats.cpp\<close>). Samples and bin widths are whole numbers, as everywhere in the simulator. \<open>None\<close> stands for the NaN
  that \<^verbatim>\<open>Clear\<close> stores in the extremes. A quotient with no samples is NaN, also \<open>None\<close>. \<^verbatim>\<open>AddSample\<close> is translated twice:
  \<open>Stats_AddSample_fp\<close> with the types of the source, \<^verbatim>\<open>int\<close> counters, \<^verbatim>\<open>double\<close> and \<^verbatim>\<open>long double\<close> sums that round and the
  conversion of the bin to \<^verbatim>\<open>int\<close>; and \<open>Stats_AddSample\<close> with exact numbers, which the model of the traffic manager uses. The two agree as long as
  the samples stay in the range that the types can hold.
\<close>

record stats =
  st_num_samples :: int
  st_sample_sum :: int
  st_sample_squared_sum :: int
  st_min :: "int option"
  st_max :: "int option"
  st_num_bins :: int
  st_bin_size :: int
  st_hist :: "int list"

definition Stats_Clear :: "stats \<Rightarrow> stats" where
  "Stats_Clear s = s\<lparr>st_num_samples := 0, st_sample_sum := 0, st_sample_squared_sum := 0,
     st_hist := replicate (nat (st_num_bins s)) 0, st_min := None, st_max := None\<rparr>"

definition new_Stats :: "int \<Rightarrow> int \<Rightarrow> stats" where
  "new_Stats bin_size num_bins =
     Stats_Clear \<lparr>st_num_samples = 0, st_sample_sum = 0, st_sample_squared_sum = 0, st_min = None, st_max = None,
       st_num_bins = num_bins, st_bin_size = bin_size, st_hist = []\<rparr>"

definition Stats_Average :: "stats \<Rightarrow> rat option" where
  "Stats_Average s = (if st_num_samples s = 0 then None else Some (of_int (st_sample_sum s) / of_int (st_num_samples s)))"

definition Stats_Variance :: "stats \<Rightarrow> rat option" where
  "Stats_Variance s =
     (if st_num_samples s = 0 then None
      else Some (of_int (st_sample_squared_sum s * st_num_samples s - st_sample_sum s * st_sample_sum s) /
                 of_int (st_num_samples s * st_num_samples s)))"

text \<open>A comparison with NaN is false, and its negation true.\<close>

definition nan_le :: "int option \<Rightarrow> int option \<Rightarrow> bool" where
  "nan_le x y = (case (x, y) of (Some a, Some b) \<Rightarrow> a \<le> b | _ \<Rightarrow> False)"

definition stats_bin :: "stats \<Rightarrow> int \<Rightarrow> int" where
  "stats_bin s val =
     (let b = max (val div st_bin_size s) 0 in if b \<ge> st_num_bins s then st_num_bins s - 1 else b)"

definition Stats_AddSample :: "int \<Rightarrow> stats \<Rightarrow> stats res" where
  "Stats_AddSample val s =
     (let s = s\<lparr>st_num_samples := st_num_samples s + 1, st_sample_sum := st_sample_sum s + val,
            st_max := (if \<not> nan_le (Some val) (st_max s) then Some val else st_max s),
            st_min := (if \<not> nan_le (st_min s) (Some val) then Some val else st_min s)\<rparr>;
          b = stats_bin s val
      in bnd (vget (st_hist s) b) (\<lambda>n. Inr (s\<lparr>st_hist := vupd (st_hist s) b (n + 1)\<rparr>)))"

section \<open>The types of the source\<close>

text \<open>
  Rounding a whole number to \<open>p\<close> significant bits, to nearest, ties to even. A \<^verbatim>\<open>double\<close> has 53 and a \<^verbatim>\<open>long double\<close> 64.
\<close>

fun bits :: "nat \<Rightarrow> nat" where
  "bits n = (if n = 0 then 0 else Suc (bits (n div 2)))"

declare bits.simps [simp del]

definition fp_round :: "nat \<Rightarrow> int \<Rightarrow> int" where
  "fp_round p x =
     (let k = bits (nat \<bar>x\<bar>) - p; q = \<bar>x\<bar> div 2 ^ k; r = 2 * (\<bar>x\<bar> mod 2 ^ k);
          q = (if r > 2 ^ k \<or> r = 2 ^ k \<and> odd q then q + 1 else q)
      in if k = 0 then x else sgn x * (q * 2 ^ k))"

definition to_double :: "int \<Rightarrow> int" where
  "to_double x = fp_round 53 x"

definition long_double :: "int \<Rightarrow> int" where
  "long_double x = fp_round 64 x"

text \<open>
  The sum is formed in \<^verbatim>\<open>long double\<close> and stored in a \<^verbatim>\<open>double\<close>; the extremes are compared in \<^verbatim>\<open>long double\<close>. A bin that is too
  large for an \<^verbatim>\<open>int\<close> has no defined conversion; the processor's result is the smallest \<^verbatim>\<open>int\<close>, which no histogram has as an index.
  The quotient of two whole numbers below \<open>2 ^ 53\<close>, rounded to 64 bits, has the same \<^verbatim>\<open>floor\<close> as the exact one.
\<close>

definition Stats_AddSample_fp :: "int \<Rightarrow> stats \<Rightarrow> stats res" where
  "Stats_AddSample_fp val s =
     (let s = s\<lparr>st_num_samples := int32 (st_num_samples s + 1), st_sample_sum := to_double (long_double (st_sample_sum s + val)),
            st_max := (if \<not> nan_le (Some val) (st_max s) then Some (to_double val) else st_max s),
            st_min := (if \<not> nan_le (st_min s) (Some val) then Some (to_double val) else st_min s)\<rparr>;
          b = max (val div st_bin_size s) 0
      in if b > INT_MAX then Inl OutOfBounds
         else let b = (if b \<ge> st_num_bins s then st_num_bins s - 1 else b)
              in bnd (vget (st_hist s) b) (\<lambda>n. Inr (s\<lparr>st_hist := vupd (st_hist s) b (int32 (n + 1))\<rparr>)))"

lemma bits_le: "n < 2 ^ p \<Longrightarrow> bits n \<le> p"
proof (induction p arbitrary: n)
  case 0
  then show ?case by (simp add: bits.simps)
next
  case (Suc p)
  then have "bits (n div 2) \<le> p" by (simp add: less_mult_imp_div_less mult.commute)
  then show ?case by (subst bits.simps) simp
qed

lemma fp_round_exact: "\<bar>x\<bar> < 2 ^ p \<Longrightarrow> fp_round p x = x"
  using bits_le [of "nat \<bar>x\<bar>" p] by (simp add: fp_round_def nat_less_iff)

lemma to_double_exact [simp]: "\<bar>x\<bar> < 9007199254740992 \<Longrightarrow> to_double x = x"
  using fp_round_exact [of x 53] by (simp add: to_double_def)

lemma long_double_exact [simp]: "\<bar>x\<bar> < 9007199254740992 \<Longrightarrow> long_double x = x"
  using fp_round_exact [of x 64] by (simp add: long_double_def)

section \<open>Summaries\<close>

text \<open>\<open>summary w n vs s\<close>: the state \<open>s\<close> summarises the samples \<open>vs\<close>.\<close>

definition summary :: "int \<Rightarrow> int \<Rightarrow> int list \<Rightarrow> stats \<Rightarrow> bool" where
  "summary w n vs s \<longleftrightarrow>
     st_bin_size s = w \<and> st_num_bins s = n \<and> vlen (st_hist s) = n \<and>
     st_num_samples s = vlen vs \<and> st_sample_sum s = sum_list vs \<and> st_sample_squared_sum s = 0 \<and>
     st_max s = (if vs = [] then None else Some (Max (set vs))) \<and> st_min s = (if vs = [] then None else Some (Min (set vs))) \<and>
     (\<forall>b\<in>{0..<n}. vat (st_hist s) b = int (length (filter (\<lambda>v. stats_bin s v = b) vs)))"

lemma stats_bin_range: "1 \<le> st_num_bins s \<Longrightarrow> stats_bin s v \<in> {0..<st_num_bins s}"
  by (auto simp: stats_bin_def Let_def)

lemma stats_bin_cong: "st_bin_size s = st_bin_size t \<Longrightarrow> st_num_bins s = st_num_bins t \<Longrightarrow> stats_bin s v = stats_bin t v"
  by (simp add: stats_bin_def Let_def)

lemma summary_clear: "1 \<le> st_num_bins s \<Longrightarrow> summary (st_bin_size s) (st_num_bins s) [] (Stats_Clear s)"
  by (simp add: summary_def Stats_Clear_def)

lemma summary_add:
  assumes s: "summary w n vs s" and n: "1 \<le> n"
  shows "\<exists>s'. Stats_AddSample v s = Inr s' \<and> summary w n (vs @ [v]) s'"
proof -
  let ?b = "stats_bin s v"
  define s' where "s' = s\<lparr>st_num_samples := st_num_samples s + 1, st_sample_sum := st_sample_sum s + v,
    st_max := (if \<not> nan_le (Some v) (st_max s) then Some v else st_max s),
    st_min := (if \<not> nan_le (st_min s) (Some v) then Some v else st_min s), st_hist := vupd (st_hist s) ?b (vat (st_hist s) ?b + 1)\<rparr>"
  have b: "?b \<in> {0..<n}" using stats_bin_range [of s v] s n by (simp add: summary_def)
  have add: "Stats_AddSample v s = Inr s'"
    using b s by (simp add: Stats_AddSample_def Let_def s'_def summary_def stats_bin_def)
  have M: "Max (insert v (set vs)) = (if v \<le> Max (set vs) then Max (set vs) else v)" if "vs \<noteq> []"
    using that by (subst Max_insert) (simp_all add: max_def)
  have m: "Min (insert v (set vs)) = (if Min (set vs) \<le> v then Min (set vs) else v)" if "vs \<noteq> []"
  proof -
    have "Min (insert v (set vs)) = min (Min (set vs)) v" using that by (subst Min_insert) (simp_all add: min.commute)
    then show ?thesis unfolding min_def .
  qed
  have "st_max s' = Some (Max (set (vs @ [v])))" "st_min s' = Some (Min (set (vs @ [v])))"
    using s M m by (cases "vs = []"; simp add: s'_def summary_def nan_le_def del: Min_le_iff Max_ge_iff)+
  moreover have "stats_bin s' x = stats_bin s x" for x by (rule stats_bin_cong) (simp_all add: s'_def)
  moreover have "vat (st_hist s') x = int (length (filter (\<lambda>v. stats_bin s v = x) (vs @ [v])))" if "x \<in> {0..<n}" for x
    using s b that by (cases "x = ?b") (auto simp: s'_def summary_def vat_vupd_neq)
  ultimately show ?thesis using s add by (auto simp: summary_def s'_def vlen_def)
qed

lemma summary_run:
  "summary w n us s \<Longrightarrow> 1 \<le> n \<Longrightarrow> \<exists>s'. for_each Stats_AddSample vs s = Inr s' \<and> summary w n (us @ vs) s'"
proof (induction vs arbitrary: us s)
  case (Cons v vs)
  obtain s1 where s1: "Stats_AddSample v s = Inr s1" "summary w n (us @ [v]) s1" using summary_add [OF Cons.prems] by blast
  from Cons.IH [OF s1(2) Cons.prems(2)] s1(1) show ?case by simp
qed simp

lemma new_summary: "1 \<le> n \<Longrightarrow> summary w n [] (new_Stats w n)"
  using summary_clear [of "\<lparr>st_num_samples = 0, st_sample_sum = 0, st_sample_squared_sum = 0, st_min = None, st_max = None,
    st_num_bins = n, st_bin_size = w, st_hist = []\<rparr>"] by (simp add: new_Stats_def)

lemma fp_add:
  assumes s: "summary w n us s" and n: "1 \<le> n"
    and r: "vlen us < 2147483647" "sum_list (map abs (us @ [v])) < 9007199254740992" "v div w < 2147483648"
  shows "Stats_AddSample_fp v s = Stats_AddSample v s"
proof -
  let ?b = "stats_bin s v"
  have b: "?b \<in> {0..<n}" using stats_bin_range [of s v] s n by (simp add: summary_def)
  then have "vat (st_hist s) ?b = int (length (filter (\<lambda>v. stats_bin s v = ?b) us))" using s by (simp add: summary_def)
  then have h: "0 \<le> vat (st_hist s) ?b" "vat (st_hist s) ?b < 2147483647"
    using r(1) length_filter_le [of "\<lambda>v. stats_bin s v = ?b" us] unfolding vlen_def by linarith+
  have "\<bar>sum_list us\<bar> \<le> sum_list (map abs us)" by (rule sum_list_abs)
  moreover have "0 \<le> sum_list (map abs us)" by (rule sum_list_nonneg) auto
  ultimately have e: "\<bar>v\<bar> < 9007199254740992" "\<bar>st_sample_sum s + v\<bar> < 9007199254740992" using r(2) s by (auto simp: summary_def)
  have l: "vlen (st_hist s) = n" and w: "st_num_samples s = vlen us" "st_bin_size s = w" using s by (simp_all add: summary_def)
  then have c: "int32 (st_num_samples s + 1) = st_num_samples s + 1" "\<not> max (v div st_bin_size s) 0 > INT_MAX"
    using r(1,3) vlen_nonneg [of us] by (simp_all add: INT_MAX_def)
  have bin: "(if max (v div st_bin_size s) 0 \<ge> st_num_bins s then st_num_bins s - 1 else max (v div st_bin_size s) 0) = ?b"
    by (simp only: stats_bin_def Let_def)
  have same: "stats_bin (s\<lparr>st_num_samples := x, st_sample_sum := y, st_max := z, st_min := t\<rparr>) v = ?b" for x y z t
    by (rule stats_bin_cong) simp_all
  have sel: "st_bin_size (s\<lparr>st_num_samples := x, st_sample_sum := y, st_max := z, st_min := t\<rparr>) = st_bin_size s"
      "st_num_bins (s\<lparr>st_num_samples := x, st_sample_sum := y, st_max := z, st_min := t\<rparr>) = st_num_bins s"
      "st_hist (s\<lparr>st_num_samples := x, st_sample_sum := y, st_max := z, st_min := t\<rparr>) = st_hist s" for x y z t
    by simp_all
  have "vget (st_hist s) ?b = Inr (vat (st_hist s) ?b)" "int32 (vat (st_hist s) ?b + 1) = vat (st_hist s) ?b + 1" using b l h by simp_all
  then show ?thesis unfolding Stats_AddSample_fp_def Stats_AddSample_def Let_def same
    by (simp only: sel c bin if_False bnd_simps to_double_exact [OF e(1)] to_double_exact [OF e(2)] long_double_exact [OF e(2)] if_cancel)
qed

lemma fp_run:
  assumes "summary w n us s" "1 \<le> n" "vlen (us @ vs) < 2147483648" "sum_list (map abs (us @ vs)) < 9007199254740992"
    "list_all (\<lambda>v. v div w < 2147483648) vs"
  shows "for_each Stats_AddSample_fp vs s = for_each Stats_AddSample vs s"
  using assms
proof (induction vs arbitrary: us s)
  case (Cons v vs)
  have "0 \<le> sum_list (map abs vs)" by (rule sum_list_nonneg) auto
  then have "sum_list (map abs (us @ [v])) < 9007199254740992" "vlen us < 2147483647" using Cons.prems(3,4) by (auto simp: vlen_def)
  from fp_add [OF Cons.prems(1,2) this(2,1)] Cons.prems(5) have f: "Stats_AddSample_fp v s = Stats_AddSample v s" by simp
  obtain s1 where s1: "Stats_AddSample v s = Inr s1" "summary w n (us @ [v]) s1" using summary_add [OF Cons.prems(1,2)] by blast
  from Cons.IH [OF s1(2)] Cons.prems(2-5) f s1(1) show ?case by simp
qed simp

section \<open>Properties\<close>

text \<open>
  C34: After \<^verbatim>\<open>Clear\<close> the statistics of a sequence of samples, computed with the integer and floating-point types of the source, are those of the
  sequence: the number, sum, minimum and maximum of the samples, and for each bin the number of samples that fall into it, the first and the last
  bin taking what lies outside. No sample is rejected. This holds as long as the bin of each sample and the number of samples fit an \<^verbatim>\<open>int\<close> and the
  absolute values of the samples add up to less than \<open>2 ^ 53\<close>, so that no \<^verbatim>\<open>double\<close> rounds; \<open>Stats_AddSample\<close> then computes the same.
\<close>

theorem Stats_summarise:
  assumes "1 \<le> num_bins" and w: "0 < w"
    and range: "vlen vs < 2147483648" "sum_list (map abs vs) < 9007199254740992" "list_all (\<lambda>v. v div w < 2147483648) vs"
  shows "\<exists>s. for_each Stats_AddSample_fp vs (new_Stats w num_bins) = Inr s \<and> for_each Stats_AddSample vs (new_Stats w num_bins) = Inr s \<and>
    st_num_samples s = vlen vs \<and> st_sample_sum s = sum_list vs \<and>
    (vs \<noteq> [] \<longrightarrow> st_min s = Some (Min (set vs)) \<and> st_max s = Some (Max (set vs))) \<and>
    (\<forall>b. 0 \<le> b \<and> b < num_bins \<longrightarrow>
      vat (st_hist s) b = int (length (filter (\<lambda>v. min (max (v div w) 0) (num_bins - 1) = b) vs)))"
proof -
  from summary_run [OF new_summary [OF assms(1)] assms(1), where w = w and vs = vs] obtain s where
    s: "for_each Stats_AddSample vs (new_Stats w num_bins) = Inr s" "summary w num_bins vs s" by auto
  moreover have "for_each Stats_AddSample_fp vs (new_Stats w num_bins) = for_each Stats_AddSample vs (new_Stats w num_bins)"
    using fp_run [OF new_summary [OF assms(1)] assms(1), where w = w and vs = vs] range by simp
  moreover have "stats_bin s v = min (max (v div w) 0) (num_bins - 1)" for v
    using s(2) w by (auto simp: stats_bin_def summary_def Let_def min_def)
  ultimately show ?thesis by (auto simp: summary_def)
qed

theorem Stats_summarise_witness:
  "\<exists>s. for_each Stats_AddSample_fp [3, 25, - 2] (new_Stats 10 2) = Inr s \<and> st_num_samples s = 3 \<and> st_sample_sum s = 26 \<and>
     vat (st_hist s) 1 = 1 \<and> st_max s = Some 25"
  using Stats_summarise [of 2 10 "[3, 25, - 2]"] by auto

text \<open>
  C35: The sum of squares is never updated, so the variance is minus the square of the average, whatever the samples.
\<close>

theorem Variance_wrong:
  assumes "1 \<le> num_bins" "vs \<noteq> []" and w: "0 < w"
  shows "\<exists>s a. for_each Stats_AddSample vs (new_Stats w num_bins) = Inr s \<and> Stats_Average s = Some a \<and> Stats_Variance s = Some (- a * a)"
proof -
  from summary_run [OF new_summary [OF assms(1)] assms(1), where w = w and vs = vs] obtain s where
    s: "for_each Stats_AddSample vs (new_Stats w num_bins) = Inr s" "summary w num_bins vs s" by auto
  then show ?thesis using assms(2) by (auto simp: summary_def Stats_Average_def Stats_Variance_def vlen_def)
qed

theorem Variance_wrong_witness:
  "\<exists>s a. for_each Stats_AddSample [1, 3] (new_Stats 1 10) = Inr s \<and> Stats_Average s = Some a \<and> Stats_Variance s = Some (- a * a)"
  using Variance_wrong [of 10 "[1, 3]" 1] by auto

end
