(* ===== verification/Traffic_Manager.thy ===== *)
theory Traffic_Manager
  imports Buffer_Safety Stats
begin

text \<open>
  The traffic manager (\<^verbatim>\<open>trafficmanager.cpp\<close>): generating packets, the per-cycle step that ejects, injects and retires
  flits, and the queue of retired packets that the interface class \<^verbatim>\<open>TrafficManagerWrapper\<close> adds. Flits are values. The
  maps of flits in flight are only asked for keys, so they are kept as lists of flit numbers. The watch lists
  are empty (\<^verbatim>\<open>gWatchOut\<close> is null) and trace output is left out. The networks and the routing function are
  operations on an environment \<open>'e\<close>, passed as a record.
\<close>

section \<open>State\<close>

datatype ePriority = PriClass | PriAge | PriNetworkAge | PriLocalAge | PriQueueLength | PriHopCount | PriSequence | PriNone

datatype eSimState = warming_up | running | draining | sim_done

record tm_config =
  tc_nodes :: int
  tc_classes :: int
  tc_subnets :: int
  tc_inj_size :: int
  tc_class_priority :: "int list"
  tc_pri_type :: ePriority
  tc_subnet :: "int list"
  tc_lookahead_routing :: bool
  tc_noq :: bool
  tc_hold_switch_for_packet :: bool
  tc_measure_stats :: "bool list"
  tc_pair_stats :: bool
  tc_deadlock_warn_timeout :: int
  tc_print_csv_results :: bool
  tc_sample_period :: int

text \<open>The statistics are grouped in a record of their own.\<close>

record tm_stats =
  ts_slowest_flit :: "int list"
  ts_slowest_packet :: "int list"
  ts_plat_stats :: "stats list"
  ts_nlat_stats :: "stats list"
  ts_flat_stats :: "stats list"
  ts_frag_stats :: "stats list"
  ts_hop_stats :: "stats list"
  ts_pair_plat :: "stats list list"
  ts_pair_nlat :: "stats list list"
  ts_pair_flat :: "stats list list"
  ts_sent_flits :: "int list list"
  ts_sent_packets :: "int list list"
  ts_accepted_flits :: "int list list"
  ts_accepted_packets :: "int list list"

record tm =
  tm_partial_packets :: "flit list list list"
  tm_buf_states :: "buffer_state list list"
  tm_last_class :: "int list list"
  tm_last_vc :: "int list list list"
  tm_total_in_flight :: "int list list"
  tm_measured_in_flight :: "int list list"
  tm_retired_packets :: "(int \<times> flit) list list"
  tm_packet_seq_no :: "int list"
  tm_requests_outstanding :: "int list"
  tm_deadlock_timer :: int
  tm_reset_time :: int
  tm_sim_state :: eSimState
  tm_drain_time :: int
  tm_cur_id :: int
  tm_cur_pid :: int
  tm_time :: int
  tm_stat :: tm_stats

text \<open>
  What the traffic manager calls. \<open>op_rf None\<close> is the routing function with a null router, at injection; \<open>op_rf (Some (subnet, n))\<close>
  is the call for the router that the injection channel of node \<open>n\<close> leads to. It may write the mutable fields of the
  flit.
\<close>

record 'e net_ops =
  op_ReadFlit :: "int \<Rightarrow> int \<Rightarrow> 'e \<Rightarrow> flit option"
  op_ReadCredit :: "int \<Rightarrow> int \<Rightarrow> 'e \<Rightarrow> credit option"
  op_ReadInputs :: "int \<Rightarrow> 'e \<Rightarrow> 'e res"
  op_WriteFlit :: "int \<Rightarrow> int \<Rightarrow> flit \<Rightarrow> 'e \<Rightarrow> 'e res"
  op_WriteCredit :: "int \<Rightarrow> int \<Rightarrow> credit \<Rightarrow> 'e \<Rightarrow> 'e res"
  op_Evaluate :: "int \<Rightarrow> 'e \<Rightarrow> 'e res"
  op_WriteOutputs :: "int \<Rightarrow> 'e \<Rightarrow> 'e res"
  op_rf :: "(int \<times> int) option \<Rightarrow> flit \<Rightarrow> bool \<Rightarrow> 'e \<Rightarrow> (output_set \<times> flit \<times> 'e) res"
  op_NumOutputs :: "int \<Rightarrow> int \<Rightarrow> int"
  op_GetVirtualNode :: "int \<Rightarrow> int"
  op_GetActualNode :: "int \<Rightarrow> int"

definition incr_at :: "int \<Rightarrow> int \<Rightarrow> int list list \<Rightarrow> int list list res" where
  "incr_at i j xss = upd_at i (upd_at j (\<lambda>x. Inr (x + 1))) xss"

section \<open>Generating packets\<close>

definition packet_pri :: "tm_config \<Rightarrow> int \<Rightarrow> int \<Rightarrow> int \<Rightarrow> 'a tm_scheme \<Rightarrow> int res" where
  "packet_pri cfg source cl time s =
     (case tc_pri_type cfg of
        PriClass \<Rightarrow> bnd (vget (tc_class_priority cfg) cl) (\<lambda>p. bnd (assert_that (p \<ge> 0) ''f->pri >= 0'') (\<lambda>_. Inr p))
      | PriAge \<Rightarrow> let p = int32 (INT_MAX - time) in bnd (assert_that (p \<ge> 0) ''f->pri >= 0'') (\<lambda>_. Inr p)
      | PriSequence \<Rightarrow> bnd (vget (tm_packet_seq_no s) source) (\<lambda>q.
          let p = int32 (INT_MAX - q) in bnd (assert_that (p \<ge> 0) ''f->pri >= 0'') (\<lambda>_. Inr p))
      | _ \<Rightarrow> Inr 0)"

definition generate_flit ::
    "tm_config \<Rightarrow> int \<Rightarrow> int \<Rightarrow> int \<Rightarrow> int \<Rightarrow> int \<Rightarrow> int \<Rightarrow> bool \<Rightarrow> int \<Rightarrow> 'a tm_scheme \<Rightarrow> 'a tm_scheme res" where
  "generate_flit cfg source dest sz cl time pid record i s =
     (let f = flit0\<lparr>fl_id := tm_cur_id s, fl_pid := pid, fl_src := source, fl_dest := dest, fl_ctime := time, fl_record := record,
            fl_cl := cl, fl_vc := - 1, fl_head := (i = 0), fl_tail := (i = sz - 1), fl_packet_size := sz\<rparr>;
          s = s\<lparr>tm_cur_id := tm_cur_id s + 1\<rparr>
      in bnd (assert_that (tm_cur_id s \<noteq> 0) ''_cur_id'') (\<lambda>_.
         bnd (upd_at cl (\<lambda>ids. Inr (List.insert (fl_id f) ids)) (tm_total_in_flight s)) (\<lambda>total.
         bnd (if record then upd_at cl (\<lambda>ids. Inr (List.insert (fl_id f) ids)) (tm_measured_in_flight s)
              else Inr (tm_measured_in_flight s)) (\<lambda>measured.
         bnd (packet_pri cfg source cl time s) (\<lambda>p.
         bnd (upd_at source (upd_at cl (\<lambda>q. Inr (q @ [f\<lparr>fl_pri := p\<rparr>]))) (tm_partial_packets s)) (\<lambda>pp.
         Inr (s\<lparr>tm_total_in_flight := total, tm_measured_in_flight := measured, tm_partial_packets := pp\<rparr>)))))))"

definition GeneratePacket ::
    "tm_config \<Rightarrow> 'e net_ops \<Rightarrow> int \<Rightarrow> int \<Rightarrow> int \<Rightarrow> int \<Rightarrow> int \<Rightarrow> 'a tm_scheme \<Rightarrow> (int \<times> 'a tm_scheme) res" where
  "GeneratePacket cfg ops source dest sz cl time s =
     (let source = op_GetVirtualNode ops source in
      bnd (vget (tm_partial_packets s) source) (\<lambda>row. bnd (vget row cl) (\<lambda>q.
      if vlen q \<ge> tc_inj_size cfg then Inr (- 1, s)
      else if dest = - 1 then Inr (- 1, s)
      else
        let pid = tm_cur_pid s; s = s\<lparr>tm_cur_pid := pid + 1\<rparr> in
        bnd (assert_that (tm_cur_pid s \<noteq> 0) ''_cur_pid'') (\<lambda>_.
        bnd (if tm_sim_state s = running \<or> tm_sim_state s = draining \<and> time < tm_drain_time s
             then vget (tc_measure_stats cfg) cl else Inr False) (\<lambda>record.
        bnd (for_each (generate_flit cfg source dest sz cl time pid record) (range0 sz) s) (\<lambda>s. Inr (pid, s)))))))"

section \<open>Retiring flits\<close>

definition RetirePacket_base :: "flit \<Rightarrow> flit \<Rightarrow> 'a tm_scheme \<Rightarrow> 'a tm_scheme res" where
  "RetirePacket_base hd_flit tl_flit s =
     bnd (assert_that (fl_pid hd_flit = fl_pid tl_flit) ''head->pid == tail->pid'') (\<lambda>_.
     bnd (assert_that (fl_cl hd_flit = fl_cl tl_flit) ''head->cl == tail->cl'') (\<lambda>_.
     bnd (upd_at (fl_src hd_flit) (\<lambda>x. Inr (x - 1)) (tm_requests_outstanding s)) (\<lambda>r.
     Inr (s\<lparr>tm_requests_outstanding := r\<rparr>))))"

text \<open>\<^verbatim>\<open>(slowest < 0) || (stats->Max() < lat)\<close>, false on NaN.\<close>

definition is_slowest :: "int \<Rightarrow> stats \<Rightarrow> int \<Rightarrow> bool" where
  "is_slowest slowest st lat \<longleftrightarrow> slowest < 0 \<or> (case st_max st of Some m \<Rightarrow> m < lat | None \<Rightarrow> False)"

definition flit_stats :: "tm_config \<Rightarrow> flit \<Rightarrow> int \<Rightarrow> tm_stats \<Rightarrow> tm_stats res" where
  "flit_stats cfg f dest s =
     (let cl = fl_cl f; lat = fl_atime f - fl_itime f in
      bnd (vget (ts_slowest_flit s) cl) (\<lambda>slow. bnd (vget (ts_flat_stats s) cl) (\<lambda>st.
      let s = (if is_slowest slow st lat then s\<lparr>ts_slowest_flit := vupd (ts_slowest_flit s) cl (fl_id f)\<rparr> else s) in
      bnd (upd_at cl (Stats_AddSample lat) (ts_flat_stats s)) (\<lambda>fs.
      let s = s\<lparr>ts_flat_stats := fs\<rparr> in
      if tc_pair_stats cfg then
        bnd (upd_at cl (upd_at (fl_src f * tc_nodes cfg + dest) (Stats_AddSample lat)) (ts_pair_flat s)) (\<lambda>ps. Inr (s\<lparr>ts_pair_flat := ps\<rparr>))
      else Inr s))))"

definition packet_stats :: "tm_config \<Rightarrow> flit \<Rightarrow> flit \<Rightarrow> int \<Rightarrow> tm_stats \<Rightarrow> tm_stats res" where
  "packet_stats cfg f h dest s =
     (let cl = fl_cl f; pair = fl_src f * tc_nodes cfg + dest in
      bnd (upd_at cl (Stats_AddSample (fl_hops f)) (ts_hop_stats s)) (\<lambda>hs.
      bnd (vget (ts_slowest_packet s) cl) (\<lambda>slow. bnd (vget (ts_plat_stats s) cl) (\<lambda>st.
      let s = s\<lparr>ts_hop_stats := hs,
                ts_slowest_packet := (if is_slowest slow st (fl_atime f - fl_itime h) then vupd (ts_slowest_packet s) cl (fl_pid f)
                                      else ts_slowest_packet s)\<rparr> in
      bnd (upd_at cl (Stats_AddSample (fl_atime f - fl_ctime h)) (ts_plat_stats s)) (\<lambda>pl.
      bnd (upd_at cl (Stats_AddSample (fl_atime f - fl_itime h)) (ts_nlat_stats s)) (\<lambda>nl.
      bnd (upd_at cl (Stats_AddSample ((fl_atime f - fl_atime h) - (fl_id f - fl_id h))) (ts_frag_stats s)) (\<lambda>fr.
      let s = s\<lparr>ts_plat_stats := pl, ts_nlat_stats := nl, ts_frag_stats := fr\<rparr> in
      if tc_pair_stats cfg then
        bnd (upd_at cl (upd_at pair (Stats_AddSample (fl_atime f - fl_ctime h))) (ts_pair_plat s)) (\<lambda>pp.
        bnd (upd_at cl (upd_at pair (Stats_AddSample (fl_atime f - fl_itime h))) (ts_pair_nlat s)) (\<lambda>pn.
        Inr (s\<lparr>ts_pair_plat := pp, ts_pair_nlat := pn\<rparr>)))
      else Inr s)))))))"

definition leave_network :: "tm_config \<Rightarrow> 'e net_ops \<Rightarrow> int \<Rightarrow> flit \<Rightarrow> 'a tm_scheme \<Rightarrow> 'a tm_scheme res" where
  "leave_network cfg ops dest f s =
     (let s = s\<lparr>tm_deadlock_timer := 0\<rparr>; cl = fl_cl f in
      bnd (vget (tm_total_in_flight s) cl) (\<lambda>ids.
      bnd (assert_that (fl_id f \<in> set ids) ''_total_in_flight_flits[f->cl].count(f->id) > 0'') (\<lambda>_.
      let s = s\<lparr>tm_total_in_flight := vupd (tm_total_in_flight s) cl (removeAll (fl_id f) ids)\<rparr> in
      bnd (if fl_record f then
             bnd (vget (tm_measured_in_flight s) cl) (\<lambda>ids.
             bnd (assert_that (fl_id f \<in> set ids) ''_measured_in_flight_flits[f->cl].count(f->id) > 0'') (\<lambda>_.
             Inr (s\<lparr>tm_measured_in_flight := vupd (tm_measured_in_flight s) cl (removeAll (fl_id f) ids)\<rparr>)))
           else Inr s) (\<lambda>s.
      if fl_head f \<and> fl_dest f \<noteq> op_GetActualNode ops dest then Inl (ErrorMsg ''Flit arrived at incorrect output'')
      else bnd (flit_stats cfg f dest (tm_stat s)) (\<lambda>ts. Inr (s\<lparr>tm_stat := ts\<rparr>))))))"

text \<open>The head of the packet that a tail flit ends.\<close>

definition head_of :: "flit \<Rightarrow> 'a tm_scheme \<Rightarrow> (flit \<times> 'a tm_scheme) res" where
  "head_of f s =
     (if fl_head f then Inr (f, s)
      else
        bnd (vget (tm_retired_packets s) (fl_cl f)) (\<lambda>m.
        case map_of m (fl_pid f) of
          None \<Rightarrow> Inl (AssertFail ''iter != _retired_packets[f->cl].end()'')
        | Some h \<Rightarrow>
            bnd (assert_that (fl_head h) ''head->head'') (\<lambda>_.
            bnd (assert_that (fl_pid f = fl_pid h) ''f->pid == head->pid'') (\<lambda>_.
            Inr (h, s\<lparr>tm_retired_packets := vupd (tm_retired_packets s) (fl_cl f) (filter (\<lambda>p. fst p \<noteq> fl_pid f) m)\<rparr>)))))"

text \<open>\<open>retire\<close> is the virtual member \<^verbatim>\<open>_RetirePacket\<close>.\<close>

definition RetireFlit ::
    "tm_config \<Rightarrow> 'e net_ops \<Rightarrow> (flit \<Rightarrow> flit \<Rightarrow> 'a tm_scheme \<Rightarrow> 'a tm_scheme res) \<Rightarrow> int \<Rightarrow> flit \<Rightarrow> 'a tm_scheme \<Rightarrow> 'a tm_scheme res" where
  "RetireFlit cfg ops retire dest f s =
     bnd (leave_network cfg ops dest f s) (\<lambda>s.
     let f = f\<lparr>fl_dest := dest\<rparr> in
     bnd (if fl_tail f then
            bnd (head_of f s) (\<lambda>(h, s).
            bnd (retire h f s) (\<lambda>s.
            if tm_sim_state s = warming_up \<or> fl_record f then
              bnd (packet_stats cfg f h dest (tm_stat s)) (\<lambda>ts. Inr (s\<lparr>tm_stat := ts\<rparr>))
            else Inr s))
          else Inr s) (\<lambda>s.
     if fl_head f \<and> \<not> fl_tail f then
       bnd (upd_at (fl_cl f) (\<lambda>m. Inr (if map_of m (fl_pid f) = None then (fl_pid f, f) # m else m)) (tm_retired_packets s)) (\<lambda>r.
       Inr (s\<lparr>tm_retired_packets := r\<rparr>))
     else Inr s))"

section \<open>Injecting flits\<close>

definition vc_candidate :: "int \<Rightarrow> int \<Rightarrow> int \<Rightarrow> int \<Rightarrow> int \<Rightarrow> int" where
  "vc_candidate lvc vs ve vc_count i = (if lvc < vs \<or> lvc > ve then vs else vs + (lvc - vs + i) smod vc_count)"

fun find_vc :: "int \<Rightarrow> buffer_state \<Rightarrow> int \<Rightarrow> int \<Rightarrow> int list \<Rightarrow> int res" where
  "find_vc now b vs ve [] = Inr (- 1)"
| "find_vc now b vs ve (vc # rest) =
     bnd (assert_that (vc \<ge> vs \<and> vc \<le> ve) ''(vc >= vc_start) && (vc <= vc_end)'') (\<lambda>_.
     bnd (IsAvailableFor (bs_core b) vc) (\<lambda>avail.
     if \<not> avail then find_vc now b vs ve rest
     else bnd (IsFullFor now b vc) (\<lambda>full. if full then find_vc now b vs ve rest else Inr vc)))"

text \<open>With \<^verbatim>\<open>noq\<close> the range is cut down to the part for the output that the lookahead found.\<close>

definition noq_range :: "'e net_ops \<Rightarrow> int \<Rightarrow> int \<Rightarrow> flit \<Rightarrow> sSetElement \<Rightarrow> 'e \<Rightarrow> (int \<times> int \<times> int \<times> flit \<times> 'e) res" where
  "noq_range ops subnet n cf se e =
     bnd (op_rf ops (Some (subnet, n)) (cf\<lparr>fl_vc := vc_start se\<rparr>) False e) (\<lambda>(sl, cf, e).
     let cf = cf\<lparr>fl_vc := - 1, fl_la_route_set := sl\<rparr> in
     bnd (assert_that (length sl = 1) ''sl.size() == 1'') (\<lambda>_.
     let k = op_NumOutputs ops subnet n in
     if k = 0 then Inl DivByZero
     else
       let vc_count = (vc_end se - vc_start se + 1) sdiv k;
           vs = vc_start se + output_port (hd sl) * vc_count;
           ve = vs + vc_count - 1
       in bnd (assert_that (vs \<ge> vc_start se \<and> vs \<le> vc_end se) ''vc_start'') (\<lambda>_.
          bnd (assert_that (ve \<ge> vc_start se \<and> ve \<le> vc_end se) ''vc_end'') (\<lambda>_.
          bnd (assert_that (vs \<le> ve) ''vc_start <= vc_end'') (\<lambda>_.
          Inr (vs, ve, vc_count, cf, e))))))"

definition choose_vc ::
    "tm_config \<Rightarrow> 'e net_ops \<Rightarrow> int \<Rightarrow> int \<Rightarrow> int \<Rightarrow> buffer_state \<Rightarrow> int \<Rightarrow> flit \<Rightarrow> 'e \<Rightarrow> (flit \<times> 'e) res" where
  "choose_vc cfg ops subnet n lvc b now cf e =
     bnd (op_rf ops None cf True e) (\<lambda>(os, cf, e).
     bnd (assert_that (length os = 1) ''os.size() == 1'') (\<lambda>_.
     let se = hd os in
     bnd (assert_that (output_port se = - 1) ''se.output_port == -1'') (\<lambda>_.
     bnd (if tc_noq cfg then
            bnd (assert_that (tc_lookahead_routing cfg) ''_lookahead_routing'') (\<lambda>_. noq_range ops subnet n cf se e)
          else Inr (vc_start se, vc_end se, vc_end se - vc_start se + 1, cf, e)) (\<lambda>(vs, ve, vc_count, cf, e).
     bnd (find_vc now b vs ve (map (vc_candidate lvc vs ve vc_count) [1..vc_count])) (\<lambda>vc.
     Inr (if vc = - 1 then cf else cf\<lparr>fl_vc := vc\<rparr>, e))))))"

text \<open>
  The loop over the classes. \<open>sel\<close> is the class whose front flit is the pointer \<^verbatim>\<open>f\<close>; the flit itself stays in its
  queue, where the choice of a VC is written.
\<close>

definition front_of :: "int \<Rightarrow> int \<Rightarrow> 'a tm_scheme \<Rightarrow> flit option res" where
  "front_of n c s =
     bnd (vget (tm_partial_packets s) n) (\<lambda>row. bnd (vget row c) (\<lambda>q. Inr (case q of [] \<Rightarrow> None | f # _ \<Rightarrow> Some f)))"

definition set_front :: "int \<Rightarrow> int \<Rightarrow> flit \<Rightarrow> 'a tm_scheme \<Rightarrow> 'a tm_scheme res" where
  "set_front n c f s =
     bnd (upd_at n (upd_at c (\<lambda>q. Inr (f # tl q))) (tm_partial_packets s)) (\<lambda>pp. Inr (s\<lparr>tm_partial_packets := pp\<rparr>))"

definition sel_pri :: "int \<Rightarrow> int option \<Rightarrow> 'a tm_scheme \<Rightarrow> int option res" where
  "sel_pri n sel s = (case sel of None \<Rightarrow> Inr None | Some c \<Rightarrow> bnd (front_of n c s) (\<lambda>f. Inr (map_option fl_pri f)))"

definition inject_class ::
    "tm_config \<Rightarrow> 'e net_ops \<Rightarrow> int \<Rightarrow> int \<Rightarrow> int \<Rightarrow> int option \<times> 'a tm_scheme \<times> 'e \<Rightarrow> (int option \<times> 'a tm_scheme \<times> 'e) res" where
  "inject_class cfg ops subnet n c st =
     (let (sel, s, e) = st in
      bnd (vget (tc_subnet cfg) c) (\<lambda>sn.
      if sn \<noteq> subnet then Inr (sel, s, e)
      else
        bnd (front_of n c s) (\<lambda>q. case q of None \<Rightarrow> Inr (sel, s, e) | Some cf \<Rightarrow>
        bnd (assert_that (fl_cl cf = c) ''cf->cl == c'') (\<lambda>_.
        bnd (sel_pri n sel s) (\<lambda>fp.
        if (case fp of Some p \<Rightarrow> p \<ge> fl_pri cf | None \<Rightarrow> False) then Inr (sel, s, e)
        else
          bnd (vget (tm_buf_states s) n) (\<lambda>row. bnd (vget row subnet) (\<lambda>b.
          bnd (if fl_head cf \<and> fl_vc cf = - 1 then
                 bnd (vget (tm_last_vc s) n) (\<lambda>l. bnd (vget l subnet) (\<lambda>l. bnd (vget l c) (\<lambda>lvc.
                 choose_vc cfg ops subnet n lvc b (tm_time s) cf e)))
               else Inr (cf, e)) (\<lambda>(cf, e).
          bnd (set_front n c cf s) (\<lambda>s.
          if fl_vc cf = - 1 then Inr (sel, s, e)
          else bnd (IsFullFor (tm_time s) b (fl_vc cf)) (\<lambda>full. Inr (if full then sel else Some c, s, e)))))))))))"

text \<open>\<^verbatim>\<open>numeric_limits<long long>::max() - _time\<close>, stored in an \<^verbatim>\<open>int\<close>.\<close>

definition network_age_pri :: "int \<Rightarrow> int" where
  "network_age_pri time = int32 (9223372036854775807 - time)"

definition count_sent :: "int \<Rightarrow> int \<Rightarrow> bool \<Rightarrow> tm_stats \<Rightarrow> tm_stats res" where
  "count_sent c n h ts =
     bnd (incr_at c n (ts_sent_flits ts)) (\<lambda>sf.
     bnd (if h then incr_at c n (ts_sent_packets ts) else Inr (ts_sent_packets ts)) (\<lambda>sp.
     Inr (ts\<lparr>ts_sent_flits := sf, ts_sent_packets := sp\<rparr>)))"

definition count_accepted :: "int \<Rightarrow> int \<Rightarrow> bool \<Rightarrow> tm_stats \<Rightarrow> tm_stats res" where
  "count_accepted c n t ts =
     bnd (incr_at c n (ts_accepted_flits ts)) (\<lambda>af.
     bnd (if t then incr_at c n (ts_accepted_packets ts) else Inr (ts_accepted_packets ts)) (\<lambda>ap.
     Inr (ts\<lparr>ts_accepted_flits := af, ts_accepted_packets := ap\<rparr>)))"

definition send_flit :: "tm_config \<Rightarrow> 'e net_ops \<Rightarrow> int \<Rightarrow> int \<Rightarrow> int \<Rightarrow> 'a tm_scheme \<times> 'e \<Rightarrow> ('a tm_scheme \<times> 'e) res" where
  "send_flit cfg ops subnet n sel st =
     (let (s, e) = st in
      bnd (front_of n sel s) (\<lambda>q. case q of None \<Rightarrow> Inl NullPointer | Some f \<Rightarrow>
      let c = fl_cl f in
      bnd (vget (tm_buf_states s) n) (\<lambda>row. bnd (vget row subnet) (\<lambda>b.
      bnd (if fl_head f then
             bnd (if tc_lookahead_routing cfg then
                    if tc_noq cfg then Inr (f, e)
                    else bnd (op_rf ops (Some (subnet, n)) f False e) (\<lambda>(os, f, e). Inr (f\<lparr>fl_la_route_set := os\<rparr>, e))
                  else Inr (f\<lparr>fl_la_route_set := []\<rparr>, e)) (\<lambda>(f, e).
             bnd (TakeBuffer (fl_vc f) (fl_pid f) b) (\<lambda>b.
             bnd (upd_at n (upd_at subnet (upd_at c (\<lambda>_. Inr (fl_vc f)))) (tm_last_vc s)) (\<lambda>lv.
             Inr (f, b, s\<lparr>tm_last_vc := lv\<rparr>, e))))
           else Inr (f, b, s, e)) (\<lambda>(f, b, s, e).
      bnd (upd_at n (upd_at subnet (\<lambda>_. Inr c)) (tm_last_class s)) (\<lambda>lc.
      bnd (upd_at n (upd_at c (\<lambda>q. Inr (tl q))) (tm_partial_packets s)) (\<lambda>pp.
      bnd (SendingFlit (tm_time s) f b) (\<lambda>b.
      bnd (if tc_pri_type cfg = PriNetworkAge then
             let p = network_age_pri (tm_time s) in bnd (assert_that (p \<ge> 0) ''f->pri >= 0'') (\<lambda>_. Inr (f\<lparr>fl_pri := p\<rparr>))
           else Inr f) (\<lambda>f.
      let f = f\<lparr>fl_itime := tm_time s\<rparr> in
      bnd (upd_at n (upd_at c (\<lambda>q. Inr (case q of [] \<Rightarrow> [] | nf # r \<Rightarrow> if \<not> fl_tail f then nf\<lparr>fl_vc := fl_vc f\<rparr> # r else nf # r))) pp) (\<lambda>pp.
      bnd (if tm_sim_state s = warming_up \<or> tm_sim_state s = running then count_sent c n (fl_head f) (tm_stat s)
           else Inr (tm_stat s)) (\<lambda>ts.
      bnd (op_WriteFlit ops subnet n f e) (\<lambda>e.
      Inr (s\<lparr>tm_last_class := lc, tm_partial_packets := pp, tm_buf_states := vupd (tm_buf_states s) n (vupd row subnet b),
             tm_stat := ts\<rparr>, e)))))))))))))"

definition hold_switch :: "tm_config \<Rightarrow> int \<Rightarrow> int \<Rightarrow> buffer_state \<Rightarrow> int \<Rightarrow> 'a tm_scheme \<Rightarrow> (int option \<times> int) res" where
  "hold_switch cfg subnet n b last_class s =
     (if tc_hold_switch_for_packet cfg then
        bnd (front_of n last_class s) (\<lambda>q. case q of None \<Rightarrow> Inr (None, tc_classes cfg) | Some f \<Rightarrow>
        if fl_head f then Inr (None, tc_classes cfg)
        else bnd (IsFullFor (tm_time s) b (fl_vc f)) (\<lambda>full.
          if full then Inr (None, tc_classes cfg)
          else
            bnd (vget (tm_last_vc s) n) (\<lambda>l. bnd (vget l subnet) (\<lambda>l. bnd (vget l last_class) (\<lambda>lvc.
            bnd (assert_that (fl_vc f = lvc) ''f->vc == _last_vc[n][subnet][last_class]'') (\<lambda>_.
            Inr (Some last_class, tc_classes cfg - 1)))))))
      else Inr (None, tc_classes cfg))"

definition inject_node :: "tm_config \<Rightarrow> 'e net_ops \<Rightarrow> int \<Rightarrow> int \<Rightarrow> 'a tm_scheme \<times> 'e \<Rightarrow> ('a tm_scheme \<times> 'e) res" where
  "inject_node cfg ops subnet n st =
     (let (s, e) = st in
      bnd (vget (tm_buf_states s) n) (\<lambda>row. bnd (vget row subnet) (\<lambda>b.
      bnd (vget (tm_last_class s) n) (\<lambda>lc. bnd (vget lc subnet) (\<lambda>last_class.
      bnd (hold_switch cfg subnet n b last_class s) (\<lambda>(sel, class_limit).
      bnd (for_each (\<lambda>i. inject_class cfg ops subnet n ((last_class + i) smod tc_classes cfg)) [1..class_limit] (sel, s, e)) (\<lambda>(sel, s, e).
      case sel of None \<Rightarrow> Inr (s, e) | Some c \<Rightarrow> send_flit cfg ops subnet n c (s, e))))))))"

section \<open>One cycle\<close>

text \<open>The first phase: flits and credits that arrive at node \<open>n\<close>. The flits read are kept until the last phase.\<close>

definition read_node ::
    "'e net_ops \<Rightarrow> int \<Rightarrow> 'e \<Rightarrow> int \<Rightarrow> (int \<times> flit) list \<times> 'a tm_scheme \<Rightarrow> ((int \<times> flit) list \<times> 'a tm_scheme) res" where
  "read_node ops subnet e n st =
     (let (flits, s) = st in
      bnd (case op_ReadFlit ops subnet n e of
             None \<Rightarrow> Inr (flits, s)
           | Some f \<Rightarrow>
               if tm_sim_state s = warming_up \<or> tm_sim_state s = running then
                 bnd (count_accepted (fl_cl f) n (fl_tail f) (tm_stat s)) (\<lambda>ts. Inr (flits @ [(n, f)], s\<lparr>tm_stat := ts\<rparr>))
               else Inr (flits @ [(n, f)], s)) (\<lambda>(flits, s).
      case op_ReadCredit ops subnet n e of
        None \<Rightarrow> Inr (flits, s)
      | Some c \<Rightarrow> bnd (upd_at n (upd_at subnet (ProcessCredit (tm_time s) c)) (tm_buf_states s)) (\<lambda>bs.
          Inr (flits, s\<lparr>tm_buf_states := bs\<rparr>))))"

definition read_subnet ::
    "tm_config \<Rightarrow> 'e net_ops \<Rightarrow> int \<Rightarrow> (int \<times> flit) list list \<times> 'a tm_scheme \<times> 'e \<Rightarrow> ((int \<times> flit) list list \<times> 'a tm_scheme \<times> 'e) res" where
  "read_subnet cfg ops subnet st =
     (let (fss, s, e) = st in
      bnd (for_each (read_node ops subnet e) (range0 (tc_nodes cfg)) ([], s)) (\<lambda>(flits, s).
      bnd (op_ReadInputs ops subnet e) (\<lambda>e. Inr (fss @ [flits], s, e))))"

text \<open>The last phase: the credit for an ejected flit goes back, and the flit is retired.\<close>

definition eject_flit ::
    "tm_config \<Rightarrow> 'e net_ops \<Rightarrow> (flit \<Rightarrow> flit \<Rightarrow> 'a tm_scheme \<Rightarrow> 'a tm_scheme res) \<Rightarrow> int \<Rightarrow> int \<times> flit \<Rightarrow> 'a tm_scheme \<times> 'e \<Rightarrow>
     ('a tm_scheme \<times> 'e) res" where
  "eject_flit cfg ops retire subnet nf st =
     (let (n, f) = nf; (s, e) = st; f = f\<lparr>fl_atime := tm_time s\<rparr>;
          c = \<lparr>cr_vc = [fl_vc f], cr_head = False, cr_tail = False, cr_id = int32 (fl_id f)\<rparr>
      in bnd (op_WriteCredit ops subnet n c e) (\<lambda>e. bnd (RetireFlit cfg ops retire n f s) (\<lambda>s. Inr (s, e))))"

definition eject_subnet ::
    "tm_config \<Rightarrow> 'e net_ops \<Rightarrow> (flit \<Rightarrow> flit \<Rightarrow> 'a tm_scheme \<Rightarrow> 'a tm_scheme res) \<Rightarrow> int \<times> (int \<times> flit) list \<Rightarrow> 'a tm_scheme \<times> 'e \<Rightarrow>
     ('a tm_scheme \<times> 'e) res" where
  "eject_subnet cfg ops retire sf st =
     (let (subnet, flits) = sf in
      bnd (for_each (eject_flit cfg ops retire subnet) flits st) (\<lambda>(s, e).
      bnd (op_Evaluate ops subnet e) (\<lambda>e. bnd (op_WriteOutputs ops subnet e) (\<lambda>e. Inr (s, e)))))"

definition tick_deadlock_timer :: "tm_config \<Rightarrow> 'a tm_scheme \<Rightarrow> 'a tm_scheme" where
  "tick_deadlock_timer cfg s =
     (if list_all (\<lambda>ids. ids = []) (tm_total_in_flight s) then s
      else if tm_deadlock_timer s \<ge> tc_deadlock_warn_timeout cfg then s\<lparr>tm_deadlock_timer := 0\<rparr>
      else s\<lparr>tm_deadlock_timer := tm_deadlock_timer s + 1\<rparr>)"

definition Step ::
    "tm_config \<Rightarrow> 'e net_ops \<Rightarrow> (flit \<Rightarrow> flit \<Rightarrow> 'a tm_scheme \<Rightarrow> 'a tm_scheme res) \<Rightarrow> 'a tm_scheme \<times> 'e \<Rightarrow> ('a tm_scheme \<times> 'e) res" where
  "Step cfg ops retire st =
     (let (s, e) = st; subnets = range0 (tc_subnets cfg) in
      bnd (for_each (read_subnet cfg ops) subnets ([], tick_deadlock_timer cfg s, e)) (\<lambda>(flits, s, e).
      bnd (for_each (\<lambda>subnet. for_each (inject_node cfg ops subnet) (range0 (tc_nodes cfg))) subnets (s, e)) (\<lambda>(s, e).
      bnd (for_each (eject_subnet cfg ops retire) (zip subnets flits) (s, e)) (\<lambda>(s, e).
      let s = s\<lparr>tm_time := tm_time s + 1\<rparr> in
      bnd (assert_that (tm_time s \<noteq> 0) ''_time'') (\<lambda>_. Inr (s, e))))))"

definition PacketsOutstanding :: "'a tm_scheme \<Rightarrow> bool" where
  "PacketsOutstanding s \<longleftrightarrow> list_ex (\<lambda>ids. ids = []) (tm_measured_in_flight s)"

text \<open>Clearing touches only the entries of the classes and, with pair statistics, of the pairs of nodes.\<close>

definition ClearStats :: "tm_config \<Rightarrow> 'a tm_scheme \<Rightarrow> 'a tm_scheme" where
  "ClearStats cfg s =
     (let k = nat (tc_classes cfg); counts = replicate k (replicate (nat (tc_nodes cfg)) 0); ts = tm_stat s;
          pairs = (if tc_pair_stats cfg then map (map Stats_Clear) else (\<lambda>ps. ps))
      in s\<lparr>tm_stat := ts\<lparr>ts_slowest_flit := replicate k (- 1), ts_slowest_packet := replicate k (- 1),
            ts_plat_stats := map Stats_Clear (ts_plat_stats ts), ts_nlat_stats := map Stats_Clear (ts_nlat_stats ts),
            ts_flat_stats := map Stats_Clear (ts_flat_stats ts), ts_frag_stats := map Stats_Clear (ts_frag_stats ts),
            ts_hop_stats := map Stats_Clear (ts_hop_stats ts), ts_pair_plat := pairs (ts_pair_plat ts),
            ts_pair_nlat := pairs (ts_pair_nlat ts), ts_pair_flat := pairs (ts_pair_flat ts), ts_sent_flits := counts,
            ts_sent_packets := counts, ts_accepted_flits := counts, ts_accepted_packets := counts\<rparr>,
          tm_reset_time := tm_time s\<rparr>)"

section \<open>The interface class\<close>

record tmw = tm +
  tw_ejection_queue :: "(flit \<times> flit) list list list"
  tw_last_print :: int

definition RetirePacket_wrapper :: "flit \<Rightarrow> flit \<Rightarrow> tmw \<Rightarrow> tmw res" where
  "RetirePacket_wrapper h t s =
     bnd (RetirePacket_base h t s) (\<lambda>s.
     bnd (upd_at (fl_cl h) (upd_at (fl_dest h) (\<lambda>q. Inr (q @ [(h, t)]))) (tw_ejection_queue s)) (\<lambda>eq.
     Inr (s\<lparr>tw_ejection_queue := eq\<rparr>)))"

definition Wrapper_GeneratePacket :: "tm_config \<Rightarrow> 'e net_ops \<Rightarrow> int \<Rightarrow> int \<Rightarrow> int \<Rightarrow> int \<Rightarrow> int \<Rightarrow> tmw \<Rightarrow> (int \<times> tmw) res" where
  "Wrapper_GeneratePacket cfg ops source dest sz cl time s = GeneratePacket cfg ops source dest sz cl (tm_time s - time) s"

text \<open>
  The constructor. \<open>lat source subnet\<close> is the round-trip latency that the buffer state of a node is given, \<open>end_vcs\<close> is
  \<^verbatim>\<open>gEndVCs\<close>, the last VC of each class.
\<close>

definition parse_priority :: "string \<Rightarrow> ePriority res" where
  "parse_priority s =
     (if s = ''class'' then Inr PriClass else if s = ''age'' then Inr PriAge else if s = ''network_age'' then Inr PriNetworkAge
      else if s = ''local_age'' then Inr PriLocalAge else if s = ''queue_length'' then Inr PriQueueLength
      else if s = ''hop_count'' then Inr PriHopCount else if s = ''sequence'' then Inr PriSequence else if s = ''none'' then Inr PriNone
      else Inl (ErrorMsg (''Unkown priority value: '' @ s)))"

text \<open>
  An option per class: the array if it is given, else the single value, cut to the number of classes or continued with its last
  element. It is how \<^verbatim>\<open>_subnet\<close>, \<^verbatim>\<open>_class_priority\<close> and \<^verbatim>\<open>_measure_stats\<close> are read.
\<close>

definition per_class :: "int \<Rightarrow> 'a list \<Rightarrow> 'a \<Rightarrow> 'a list" where
  "per_class classes arr v =
     (let xs = (if arr = [] then [v] else arr) in take (nat classes) xs @ replicate (nat classes - length xs) (last xs))"

definition new_tm_stats :: "tm_config \<Rightarrow> tm_stats" where
  "new_tm_stats cfg =
     (let k = nat (tc_classes cfg); m = nat (tc_nodes cfg); counts = replicate k (replicate m 0);
          pairs = replicate k (if tc_pair_stats cfg then replicate (nat (tc_nodes cfg * tc_nodes cfg)) (new_Stats 1 250) else [])
      in \<lparr>ts_slowest_flit = replicate k (- 1), ts_slowest_packet = replicate k (- 1), ts_plat_stats = replicate k (new_Stats 1 1000),
          ts_nlat_stats = replicate k (new_Stats 1 1000), ts_flat_stats = replicate k (new_Stats 1 1000),
          ts_frag_stats = replicate k (new_Stats 1 100), ts_hop_stats = replicate k (new_Stats 1 20),
          ts_pair_plat = pairs, ts_pair_nlat = pairs, ts_pair_flat = pairs,
          ts_sent_flits = counts, ts_sent_packets = counts, ts_accepted_flits = counts, ts_accepted_packets = counts\<rparr>)"

definition new_buf_states :: "tm_config \<Rightarrow> buf_config \<Rightarrow> (int \<Rightarrow> int \<Rightarrow> int) \<Rightarrow> buffer_state list list res" where
  "new_buf_states cfg bc lat =
     for_each (\<lambda>source rows.
       bnd (for_each (\<lambda>subnet row. bnd (boot bc (lat source subnet)) (\<lambda>b. Inr (row @ [b]))) (range0 (tc_subnets cfg)) []) (\<lambda>row.
       Inr (rows @ [row]))) (range0 (tc_nodes cfg)) []"

definition new_TrafficManager :: "tm_config \<Rightarrow> buf_config \<Rightarrow> (int \<Rightarrow> int \<Rightarrow> int) \<Rightarrow> int list \<Rightarrow> tmw res" where
  "new_TrafficManager cfg bc lat end_vcs =
     (let m = nat (tc_nodes cfg); k = nat (tc_classes cfg); l = nat (tc_subnets cfg) in
      bnd (assert_that (tc_inj_size cfg > 0) ''_inj_size > 0'') (\<lambda>_.
      if tc_noq cfg \<and> \<not> tc_lookahead_routing cfg then Inl (ErrorMsg ''NOQ requires lookahead routing to be enabled.'')
      else bnd (new_buf_states cfg bc lat) (\<lambda>bs.
      Inr \<lparr>tm_partial_packets = replicate m (replicate k []), tm_buf_states = bs, tm_last_class = replicate m (replicate l 0),
           tm_last_vc = replicate m (replicate l end_vcs), tm_total_in_flight = replicate k [], tm_measured_in_flight = replicate k [],
           tm_retired_packets = replicate k [], tm_packet_seq_no = replicate m 0, tm_requests_outstanding = replicate m 0,
           tm_deadlock_timer = 0, tm_reset_time = 0, tm_sim_state = running, tm_drain_time = - 1, tm_cur_id = 0, tm_cur_pid = 0, tm_time = 0,
           tm_stat = new_tm_stats cfg, tw_ejection_queue = replicate k (replicate m []), tw_last_print = 0\<rparr>)))"

text \<open>
  Running some cycles. The averages that are printed with the periodic results, and the accumulators only they use, are left out;
  the clearing that follows is not.
\<close>

definition RunCycles :: "tm_config \<Rightarrow> 'e net_ops \<Rightarrow> int \<Rightarrow> tmw \<times> 'e \<Rightarrow> (tmw \<times> 'e) res" where
  "RunCycles cfg ops cycles st =
     bnd (for_each (\<lambda>_. Step cfg ops RetirePacket_wrapper) (range0 cycles) st) (\<lambda>(s, e).
     Inr (if tc_print_csv_results cfg \<and> tc_sample_period cfg < tm_time s - tw_last_print s
          then (ClearStats cfg s)\<lparr>tw_last_print := tm_time s\<rparr> else s, e))"

definition CheckInFlightPackets :: "tmw \<Rightarrow> bool" where
  "CheckInFlightPackets s \<longleftrightarrow>
     list_ex (\<lambda>ids. ids \<noteq> []) (tm_total_in_flight s) \<or> list_ex (list_ex (\<lambda>q. q \<noteq> [])) (tw_ejection_queue s)"

text \<open>The first packet of the first non-empty queue; the default flit has packet number -1.\<close>

fun pop_first :: "'a list list \<Rightarrow> ('a \<times> 'a list list) option" where
  "pop_first [] = None"
| "pop_first ([] # qs) = map_option (\<lambda>(x, r). (x, [] # r)) (pop_first qs)"
| "pop_first ((x # q) # qs) = Some (x, q # qs)"

fun pop_class :: "'a list list list \<Rightarrow> ('a \<times> 'a list list list) option" where
  "pop_class [] = None"
| "pop_class (row # rows) =
     (case pop_first row of Some (x, r) \<Rightarrow> Some (x, r # rows) | None \<Rightarrow> map_option (\<lambda>(x, r). (x, row # r)) (pop_class rows))"

definition RetirePacket :: "'e net_ops \<Rightarrow> tmw \<Rightarrow> (flit \<times> flit) \<times> tmw" where
  "RetirePacket ops s =
     (case pop_class (tw_ejection_queue s) of
        Some ((h, t), eq) \<Rightarrow>
          ((h\<lparr>fl_src := op_GetActualNode ops (fl_src h), fl_dest := op_GetActualNode ops (fl_dest h)\<rparr>, t), s\<lparr>tw_ejection_queue := eq\<rparr>)
      | None \<Rightarrow> ((flit0\<lparr>fl_pid := - 1\<rparr>, flit0\<lparr>fl_pid := - 1\<rparr>), s))"

definition UpdateSimTime :: "int \<Rightarrow> 'a tm_scheme \<Rightarrow> 'a tm_scheme res" where
  "UpdateSimTime cycles s = (let s = s\<lparr>tm_time := tm_time s + cycles\<rparr> in bnd (assert_that (tm_time s \<noteq> 0) ''_time'') (\<lambda>_. Inr s))"

definition CheckInjectionQueue :: "tm_config \<Rightarrow> int \<Rightarrow> int \<Rightarrow> 'a tm_scheme \<Rightarrow> int res" where
  "CheckInjectionQueue cfg source cl s =
     bnd (vget (tm_partial_packets s) source) (\<lambda>row. bnd (vget row cl) (\<lambda>q. Inr (tc_inj_size cfg - vlen q)))"

end
