(* ===== verification/Packets.thy ===== *)
theory Packets
  imports Traffic_Manager
begin

text \<open>
  Packets through the traffic manager: what \<^verbatim>\<open>_GeneratePacket\<close> puts into the injection queue, and that retiring the flits of
  a packet hands the packet back to the caller of \<^verbatim>\<open>RetirePacket\<close>.
\<close>

section \<open>Vectors of vectors\<close>

lemma range0_prefix: "range0 n = ds @ x # rest \<Longrightarrow> x = int (length ds) \<and> int (length ds) < n"
proof -
  assume l: "range0 n = ds @ x # rest"
  then have "x \<in> set (range0 n)" by simp
  then have n: "0 \<le> n" by auto
  then have "vlen (range0 n) = n" by simp
  then have lt: "int (length ds) < n" unfolding l by (simp add: vlen_def)
  have "vat (range0 n) (int (length ds)) = x" unfolding l by (simp add: vat_def)
  then show ?thesis using vat_range0 [of "int (length ds)" n] lt by simp
qed

lemma vupd_vupd [simp]: "vupd (vupd xs i x) i y = vupd xs i y"
  by (simp add: vupd_def)

definition good_at :: "('a \<Rightarrow> bool) \<Rightarrow> int \<Rightarrow> 'a list \<Rightarrow> bool" where
  "good_at P i xs \<longleftrightarrow> 0 \<le> i \<and> i < vlen xs \<and> P (vat xs i)"

lemma upd_at_ok:
  assumes "good_at P i xs" "\<And>x. P x \<Longrightarrow> \<exists>y. g x = Inr y \<and> P y"
  shows "\<exists>ys. upd_at i g xs = Inr ys \<and> good_at P i ys"
  using assms by (fastforce simp: good_at_def upd_at_def)

section \<open>Statistics are always ready\<close>

definition hist_ok :: "stats \<Rightarrow> bool" where
  "hist_ok st \<longleftrightarrow> 1 \<le> st_num_bins st \<and> vlen (st_hist st) = st_num_bins st"

lemma AddSample_hist: "hist_ok st \<Longrightarrow> \<exists>st'. Stats_AddSample v st = Inr st' \<and> hist_ok st'"
  by (auto simp: hist_ok_def Stats_AddSample_def stats_bin_def Let_def)

lemma sample_at: "good_at hist_ok i xs \<Longrightarrow> \<exists>ys. upd_at i (Stats_AddSample v) xs = Inr ys \<and> good_at hist_ok i ys"
  by (rule upd_at_ok) (auto intro: AddSample_hist)

lemma sample_at2: "good_at (good_at hist_ok j) i xss \<Longrightarrow> \<exists>yss. upd_at i (upd_at j (Stats_AddSample v)) xss = Inr yss \<and> good_at (good_at hist_ok j) i yss"
  by (rule upd_at_ok) (auto intro: sample_at)

definition stats_ok :: "tm_config \<Rightarrow> int \<Rightarrow> int \<Rightarrow> tm_stats \<Rightarrow> bool" where
  "stats_ok cfg cl pair ts \<longleftrightarrow>
     good_at (\<lambda>_. True) cl (ts_slowest_flit ts) \<and> good_at (\<lambda>_. True) cl (ts_slowest_packet ts) \<and>
     good_at hist_ok cl (ts_flat_stats ts) \<and> good_at hist_ok cl (ts_hop_stats ts) \<and> good_at hist_ok cl (ts_plat_stats ts) \<and>
     good_at hist_ok cl (ts_nlat_stats ts) \<and> good_at hist_ok cl (ts_frag_stats ts) \<and>
     (tc_pair_stats cfg \<longrightarrow> good_at (good_at hist_ok pair) cl (ts_pair_flat ts) \<and> good_at (good_at hist_ok pair) cl (ts_pair_plat ts) \<and>
        good_at (good_at hist_ok pair) cl (ts_pair_nlat ts))"

lemma good_atD: "good_at P i xs \<Longrightarrow> 0 \<le> i \<and> i < vlen xs"
  by (simp add: good_at_def)

lemma flit_stats_ok:
  assumes s: "stats_ok cfg (fl_cl f) (fl_src f * tc_nodes cfg + dest) ts"
  shows "\<exists>ts'. flit_stats cfg f dest ts = Inr ts' \<and> stats_ok cfg (fl_cl f) (fl_src f * tc_nodes cfg + dest) ts'"
proof -
  let ?lat = "fl_atime f - fl_itime f"
  obtain fs where fs: "upd_at (fl_cl f) (Stats_AddSample ?lat) (ts_flat_stats ts) = Inr fs" "good_at hist_ok (fl_cl f) fs"
    using sample_at [of "fl_cl f" "ts_flat_stats ts" ?lat] s by (auto simp: stats_ok_def)
  have i: "0 \<le> fl_cl f" "fl_cl f < vlen (ts_slowest_flit ts)" "fl_cl f < vlen (ts_flat_stats ts)" using s by (auto simp: stats_ok_def good_at_def)
  show ?thesis
  proof (cases "tc_pair_stats cfg")
    case False
    then show ?thesis using fs i s by (auto simp: flit_stats_def Let_def stats_ok_def good_at_def)
  next
    case True
    then obtain ps where "upd_at (fl_cl f) (upd_at (fl_src f * tc_nodes cfg + dest) (Stats_AddSample ?lat)) (ts_pair_flat ts) = Inr ps"
        "good_at (good_at hist_ok (fl_src f * tc_nodes cfg + dest)) (fl_cl f) ps"
      using sample_at2 [of "fl_src f * tc_nodes cfg + dest" "fl_cl f" "ts_pair_flat ts" ?lat] s by (auto simp: stats_ok_def)
    then show ?thesis using fs i s True by (auto simp: flit_stats_def Let_def stats_ok_def good_at_def [of "\<lambda>_. True"])
  qed
qed

lemma packet_stats_ok:
  assumes s: "stats_ok cfg (fl_cl f) (fl_src f * tc_nodes cfg + dest) ts"
  shows "\<exists>ts'. packet_stats cfg f h dest ts = Inr ts' \<and> stats_ok cfg (fl_cl f) (fl_src f * tc_nodes cfg + dest) ts'"
proof -
  let ?p = "fl_src f * tc_nodes cfg + dest" and ?pl = "fl_atime f - fl_ctime h" and ?nl = "fl_atime f - fl_itime h"
    and ?fr = "(fl_atime f - fl_atime h) - (fl_id f - fl_id h)"
  note at = s [unfolded stats_ok_def]
  obtain hs where hs: "upd_at (fl_cl f) (Stats_AddSample (fl_hops f)) (ts_hop_stats ts) = Inr hs" "good_at hist_ok (fl_cl f) hs"
    using sample_at [of "fl_cl f" "ts_hop_stats ts"] at by blast
  obtain pl where pl: "upd_at (fl_cl f) (Stats_AddSample ?pl) (ts_plat_stats ts) = Inr pl" "good_at hist_ok (fl_cl f) pl"
    using sample_at [of "fl_cl f" "ts_plat_stats ts"] at by blast
  obtain nl where nl: "upd_at (fl_cl f) (Stats_AddSample ?nl) (ts_nlat_stats ts) = Inr nl" "good_at hist_ok (fl_cl f) nl"
    using sample_at [of "fl_cl f" "ts_nlat_stats ts"] at by blast
  obtain fr where fr: "upd_at (fl_cl f) (Stats_AddSample ?fr) (ts_frag_stats ts) = Inr fr" "good_at hist_ok (fl_cl f) fr"
    using sample_at [of "fl_cl f" "ts_frag_stats ts"] at by blast
  have i: "0 \<le> fl_cl f" "fl_cl f < vlen (ts_slowest_packet ts)" "fl_cl f < vlen (ts_plat_stats ts)" using at by (auto simp: good_at_def)
  show ?thesis
  proof (cases "tc_pair_stats cfg")
    case False
    then show ?thesis using hs pl nl fr i at by (auto simp: packet_stats_def Let_def stats_ok_def good_at_def [of "\<lambda>_. True"])
  next
    case True
    obtain pp where pp: "upd_at (fl_cl f) (upd_at ?p (Stats_AddSample ?pl)) (ts_pair_plat ts) = Inr pp" "good_at (good_at hist_ok ?p) (fl_cl f) pp"
      using sample_at2 [of ?p "fl_cl f" "ts_pair_plat ts" ?pl] at True by blast
    obtain pn where pn: "upd_at (fl_cl f) (upd_at ?p (Stats_AddSample ?nl)) (ts_pair_nlat ts) = Inr pn" "good_at (good_at hist_ok ?p) (fl_cl f) pn"
      using sample_at2 [of ?p "fl_cl f" "ts_pair_nlat ts" ?nl] at True by blast
    show ?thesis using hs pl nl fr i at True pp pn by (auto simp: packet_stats_def Let_def stats_ok_def good_at_def [of "\<lambda>_. True"])
  qed
qed

section \<open>Generating\<close>

definition packet_flit :: "int \<Rightarrow> int \<Rightarrow> int \<Rightarrow> int \<Rightarrow> int \<Rightarrow> int \<Rightarrow> int \<Rightarrow> bool \<Rightarrow> int \<Rightarrow> int \<Rightarrow> flit" where
  "packet_flit id0 pid source dest sz cl time record p i =
     flit0\<lparr>fl_id := id0 + i, fl_pid := pid, fl_src := source, fl_dest := dest, fl_ctime := time, fl_record := record,
       fl_cl := cl, fl_vc := - 1, fl_head := (i = 0), fl_tail := (i = sz - 1), fl_packet_size := sz, fl_pri := p\<rparr>"

definition queue_at :: "int \<Rightarrow> int \<Rightarrow> 'a tm_scheme \<Rightarrow> flit list" where
  "queue_at n c s = vat (vat (tm_partial_packets s) n) c"

lemma generate_ok:
  fixes s :: "'a tm_scheme" and pid dest sz :: int and rec :: bool
  assumes src: "0 \<le> src" "src < vlen (tm_partial_packets s)" and cl: "0 \<le> cl" "cl < vlen (vat (tm_partial_packets s) src)"
      "cl < vlen (tm_total_in_flight s)" "cl < vlen (tm_measured_in_flight s)"
    and ids: "0 \<le> tm_cur_id s" and pri: "packet_pri cfg src cl time s = Inr p"
  defines "pf \<equiv> packet_flit (tm_cur_id s) pid src dest sz cl time rec p"
  shows "\<exists>A B. for_each (generate_flit cfg src dest sz cl time pid rec) (range0 sz) s =
      Inr (s\<lparr>tm_cur_id := tm_cur_id s + vlen (range0 sz), tm_total_in_flight := vupd (tm_total_in_flight s) cl A,
             tm_measured_in_flight := vupd (tm_measured_in_flight s) cl B,
             tm_partial_packets := vupd (tm_partial_packets s) src (vupd (vat (tm_partial_packets s) src) cl (queue_at src cl s @ map pf (range0 sz)))\<rparr>) \<and>
    set A = set (vat (tm_total_in_flight s) cl) \<union> (\<lambda>i. tm_cur_id s + i) ` set (range0 sz) \<and>
    set B = set (vat (tm_measured_in_flight s) cl) \<union> (if rec then (\<lambda>i. tm_cur_id s + i) ` set (range0 sz) else {})"
proof -
  let ?st = "\<lambda>xs A B. s\<lparr>tm_cur_id := tm_cur_id s + vlen xs, tm_total_in_flight := vupd (tm_total_in_flight s) cl A,
             tm_measured_in_flight := vupd (tm_measured_in_flight s) cl B,
             tm_partial_packets := vupd (tm_partial_packets s) src (vupd (vat (tm_partial_packets s) src) cl (queue_at src cl s @ map pf xs))\<rparr>"
  let ?P = "\<lambda>ds t. \<exists>A B. t = ?st ds A B \<and> set A = set (vat (tm_total_in_flight s) cl) \<union> (\<lambda>i. tm_cur_id s + i) ` set ds \<and>
    set B = set (vat (tm_measured_in_flight s) cl) \<union> (if rec then (\<lambda>i. tm_cur_id s + i) ` set ds else {})"
  have "\<exists>t. for_each (generate_flit cfg src dest sz cl time pid rec) (range0 sz) s = Inr t \<and> ?P (range0 sz) t"
  proof (rule for_each_prefix [where P = ?P])
    fix ds i rest t
    assume l: "range0 sz = ds @ i # rest" and "?P ds t"
    then obtain A B where t: "t = ?st ds A B" and A: "set A = set (vat (tm_total_in_flight s) cl) \<union> (\<lambda>i. tm_cur_id s + i) ` set ds"
      and B: "set B = set (vat (tm_measured_in_flight s) cl) \<union> (if rec then (\<lambda>i. tm_cur_id s + i) ` set ds else {})" by blast
    have i: "i = vlen ds" using range0_prefix [OF l] by (simp add: vlen_def)
    have pr: "packet_pri cfg src cl time (t\<lparr>tm_cur_id := tm_cur_id t + 1\<rparr>) = Inr p" using pri by (simp add: t packet_pri_def cong: ePriority.case_cong)
    have nz: "tm_cur_id s + (vlen ds + 1) \<noteq> 0" using ids vlen_nonneg [of ds] by linarith
    show "\<exists>t'. generate_flit cfg src dest sz cl time pid rec i t = Inr t' \<and> ?P (ds @ [i]) t'"
    proof (intro exI conjI)
      show "generate_flit cfg src dest sz cl time pid rec i t = Inr (?st (ds @ [i]) (List.insert (tm_cur_id s + i) A) (if rec then List.insert (tm_cur_id s + i) B else B))"
        using src cl nz pr i by (simp add: generate_flit_def t upd_at_def pf_def packet_flit_def Let_def queue_at_def add.assoc)
    qed (use A B i in auto)
  qed (use src cl in \<open>auto simp: vupd_same queue_at_def intro!: exI\<close>)
  then show ?thesis by blast
qed

section \<open>Retiring\<close>

text \<open>\<open>pending\<close>: the flits numbered \<open>ids\<close> of a packet of class \<open>cl\<close> are in the network, and their statistics can be recorded.\<close>

definition pending :: "tm_config \<Rightarrow> int \<Rightarrow> int \<Rightarrow> int set \<Rightarrow> bool \<Rightarrow> 'a tm_scheme \<Rightarrow> bool" where
  "pending cfg cl pair ids rec s \<longleftrightarrow>
     good_at (\<lambda>xs. ids \<subseteq> set xs) cl (tm_total_in_flight s) \<and> good_at (\<lambda>xs. rec \<longrightarrow> ids \<subseteq> set xs) cl (tm_measured_in_flight s) \<and>
     good_at (\<lambda>_. True) cl (tm_retired_packets s) \<and> stats_ok cfg cl pair (tm_stat s)"

lemma leave_ok:
  fixes s :: "'a tm_scheme"
  assumes p: "pending cfg (fl_cl f) (fl_src f * tc_nodes cfg + d) ids (fl_record f) s" and i: "fl_id f \<in> ids"
    and d: "fl_head f \<longrightarrow> fl_dest f = op_GetActualNode ops d"
  shows "\<exists>M ts. leave_network cfg ops d f s = Inr (s\<lparr>tm_deadlock_timer := 0,
      tm_total_in_flight := vupd (tm_total_in_flight s) (fl_cl f) (removeAll (fl_id f) (vat (tm_total_in_flight s) (fl_cl f))),
      tm_measured_in_flight := M, tm_stat := ts\<rparr>) \<and> good_at (\<lambda>xs. fl_record f \<longrightarrow> ids - {fl_id f} \<subseteq> set xs) (fl_cl f) M \<and>
    stats_ok cfg (fl_cl f) (fl_src f * tc_nodes cfg + d) ts"
proof -
  let ?c = "fl_cl f"
  obtain ts where ts: "flit_stats cfg f d (tm_stat s) = Inr ts" "stats_ok cfg ?c (fl_src f * tc_nodes cfg + d) ts"
    using flit_stats_ok [of cfg f d "tm_stat s"] p by (auto simp: pending_def)
  define M where "M = (if fl_record f then vupd (tm_measured_in_flight s) ?c (removeAll (fl_id f) (vat (tm_measured_in_flight s) ?c))
    else tm_measured_in_flight s)"
  have b: "0 \<le> ?c" "?c < vlen (tm_total_in_flight s)" "fl_id f \<in> set (vat (tm_total_in_flight s) ?c)" "?c < vlen (tm_measured_in_flight s)"
      "fl_record f \<longrightarrow> ids \<subseteq> set (vat (tm_measured_in_flight s) ?c)"
    using p i by (auto simp: pending_def good_at_def)
  have g: "good_at (\<lambda>xs. fl_record f \<longrightarrow> ids - {fl_id f} \<subseteq> set xs) ?c M" using b by (auto simp: M_def good_at_def)
  have "leave_network cfg ops d f s = Inr (s\<lparr>tm_deadlock_timer := 0,
      tm_total_in_flight := vupd (tm_total_in_flight s) ?c (removeAll (fl_id f) (vat (tm_total_in_flight s) ?c)),
      tm_measured_in_flight := M, tm_stat := ts\<rparr>)"
    using b d ts(1) i by (cases "fl_record f") (auto simp: leave_network_def Let_def M_def)
  then show ?thesis using g ts(2) by blast
qed

definition drop_in_flight :: "flit \<Rightarrow> 'a tm_scheme \<Rightarrow> int list list" where
  "drop_in_flight f s = vupd (tm_total_in_flight s) (fl_cl f) (removeAll (fl_id f) (vat (tm_total_in_flight s) (fl_cl f)))"

lemma retire_nontail:
  fixes s :: tmw
  assumes p: "pending cfg (fl_cl f) (fl_src f * tc_nodes cfg + d) ids (fl_record f) s" and i: "fl_id f \<in> ids"
    and d: "fl_head f \<longrightarrow> fl_dest f = op_GetActualNode ops d" and t: "\<not> fl_tail f"
  defines "m \<equiv> vat (tm_retired_packets s) (fl_cl f)"
  shows "\<exists>s'. RetireFlit cfg ops RetirePacket_wrapper d f s = Inr s' \<and>
    pending cfg (fl_cl f) (fl_src f * tc_nodes cfg + d) (ids - {fl_id f}) (fl_record f) s' \<and>
    tw_ejection_queue s' = tw_ejection_queue s \<and> tm_requests_outstanding s' = tm_requests_outstanding s \<and>
    tm_total_in_flight s' = drop_in_flight f s \<and>
    vat (tm_retired_packets s') (fl_cl f) = (if fl_head f \<and> map_of m (fl_pid f) = None then (fl_pid f, f\<lparr>fl_dest := d\<rparr>) # m else m)"
proof -
  let ?c = "fl_cl f"
  obtain M ts where l: "leave_network cfg ops d f s = Inr (s\<lparr>tm_deadlock_timer := 0, tm_total_in_flight := drop_in_flight f s,
      tm_measured_in_flight := M, tm_stat := ts\<rparr>)" "good_at (\<lambda>xs. fl_record f \<longrightarrow> ids - {fl_id f} \<subseteq> set xs) ?c M"
      "stats_ok cfg ?c (fl_src f * tc_nodes cfg + d) ts"
    using leave_ok [OF p i d] unfolding drop_in_flight_def by blast
  have b: "0 \<le> ?c" "?c < vlen (tm_retired_packets s)" using p by (auto simp: pending_def good_at_def)
  have tot: "good_at (\<lambda>xs. ids - {fl_id f} \<subseteq> set xs) ?c (drop_in_flight f s)" using p by (auto simp: pending_def good_at_def drop_in_flight_def)
  show ?thesis using l tot t b
    by (cases "fl_head f") (auto simp: RetireFlit_def Let_def pending_def upd_at_def m_def good_at_def [of "\<lambda>_. True"])
qed

lemma retire_tail:
  fixes s :: tmw
  assumes p: "pending cfg (fl_cl f) (fl_src f * tc_nodes cfg + d) ids (fl_record f) s" and i: "fl_id f \<in> ids"
    and d: "fl_head f \<longrightarrow> fl_dest f = op_GetActualNode ops d" and t: "fl_tail f"
    and h: "if fl_head f then h = f\<lparr>fl_dest := d\<rparr> else map_of (vat (tm_retired_packets s) (fl_cl f)) (fl_pid f) = Some h"
      "fl_head h" "fl_pid h = fl_pid f" "fl_cl h = fl_cl f" "fl_dest h = d"
    and src: "good_at (\<lambda>_. True) (fl_src h) (tm_requests_outstanding s)"
    and eq: "good_at (good_at (\<lambda>_. True) d) (fl_cl f) (tw_ejection_queue s)"
  shows "\<exists>s'. RetireFlit cfg ops RetirePacket_wrapper d f s = Inr s' \<and>
    tw_ejection_queue s' = vupd (tw_ejection_queue s) (fl_cl f) (vupd (vat (tw_ejection_queue s) (fl_cl f)) d
      (vat (vat (tw_ejection_queue s) (fl_cl f)) d @ [(h, f\<lparr>fl_dest := d\<rparr>)])) \<and>
    tm_total_in_flight s' = drop_in_flight f s"
proof -
  let ?c = "fl_cl f" and ?f = "f\<lparr>fl_dest := d\<rparr>"
  obtain M ts where l: "leave_network cfg ops d f s = Inr (s\<lparr>tm_deadlock_timer := 0, tm_total_in_flight := drop_in_flight f s,
      tm_measured_in_flight := M, tm_stat := ts\<rparr>)" (is "_ = Inr ?s1") and ts: "stats_ok cfg ?c (fl_src f * tc_nodes cfg + d) ts"
    using leave_ok [OF p i d] unfolding drop_in_flight_def by blast
  have b: "0 \<le> ?c" "?c < vlen (tm_retired_packets s)" using p by (auto simp: pending_def good_at_def)
  define R where "R = (if fl_head f then tm_retired_packets s
    else vupd (tm_retired_packets s) ?c (filter (\<lambda>p. fst p \<noteq> fl_pid f) (vat (tm_retired_packets s) ?c)))"
  have R: "head_of ?f ?s1 = Inr (h, ?s1\<lparr>tm_retired_packets := R\<rparr>)"
    using h b by (cases "fl_head f") (simp_all add: head_of_def R_def)
  define r where "r = vupd (tm_requests_outstanding s) (fl_src h) (vat (tm_requests_outstanding s) (fl_src h) - 1)"
  define q where "q = vupd (tw_ejection_queue s) ?c (vupd (vat (tw_ejection_queue s) ?c) d (vat (vat (tw_ejection_queue s) ?c) d @ [(h, ?f)]))"
  define s2 where "s2 = ?s1\<lparr>tm_retired_packets := R, tm_requests_outstanding := r, tw_ejection_queue := q\<rparr>"
  have rt: "RetirePacket_wrapper h ?f (?s1\<lparr>tm_retired_packets := R\<rparr>) = Inr s2"
    using h src eq by (simp add: RetirePacket_wrapper_def RetirePacket_base_def upd_at_def good_at_def s2_def r_def q_def)
  obtain ts' where ts': "packet_stats cfg ?f h d ts = Inr ts'" using packet_stats_ok [of cfg ?f d ts h] ts by auto
  have stat: "tm_stat s2 = ts" by (simp add: s2_def)
  show ?thesis
  proof (cases "tm_sim_state s2 = warming_up \<or> fl_record f")
    case True
    have "RetireFlit cfg ops RetirePacket_wrapper d f s = Inr (s2\<lparr>tm_stat := ts'\<rparr>)"
      using True t ts' by (simp add: RetireFlit_def l Let_def R rt stat)
    then show ?thesis by (simp add: s2_def q_def)
  next
    case False
    have "RetireFlit cfg ops RetirePacket_wrapper d f s = Inr s2"
      using False t by (simp add: RetireFlit_def l Let_def R rt)
    then show ?thesis by (simp add: s2_def q_def)
  qed
qed

text \<open>The flits between the head and the tail.\<close>

definition in_flight_of :: "int \<Rightarrow> 'a tm_scheme \<Rightarrow> int set" where
  "in_flight_of cl s = set (vat (tm_total_in_flight s) cl)"

lemma in_flight_drop: "pending cfg (fl_cl f) pair ids rec s \<Longrightarrow> tm_total_in_flight s' = drop_in_flight f s \<Longrightarrow>
    in_flight_of (fl_cl f) s' = in_flight_of (fl_cl f) s - {fl_id f}"
  by (auto simp: in_flight_of_def drop_in_flight_def pending_def good_at_def)

lemma retire_body:
  fixes s :: tmw
  assumes "pending cfg cl pair ids rec s" "distinct (map fl_id bs)"
    "\<And>g. g \<in> set bs \<Longrightarrow> fl_cl g = cl \<and> fl_src g * tc_nodes cfg + d = pair \<and> fl_record g = rec \<and> \<not> fl_head g \<and> \<not> fl_tail g \<and> fl_id g \<in> ids"
  shows "\<exists>s'. for_each (RetireFlit cfg ops RetirePacket_wrapper d) bs s = Inr s' \<and> pending cfg cl pair (ids - fl_id ` set bs) rec s' \<and>
    tw_ejection_queue s' = tw_ejection_queue s \<and> tm_requests_outstanding s' = tm_requests_outstanding s \<and>
    in_flight_of cl s' = in_flight_of cl s - fl_id ` set bs \<and> vat (tm_retired_packets s') cl = vat (tm_retired_packets s) cl"
  using assms
proof (induction bs arbitrary: s ids)
  case (Cons g bs)
  have g: "fl_cl g = cl" "fl_src g * tc_nodes cfg + d = pair" "fl_record g = rec" "\<not> fl_head g" "\<not> fl_tail g" "fl_id g \<in> ids"
    using Cons.prems(3) [of g] by simp_all
  have p: "pending cfg (fl_cl g) (fl_src g * tc_nodes cfg + d) ids (fl_record g) s" using Cons.prems(1) g by simp
  obtain s1 where s1: "RetireFlit cfg ops RetirePacket_wrapper d g s = Inr s1" "pending cfg cl pair (ids - {fl_id g}) rec s1"
      "tw_ejection_queue s1 = tw_ejection_queue s" "tm_requests_outstanding s1 = tm_requests_outstanding s"
      "tm_total_in_flight s1 = drop_in_flight g s" "vat (tm_retired_packets s1) cl = vat (tm_retired_packets s) cl"
    using retire_nontail [OF p g(6) _ g(5), of ops] g by auto
  have "fl_cl x = cl \<and> fl_src x * tc_nodes cfg + d = pair \<and> fl_record x = rec \<and> \<not> fl_head x \<and> \<not> fl_tail x \<and> fl_id x \<in> ids - {fl_id g}"
    if "x \<in> set bs" for x
  proof -
    have "fl_id x \<noteq> fl_id g" using Cons.prems(2) that by (metis distinct.simps(2) image_eqI list.simps(9) set_map)
    then show ?thesis using Cons.prems(3) [of x] that by simp
  qed
  from Cons.IH [OF s1(2) _ this] Cons.prems(2) obtain s' where s': "for_each (RetireFlit cfg ops RetirePacket_wrapper d) bs s1 = Inr s'"
      "pending cfg cl pair (ids - {fl_id g} - fl_id ` set bs) rec s'" "tw_ejection_queue s' = tw_ejection_queue s1"
      "tm_requests_outstanding s' = tm_requests_outstanding s1" "in_flight_of cl s' = in_flight_of cl s1 - fl_id ` set bs"
      "vat (tm_retired_packets s') cl = vat (tm_retired_packets s1) cl" by auto
  have "ids - {fl_id g} - fl_id ` set bs = ids - fl_id ` set (g # bs)" by auto
  with s' s1 in_flight_drop [OF p s1(5)] g(1) show ?case by auto
qed simp

text \<open>A flit as it comes out of the network: the routers may have changed the other fields.\<close>

definition carried :: "flit \<Rightarrow> flit \<Rightarrow> bool" where
  "carried f g \<longleftrightarrow> fl_id g = fl_id f \<and> fl_pid g = fl_pid f \<and> fl_src g = fl_src f \<and> fl_dest g = fl_dest f \<and> fl_cl g = fl_cl f \<and>
     fl_record g = fl_record f \<and> fl_head g = fl_head f \<and> fl_tail g = fl_tail f \<and> fl_packet_size g = fl_packet_size f"

lemma carriedD:
  assumes "carried (packet_flit id0 pid src dest sz cl time rec p i) g"
  shows "fl_id g = id0 + i" "fl_pid g = pid" "fl_src g = src" "fl_dest g = dest" "fl_cl g = cl" "fl_record g = rec"
    "fl_head g = (i = 0)" "fl_tail g = (i = sz - 1)" "fl_packet_size g = sz"
  using assms by (simp_all add: carried_def packet_flit_def)

lemma range0_ends: "2 \<le> n \<Longrightarrow> range0 n = 0 # [1..n - 2] @ [n - 1]"
  using upto_rec1 [of 0 "n - 1"] upto_rec2 [of 1 "n - 1"] by (simp add: range0_def)

lemma retire_all:
  fixes s :: tmw
  assumes p: "pending cfg cl (src * tc_nodes cfg + d) ((\<lambda>i. id0 + i) ` {0..<sz}) rec s" and sz: "1 \<le> sz"
    and gs: "list_all2 carried (map (packet_flit id0 pid src dest sz cl time rec pri) (range0 sz)) gs"
    and dest: "dest = op_GetActualNode ops d" and new: "map_of (vat (tm_retired_packets s) cl) pid = None"
    and src: "good_at (\<lambda>_. True) src (tm_requests_outstanding s)" and eq: "good_at (good_at (\<lambda>_. True) d) cl (tw_ejection_queue s)"
  shows "\<exists>s' h t. for_each (RetireFlit cfg ops RetirePacket_wrapper d) gs s = Inr s' \<and>
    tw_ejection_queue s' = vupd (tw_ejection_queue s) cl (vupd (vat (tw_ejection_queue s) cl) d (vat (vat (tw_ejection_queue s) cl) d @ [(h, t)])) \<and>
    in_flight_of cl s' = in_flight_of cl s - (\<lambda>i. id0 + i) ` {0..<sz} \<and>
    fl_pid h = pid \<and> fl_src h = src \<and> fl_dest h = d \<and> fl_cl h = cl \<and> fl_packet_size h = sz \<and> fl_head h \<and> fl_pid t = pid \<and> fl_tail t"
proof (cases "sz = 1")
  case True
  then obtain g where g: "gs = [g]" "carried (packet_flit id0 pid src dest sz cl time rec pri 0) g"
    using gs by (auto simp: range0_def list_all2_Cons1)
  note c = carriedD [OF g(2)]
  let ?h = "g\<lparr>fl_dest := d\<rparr>"
  have p': "pending cfg (fl_cl g) (fl_src g * tc_nodes cfg + d) ((\<lambda>i. id0 + i) ` {0..<sz}) (fl_record g) s" using p c by simp
  obtain s' where s': "RetireFlit cfg ops RetirePacket_wrapper d g s = Inr s'"
      "tw_ejection_queue s' = vupd (tw_ejection_queue s) cl (vupd (vat (tw_ejection_queue s) cl) d (vat (vat (tw_ejection_queue s) cl) d @ [(?h, ?h)]))"
      "tm_total_in_flight s' = drop_in_flight g s"
    using retire_tail [OF p', of ops ?h] c dest src eq True by auto
  have "(\<lambda>i. id0 + i) ` {0..<sz} = {id0}" using True by auto
  then show ?thesis using s' in_flight_drop [OF p' s'(3)] c True g(1)
    by (intro exI [of _ s'] exI [of _ ?h]) simp
next
  case False
  then have sz2: "2 \<le> sz" using sz by simp
  let ?pf = "packet_flit id0 pid src dest sz cl time rec pri"
  obtain g0 bs gl where gl: "gs = g0 # bs @ [gl]" "carried (?pf 0) g0" "list_all2 carried (map ?pf [1..sz - 2]) bs" "carried (?pf (sz - 1)) gl"
    using gs unfolding range0_ends [OF sz2] by (auto simp: list_all2_Cons1 list_all2_append1)
  note c0 = carriedD [OF gl(2)] and cl' = carriedD [OF gl(4)]
  let ?ids = "(\<lambda>i. id0 + i) ` {0..<sz}" and ?h = "g0\<lparr>fl_dest := d\<rparr>" and ?m = "vat (tm_retired_packets s) cl"
  have p0: "pending cfg (fl_cl g0) (fl_src g0 * tc_nodes cfg + d) ?ids (fl_record g0) s" using p c0 by simp
  obtain s1 where s1: "RetireFlit cfg ops RetirePacket_wrapper d g0 s = Inr s1" "pending cfg cl (src * tc_nodes cfg + d) (?ids - {id0}) rec s1"
      "tw_ejection_queue s1 = tw_ejection_queue s" "tm_requests_outstanding s1 = tm_requests_outstanding s"
      "tm_total_in_flight s1 = drop_in_flight g0 s" "vat (tm_retired_packets s1) cl = (pid, ?h) # ?m"
    using retire_nontail [OF p0, of ops] c0 sz2 dest new by auto
  have ids: "map fl_id bs = map (\<lambda>i. id0 + i) [1..sz - 2]"
    using gl(3) by (auto simp: list_all2_conv_all_nth carried_def packet_flit_def intro!: nth_equalityI)
  have bs: "\<exists>i\<in>{1..sz - 2}. carried (?pf i) g" if "g \<in> set bs" for g
  proof -
    obtain i where i: "i < length bs" "g = bs ! i" using \<open>g \<in> set bs\<close> by (auto simp: in_set_conv_nth)
    then have "carried (?pf (1 + int i)) g" "1 + int i \<in> {1..sz - 2}" using gl(3) by (auto simp: list_all2_conv_all_nth)
    then show ?thesis by blast
  qed
  have idset: "fl_id ` set bs = (\<lambda>i. id0 + i) ` {1..sz - 2}" using arg_cong [OF ids, of set] by simp
  have "distinct (map fl_id bs)" unfolding ids by (simp add: distinct_map inj_on_def)
  moreover have "fl_cl g = cl \<and> fl_src g * tc_nodes cfg + d = src * tc_nodes cfg + d \<and> fl_record g = rec \<and> \<not> fl_head g \<and> \<not> fl_tail g \<and>
      fl_id g \<in> ?ids - {id0}" if "g \<in> set bs" for g
  proof -
    obtain i where i: "1 \<le> i" "i \<le> sz - 2" "carried (?pf i) g" using bs [OF \<open>g \<in> set bs\<close>] by auto
    show ?thesis using carriedD [OF i(3)] i(1,2) by auto
  qed
  ultimately obtain s2 where s2: "for_each (RetireFlit cfg ops RetirePacket_wrapper d) bs s1 = Inr s2"
      "pending cfg cl (src * tc_nodes cfg + d) (?ids - {id0} - fl_id ` set bs) rec s2" "tw_ejection_queue s2 = tw_ejection_queue s1"
      "tm_requests_outstanding s2 = tm_requests_outstanding s1" "in_flight_of cl s2 = in_flight_of cl s1 - fl_id ` set bs"
      "vat (tm_retired_packets s2) cl = (pid, ?h) # ?m"
    using retire_body [OF s1(2), of bs d ops] s1(6) by auto
  have p2: "pending cfg (fl_cl gl) (fl_src gl * tc_nodes cfg + d) (?ids - {id0} - fl_id ` set bs) (fl_record gl) s2" using s2(2) cl' by simp
  have last: "fl_id gl \<in> ?ids - {id0} - fl_id ` set bs" using cl'(1) sz2 unfolding idset by auto
  obtain s3 where s3: "RetireFlit cfg ops RetirePacket_wrapper d gl s2 = Inr s3"
      "tw_ejection_queue s3 = vupd (tw_ejection_queue s) cl (vupd (vat (tw_ejection_queue s) cl) d (vat (vat (tw_ejection_queue s) cl) d @ [(?h, gl\<lparr>fl_dest := d\<rparr>)]))"
      "tm_total_in_flight s3 = drop_in_flight gl s2"
    using retire_tail [OF p2 last, of ops ?h] cl' c0 s2 s1 dest src eq sz2 by auto
  have "in_flight_of cl s3 = in_flight_of cl s - {id0} - fl_id ` set bs - {id0 + (sz - 1)}"
    using in_flight_drop [OF p2 s3(3)] in_flight_drop [OF p0 s1(5)] s2(5) cl' c0 by simp
  also have "\<dots> = in_flight_of cl s - ?ids"
  proof -
    have "{0..<sz} = insert 0 (insert (sz - 1) {1..sz - 2})" using sz2 by auto
    then show ?thesis unfolding idset by auto
  qed
  finally show ?thesis using s1(1) s2(1) s3(1,2) c0 cl' gl(1)
    by (intro exI [of _ s3] exI [of _ ?h] exI [of _ "gl\<lparr>fl_dest := d\<rparr>"]) (simp add: for_each_append)
qed

section \<open>Well-formed traffic managers\<close>

definition stats_wf :: "tm_config \<Rightarrow> tm_stats \<Rightarrow> bool" where
  "stats_wf cfg ts \<longleftrightarrow>
     (let n = tc_classes cfg; all = (\<lambda>xs. vlen xs = n \<and> list_all hist_ok xs);
          pairs = (\<lambda>xss. vlen xss = n \<and> list_all (\<lambda>xs. vlen xs = tc_nodes cfg * tc_nodes cfg \<and> list_all hist_ok xs) xss) in
      vlen (ts_slowest_flit ts) = n \<and> vlen (ts_slowest_packet ts) = n \<and> all (ts_flat_stats ts) \<and> all (ts_hop_stats ts) \<and>
      all (ts_plat_stats ts) \<and> all (ts_nlat_stats ts) \<and> all (ts_frag_stats ts) \<and>
      (tc_pair_stats cfg \<longrightarrow> pairs (ts_pair_flat ts) \<and> pairs (ts_pair_plat ts) \<and> pairs (ts_pair_nlat ts)))"

definition tm_wf :: "tm_config \<Rightarrow> tmw \<Rightarrow> bool" where
  "tm_wf cfg s \<longleftrightarrow>
     (let n = tc_classes cfg; m = tc_nodes cfg in
      vlen (tm_partial_packets s) = m \<and> list_all (\<lambda>row. vlen row = n) (tm_partial_packets s) \<and> vlen (tm_total_in_flight s) = n \<and>
      vlen (tm_measured_in_flight s) = n \<and> vlen (tm_retired_packets s) = n \<and> vlen (tm_requests_outstanding s) = m \<and>
      vlen (tw_ejection_queue s) = n \<and> list_all (\<lambda>row. vlen row = m) (tw_ejection_queue s) \<and> vlen (tc_measure_stats cfg) = n \<and>
      stats_wf cfg (tm_stat s) \<and> 0 \<le> tm_cur_id s \<and> 0 \<le> tm_cur_pid s \<and>
      list_all (list_all (\<lambda>i. i < tm_cur_id s)) (tm_total_in_flight s))"

lemma list_all_vat: "list_all P xs \<Longrightarrow> 0 \<le> i \<Longrightarrow> i < vlen xs \<Longrightarrow> P (vat xs i)"
  by (auto simp: list_all_iff)

lemma good_atI: "list_all P xs \<Longrightarrow> 0 \<le> i \<Longrightarrow> i < vlen xs \<Longrightarrow> good_at P i xs"
  by (auto simp: good_at_def list_all_iff)

lemma stats_wf_ok:
  assumes w: "stats_wf cfg ts" and c: "0 \<le> cl" "cl < tc_classes cfg" and r: "0 \<le> src" "src < tc_nodes cfg" "0 \<le> d" "d < tc_nodes cfg"
  shows "stats_ok cfg cl (src * tc_nodes cfg + d) ts"
proof -
  have "0 \<le> src * tc_nodes cfg + d" "src * tc_nodes cfg + d < tc_nodes cfg * tc_nodes cfg" using radix_index [OF r] by auto
  then have pr: "good_at (good_at hist_ok (src * tc_nodes cfg + d)) cl xss"
    if "vlen xss = tc_classes cfg \<and> list_all (\<lambda>xs. vlen xs = tc_nodes cfg * tc_nodes cfg \<and> list_all hist_ok xs) xss" for xss
    using that c by (intro good_atI) (auto simp: list_all_iff intro: good_atI)
  show ?thesis using w c pr unfolding stats_ok_def stats_wf_def Let_def by (auto intro: good_atI simp: good_at_def [of "\<lambda>_. True"])
qed

text \<open>When every queue is empty but one, its first packet is taken.\<close>

lemma pop_first_at:
  "list_all (\<lambda>q. q = []) qs \<Longrightarrow> 0 \<le> i \<Longrightarrow> i < vlen qs \<Longrightarrow> pop_first (vupd qs i [x]) = Some (x, qs)"
proof (induction qs arbitrary: i)
  case (Cons q qs)
  show ?case
  proof (cases "i = 0")
    case False
    then have "vupd (q # qs) i [x] = q # vupd qs (i - 1) [x]" using Cons.prems by (simp add: vupd_def nat_diff_distrib' list_update.simps split: nat.splits)
    then show ?thesis using Cons.IH [of "i - 1"] Cons.prems False by simp
  qed (use Cons.prems in \<open>simp add: vupd_def\<close>)
qed simp

lemma pop_class_at:
  assumes "list_all (list_all (\<lambda>q. q = [])) rows" "0 \<le> c" "c < vlen rows" "0 \<le> i" "i < vlen (vat rows c)"
  shows "pop_class (vupd rows c (vupd (vat rows c) i [x])) = Some (x, rows)"
  using assms
proof (induction rows arbitrary: c)
  case (Cons row rows)
  have none: "pop_first qs = None" if "list_all (\<lambda>q. q = []) qs" for qs :: "'a list list" using that by (induction qs) auto
  show ?case
  proof (cases "c = 0")
    case True
    then show ?thesis using Cons.prems pop_first_at [of row i x] by (simp add: vupd_def vat_def)
  next
    case False
    then have "vupd (row # rows) c r = row # vupd rows (c - 1) r" "vat (row # rows) c = vat rows (c - 1)" for r
      using Cons.prems by (simp_all add: vupd_def vat_def nat_diff_distrib' list_update.simps split: nat.splits)
    then show ?thesis using Cons.IH [of "c - 1"] Cons.prems False none [of row] by simp
  qed
qed simp

lemma GeneratePacket_ok:
  fixes s :: tmw
  assumes w: "tm_wf cfg s" and v: "v = op_GetVirtualNode ops source" "0 \<le> v" "v < tc_nodes cfg" and c: "0 \<le> cl" "cl < tc_classes cfg"
    and room: "vlen (queue_at v cl s) < tc_inj_size cfg" and dest: "dest \<noteq> - 1" and pri: "packet_pri cfg v cl time s = Inr p"
    and d: "0 \<le> d" "d < tc_nodes cfg" and sz: "0 \<le> sz"
  shows "\<exists>rec s1. GeneratePacket cfg ops source dest sz cl time s = Inr (tm_cur_pid s, s1) \<and>
    queue_at v cl s1 = queue_at v cl s @ map (packet_flit (tm_cur_id s) (tm_cur_pid s) v dest sz cl time rec p) (range0 sz) \<and>
    pending cfg cl (v * tc_nodes cfg + d) ((\<lambda>i. tm_cur_id s + i) ` {0..<sz}) rec s1 \<and>
    in_flight_of cl s1 = in_flight_of cl s \<union> (\<lambda>i. tm_cur_id s + i) ` {0..<sz} \<and>
    tm_retired_packets s1 = tm_retired_packets s \<and> tw_ejection_queue s1 = tw_ejection_queue s \<and>
    tm_requests_outstanding s1 = tm_requests_outstanding s"
proof -
  let ?s = "s\<lparr>tm_cur_pid := tm_cur_pid s + 1\<rparr>"
  define rec where "rec = (if tm_sim_state s = running \<or> tm_sim_state s = draining \<and> time < tm_drain_time s
    then vat (tc_measure_stats cfg) cl else False)"
  have row: "vlen (vat (tm_partial_packets s) v) = tc_classes cfg" 
    using list_all_vat [of "\<lambda>row. vlen row = tc_classes cfg" "tm_partial_packets s" v] w v(2,3) by (simp add: tm_wf_def Let_def)
  have b: "v < vlen (tm_partial_packets s)" "cl < vlen (tm_total_in_flight s)" "cl < vlen (tm_measured_in_flight s)"
      "cl < vlen (tm_retired_packets s)" "cl < vlen (tc_measure_stats cfg)" "0 \<le> tm_cur_id s" "0 \<le> tm_cur_pid s"
    using w v c by (auto simp: tm_wf_def Let_def)
  have pri': "packet_pri cfg v cl time ?s = Inr p" using pri by (simp add: packet_pri_def cong: ePriority.case_cong)
  have q: "queue_at v cl ?s = queue_at v cl s" by (simp add: queue_at_def)
  obtain A B where g: "for_each (generate_flit cfg v dest sz cl time (tm_cur_pid s) rec) (range0 sz) ?s =
      Inr (?s\<lparr>tm_cur_id := tm_cur_id s + vlen (range0 sz), tm_total_in_flight := vupd (tm_total_in_flight s) cl A,
             tm_measured_in_flight := vupd (tm_measured_in_flight s) cl B,
             tm_partial_packets := vupd (tm_partial_packets s) v (vupd (vat (tm_partial_packets s) v) cl
               (queue_at v cl s @ map (packet_flit (tm_cur_id s) (tm_cur_pid s) v dest sz cl time rec p) (range0 sz)))\<rparr>)"
    and A: "set A = set (vat (tm_total_in_flight s) cl) \<union> (\<lambda>i. tm_cur_id s + i) ` set (range0 sz)"
    and B: "set B = set (vat (tm_measured_in_flight s) cl) \<union> (if rec then (\<lambda>i. tm_cur_id s + i) ` set (range0 sz) else {})"
    using generate_ok [where src = v and s = ?s and cl = cl and cfg = cfg and time = time and p = p and pid = "tm_cur_pid s" and dest = dest
      and sz = sz and rec = rec] v(2) c b row pri' unfolding q by auto
  have "GeneratePacket cfg ops source dest sz cl time s = bnd (for_each (generate_flit cfg v dest sz cl time (tm_cur_pid s) rec) (range0 sz) ?s) (\<lambda>s1. Inr (tm_cur_pid s, s1))"
    using v c b row room dest unfolding GeneratePacket_def rec_def queue_at_def v(1) [symmetric] by (auto simp: Let_def)
  moreover have "stats_ok cfg cl (v * tc_nodes cfg + d) (tm_stat s)"
    using w v c d by (intro stats_wf_ok) (auto simp: tm_wf_def Let_def)
  ultimately show ?thesis using A B b v c row unfolding g
    by (intro exI [of _ rec]) (auto simp: queue_at_def pending_def good_at_def in_flight_of_def)
qed

lemma packet_returns:
  assumes "tm_wf cfg s" "0 \<le> op_GetVirtualNode ops source" "op_GetVirtualNode ops source < tc_nodes cfg" "0 \<le> cl" "cl < tc_classes cfg"
    "vlen (queue_at (op_GetVirtualNode ops source) cl s) < tc_inj_size cfg" "dest \<noteq> - 1" "1 \<le> sz"
    "packet_pri cfg (op_GetVirtualNode ops source) cl time s = Inr p" "0 \<le> d" "d < tc_nodes cfg"
    "op_GetActualNode ops d = dest" "op_GetActualNode ops (op_GetVirtualNode ops source) = source"
    "map_of (vat (tm_retired_packets s) cl) (tm_cur_pid s) = None" "list_all (list_all (\<lambda>q. q = [])) (tw_ejection_queue s)"
  shows "\<exists>pid s1. GeneratePacket cfg ops source dest sz cl time s = Inr (pid, s1) \<and> 0 \<le> pid \<and> pid = tm_cur_pid s \<and>
    (\<forall>gs. list_all2 carried (drop (length (queue_at (op_GetVirtualNode ops source) cl s)) (queue_at (op_GetVirtualNode ops source) cl s1)) gs \<longrightarrow>
      vlen gs = sz \<and>
      (\<exists>s2 h t s3. for_each (RetireFlit cfg ops RetirePacket_wrapper d) gs s1 = Inr s2 \<and> RetirePacket ops s2 = ((h, t), s3) \<and>
        fl_pid h = pid \<and> fl_src h = source \<and> fl_dest h = dest \<and> fl_cl h = cl \<and> fl_packet_size h = sz \<and> fl_pid t = pid \<and>
        in_flight_of cl s3 = in_flight_of cl s \<and> tw_ejection_queue s3 = tw_ejection_queue s))"
proof -
  let ?v = "op_GetVirtualNode ops source" and ?ids = "(\<lambda>i. tm_cur_id s + i) ` {0..<sz}"
  obtain rec s1 where g: "GeneratePacket cfg ops source dest sz cl time s = Inr (tm_cur_pid s, s1)"
      "queue_at ?v cl s1 = queue_at ?v cl s @ map (packet_flit (tm_cur_id s) (tm_cur_pid s) ?v dest sz cl time rec p) (range0 sz)"
      "pending cfg cl (?v * tc_nodes cfg + d) ?ids rec s1" "in_flight_of cl s1 = in_flight_of cl s \<union> ?ids"
      "tm_retired_packets s1 = tm_retired_packets s" "tw_ejection_queue s1 = tw_ejection_queue s"
      "tm_requests_outstanding s1 = tm_requests_outstanding s"
    using GeneratePacket_ok [OF assms(1) refl assms(2-7,9-11), of sz] assms(8) by auto
  have row: "vlen (vat (tw_ejection_queue s) cl) = tc_nodes cfg" "vlen (tw_ejection_queue s) = tc_classes cfg" "0 \<le> tm_cur_pid s"
      "vlen (tm_requests_outstanding s) = tc_nodes cfg"
    using assms(1,4,5) list_all_vat [of "\<lambda>row. vlen row = tc_nodes cfg" "tw_ejection_queue s" cl] by (simp_all add: tm_wf_def Let_def)
  have emp: "vat (vat (tw_ejection_queue s) cl) d = []"
    using list_all_vat [OF list_all_vat [OF assms(15) assms(4)] assms(10)] assms(5,11) row by simp
  have fresh: "in_flight_of cl s \<inter> ?ids = {}"
  proof -
    have "list_all (\<lambda>i. i < tm_cur_id s) (vat (tm_total_in_flight s) cl)"
      using assms(1,4,5) list_all_vat [of "list_all (\<lambda>i. i < tm_cur_id s)" "tm_total_in_flight s" cl] by (simp add: tm_wf_def Let_def)
    then show ?thesis by (auto simp: in_flight_of_def list_all_iff)
  qed
  have "vlen gs = sz \<and> (\<exists>s2 h t s3. for_each (RetireFlit cfg ops RetirePacket_wrapper d) gs s1 = Inr s2 \<and> RetirePacket ops s2 = ((h, t), s3) \<and>
        fl_pid h = tm_cur_pid s \<and> fl_src h = source \<and> fl_dest h = dest \<and> fl_cl h = cl \<and> fl_packet_size h = sz \<and> fl_pid t = tm_cur_pid s \<and>
        in_flight_of cl s3 = in_flight_of cl s \<and> tw_ejection_queue s3 = tw_ejection_queue s)"
    if c: "list_all2 carried (map (packet_flit (tm_cur_id s) (tm_cur_pid s) ?v dest sz cl time rec p) (range0 sz)) gs" for gs
  proof -
    obtain s2 h t where r: "for_each (RetireFlit cfg ops RetirePacket_wrapper d) gs s1 = Inr s2"
        "tw_ejection_queue s2 = vupd (tw_ejection_queue s) cl (vupd (vat (tw_ejection_queue s) cl) d [(h, t)])"
        "in_flight_of cl s2 = in_flight_of cl s1 - ?ids"
        "fl_pid h = tm_cur_pid s" "fl_src h = ?v" "fl_dest h = d" "fl_cl h = cl" "fl_packet_size h = sz" "fl_pid t = tm_cur_pid s"
      using retire_all [OF g(3) assms(8) c, of ops] assms(2-5,10-12,14) g(5-7) emp row by (auto simp: good_at_def)
    have "pop_class (tw_ejection_queue s2) = Some ((h, t), tw_ejection_queue s)"
      unfolding r(2) by (rule pop_class_at) (use assms(4,5,10,11,15) row in auto)
    moreover have "vlen gs = sz" using list_all2_lengthD [OF c] vlen_range0 [of sz] assms(8) by (simp add: vlen_def)
    moreover have "in_flight_of cl s1 - ?ids = in_flight_of cl s" unfolding g(4) using fresh by auto
    ultimately show ?thesis using r assms(12,13) by (simp add: RetirePacket_def in_flight_of_def)
  qed
  then show ?thesis using g(1,2) row(3) by (intro exI [of _ "tm_cur_pid s"] exI [of _ s1]) simp
qed

section \<open>Properties\<close>

text \<open>
  C15: A packet that \<^verbatim>\<open>GeneratePacket\<close> accepts comes back. It enters the injection queue of its source as \<open>sz\<close> flits; when these arrive
  in order at the destination, whatever the network did to their other fields, retiring them never aborts, and
  \<^verbatim>\<open>RetirePacket\<close> returns the packet with the number, source, destination, class and size it was generated with. The flits in
  flight and the ejection queues are then those from before.
\<close>

theorem packet_roundtrip:
  assumes "tm_wf cfg s" "0 \<le> op_GetVirtualNode ops source" "op_GetVirtualNode ops source < tc_nodes cfg" "0 \<le> cl" "cl < tc_classes cfg"
    "vlen (queue_at (op_GetVirtualNode ops source) cl s) < tc_inj_size cfg" "dest \<noteq> - 1" "1 \<le> sz"
    "packet_pri cfg (op_GetVirtualNode ops source) cl time s = Inr p" "0 \<le> d" "d < tc_nodes cfg"
    "op_GetActualNode ops d = dest" "op_GetActualNode ops (op_GetVirtualNode ops source) = source"
    "map_of (vat (tm_retired_packets s) cl) (tm_cur_pid s) = None" "list_all (list_all (\<lambda>q. q = [])) (tw_ejection_queue s)"
  shows "\<exists>pid s1. GeneratePacket cfg ops source dest sz cl time s = Inr (pid, s1) \<and> 0 \<le> pid \<and> pid = tm_cur_pid s \<and>
    (\<forall>gs. list_all2 carried (drop (length (queue_at (op_GetVirtualNode ops source) cl s)) (queue_at (op_GetVirtualNode ops source) cl s1)) gs \<longrightarrow>
      vlen gs = sz \<and>
      (\<exists>s2 h t s3. for_each (RetireFlit cfg ops RetirePacket_wrapper d) gs s1 = Inr s2 \<and> RetirePacket ops s2 = ((h, t), s3) \<and>
        fl_pid h = pid \<and> fl_src h = source \<and> fl_dest h = dest \<and> fl_cl h = cl \<and> fl_packet_size h = sz \<and> fl_pid t = pid \<and>
        in_flight_of cl s3 = in_flight_of cl s \<and> tw_ejection_queue s3 = tw_ejection_queue s))"
  by (rule packet_returns [OF assms])

definition demo_stats :: stats where
  "demo_stats = new_Stats 1 10"

definition demo_cfg :: tm_config where
  "demo_cfg = \<lparr>tc_nodes = 2, tc_classes = 1, tc_subnets = 1, tc_inj_size = 10, tc_class_priority = [0], tc_pri_type = PriNone, tc_subnet = [0],
     tc_lookahead_routing = False, tc_noq = False, tc_hold_switch_for_packet = False, tc_measure_stats = [True], tc_pair_stats = False,
     tc_deadlock_warn_timeout = 256, tc_print_csv_results = False, tc_sample_period = 1000\<rparr>"

definition demo_tm :: tmw where
  "demo_tm = \<lparr>tm_partial_packets = [[[]], [[]]], tm_buf_states = [[b_shared], [b_shared]], tm_last_class = [[0], [0]], tm_last_vc = [[[1]], [[1]]],
     tm_total_in_flight = [[]], tm_measured_in_flight = [[]], tm_retired_packets = [[]], tm_packet_seq_no = [0, 0],
     tm_requests_outstanding = [0, 0], tm_deadlock_timer = 0, tm_reset_time = 0, tm_sim_state = running, tm_drain_time = - 1, tm_cur_id = 0, tm_cur_pid = 0,
     tm_time = 0,
     tm_stat = \<lparr>ts_slowest_flit = [- 1], ts_slowest_packet = [- 1], ts_plat_stats = [demo_stats], ts_nlat_stats = [demo_stats],
       ts_flat_stats = [demo_stats], ts_frag_stats = [demo_stats], ts_hop_stats = [demo_stats], ts_pair_plat = [], ts_pair_nlat = [],
       ts_pair_flat = [], ts_sent_flits = [[0, 0]], ts_sent_packets = [[0, 0]], ts_accepted_flits = [[0, 0]], ts_accepted_packets = [[0, 0]]\<rparr>,
     tw_ejection_queue = [[[], []]], tw_last_print = 0\<rparr>"

text \<open>A network that never delivers anything; routing at injection offers the VCs 0 and 1.\<close>

definition demo_ops :: "unit net_ops" where
  "demo_ops = \<lparr>op_ReadFlit = (\<lambda>_ _ _. None), op_ReadCredit = (\<lambda>_ _ _. None), op_ReadInputs = (\<lambda>_. Inr), op_WriteFlit = (\<lambda>_ _ _. Inr),
     op_WriteCredit = (\<lambda>_ _ _. Inr), op_Evaluate = (\<lambda>_. Inr), op_WriteOutputs = (\<lambda>_. Inr),
     op_rf = (\<lambda>_ f _ e. Inr ([\<lparr>vc_start = 0, vc_end = 1, se_pri = 0, output_port = - 1\<rparr>], f, e)), op_NumOutputs = (\<lambda>_ _. 2),
     op_GetVirtualNode = id, op_GetActualNode = id\<rparr>"

lemma demo_tm_wf: "tm_wf demo_cfg demo_tm"
  by code_simp

theorem packet_roundtrip_witness:
  "\<exists>pid s1. GeneratePacket demo_cfg demo_ops 0 1 3 0 0 demo_tm = Inr (pid, s1) \<and> 0 \<le> pid"
proof -
  have "vlen (queue_at 0 0 demo_tm) < tc_inj_size demo_cfg" "packet_pri demo_cfg 0 0 0 demo_tm = Inr 0"
      "map_of (vat (tm_retired_packets demo_tm) 0) (tm_cur_pid demo_tm) = None" "list_all (list_all (\<lambda>q. q = [])) (tw_ejection_queue demo_tm)"
    by code_simp+
  with packet_roundtrip [OF demo_tm_wf, of demo_ops 0 0 1 3 0 0 1] show ?thesis by (auto simp: demo_ops_def demo_cfg_def)
qed

end
