(* ===== verification/Injection.thy ===== *)
theory Injection
  imports Packets
begin

text \<open>
  The injection side of the traffic manager keeps to the credit protocol of \<^verbatim>\<open>BufferState\<close>: with a range of VCs per class, the
  ranges of the classes of one subnet being disjoint, no operation on the injection buffers ever aborts.
\<close>

section \<open>The invariant\<close>

text \<open>A queue is a sequence of packets, the first of which may have lost its first flits; only the front flit can have a VC.\<close>

fun chain :: "flit list \<Rightarrow> bool" where
  "chain [] \<longleftrightarrow> True"
| "chain [f] \<longleftrightarrow> fl_tail f"
| "chain (f # g # r) \<longleftrightarrow> (fl_head g \<longleftrightarrow> fl_tail f) \<and> (\<not> fl_tail f \<longrightarrow> fl_pid g = fl_pid f) \<and> chain (g # r)"

definition queue_ok :: "int \<Rightarrow> flit list \<Rightarrow> bool" where
  "queue_ok c q \<longleftrightarrow> (\<forall>f\<in>set q. fl_cl f = c \<and> 0 \<le> fl_pid f \<and> fl_pid f < 2147483648) \<and> (\<forall>f\<in>set (tl q). fl_vc f = - 1) \<and> chain q"

definition front_ok :: "core \<Rightarrow> int \<Rightarrow> int set \<Rightarrow> flit list \<Rightarrow> bool" where
  "front_ok c lvc vcs q \<longleftrightarrow>
     (case q of [] \<Rightarrow> True
      | f # _ \<Rightarrow>
          if fl_head f then fl_vc f = - 1 \<or> fl_vc f \<in> vcs \<and> vat (bs_in_use_by c) (fl_vc f) < 0
          else fl_vc f \<in> vcs \<and> opened c (fl_vc f) \<and> vat (bs_in_use_by c) (fl_vc f) = fl_pid f \<and> fl_vc f = lvc)"

definition buf_at :: "int \<Rightarrow> int \<Rightarrow> 'a tm_scheme \<Rightarrow> buffer_state" where
  "buf_at n sn s = vat (vat (tm_buf_states s) n) sn"

definition lvc_at :: "int \<Rightarrow> int \<Rightarrow> int \<Rightarrow> 'a tm_scheme \<Rightarrow> int" where
  "lvc_at n sn c s = vat (vat (vat (tm_last_vc s) n) sn) c"

text \<open>The shapes of the vectors, the same for every node.\<close>

definition shape_ok :: "tm_config \<Rightarrow> 'a tm_scheme \<Rightarrow> bool" where
  "shape_ok cfg s \<longleftrightarrow>
     (let m = tc_nodes cfg; k = tc_classes cfg; l = tc_subnets cfg; ts = tm_stat s in
      1 \<le> k \<and> vlen (tm_partial_packets s) = m \<and> vlen (tm_buf_states s) = m \<and> vlen (tm_last_class s) = m \<and> vlen (tm_last_vc s) = m \<and>
      (\<forall>n\<in>{0..<m}. vlen (vat (tm_partial_packets s) n) = k \<and> vlen (vat (tm_buf_states s) n) = l \<and> vlen (vat (tm_last_class s) n) = l \<and>
        vlen (vat (tm_last_vc s) n) = l \<and>
        (\<forall>sn\<in>{0..<l}. vat (vat (tm_last_class s) n) sn \<in> {0..<k} \<and> vlen (vat (vat (tm_last_vc s) n) sn) = k)) \<and>
      vlen (ts_sent_flits ts) = k \<and> vlen (ts_sent_packets ts) = k \<and>
      (\<forall>c\<in>{0..<k}. vlen (vat (ts_sent_flits ts) c) = m \<and> vlen (vat (ts_sent_packets ts) c) = m))"

definition node_inv :: "tm_config \<Rightarrow> int \<Rightarrow> (int \<Rightarrow> int set) \<Rightarrow> int \<Rightarrow> 'a tm_scheme \<Rightarrow> bool" where
  "node_inv cfg vcs owns n s \<longleftrightarrow>
     (\<forall>sn\<in>{0..<tc_subnets cfg}. bs_inv (buf_at n sn s) \<and> bs_vcs (bs_core (buf_at n sn s)) = vcs) \<and>
     (\<forall>c\<in>{0..<tc_classes cfg}. queue_ok c (queue_at n c s) \<and>
        front_ok (bs_core (buf_at n (vat (tc_subnet cfg) c) s)) (lvc_at n (vat (tc_subnet cfg) c) c s) (owns c) (queue_at n c s))"

definition good_ranges :: "tm_config \<Rightarrow> int \<Rightarrow> (int \<Rightarrow> int set) \<Rightarrow> bool" where
  "good_ranges cfg vcs owns \<longleftrightarrow>
     vlen (tc_subnet cfg) = tc_classes cfg \<and>
     (\<forall>c\<in>{0..<tc_classes cfg}. vat (tc_subnet cfg) c \<in> {0..<tc_subnets cfg} \<and> owns c \<subseteq> {0..<vcs}) \<and>
     (\<forall>c\<in>{0..<tc_classes cfg}. \<forall>d\<in>{0..<tc_classes cfg}. c \<noteq> d \<and> vat (tc_subnet cfg) c = vat (tc_subnet cfg) d \<longrightarrow> owns c \<inter> owns d = {})"

text \<open>
  What is assumed of the routing function: at injection it offers one range of VCs of the class, for port -1, and it writes only
  the mutable fields of the flit.
\<close>

definition rerouted :: "flit \<Rightarrow> flit \<Rightarrow> bool" where
  "rerouted f f' \<longleftrightarrow> (\<exists>i p. f' = f\<lparr>fl_intm := i, fl_ph := p\<rparr>)"

definition good_routing :: "tm_config \<Rightarrow> (int \<Rightarrow> int set) \<Rightarrow> 'e net_ops \<Rightarrow> bool" where
  "good_routing cfg owns ops \<longleftrightarrow>
     (\<forall>f e. fl_cl f \<in> {0..<tc_classes cfg} \<longrightarrow>
        (\<exists>se f' e'. op_rf ops None f True e = Inr ([se], f', e') \<and> rerouted f f' \<and> output_port se = - 1 \<and> vc_start se \<le> vc_end se \<and>
           {vc_start se..vc_end se} \<subseteq> owns (fl_cl f))) \<and>
     (\<forall>rp f e. \<exists>os f' e'. op_rf ops (Some rp) f False e = Inr (os, f', e') \<and> rerouted f f') \<and>
     (\<forall>sn n f e. \<exists>e'. op_WriteFlit ops sn n f e = Inr e')"

text \<open>
  The modes in which injection is safe: not \<^verbatim>\<open>noq\<close>, not priority by network age, a switch held for a packet only with one subnet, and
  class priorities that are not negative.
\<close>

definition good_mode :: "tm_config \<Rightarrow> bool" where
  "good_mode cfg \<longleftrightarrow> \<not> tc_noq cfg \<and> tc_pri_type cfg \<noteq> PriNetworkAge \<and> (tc_hold_switch_for_packet cfg \<longrightarrow> tc_subnets cfg = 1) \<and>
     (tc_pri_type cfg = PriClass \<longrightarrow> vlen (tc_class_priority cfg) = tc_classes cfg \<and> list_all (\<lambda>p. 0 \<le> p) (tc_class_priority cfg))"

section \<open>Choosing a VC\<close>

lemma IsFullFor_total: "bs_inv b \<Longrightarrow> 0 \<le> v \<Longrightarrow> v < bs_vcs (bs_core b) \<Longrightarrow> \<exists>x. IsFullFor now b v = Inr x"
  using bp.full_avail [of "bs_core b" "bs_policy b" v now] by (auto simp: bs_inv_def IsFullFor_def)

lemma IsAvailableFor_ok: "0 \<le> v \<Longrightarrow> v < bs_vcs c \<Longrightarrow> IsAvailableFor c v = Inr (vat (bs_in_use_by c) v < 0)"
  by (simp add: IsAvailableFor_def)

lemma find_vc_ok:
  assumes b: "bs_inv b" and r: "0 \<le> vs" "ve < bs_vcs (bs_core b)" and cs: "set cs \<subseteq> {vs..ve}"
  shows "\<exists>v. find_vc now b vs ve cs = Inr v \<and> (v = - 1 \<or> v \<in> {vs..ve} \<and> vat (bs_in_use_by (bs_core b)) v < 0)"
  using cs
proof (induction cs)
  case (Cons c cs)
  then have c: "vs \<le> c" "c \<le> ve" "0 \<le> c" "c < bs_vcs (bs_core b)" using r by auto
  obtain x where x: "IsFullFor now b c = Inr x" using IsFullFor_total [OF b c(3,4)] by blast
  show ?case using Cons c x by (auto simp: IsAvailableFor_ok)
qed simp

lemma candidates_in_range:
  assumes "vs \<le> ve" "vc_count = ve - vs + 1" "1 \<le> i"
  shows "vc_candidate lvc vs ve vc_count i \<in> {vs..ve}"
proof (cases "lvc < vs \<or> lvc > ve")
  case False
  then have "0 \<le> (lvc - vs + i) smod vc_count \<and> (lvc - vs + i) smod vc_count < vc_count" using assms by (intro smod_range) auto
  then show ?thesis using False assms by (simp add: vc_candidate_def)
qed (use assms in \<open>simp add: vc_candidate_def\<close>)

lemma choose_vc_ok:
  assumes g: "good_routing cfg owns ops" "\<not> tc_noq cfg" and b: "bs_inv b" "owns (fl_cl cf) \<subseteq> {0..<bs_vcs (bs_core b)}"
    and cf: "fl_cl cf \<in> {0..<tc_classes cfg}" "fl_vc cf = - 1"
  shows "\<exists>i p v e'. choose_vc cfg ops sn n lvc b now cf e = Inr (cf\<lparr>fl_intm := i, fl_ph := p, fl_vc := v\<rparr>, e') \<and>
    (v = - 1 \<or> v \<in> owns (fl_cl cf) \<and> vat (bs_in_use_by (bs_core b)) v < 0)"
proof -
  obtain se i p e' where rf: "op_rf ops None cf True e = Inr ([se], cf\<lparr>fl_intm := i, fl_ph := p\<rparr>, e')" "output_port se = - 1"
      "vc_start se \<le> vc_end se" "{vc_start se..vc_end se} \<subseteq> owns (fl_cl cf)"
    using g cf unfolding good_routing_def rerouted_def by metis
  let ?vs = "vc_start se" and ?ve = "vc_end se"
  have sub: "{?vs..?ve} \<subseteq> {0..<bs_vcs (bs_core b)}" using rf(4) b(2) by (rule subset_trans)
  then have r: "0 \<le> ?vs" "?ve < bs_vcs (bs_core b)" using rf(3) by auto
  have "set (map (vc_candidate lvc ?vs ?ve (?ve - ?vs + 1)) [1..?ve - ?vs + 1]) \<subseteq> {?vs..?ve}"
    using candidates_in_range [OF rf(3) refl, of _ lvc] by auto
  from find_vc_ok [OF b(1) r this, of now] obtain v where v: "find_vc now b ?vs ?ve (map (vc_candidate lvc ?vs ?ve (?ve - ?vs + 1)) [1..?ve - ?vs + 1]) = Inr v"
      "v = - 1 \<or> v \<in> {?vs..?ve} \<and> vat (bs_in_use_by (bs_core b)) v < 0" by blast
  have "choose_vc cfg ops sn n lvc b now cf e = Inr (cf\<lparr>fl_intm := i, fl_ph := p, fl_vc := v\<rparr>, e')"
    using rf v(1) g(2) cf(2) by (auto simp: choose_vc_def)
  moreover have "v = - 1 \<or> v \<in> owns (fl_cl cf) \<and> vat (bs_in_use_by (bs_core b)) v < 0" using v(2) rf(4) by blast
  ultimately show ?thesis by blast
qed

section \<open>The loop over the classes\<close>

lemma shapeD:
  assumes "shape_ok cfg s" "n \<in> {0..<tc_nodes cfg}"
  shows "0 \<le> n" "1 \<le> tc_classes cfg" "n < vlen (tm_partial_packets s)" "n < vlen (tm_buf_states s)" "n < vlen (tm_last_class s)" "n < vlen (tm_last_vc s)"
    "vlen (vat (tm_partial_packets s) n) = tc_classes cfg" "vlen (vat (tm_buf_states s) n) = tc_subnets cfg"
    "vlen (vat (tm_last_class s) n) = tc_subnets cfg" "vlen (vat (tm_last_vc s) n) = tc_subnets cfg"
    "sn \<in> {0..<tc_subnets cfg} \<Longrightarrow> vat (vat (tm_last_class s) n) sn \<in> {0..<tc_classes cfg} \<and> vlen (vat (vat (tm_last_vc s) n) sn) = tc_classes cfg"
  using assms unfolding shape_ok_def Let_def by auto

lemma front_of_ok:
  assumes "shape_ok cfg s" "n \<in> {0..<tc_nodes cfg}" "c \<in> {0..<tc_classes cfg}"
  shows "front_of n c s = Inr (case queue_at n c s of [] \<Rightarrow> None | f # _ \<Rightarrow> Some f)"
  using shapeD [OF assms(1,2)] assms(3) by (simp add: front_of_def queue_at_def)

text \<open>Replacing the queue of one class.\<close>

definition put_queue :: "int \<Rightarrow> int \<Rightarrow> flit list \<Rightarrow> 'a tm_scheme \<Rightarrow> 'a tm_scheme" where
  "put_queue n c q s = s\<lparr>tm_partial_packets := vupd (tm_partial_packets s) n (vupd (vat (tm_partial_packets s) n) c q)\<rparr>"

lemma put_queue_fields [simp]:
  "tm_buf_states (put_queue n c q s) = tm_buf_states s" "tm_last_class (put_queue n c q s) = tm_last_class s"
  "tm_last_vc (put_queue n c q s) = tm_last_vc s" "tm_stat (put_queue n c q s) = tm_stat s" "tm_time (put_queue n c q s) = tm_time s"
  "tm_sim_state (put_queue n c q s) = tm_sim_state s" "buf_at m sn (put_queue n c q s) = buf_at m sn s"
  "lvc_at m sn d (put_queue n c q s) = lvc_at m sn d s"
  by (simp_all add: put_queue_def buf_at_def lvc_at_def)

lemma put_queue_at:
  assumes "shape_ok cfg s" "n \<in> {0..<tc_nodes cfg}" "c \<in> {0..<tc_classes cfg}" "m \<in> {0..<tc_nodes cfg}" "d \<in> {0..<tc_classes cfg}"
  shows "queue_at m d (put_queue n c q s) = (if m = n \<and> d = c then q else queue_at m d s)"
  using shapeD [OF assms(1,2)] assms(2-5) by (auto simp: put_queue_def queue_at_def)

lemma put_queue_shape:
  assumes "shape_ok cfg s" "n \<in> {0..<tc_nodes cfg}"
  shows "shape_ok cfg (put_queue n c q s)"
proof -
  have "vlen (vat (vupd (tm_partial_packets s) n (vupd (vat (tm_partial_packets s) n) c q)) m) = tc_classes cfg" if "m \<in> {0..<tc_nodes cfg}" for m
    using shapeD [OF assms] shapeD(7) [OF assms(1) that] that by (cases "m = n") (auto simp: vat_vupd_neq)
  then show ?thesis using assms(1) unfolding shape_ok_def Let_def put_queue_def by simp
qed

lemma put_queue_same: "put_queue n c (queue_at n c s) s = s"
  by (simp add: put_queue_def queue_at_def vupd_same)

lemma set_front_ok:
  assumes "shape_ok cfg s" "n \<in> {0..<tc_nodes cfg}" "c \<in> {0..<tc_classes cfg}"
  shows "set_front n c f s = Inr (put_queue n c (f # tl (queue_at n c s)) s)"
  using shapeD [OF assms(1,2)] assms(3) by (simp add: set_front_def upd_at_def put_queue_def queue_at_def)

definition inj_inv :: "tm_config \<Rightarrow> int \<Rightarrow> (int \<Rightarrow> int set) \<Rightarrow> 'a tm_scheme \<Rightarrow> bool" where
  "inj_inv cfg vcs owns s \<longleftrightarrow> shape_ok cfg s \<and> (\<forall>n\<in>{0..<tc_nodes cfg}. node_inv cfg vcs owns n s)"

text \<open>The flit that was selected is ready to go.\<close>

definition sel_ok :: "tm_config \<Rightarrow> int \<Rightarrow> int \<Rightarrow> int option \<Rightarrow> 'a tm_scheme \<Rightarrow> bool" where
  "sel_ok cfg sn n sel s \<longleftrightarrow>
     (case sel of None \<Rightarrow> True
      | Some c \<Rightarrow> c \<in> {0..<tc_classes cfg} \<and> vat (tc_subnet cfg) c = sn \<and> queue_at n c s \<noteq> [] \<and> fl_vc (hd (queue_at n c s)) \<noteq> - 1 \<and>
          IsFullFor (tm_time s) (buf_at n sn s) (fl_vc (hd (queue_at n c s))) = Inr False)"

lemma inj_invD:
  assumes "inj_inv cfg vcs owns s" "n \<in> {0..<tc_nodes cfg}"
  shows "shape_ok cfg s" "sn \<in> {0..<tc_subnets cfg} \<Longrightarrow> bs_inv (buf_at n sn s)" "sn \<in> {0..<tc_subnets cfg} \<Longrightarrow> bs_vcs (bs_core (buf_at n sn s)) = vcs"
    "c \<in> {0..<tc_classes cfg} \<Longrightarrow> queue_ok c (queue_at n c s)"
    "c \<in> {0..<tc_classes cfg} \<Longrightarrow> front_ok (bs_core (buf_at n (vat (tc_subnet cfg) c) s)) (lvc_at n (vat (tc_subnet cfg) c) c s) (owns c) (queue_at n c s)"
  using assms unfolding inj_inv_def node_inv_def by blast+

lemma put_queue_inv:
  assumes i: "inj_inv cfg vcs owns s" and n: "n \<in> {0..<tc_nodes cfg}" and c: "c \<in> {0..<tc_classes cfg}"
    and q: "queue_ok c q" "front_ok (bs_core (buf_at n (vat (tc_subnet cfg) c) s)) (lvc_at n (vat (tc_subnet cfg) c) c s) (owns c) q"
  shows "inj_inv cfg vcs owns (put_queue n c q s)"
proof -
  note sh = inj_invD(1) [OF i n]
  have "node_inv cfg vcs owns m (put_queue n c q s)" if m: "m \<in> {0..<tc_nodes cfg}" for m
    unfolding node_inv_def using inj_invD(2-5) [OF i m] q put_queue_at [OF sh n c m]
    by (auto simp del: atLeastLessThan_iff)
  then show ?thesis using put_queue_shape [OF sh n] by (simp add: inj_inv_def)
qed

lemma front_vc_range:
  assumes i: "inj_inv cfg vcs owns s" and n: "n \<in> {0..<tc_nodes cfg}" and c: "c \<in> {0..<tc_classes cfg}" and g: "good_ranges cfg vcs owns"
    and q: "queue_at n c s = f # r" "fl_vc f \<noteq> - 1"
  shows "fl_vc f \<in> owns c" "0 \<le> fl_vc f" "fl_vc f < vcs"
proof -
  show v: "fl_vc f \<in> owns c" using inj_invD(5) [OF i n c] q by (auto simp: front_ok_def split: if_splits)
  have "owns c \<subseteq> {0..<vcs}" using g c by (simp add: good_ranges_def)
  then show "0 \<le> fl_vc f" "fl_vc f < vcs" using v by auto
qed

lemma sel_pri_ok:
  assumes "shape_ok cfg s" "n \<in> {0..<tc_nodes cfg}" "sel_ok cfg sn n sel s"
  shows "sel_pri n sel s = Inr (map_option (\<lambda>c. fl_pri (hd (queue_at n c s))) sel)"
proof (cases sel)
  case (Some c)
  then have "c \<in> {0..<tc_classes cfg}" "queue_at n c s \<noteq> []" using assms(3) by (auto simp: sel_ok_def)
  with front_of_ok [OF assms(1,2), of c] Some show ?thesis by (cases "queue_at n c s") (auto simp: sel_pri_def)
qed (simp add: sel_pri_def)

text \<open>Writing the front flit of a class keeps the selection of another class.\<close>

lemma sel_ok_put:
  assumes "shape_ok cfg s" "n \<in> {0..<tc_nodes cfg}" "c \<in> {0..<tc_classes cfg}" "sel_ok cfg sn n sel s" "sel \<noteq> Some c"
  shows "sel_ok cfg sn n sel (put_queue n c q s)"
proof (cases sel)
  case (Some d)
  then have d: "d \<in> {0..<tc_classes cfg}" "d \<noteq> c" using assms(4,5) by (auto simp: sel_ok_def)
  show ?thesis using assms(4) d Some put_queue_at [OF assms(1-3,2) d(1)] by (simp add: sel_ok_def)
qed (simp add: sel_ok_def)

lemma chain_hd: "chain (f # r) \<Longrightarrow> fl_head f' = fl_head f \<Longrightarrow> fl_tail f' = fl_tail f \<Longrightarrow> fl_pid f' = fl_pid f \<Longrightarrow> chain (f' # r)"
  by (cases r) auto

text \<open>What injecting leaves alone.\<close>

definition frame :: "'a tm_scheme \<Rightarrow> 'a tm_scheme \<Rightarrow> bool" where
  "frame s s' \<longleftrightarrow> tm_total_in_flight s' = tm_total_in_flight s \<and> tm_measured_in_flight s' = tm_measured_in_flight s \<and>
     tm_packet_seq_no s' = tm_packet_seq_no s \<and> tm_cur_id s' = tm_cur_id s \<and> tm_cur_pid s' = tm_cur_pid s \<and> tm_time s' = tm_time s"

lemma frame_refl [simp]: "frame s s"
  by (simp add: frame_def)

lemma frame_trans: "frame s t \<Longrightarrow> frame t u \<Longrightarrow> frame s u"
  by (simp add: frame_def)

lemma frame_put_queue [simp]: "frame s (put_queue n c q s)"
  by (simp add: frame_def put_queue_def)

lemma inject_class_ok:
  assumes i: "inj_inv cfg vcs owns s" and n: "n \<in> {0..<tc_nodes cfg}" and c: "c \<in> {0..<tc_classes cfg}" and g: "good_ranges cfg vcs owns"
    and r: "good_routing cfg owns ops" "\<not> tc_noq cfg" and sel: "sel_ok cfg sn n sel s" and sn: "sn \<in> {0..<tc_subnets cfg}"
  shows "\<exists>sel' s' e'. inject_class cfg ops sn n c (sel, s, e) = Inr (sel', s', e') \<and> inj_inv cfg vcs owns s' \<and> sel_ok cfg sn n sel' s' \<and> frame s s'"
proof -
  note sh = inj_invD(1) [OF i n]
  have sub: "vget (tc_subnet cfg) c = Inr (vat (tc_subnet cfg) c)" using g c by (simp add: good_ranges_def)
  note fr = front_of_ok [OF sh n c] and sp = sel_pri_ok [OF sh n sel]
  show ?thesis
  proof (cases "vat (tc_subnet cfg) c \<noteq> sn \<or> queue_at n c s = []")
    case True
    then have "inject_class cfg ops sn n c (sel, s, e) = Inr (sel, s, e)" using sub fr by (auto simp: inject_class_def)
    then show ?thesis using i sel frame_refl by blast
  next
    case False
    then obtain cf rest where q: "queue_at n c s = cf # rest" and sc: "vat (tc_subnet cfg) c = sn" by (cases "queue_at n c s") auto
    let ?b = "buf_at n sn s"
    have b: "bs_inv ?b" "bs_vcs (bs_core ?b) = vcs" using inj_invD(2,3) [OF i n sn] by simp_all
    have qk: "queue_ok c (cf # rest)" and fk: "front_ok (bs_core ?b) (lvc_at n sn c s) (owns c) (cf # rest)"
      using inj_invD(4,5) [OF i n c] q sc by simp_all
    have cfc: "fl_cl cf = c" using qk by (simp add: queue_ok_def)
    have own: "owns c \<subseteq> {0..<vcs}" using g c by (simp add: good_ranges_def)
    show ?thesis
    proof (cases "case map_option (\<lambda>c. fl_pri (hd (queue_at n c s))) sel of Some p \<Rightarrow> p \<ge> fl_pri cf | None \<Rightarrow> False")
      case True
      then have "inject_class cfg ops sn n c (sel, s, e) = Inr (sel, s, e)" using sub fr q sc cfc sp by (simp add: inject_class_def)
      then show ?thesis using i sel frame_refl by blast
    next
      case False
      have ne: "sel \<noteq> Some c" using False q by auto
      obtain cf' e' where ch: "(if fl_head cf \<and> fl_vc cf = - 1 then choose_vc cfg ops sn n (lvc_at n sn c s) ?b (tm_time s) cf e else Inr (cf, e)) = Inr (cf', e')"
        and qk': "queue_ok c (cf' # rest)" and fk': "front_ok (bs_core ?b) (lvc_at n sn c s) (owns c) (cf' # rest)"
      proof (cases "fl_head cf \<and> fl_vc cf = - 1")
        case True
        obtain k p v e' where v: "choose_vc cfg ops sn n (lvc_at n sn c s) ?b (tm_time s) cf e = Inr (cf\<lparr>fl_intm := k, fl_ph := p, fl_vc := v\<rparr>, e')"
            "v = - 1 \<or> v \<in> owns c \<and> vat (bs_in_use_by (bs_core ?b)) v < 0"
          using choose_vc_ok [OF r b(1), of cf sn n "lvc_at n sn c s" "tm_time s" e] True own c b(2) cfc by auto
        have "queue_ok c (cf\<lparr>fl_intm := k, fl_ph := p, fl_vc := v\<rparr> # rest)"
          using qk chain_hd [of cf rest "cf\<lparr>fl_intm := k, fl_ph := p, fl_vc := v\<rparr>"] by (simp add: queue_ok_def)
        then show ?thesis using that v True by (auto simp: front_ok_def)
      next
        case False
        then show ?thesis using that qk fk by auto
      qed
      define s1 where "s1 = put_queue n c (cf' # rest) s"
      have i1: "inj_inv cfg vcs owns s1" unfolding s1_def using put_queue_inv [OF i n c qk'] fk' sc by simp
      have q1: "queue_at n c s1 = cf' # rest" using put_queue_at [OF sh n c n c] by (simp add: s1_def)
      have run: "inject_class cfg ops sn n c (sel, s, e) = (if fl_vc cf' = - 1 then Inr (sel, s1, e')
          else bnd (IsFullFor (tm_time s) ?b (fl_vc cf')) (\<lambda>full. Inr (if full then sel else Some c, s1, e')))"
        using False sub fr q sc cfc sp ch set_front_ok [OF sh n c, of cf'] shapeD [OF sh n] n sn c
        by (auto simp: inject_class_def buf_at_def lvc_at_def s1_def cong: if_cong)
      have f1: "frame s s1" by (simp add: s1_def)
      have s1: "sel_ok cfg sn n sel s1" unfolding s1_def by (rule sel_ok_put [OF sh n c sel ne])
      show ?thesis
      proof (cases "fl_vc cf' = - 1")
        case True
        then show ?thesis using run i1 s1 f1 by auto
      next
        case vc: False
        obtain x where x: "IsFullFor (tm_time s) ?b (fl_vc cf') = Inr x"
          using IsFullFor_total [OF b(1)] front_vc_range [OF i1 n c g q1 vc] b(2) by blast
        have "sel_ok cfg sn n (Some c) s1" if "\<not> x" using q1 x that c vc sc by (simp add: sel_ok_def s1_def)
        then show ?thesis using run vc x i1 s1 f1 by auto
      qed
    qed
  qed
qed

section \<open>Sending\<close>

lemma send_core:
  assumes b: "bs_inv b" and l: "legal (if fl_head f then Start now f else Send now f) b"
    and own: "fl_head f \<or> vat (bs_in_use_by (bs_core b)) (fl_vc f) = fl_pid f" and pid: "0 \<le> fl_pid f"
  shows "\<exists>b'. bs_step (if fl_head f then Start now f else Send now f) b = Inr b' \<and> bs_inv b' \<and> bs_vcs (bs_core b') = bs_vcs (bs_core b) \<and>
    (\<forall>w\<in>{0..<bs_vcs (bs_core b)}. w \<noteq> fl_vc f \<longrightarrow>
      vat (bs_in_use_by (bs_core b')) w = vat (bs_in_use_by (bs_core b)) w \<and> opened (bs_core b') w = opened (bs_core b) w) \<and>
    (\<not> fl_tail f \<longrightarrow> opened (bs_core b') (fl_vc f) \<and> vat (bs_in_use_by (bs_core b')) (fl_vc f) = fl_pid f)"
proof -
  let ?c = "bs_core b" and ?v = "fl_vc f"
  define c1 where "c1 = (if fl_head f then core_take ?v (fl_pid f) ?c else ?c)"
  have c: "core_ok ?c" using b by (simp add: bs_inv_def)
  have v: "?v \<in> {0..<bs_vcs ?c}" using l by (auto simp: IsAvailableFor_def opened_def bnd_Inr_iff split: if_splits)
  obtain b' where b': "bs_step (if fl_head f then Start now f else Send now f) b = Inr b'" "bs_inv b'" "bs_core b' = core_sent f (core_sending ?v c1)"
    using Start_ok [OF b, of now f] SendingFlit_ok [OF b, of now f] l by (cases "fl_head f") (auto simp: c1_def)
  have n1: "bs_vcs c1 = bs_vcs ?c" by (simp add: c1_def)
  have c1: "core_ok c1" using core_take_ok [OF c v pid] c by (simp add: c1_def)
  have v1: "?v \<in> {0..<bs_vcs c1}" using v n1 by simp
  have take: "vat (bs_in_use_by c1) w = (if fl_head f \<and> w = ?v then fl_pid f else vat (bs_in_use_by ?c) w)"
      "vat (bs_tail_sent c1) w = (if fl_head f \<and> w = ?v then False else vat (bs_tail_sent ?c) w)" if "w \<in> {0..<bs_vcs ?c}" for w
    using core_take_vc [OF c v that] by (auto simp: c1_def)
  have "vat (bs_in_use_by (bs_core b')) w = vat (bs_in_use_by ?c) w \<and> opened (bs_core b') w = opened ?c w"
    if w: "w \<in> {0..<bs_vcs ?c}" "w \<noteq> ?v" for w
  proof -
    have "w \<in> {0..<bs_vcs c1}" using w n1 by simp
    note s = core_sent_vc [OF c1 v1 this]
    show ?thesis using s w take [OF w(1)] by (simp add: b'(3) opened_def n1 del: atLeastLessThan_iff)
  qed
  moreover have "opened (bs_core b') ?v \<and> vat (bs_in_use_by (bs_core b')) ?v = fl_pid f" if "\<not> fl_tail f"
    using core_sent_vc [OF c1 v1 v1] take [OF v] that own l pid v
    by (cases "fl_head f") (auto simp: b'(3) opened_def n1 simp del: atLeastLessThan_iff)
  moreover have "bs_vcs (bs_core b') = bs_vcs ?c" by (simp add: b'(3) n1)
  ultimately show ?thesis using b' by blast
qed

text \<open>Replacing the buffer of one subnet of a node.\<close>

definition put_buf :: "int \<Rightarrow> int \<Rightarrow> buffer_state \<Rightarrow> 'a tm_scheme \<Rightarrow> 'a tm_scheme" where
  "put_buf n sn b s = s\<lparr>tm_buf_states := vupd (tm_buf_states s) n (vupd (vat (tm_buf_states s) n) sn b)\<rparr>"

definition put_lvc :: "int \<Rightarrow> int \<Rightarrow> int \<Rightarrow> int \<Rightarrow> 'a tm_scheme \<Rightarrow> 'a tm_scheme" where
  "put_lvc n sn c v s = s\<lparr>tm_last_vc := vupd (tm_last_vc s) n (vupd (vat (tm_last_vc s) n) sn (vupd (vat (vat (tm_last_vc s) n) sn) c v))\<rparr>"

definition put_class :: "int \<Rightarrow> int \<Rightarrow> int \<Rightarrow> 'a tm_scheme \<Rightarrow> 'a tm_scheme" where
  "put_class n sn c s = s\<lparr>tm_last_class := vupd (tm_last_class s) n (vupd (vat (tm_last_class s) n) sn c)\<rparr>"

lemmas put_defs = put_buf_def put_lvc_def put_class_def put_queue_def

lemma put_other [simp]:
  "queue_at m d (put_buf n sn b s) = queue_at m d s" "lvc_at m k d (put_buf n sn b s) = lvc_at m k d s"
  "queue_at m d (put_lvc n sn c v s) = queue_at m d s" "buf_at m k (put_lvc n sn c v s) = buf_at m k s"
  "queue_at m d (put_class n sn c s) = queue_at m d s" "buf_at m k (put_class n sn c s) = buf_at m k s" "lvc_at m k d (put_class n sn c s) = lvc_at m k d s"
  by (simp_all add: put_defs queue_at_def buf_at_def lvc_at_def)

lemma put_buf_at:
  assumes "shape_ok cfg s" "n \<in> {0..<tc_nodes cfg}" "sn \<in> {0..<tc_subnets cfg}" "m \<in> {0..<tc_nodes cfg}" "k \<in> {0..<tc_subnets cfg}"
  shows "buf_at m k (put_buf n sn b s) = (if m = n \<and> k = sn then b else buf_at m k s)"
  using shapeD [OF assms(1,2)] assms(2-5) by (auto simp: put_buf_def buf_at_def)

lemma put_lvc_at:
  assumes "shape_ok cfg s" "n \<in> {0..<tc_nodes cfg}" "sn \<in> {0..<tc_subnets cfg}" "c \<in> {0..<tc_classes cfg}"
    "m \<in> {0..<tc_nodes cfg}" "k \<in> {0..<tc_subnets cfg}" "d \<in> {0..<tc_classes cfg}"
  shows "lvc_at m k d (put_lvc n sn c v s) = (if m = n \<and> k = sn \<and> d = c then v else lvc_at m k d s)"
  using shapeD [OF assms(1,2)] shapeD(11) [OF assms(1,2,3)] assms(2-7) by (auto simp: put_lvc_def lvc_at_def)

lemma put_buf_shape: "shape_ok cfg s \<Longrightarrow> n \<in> {0..<tc_nodes cfg} \<Longrightarrow> shape_ok cfg (put_buf n sn b s)"
  unfolding shape_ok_def Let_def put_buf_def by (auto simp: vat_vupd)

lemma put_lvc_shape:
  assumes s: "shape_ok cfg s" and n: "n \<in> {0..<tc_nodes cfg}" and sn: "sn \<in> {0..<tc_subnets cfg}"
  shows "shape_ok cfg (put_lvc n sn c v s)"
proof -
  let ?l = "tm_last_vc (put_lvc n sn c v s)"
  have "vlen (vat ?l m) = tc_subnets cfg \<and> (\<forall>k\<in>{0..<tc_subnets cfg}. vlen (vat (vat ?l m) k) = tc_classes cfg)" if m: "m \<in> {0..<tc_nodes cfg}" for m
    using shapeD [OF s n] shapeD(10,11) [OF s m] shapeD(11) [OF s n sn] m sn by (cases "m = n") (auto simp: put_lvc_def)
  then show ?thesis using s unfolding shape_ok_def Let_def by (simp add: put_lvc_def)
qed

lemma put_class_shape:
  assumes s: "shape_ok cfg s" and n: "n \<in> {0..<tc_nodes cfg}" and sn: "sn \<in> {0..<tc_subnets cfg}" and c: "c \<in> {0..<tc_classes cfg}"
  shows "shape_ok cfg (put_class n sn c s)"
proof -
  let ?l = "tm_last_class (put_class n sn c s)"
  have "vlen (vat ?l m) = tc_subnets cfg \<and> (\<forall>k\<in>{0..<tc_subnets cfg}. vat (vat ?l m) k \<in> {0..<tc_classes cfg})" if m: "m \<in> {0..<tc_nodes cfg}" for m
    using shapeD [OF s n] shapeD(9,11) [OF s m] shapeD(11) [OF s n sn] m sn c by (cases "m = n") (auto simp: put_class_def)
  then show ?thesis using s unfolding shape_ok_def Let_def by (simp add: put_class_def)
qed

definition pass_vc :: "flit \<Rightarrow> flit list \<Rightarrow> flit list" where
  "pass_vc f q = (case q of [] \<Rightarrow> [] | nf # r \<Rightarrow> if \<not> fl_tail f then nf\<lparr>fl_vc := fl_vc f\<rparr> # r else nf # r)"

definition after_send :: "int \<Rightarrow> int \<Rightarrow> int \<Rightarrow> flit \<Rightarrow> flit list \<Rightarrow> buffer_state \<Rightarrow> 'a tm_scheme \<Rightarrow> 'a tm_scheme" where
  "after_send n sn c f rest b s =
     put_queue n c (pass_vc f rest) (put_buf n sn b (put_class n sn c (if fl_head f then put_lvc n sn c (fl_vc f) s else s)))"

lemma pass_vc_ok:
  assumes "queue_ok c (f # rest)"
  shows "queue_ok c (pass_vc f rest)"
proof (cases rest)
  case (Cons nf r)
  have "chain (nf\<lparr>fl_vc := fl_vc f\<rparr> # r)" if "chain (nf # r)" using chain_hd [OF that] by simp
  then show ?thesis using assms Cons by (auto simp: queue_ok_def pass_vc_def)
qed (simp add: pass_vc_def queue_ok_def)

lemma after_send_inv:
  assumes i: "inj_inv cfg vcs owns s" and n: "n \<in> {0..<tc_nodes cfg}" and c: "c \<in> {0..<tc_classes cfg}" and g: "good_ranges cfg vcs owns"
    and q: "queue_at n c s = f # rest" "fl_vc f \<noteq> - 1" and sn: "sn = vat (tc_subnet cfg) c"
    and b': "bs_inv b'" "bs_vcs (bs_core b') = vcs"
    and other: "\<And>w. w \<in> {0..<vcs} \<Longrightarrow> w \<noteq> fl_vc f \<Longrightarrow> vat (bs_in_use_by (bs_core b')) w = vat (bs_in_use_by (bs_core (buf_at n sn s))) w \<and>
      opened (bs_core b') w = opened (bs_core (buf_at n sn s)) w"
    and this_vc: "\<not> fl_tail f \<Longrightarrow> opened (bs_core b') (fl_vc f) \<and> vat (bs_in_use_by (bs_core b')) (fl_vc f) = fl_pid f"
  shows "inj_inv cfg vcs owns (after_send n sn c f rest b' s)" (is "inj_inv _ _ _ ?s")
proof -
  note sh = inj_invD(1) [OF i n]
  have snr: "sn \<in> {0..<tc_subnets cfg}" using g c by (simp add: good_ranges_def sn)
  let ?s1 = "if fl_head f then put_lvc n sn c (fl_vc f) s else s"
  have sh1: "shape_ok cfg ?s1" using put_lvc_shape [OF sh n snr] sh by simp
  have sh2: "shape_ok cfg (put_class n sn c ?s1)" by (rule put_class_shape [OF sh1 n snr c])
  have sh3: "shape_ok cfg (put_buf n sn b' (put_class n sn c ?s1))" by (rule put_buf_shape [OF sh2 n])
  have qs: "queue_at m d ?s = (if m = n \<and> d = c then pass_vc f rest else queue_at m d s)"
    if "m \<in> {0..<tc_nodes cfg}" "d \<in> {0..<tc_classes cfg}" for m d
    using put_queue_at [OF sh3 n c that] by (simp add: after_send_def)
  have bs: "buf_at m k ?s = (if m = n \<and> k = sn then b' else buf_at m k s)" if "m \<in> {0..<tc_nodes cfg}" "k \<in> {0..<tc_subnets cfg}" for m k
    using put_buf_at [OF sh2 n snr that] by (simp add: after_send_def)
  have lv: "lvc_at m k d ?s = (if fl_head f \<and> m = n \<and> k = sn \<and> d = c then fl_vc f else lvc_at m k d s)"
    if "m \<in> {0..<tc_nodes cfg}" "k \<in> {0..<tc_subnets cfg}" "d \<in> {0..<tc_classes cfg}" for m k d
    using put_lvc_at [OF sh n snr c that, of "fl_vc f"] by (auto simp: after_send_def)
  have subr: "vat (tc_subnet cfg) d \<in> {0..<tc_subnets cfg}" "owns d \<subseteq> {0..<vcs}" if "d \<in> {0..<tc_classes cfg}" for d
    using g that unfolding good_ranges_def by blast+
  have vo: "fl_vc f \<in> owns c" by (rule front_vc_range(1) [OF i n c g q])
  have nd: "node_inv cfg vcs owns m ?s" if m: "m \<in> {0..<tc_nodes cfg}" for m
    unfolding node_inv_def
  proof (intro conjI ballI)
    fix k assume k: "k \<in> {0..<tc_subnets cfg}"
    show "bs_inv (buf_at m k ?s)" "bs_vcs (bs_core (buf_at m k ?s)) = vcs" using b' inj_invD(2,3) [OF i m k] by (simp_all add: bs [OF m k])
  next
    fix d assume d: "d \<in> {0..<tc_classes cfg}"
    have qok: "queue_ok c (f # rest)" using inj_invD(4) [OF i n c] q by simp
    show "queue_ok d (queue_at m d ?s)" using inj_invD(4) [OF i m d] pass_vc_ok [OF qok] by (simp add: qs [OF m d])
    let ?k = "vat (tc_subnet cfg) d"
    have fo: "front_ok (bs_core (buf_at m ?k s)) (lvc_at m ?k d s) (owns d) (queue_at m d s)" by (rule inj_invD(5) [OF i m d])
    show "front_ok (bs_core (buf_at m ?k ?s)) (lvc_at m ?k d ?s) (owns d) (queue_at m d ?s)"
    proof (cases "m = n \<and> d = c")
      case True
      have "lvc_at n sn c ?s = (if fl_head f then fl_vc f else lvc_at n sn c s)" using lv [OF n snr c] by simp
      then have lvc: "fl_vc f = lvc_at n sn c ?s" using fo q True sn by (auto simp: front_ok_def)
      have e: "queue_at m d ?s = pass_vc f rest" "buf_at m ?k ?s = b'" "lvc_at m ?k d ?s = fl_vc f"
        using qs [OF m d] bs [OF m subr(1) [OF d]] True sn lvc by simp_all
      show ?thesis unfolding e
      proof (cases rest)
        case (Cons nf r)
        have nf: "fl_head nf = fl_tail f" "\<not> fl_tail f \<longrightarrow> fl_pid nf = fl_pid f" "fl_vc nf = - 1" using qok Cons by (simp_all add: queue_ok_def)
        then show "front_ok (bs_core b') (fl_vc f) (owns d) (pass_vc f rest)" using True Cons this_vc vo by (simp add: pass_vc_def front_ok_def)
      qed (simp add: pass_vc_def front_ok_def)
    next
      case False
      have same: "vat (bs_in_use_by (bs_core (buf_at m ?k ?s))) w = vat (bs_in_use_by (bs_core (buf_at m ?k s))) w \<and>
          opened (bs_core (buf_at m ?k ?s)) w = opened (bs_core (buf_at m ?k s)) w" if w: "w \<in> owns d" for w
      proof (cases "m = n \<and> ?k = sn")
        case True
        then have "d \<noteq> c" using False by simp
        then have "owns c \<inter> owns d = {}" using g c d True sn unfolding good_ranges_def by auto
        then have "w \<noteq> fl_vc f" using vo w by auto
        moreover have "w \<in> {0..<vcs}" using subr(2) [OF d] w by auto
        moreover have "buf_at m ?k ?s = b'" using bs [OF m subr(1) [OF d]] True by simp
        ultimately show ?thesis using other [of w] True by simp
      qed (auto simp: bs [OF m subr(1) [OF d]])
      have "lvc_at m ?k d ?s = lvc_at m ?k d s" using False by (auto simp: lv [OF m subr(1) [OF d] d])
      moreover have "queue_at m d ?s = queue_at m d s" using False by (auto simp: qs [OF m d])
      ultimately show ?thesis using fo same by (auto simp: front_ok_def split: list.splits if_splits)
    qed
  qed
  have "shape_ok cfg ?s" unfolding after_send_def by (rule put_queue_shape [OF sh3 n])
  with nd show ?thesis by (simp add: inj_inv_def)
qed

lemma count_sent_ok:
  assumes s: "shape_ok cfg s" and n: "n \<in> {0..<tc_nodes cfg}" and c: "c \<in> {0..<tc_classes cfg}"
  shows "\<exists>ts. count_sent c n h (tm_stat s) = Inr ts \<and> vlen (ts_sent_flits ts) = tc_classes cfg \<and> vlen (ts_sent_packets ts) = tc_classes cfg \<and>
    (\<forall>d\<in>{0..<tc_classes cfg}. vlen (vat (ts_sent_flits ts) d) = tc_nodes cfg \<and> vlen (vat (ts_sent_packets ts) d) = tc_nodes cfg)"
proof -
  let ?ts = "tm_stat s"
  have l: "vlen (ts_sent_flits ?ts) = tc_classes cfg" "vlen (ts_sent_packets ?ts) = tc_classes cfg"
      "\<And>d. d \<in> {0..<tc_classes cfg} \<Longrightarrow> vlen (vat (ts_sent_flits ?ts) d) = tc_nodes cfg \<and> vlen (vat (ts_sent_packets ?ts) d) = tc_nodes cfg"
    using s unfolding shape_ok_def Let_def by auto
  show ?thesis using l(1,2) l(3) [OF c] l(3) n c by (cases h) (auto simp: count_sent_def incr_at_def upd_at_def)
qed

lemma stat_inv:
  assumes i: "inj_inv cfg vcs owns s" and ts: "vlen (ts_sent_flits ts) = tc_classes cfg" "vlen (ts_sent_packets ts) = tc_classes cfg"
    "\<forall>d\<in>{0..<tc_classes cfg}. vlen (vat (ts_sent_flits ts) d) = tc_nodes cfg \<and> vlen (vat (ts_sent_packets ts) d) = tc_nodes cfg"
  shows "inj_inv cfg vcs owns (s\<lparr>tm_stat := ts\<rparr>)"
  using i ts unfolding inj_inv_def shape_ok_def node_inv_def Let_def by (simp add: buf_at_def lvc_at_def queue_at_def)

lemma send_flit_ok:
  assumes i: "inj_inv cfg vcs owns s" and n: "n \<in> {0..<tc_nodes cfg}" and g: "good_ranges cfg vcs owns"
    and r: "good_routing cfg owns ops" and mode: "good_mode cfg" and sn: "sn \<in> {0..<tc_subnets cfg}" and sel: "sel_ok cfg sn n (Some c) s"
  shows "\<exists>s' e'. send_flit cfg ops sn n c (s, e) = Inr (s', e') \<and> inj_inv cfg vcs owns s' \<and> frame s s'"
proof -
  note sh = inj_invD(1) [OF i n]
  have c: "c \<in> {0..<tc_classes cfg}" and sc: "sn = vat (tc_subnet cfg) c" using sel by (auto simp: sel_ok_def)
  obtain f rest where q: "queue_at n c s = f # rest" using sel by (cases "queue_at n c s") (auto simp: sel_ok_def)
  let ?b = "buf_at n sn s" and ?now = "tm_time s"
  have vc: "fl_vc f \<noteq> - 1" and nf: "IsFullFor ?now ?b (fl_vc f) = Inr False" using sel q by (auto simp: sel_ok_def)
  have b: "bs_inv ?b" "bs_vcs (bs_core ?b) = vcs" using inj_invD(2,3) [OF i n sn] by simp_all
  have fo: "front_ok (bs_core ?b) (lvc_at n sn c s) (owns c) (f # rest)" using inj_invD(5) [OF i n c] q sc by simp
  have cl: "fl_cl f = c" and pid: "0 \<le> fl_pid f" "fl_pid f < 2147483648" using inj_invD(4) [OF i n c] q by (simp_all add: queue_ok_def)
  have vr: "0 \<le> fl_vc f" "fl_vc f < vcs" by (rule front_vc_range(2,3) [OF i n c g q vc])+
  obtain k p os e1 where la: "(if tc_lookahead_routing cfg then if tc_noq cfg then Inr (f, e)
        else bnd (op_rf ops (Some (sn, n)) f False e) (\<lambda>(os, f, e). Inr (f\<lparr>fl_la_route_set := os\<rparr>, e))
      else Inr (f\<lparr>fl_la_route_set := []\<rparr>, e)) = Inr (f\<lparr>fl_intm := k, fl_ph := p, fl_la_route_set := os\<rparr>, e1)"
  proof (cases "tc_lookahead_routing cfg")
    case True
    obtain os f' e1 where "op_rf ops (Some (sn, n)) f False e = Inr (os, f', e1)" "rerouted f f'" using r unfolding good_routing_def by blast
    then show ?thesis using that True mode by (auto simp: rerouted_def good_mode_def)
  next
    case False
    then show ?thesis using that [where k = "fl_intm f" and p = "fl_ph f" and os = "[]" and ?e1.0 = e] by simp
  qed
  let ?f = "f\<lparr>fl_intm := k, fl_ph := p, fl_la_route_set := os\<rparr>"
  define f1 where "f1 = (if fl_head f then ?f else f)"
  have f1: "fl_vc f1 = fl_vc f" "fl_pid f1 = fl_pid f" "fl_head f1 = fl_head f" "fl_tail f1 = fl_tail f" by (simp_all add: f1_def)
  have l: "legal (if fl_head f1 then Start ?now f1 else Send ?now f1) ?b"
    using fo nf vr pid vc b(2) by (auto simp: f1 front_ok_def IsAvailableFor_ok split: if_splits)
  have own: "fl_head f1 \<or> vat (bs_in_use_by (bs_core ?b)) (fl_vc f1) = fl_pid f1" using fo by (auto simp: f1 front_ok_def split: if_splits)
  obtain b' where b': "bs_step (if fl_head f1 then Start ?now f1 else Send ?now f1) ?b = Inr b'" "bs_inv b'" "bs_vcs (bs_core b') = vcs"
      "\<And>w. w \<in> {0..<vcs} \<Longrightarrow> w \<noteq> fl_vc f \<Longrightarrow> vat (bs_in_use_by (bs_core b')) w = vat (bs_in_use_by (bs_core ?b)) w \<and> opened (bs_core b') w = opened (bs_core ?b) w"
      "\<not> fl_tail f \<Longrightarrow> opened (bs_core b') (fl_vc f) \<and> vat (bs_in_use_by (bs_core b')) (fl_vc f) = fl_pid f"
    using send_core [OF b(1) l own] pid(1) unfolding f1 b(2) by auto
  have inv: "inj_inv cfg vcs owns (after_send n sn c f rest b' s)"
    by (rule after_send_inv [OF i n c g q vc sc b'(2,3) b'(4) b'(5)])
  obtain ts where ts: "(if tm_sim_state s = warming_up \<or> tm_sim_state s = running then count_sent c n (fl_head f) (tm_stat s) else Inr (tm_stat s)) = Inr ts"
    and inv': "inj_inv cfg vcs owns (after_send n sn c f rest b' s\<lparr>tm_stat := ts\<rparr>)"
  proof (cases "tm_sim_state s = warming_up \<or> tm_sim_state s = running")
    case True
    from count_sent_ok [OF sh n c, of "fl_head f"] stat_inv [OF inv] that True show ?thesis by auto
  next
    case False
    have "after_send n sn c f rest b' s\<lparr>tm_stat := tm_stat s\<rparr> = after_send n sn c f rest b' s"
      by (simp add: after_send_def put_defs)
    then show ?thesis using that inv False by simp
  qed
  obtain e2 where w: "op_WriteFlit ops sn n (f1\<lparr>fl_itime := ?now\<rparr>) e' = Inr (e2 e')" for e' using r unfolding good_routing_def by metis
  have sh': "0 \<le> n" "n < vlen (tm_partial_packets s)" "n < vlen (tm_buf_states s)" "n < vlen (tm_last_class s)" "n < vlen (tm_last_vc s)"
      "c < vlen (vat (tm_partial_packets s) n)" "sn < vlen (vat (tm_buf_states s) n)" "sn < vlen (vat (tm_last_class s) n)"
      "sn < vlen (vat (tm_last_vc s) n)" "c < vlen (vat (vat (tm_last_vc s) n) sn)" "0 \<le> c" "0 \<le> sn"
    using shapeD [OF sh n] shapeD(11) [OF sh n sn] c sn by auto
  have fm: "frame s (after_send n sn c f rest b' s\<lparr>tm_stat := ts\<rparr>)" by (simp add: frame_def after_send_def put_defs)
  have pri: "tc_pri_type cfg \<noteq> PriNetworkAge" using mode by (simp add: good_mode_def)
  have fr: "front_of n c s = Inr (Some f)" using front_of_ok [OF sh n c] q by simp
  have row: "vget (vat (tm_buf_states s) n) sn = Inr ?b" using sh' by (simp add: buf_at_def)
  have qrow: "vat (vat (tm_partial_packets s) n) c = f # rest" using q by (simp add: queue_at_def)
  show ?thesis
  proof (cases "fl_head f")
    case True
    obtain b1 where b1: "TakeBuffer (fl_vc f) (fl_pid f) ?b = Inr b1" "SendingFlit ?now ?f b1 = Inr b'"
      using b'(1) True by (auto simp: f1_def bnd_Inr_iff)
    have "send_flit cfg ops sn n c (s, e) = Inr (after_send n sn c f rest b' s\<lparr>tm_stat := ts\<rparr>, e2 e1)"
      using True sh' row b1 ts w [of e1] pri qrow cl
      by (cases rest) (simp_all add: send_flit_def fr la f1_def upd_at_def after_send_def put_defs pass_vc_def buf_at_def Let_def cong: if_cong)
    then show ?thesis using inv' fm by blast
  next
    case False
    have sf: "SendingFlit ?now f ?b = Inr b'" using b'(1) False by (simp add: f1_def)
    have "send_flit cfg ops sn n c (s, e) = Inr (after_send n sn c f rest b' s\<lparr>tm_stat := ts\<rparr>, e2 e)"
      using False sh' row sf ts w [of e] pri qrow cl
      by (cases rest) (simp_all add: send_flit_def fr f1_def upd_at_def after_send_def put_defs pass_vc_def buf_at_def Let_def cong: if_cong)
    then show ?thesis using inv' fm by blast
  qed
qed

section \<open>The injection phase\<close>

lemma hold_switch_ok:
  assumes i: "inj_inv cfg vcs owns s" and n: "n \<in> {0..<tc_nodes cfg}" and g: "good_ranges cfg vcs owns"
    and mode: "good_mode cfg" and sn: "sn \<in> {0..<tc_subnets cfg}"
  defines "lc \<equiv> vat (vat (tm_last_class s) n) sn"
  shows "\<exists>sel lim. hold_switch cfg sn n (buf_at n sn s) lc s = Inr (sel, lim) \<and> sel_ok cfg sn n sel s"
proof -
  note sh = inj_invD(1) [OF i n]
  let ?b = "buf_at n sn s" and ?hold = "hold_switch cfg sn n (buf_at n sn s) lc s"
  have lc: "lc \<in> {0..<tc_classes cfg}" using shapeD(11) [OF sh n sn] by (simp add: lc_def)
  show ?thesis
  proof (cases "tc_hold_switch_for_packet cfg \<and> queue_at n lc s \<noteq> [] \<and> \<not> fl_head (hd (queue_at n lc s))")
    case True
    then obtain f rest where q: "queue_at n lc s = f # rest" "\<not> fl_head f" by (cases "queue_at n lc s") auto
    have "vat (tc_subnet cfg) lc \<in> {0..<tc_subnets cfg}" using g lc by (simp add: good_ranges_def)
    then have sub: "vat (tc_subnet cfg) lc = sn" using mode True sn by (auto simp: good_mode_def)
    have fo: "fl_vc f \<in> owns lc" "fl_vc f = lvc_at n sn lc s" using inj_invD(5) [OF i n lc] q sub by (auto simp: front_ok_def)
    have "owns lc \<subseteq> {0..<vcs}" using g lc by (simp add: good_ranges_def)
    then have v: "0 \<le> fl_vc f" "fl_vc f < vcs" using fo(1) by auto
    obtain x where x: "IsFullFor (tm_time s) ?b (fl_vc f) = Inr x" using IsFullFor_total [of ?b "fl_vc f"] inj_invD(2,3) [OF i n sn] v by auto
    have "?hold = Inr (if x then (None, tc_classes cfg) else (Some lc, tc_classes cfg - 1))"
      using True front_of_ok [OF sh n lc] q x fo(2) shapeD [OF sh n] shapeD(11) [OF sh n sn] lc sn n
      by (auto simp: hold_switch_def lvc_at_def)
    moreover have "sel_ok cfg sn n (Some lc) s" if "\<not> x" using that x q lc sub v by (auto simp: sel_ok_def)
    ultimately show ?thesis by (cases x) (auto simp: sel_ok_def)
  next
    case False
    then have "?hold = Inr (None, tc_classes cfg)" using front_of_ok [OF sh n lc] by (auto simp: hold_switch_def split: list.splits)
    then show ?thesis by (simp add: sel_ok_def)
  qed
qed

lemma inject_node_ok:
  fixes s :: "'a tm_scheme" and e :: 'e
  assumes i: "inj_inv cfg vcs owns s" and n: "n \<in> {0..<tc_nodes cfg}" and g: "good_ranges cfg vcs owns"
    and r: "good_routing cfg owns ops" and mode: "good_mode cfg" and sn: "sn \<in> {0..<tc_subnets cfg}"
  shows "\<exists>s' e'. inject_node cfg ops sn n (s, e) = Inr (s', e') \<and> inj_inv cfg vcs owns s' \<and> frame s s'"
proof -
  note sh = inj_invD(1) [OF i n]
  let ?b = "buf_at n sn s" and ?lc = "vat (vat (tm_last_class s) n) sn"
  have lc: "?lc \<in> {0..<tc_classes cfg}" and k: "1 \<le> tc_classes cfg" using shapeD(11) [OF sh n sn] shapeD(2) [OF sh n] by simp_all
  obtain sel lim where sel: "hold_switch cfg sn n ?b ?lc s = Inr (sel, lim)" "sel_ok cfg sn n sel s" using hold_switch_ok [OF i n g mode sn] by blast
  let ?P = "\<lambda>(sel, t, e :: 'e). inj_inv cfg vcs owns t \<and> sel_ok cfg sn n sel t \<and> frame s t"
  have "\<exists>st. for_each (\<lambda>i. inject_class cfg ops sn n ((?lc + i) smod tc_classes cfg)) [1..lim] (sel, s, e) = Inr st \<and> ?P st"
  proof (rule for_each_inv)
    fix j and st :: "int option \<times> 'a tm_scheme \<times> 'e"
    assume j: "j \<in> set [1..lim]" and P: "?P st"
    obtain sel t and e :: 'e where st: "st = (sel, t, e)" by (cases st)
    have "0 \<le> (?lc + j) smod tc_classes cfg \<and> (?lc + j) smod tc_classes cfg < tc_classes cfg" using lc k j by (intro smod_range) auto
    then have cr: "(?lc + j) smod tc_classes cfg \<in> {0..<tc_classes cfg}" by simp
    from inject_class_ok [of cfg vcs owns t n, OF _ n cr g r _ _ sn] P mode frame_trans
    show "\<exists>st'. inject_class cfg ops sn n ((?lc + j) smod tc_classes cfg) st = Inr st' \<and> ?P st'"
      unfolding st good_mode_def by fastforce
  qed (use i sel in simp)
  then obtain sel' t e' where t: "for_each (\<lambda>i. inject_class cfg ops sn n ((?lc + i) smod tc_classes cfg)) [1..lim] (sel, s, e) = Inr (sel', t, e')"
      "inj_inv cfg vcs owns t" "sel_ok cfg sn n sel' t" "frame s t" by auto
  have run: "inject_node cfg ops sn n (s, e) = (case sel' of None \<Rightarrow> Inr (t, e') | Some c \<Rightarrow> send_flit cfg ops sn n c (t, e'))"
    using t(1) sel(1) shapeD [OF sh n] n sn by (simp add: inject_node_def buf_at_def)
  show ?thesis
  proof (cases sel')
    case None
    then show ?thesis using run t by simp
  next
    case (Some c)
    from send_flit_ok [OF t(2) n g r mode sn, of c e'] t(3) Some frame_trans [OF t(4)] run show ?thesis by auto
  qed
qed

lemma inject_all_ok:
  fixes s :: "'a tm_scheme" and e :: 'e
  assumes i: "inj_inv cfg vcs owns s" and g: "good_ranges cfg vcs owns" and r: "good_routing cfg owns ops" and mode: "good_mode cfg"
  shows "\<exists>s' e'. for_each (\<lambda>sn. for_each (inject_node cfg ops sn) (range0 (tc_nodes cfg))) (range0 (tc_subnets cfg)) (s, e) = Inr (s', e') \<and>
    inj_inv cfg vcs owns s' \<and> frame s s'"
proof -
  let ?P = "\<lambda>(t, e' :: 'e). inj_inv cfg vcs owns t \<and> frame s t"
  have "\<exists>st. for_each (\<lambda>sn. for_each (inject_node cfg ops sn) (range0 (tc_nodes cfg))) (range0 (tc_subnets cfg)) (s, e) = Inr st \<and> ?P st"
  proof (rule for_each_inv)
    fix sn and st :: "'a tm_scheme \<times> 'e"
    assume sn: "sn \<in> set (range0 (tc_subnets cfg))" and P: "?P st"
    show "\<exists>st'. for_each (inject_node cfg ops sn) (range0 (tc_nodes cfg)) st = Inr st' \<and> ?P st'"
    proof (rule for_each_inv)
      fix n and st' :: "'a tm_scheme \<times> 'e"
      assume n: "n \<in> set (range0 (tc_nodes cfg))" and P': "?P st'"
      obtain t e' where st: "st' = (t, e')" by (cases st')
      from inject_node_ok [of cfg vcs owns t n ops sn e'] n sn g r mode P' frame_trans
      show "\<exists>st''. inject_node cfg ops sn n st' = Inr st'' \<and> ?P st''" unfolding st by fastforce
    qed (rule P)
  qed (use i in simp)
  then show ?thesis by auto
qed

section \<open>Credits and new packets\<close>

lemma front_ok_frees:
  assumes "front_ok c lvc vcs q" "frees c c'" "vcs \<subseteq> {0..<bs_vcs c}"
  shows "front_ok c' lvc vcs q"
proof (cases q)
  case (Cons f r)
  show ?thesis using assms unfolding Cons front_ok_def frees_def by (auto split: if_splits)
qed (simp add: front_ok_def)

lemma credit_inv:
  assumes i: "inj_inv cfg vcs owns s" and n: "n \<in> {0..<tc_nodes cfg}" and sn: "sn \<in> {0..<tc_subnets cfg}" and g: "good_ranges cfg vcs owns"
    and l: "legal (Return now cr) (buf_at n sn s)"
  shows "\<exists>bs. upd_at n (upd_at sn (ProcessCredit now cr)) (tm_buf_states s) = Inr bs \<and> inj_inv cfg vcs owns (s\<lparr>tm_buf_states := bs\<rparr>)"
proof -
  note sh = inj_invD(1) [OF i n]
  obtain b' where b': "ProcessCredit now cr (buf_at n sn s) = Inr b'" "bs_inv b'" "frees (bs_core (buf_at n sn s)) (bs_core b')"
    using ProcessCredit_ok [OF inj_invD(2) [OF i n sn] l] by blast
  have vb: "bs_vcs (bs_core b') = vcs" using b'(3) inj_invD(3) [OF i n sn] by (simp add: frees_def)
  have "upd_at n (upd_at sn (ProcessCredit now cr)) (tm_buf_states s) = Inr (vupd (tm_buf_states s) n (vupd (vat (tm_buf_states s) n) sn b'))"
    using shapeD [OF sh n] n sn b'(1) by (simp add: upd_at_def buf_at_def)
  moreover have "inj_inv cfg vcs owns (put_buf n sn b' s)"
  proof -
    have bs: "buf_at m k (put_buf n sn b' s) = (if m = n \<and> k = sn then b' else buf_at m k s)"
      if "m \<in> {0..<tc_nodes cfg}" "k \<in> {0..<tc_subnets cfg}" for m k by (rule put_buf_at [OF sh n sn that])
    have "node_inv cfg vcs owns m (put_buf n sn b' s)" if m: "m \<in> {0..<tc_nodes cfg}" for m
      unfolding node_inv_def
    proof (intro conjI ballI)
      fix k assume k: "k \<in> {0..<tc_subnets cfg}"
      show "bs_inv (buf_at m k (put_buf n sn b' s))" "bs_vcs (bs_core (buf_at m k (put_buf n sn b' s))) = vcs"
        using b'(2) vb inj_invD(2,3) [OF i m k] by (simp_all add: bs [OF m k])
    next
      fix d assume d: "d \<in> {0..<tc_classes cfg}"
      show "queue_ok d (queue_at m d (put_buf n sn b' s))" using inj_invD(4) [OF i m d] by simp
      let ?k = "vat (tc_subnet cfg) d"
      have k: "?k \<in> {0..<tc_subnets cfg}" and od: "owns d \<subseteq> {0..<vcs}" using g d unfolding good_ranges_def by blast+
      have fo: "front_ok (bs_core (buf_at m ?k s)) (lvc_at m ?k d s) (owns d) (queue_at m d s)" by (rule inj_invD(5) [OF i m d])
      have "front_ok (bs_core (buf_at m ?k (put_buf n sn b' s))) (lvc_at m ?k d s) (owns d) (queue_at m d s)"
        using fo front_ok_frees [OF fo, of "bs_core b'"] b'(3) od inj_invD(3) [OF i n sn] by (auto simp: bs [OF m k])
      then show "front_ok (bs_core (buf_at m ?k (put_buf n sn b' s))) (lvc_at m ?k d (put_buf n sn b' s)) (owns d) (queue_at m d (put_buf n sn b' s))"
        by simp
    qed
    then show ?thesis using put_buf_shape [OF sh n] by (simp add: inj_inv_def)
  qed
  ultimately show ?thesis unfolding put_buf_def by blast
qed

lemma chain_append: "chain q \<Longrightarrow> chain p \<Longrightarrow> (p \<noteq> [] \<Longrightarrow> fl_head (hd p)) \<Longrightarrow> chain (q @ p)"
proof (induction q rule: chain.induct)
  case (2 f)
  then show ?case by (cases p) auto
qed simp_all

lemma chain_packet:
  fixes id0 pid src dest sz cl time pri a :: int and rec :: bool
  defines "pf \<equiv> packet_flit id0 pid src dest sz cl time rec pri"
  assumes "0 \<le> a" "a \<le> sz - 1"
  shows "chain (map pf [a..sz - 1])"
  using assms(2,3)
proof (induction "nat (sz - 1 - a)" arbitrary: a)
  case 0
  then have "[a..sz - 1] = [a]" "a = sz - 1" by auto
  then show ?case by (simp add: pf_def packet_flit_def)
next
  case (Suc k)
  then have e: "[a..sz - 1] = a # (a + 1) # [a + 2..sz - 1]" "[a + 1..sz - 1] = (a + 1) # [a + 2..sz - 1]"
    using upto_rec1 [of a "sz - 1"] upto_rec1 [of "a + 1" "sz - 1"] by (auto simp: add.assoc)
  have "chain (map pf [a + 1..sz - 1])" using Suc by (intro Suc.hyps(1)) auto
  then show ?case using Suc.prems Suc.hyps(2) unfolding e by (auto simp: pf_def packet_flit_def)
qed

lemma packet_queue:
  fixes id0 pid src dest sz cl time pri :: int and rec :: bool
  assumes q: "queue_ok cl q" and f: "front_ok c lvc vcs q" and sz: "1 \<le> sz" and pid: "0 \<le> pid" "pid < 2147483648"
  defines "p \<equiv> map (packet_flit id0 pid src dest sz cl time rec pri) (range0 sz)"
  shows "queue_ok cl (q @ p)" "front_ok c lvc vcs (q @ p)"
proof -
  have hd: "p \<noteq> [] \<and> hd p = packet_flit id0 pid src dest sz cl time rec pri 0"
    using sz upto_rec1 [of 0 "sz - 1"] by (simp add: p_def range0_def)
  have "chain p" unfolding p_def range0_def by (rule chain_packet) (use sz in auto)
  then have ch: "chain (q @ p)" using q hd by (intro chain_append) (auto simp: queue_ok_def packet_flit_def)
  have fs: "fl_cl x = cl \<and> fl_pid x = pid \<and> fl_vc x = - 1" if "x \<in> set p" for x using that by (auto simp: p_def packet_flit_def)
  have "x \<in> set (tl q) \<or> x \<in> set p" if "x \<in> set (tl (q @ p))" for x using that hd by (cases q) (auto intro: list.set_sel(2))
  then show "queue_ok cl (q @ p)" using q ch fs pid unfolding queue_ok_def by fastforce
  show "front_ok c lvc vcs (q @ p)"
  proof (cases q)
    case Nil
    obtain r where "p = packet_flit id0 pid src dest sz cl time rec pri 0 # r" using hd by (metis list.collapse)
    then show ?thesis unfolding Nil by (simp add: front_ok_def packet_flit_def)
  next
    case (Cons g r)
    then show ?thesis using f by (simp add: front_ok_def)
  qed
qed

text \<open>The part of the state that generating packets uses.\<close>

definition gen_ok :: "tm_config \<Rightarrow> 'a tm_scheme \<Rightarrow> bool" where
  "gen_ok cfg s \<longleftrightarrow> vlen (tm_total_in_flight s) = tc_classes cfg \<and> vlen (tm_measured_in_flight s) = tc_classes cfg \<and>
     vlen (tc_measure_stats cfg) = tc_classes cfg \<and> 0 \<le> tm_cur_id s \<and> 0 \<le> tm_cur_pid s \<and>
     vlen (tm_packet_seq_no s) = tc_nodes cfg \<and> list_all (\<lambda>q. 0 \<le> q \<and> q < 2147483648) (tm_packet_seq_no s)"

lemma age_nonneg: "0 \<le> t \<Longrightarrow> t < 2147483648 \<Longrightarrow> 0 \<le> int32 (INT_MAX - t)"
  by (simp add: INT_MAX_def)

text \<open>The priority of a new packet is never negative.\<close>

lemma packet_pri_ok:
  assumes "gen_ok cfg s" "good_mode cfg" "n \<in> {0..<tc_nodes cfg}" "cl \<in> {0..<tc_classes cfg}"
    "tc_pri_type cfg = PriAge \<longrightarrow> 0 \<le> time \<and> time < 2147483648"
  shows "\<exists>p. packet_pri cfg n cl time s = Inr p"
proof (cases "tc_pri_type cfg")
  case PriClass
  then have "cl < vlen (tc_class_priority cfg)" "0 \<le> vat (tc_class_priority cfg) cl"
    using assms(2,4) list_all_vat [of "\<lambda>p. 0 \<le> p" "tc_class_priority cfg" cl] by (auto simp: good_mode_def)
  then show ?thesis using PriClass assms(4) by (simp add: packet_pri_def)
next
  case PriSequence
  then have "n < vlen (tm_packet_seq_no s)" "0 \<le> vat (tm_packet_seq_no s) n \<and> vat (tm_packet_seq_no s) n < 2147483648"
    using assms(1,3) list_all_vat [of "\<lambda>q. 0 \<le> q \<and> q < 2147483648" "tm_packet_seq_no s" n] by (auto simp: gen_ok_def)
  then show ?thesis using PriSequence assms(3) age_nonneg by (simp add: packet_pri_def Let_def)
qed (use assms(5) age_nonneg in \<open>simp_all add: packet_pri_def Let_def\<close>)

lemma GeneratePacket_inv:
  assumes i: "inj_inv cfg vcs owns s" and o: "gen_ok cfg s" and n: "op_GetVirtualNode ops source \<in> {0..<tc_nodes cfg}" and c: "cl \<in> {0..<tc_classes cfg}"
    and sz: "1 \<le> sz" and pid: "tm_cur_pid s < 2147483648" and pri: "packet_pri cfg (op_GetVirtualNode ops source) cl time s = Inr p"
  shows "\<exists>r s'. GeneratePacket cfg ops source dest sz cl time s = Inr (r, s') \<and> inj_inv cfg vcs owns s' \<and> gen_ok cfg s'"
proof -
  let ?n = "op_GetVirtualNode ops source" and ?q = "queue_at (op_GetVirtualNode ops source) cl s"
  note sh = inj_invD(1) [OF i n]
  have idx: "0 \<le> ?n" "?n < vlen (tm_partial_packets s)" "0 \<le> cl" "cl < vlen (vat (tm_partial_packets s) ?n)" "cl < vlen (tm_total_in_flight s)"
      "cl < vlen (tm_measured_in_flight s)" "cl < vlen (tc_measure_stats cfg)"
    using shapeD [OF sh n] n c o by (auto simp: gen_ok_def)
  show ?thesis
  proof (cases "vlen ?q \<ge> tc_inj_size cfg \<or> dest = - 1")
    case True
    then have "GeneratePacket cfg ops source dest sz cl time s = Inr (- 1, s)" using idx by (auto simp: GeneratePacket_def queue_at_def Let_def)
    then show ?thesis using i o by blast
  next
    case False
    let ?s = "s\<lparr>tm_cur_pid := tm_cur_pid s + 1\<rparr>"
    define rec where "rec = (if tm_sim_state s = running \<or> tm_sim_state s = draining \<and> time < tm_drain_time s then vat (tc_measure_stats cfg) cl else False)"
    have pri': "packet_pri cfg ?n cl time ?s = Inr p" using pri by (simp add: packet_pri_def cong: ePriority.case_cong)
    have qe: "queue_at ?n cl ?s = ?q" by (simp add: queue_at_def)
    let ?p = "map (packet_flit (tm_cur_id s) (tm_cur_pid s) ?n dest sz cl time rec p) (range0 sz)"
    obtain A B where g: "for_each (generate_flit cfg ?n dest sz cl time (tm_cur_pid s) rec) (range0 sz) ?s =
        Inr (?s\<lparr>tm_cur_id := tm_cur_id s + vlen (range0 sz), tm_total_in_flight := vupd (tm_total_in_flight s) cl A,
               tm_measured_in_flight := vupd (tm_measured_in_flight s) cl B,
               tm_partial_packets := vupd (tm_partial_packets s) ?n (vupd (vat (tm_partial_packets s) ?n) cl (?q @ ?p))\<rparr>)" (is "_ = Inr ?t")
      using generate_ok [where src = ?n and s = ?s and cl = cl and cfg = cfg and time = time and p = p and pid = "tm_cur_pid s" and dest = dest
        and sz = sz and rec = rec] idx o pri' unfolding qe gen_ok_def by auto
    have run: "GeneratePacket cfg ops source dest sz cl time s = Inr (tm_cur_pid s, ?t)"
      using False idx o g unfolding GeneratePacket_def rec_def queue_at_def gen_ok_def by (auto simp: Let_def)
    have "inj_inv cfg vcs owns (put_queue ?n cl (?q @ ?p) s)"
      using packet_queue [OF inj_invD(4) [OF i n c] inj_invD(5) [OF i n c] sz] pid o by (intro put_queue_inv [OF i n c]) (auto simp: gen_ok_def)
    then have "inj_inv cfg vcs owns ?t"
      unfolding inj_inv_def shape_ok_def node_inv_def Let_def put_queue_def queue_at_def buf_at_def lvc_at_def by simp
    moreover have "gen_ok cfg ?t" using o by (auto simp: gen_ok_def)
    ultimately show ?thesis using run by blast
  qed
qed

section \<open>Runs\<close>

datatype tm_op = Generate int int int int int | CreditIn int int credit | Inject | Tick

fun tm_step :: "tm_config \<Rightarrow> 'e net_ops \<Rightarrow> tm_op \<Rightarrow> tmw \<times> 'e \<Rightarrow> (tmw \<times> 'e) res" where
  "tm_step cfg ops (Generate source dest sz cl time) (s, e) = bnd (GeneratePacket cfg ops source dest sz cl time s) (\<lambda>(pid, s). Inr (s, e))"
| "tm_step cfg ops (CreditIn n sn cr) (s, e) =
     bnd (upd_at n (upd_at sn (ProcessCredit (tm_time s) cr)) (tm_buf_states s)) (\<lambda>bs. Inr (s\<lparr>tm_buf_states := bs\<rparr>, e))"
| "tm_step cfg ops Inject (s, e) = for_each (\<lambda>sn. for_each (inject_node cfg ops sn) (range0 (tc_nodes cfg))) (range0 (tc_subnets cfg)) (s, e)"
| "tm_step cfg ops Tick (s, e) = Inr (s\<lparr>tm_time := tm_time s + 1\<rparr>, e)"

text \<open>
  What the operations are called with: packets of at least one flit between nodes and in a class that exist, fewer than \<open>2 ^ 31\<close> of them, with a
  generation time below \<open>2 ^ 31\<close> when it is their priority; and credits for flits that are in the buffer.
\<close>

fun tm_legal :: "tm_config \<Rightarrow> 'e net_ops \<Rightarrow> tm_op \<Rightarrow> tmw \<Rightarrow> bool" where
  "tm_legal cfg ops (Generate source dest sz cl time) s \<longleftrightarrow>
     (let n = op_GetVirtualNode ops source in
      0 \<le> n \<and> n < tc_nodes cfg \<and> 0 \<le> cl \<and> cl < tc_classes cfg \<and> 1 \<le> sz \<and> tm_cur_pid s < 2147483648 \<and>
      (tc_pri_type cfg = PriAge \<longrightarrow> 0 \<le> time \<and> time < 2147483648))"
| "tm_legal cfg ops (CreditIn n sn cr) s \<longleftrightarrow>
     0 \<le> n \<and> n < tc_nodes cfg \<and> 0 \<le> sn \<and> sn < tc_subnets cfg \<and> legal (Return (tm_time s) cr) (buf_at n sn s)"
| "tm_legal cfg ops Inject s \<longleftrightarrow> True"
| "tm_legal cfg ops Tick s \<longleftrightarrow> True"

fun tm_legal_run :: "tm_config \<Rightarrow> 'e net_ops \<Rightarrow> tm_op list \<Rightarrow> tmw \<times> 'e \<Rightarrow> bool" where
  "tm_legal_run cfg ops [] st \<longleftrightarrow> True"
| "tm_legal_run cfg ops (op # rest) st \<longleftrightarrow>
     tm_legal cfg ops op (fst st) \<and> (case tm_step cfg ops op st of Inl _ \<Rightarrow> True | Inr st' \<Rightarrow> tm_legal_run cfg ops rest st')"

lemma tm_step_ok:
  fixes s :: tmw
  assumes i: "inj_inv cfg vcs owns s" "gen_ok cfg s" and g: "good_ranges cfg vcs owns" and r: "good_routing cfg owns ops" and mode: "good_mode cfg"
    and l: "tm_legal cfg ops op s"
  shows "\<exists>s' e'. tm_step cfg ops op (s, e) = Inr (s', e') \<and> inj_inv cfg vcs owns s' \<and> gen_ok cfg s'"
proof (cases op)
  case (Generate source dest sz cl time)
  then obtain p where "packet_pri cfg (op_GetVirtualNode ops source) cl time s = Inr p"
    using packet_pri_ok [OF i(2) mode, of "op_GetVirtualNode ops source" cl time] l by (auto simp: Let_def)
  with GeneratePacket_inv [OF i, of ops source cl sz time p dest] l Generate show ?thesis by (auto simp: Let_def)
next
  case (CreditIn n sn cr)
  with credit_inv [OF i(1) _ _ g, of n sn "tm_time s" cr] l i(2) show ?thesis by (auto simp: gen_ok_def)
next
  case Inject
  with inject_all_ok [OF i(1) g r mode, of e] i(2) show ?thesis by (auto simp: gen_ok_def frame_def)
next
  case Tick
  have "inj_inv cfg vcs owns (s\<lparr>tm_time := tm_time s + 1\<rparr>)"
    using i(1) unfolding inj_inv_def shape_ok_def node_inv_def Let_def queue_at_def buf_at_def lvc_at_def by simp
  then show ?thesis using Tick i(2) by (simp add: gen_ok_def)
qed

lemma tm_run_ok:
  fixes s :: tmw
  assumes "inj_inv cfg vcs owns s" "gen_ok cfg s" "good_ranges cfg vcs owns" "good_routing cfg owns ops" "good_mode cfg" "tm_legal_run cfg ops xs (s, e)"
  shows "\<exists>s' e'. for_each (tm_step cfg ops) xs (s, e) = Inr (s', e') \<and> inj_inv cfg vcs owns s'"
  using assms(1,2,6)
proof (induction xs arbitrary: s e)
  case (Cons x xs)
  obtain s1 e1 where s1: "tm_step cfg ops x (s, e) = Inr (s1, e1)" "inj_inv cfg vcs owns s1" "gen_ok cfg s1"
    using tm_step_ok [OF Cons.prems(1,2) assms(3-5), of x e] Cons.prems(3) by auto
  with Cons.IH [OF s1(2,3), of e1] Cons.prems(3) show ?case by simp
qed simp

end
