(* ===== verification/Injection_Safety.thy ===== *)
theory Injection_Safety
  imports Injection
begin

text \<open>
  The constructor of the traffic manager establishes the invariants of packets and of injection, so that a traffic manager that is
  driven by legal operations never aborts. Two configurations outside the hypotheses do abort: priority by network age, and
  classes that share VCs.
\<close>

section \<open>The constructor\<close>

lemma for_each_collect:
  assumes "\<forall>x\<in>set xs. \<exists>y. g x = Inr y \<and> Q x y"
  shows "\<exists>ys. for_each (\<lambda>x acc. bnd (g x) (\<lambda>y. Inr (acc @ [y]))) xs acc = Inr (acc @ ys) \<and> list_all2 Q xs ys"
  using assms
proof (induction xs arbitrary: acc)
  case (Cons x xs)
  then obtain y where y: "g x = Inr y" "Q x y" by auto
  obtain ys where "for_each (\<lambda>x acc. bnd (g x) (\<lambda>y. Inr (acc @ [y]))) xs (acc @ [y]) = Inr ((acc @ [y]) @ ys)" "list_all2 Q xs ys"
    using Cons by (meson list.set_intros(2))
  then show ?case using y by (intro exI [of _ "y # ys"]) simp
qed simp

lemma for_each_rows:
  assumes "0 \<le> m" "\<forall>i\<in>{0..<m}. \<exists>y. g i = Inr y \<and> Q i y"
  shows "\<exists>ys. for_each (\<lambda>x acc. bnd (g x) (\<lambda>y. Inr (acc @ [y]))) (range0 m) [] = Inr ys \<and> vlen ys = m \<and> (\<forall>i\<in>{0..<m}. Q i (vat ys i))"
proof -
  obtain ys where ys: "for_each (\<lambda>x acc. bnd (g x) (\<lambda>y. Inr (acc @ [y]))) (range0 m) [] = Inr ys" "list_all2 Q (range0 m) ys"
    using for_each_collect [of "range0 m" g Q "[]"] assms(2) by auto
  have "Q i (vat ys i)" if "i \<in> {0..<m}" for i
    using list_all2_nthD [OF ys(2), of "nat i"] that vlen_range0 [OF assms(1)] vat_range0 [of i m] by (simp add: vat_def vlen_def nat_less_iff)
  then show ?thesis using ys list_all2_lengthD [OF ys(2)] vlen_range0 [OF assms(1)] by (auto simp: vlen_def)
qed

lemma boot_vcs: "good_config bc \<Longrightarrow> 0 \<le> l \<Longrightarrow> \<exists>b. boot bc l = Inr b \<and> bs_inv b \<and> bs_vcs (bs_core b) = cfg_num_vcs bc"
  using BufferPolicy_New_ok [of bc l] boot_policy [of bc _ l] boot_inv [of bc l] by (auto simp: idle_core_def Let_def)

lemma new_buf_states_ok:
  assumes "good_config bc" "\<forall>n sn. 0 \<le> lat n sn" "0 \<le> tc_nodes cfg" "0 \<le> tc_subnets cfg"
  shows "\<exists>bs. new_buf_states cfg bc lat = Inr bs \<and> vlen bs = tc_nodes cfg \<and> (\<forall>n\<in>{0..<tc_nodes cfg}. vlen (vat bs n) = tc_subnets cfg \<and>
    (\<forall>sn\<in>{0..<tc_subnets cfg}. bs_inv (vat (vat bs n) sn) \<and> bs_vcs (bs_core (vat (vat bs n) sn)) = cfg_num_vcs bc))"
  unfolding new_buf_states_def
  using assms boot_vcs by (intro for_each_rows ballI) simp_all

lemma vat_replicate_nat: "0 \<le> i \<Longrightarrow> i < n \<Longrightarrow> vat (replicate (nat n) x) i = x"
  by (simp add: vat_def)

lemma new_TrafficManager_inv:
  assumes c: "good_config bc" "\<forall>n sn. 0 \<le> lat n sn" "0 \<le> tc_nodes cfg" "0 \<le> tc_subnets cfg" "1 \<le> tc_classes cfg" "0 < tc_inj_size cfg"
    and q: "\<not> tc_noq cfg" and v: "vlen end_vcs = tc_classes cfg" "vlen (tc_measure_stats cfg) = tc_classes cfg" and g: "good_ranges cfg (cfg_num_vcs bc) owns"
  shows "\<exists>s. new_TrafficManager cfg bc lat end_vcs = Inr s \<and> inj_inv cfg (cfg_num_vcs bc) owns s \<and> gen_ok cfg s"
proof -
  from new_buf_states_ok [OF c(1-4)] obtain bs where bs: "new_buf_states cfg bc lat = Inr bs" "vlen bs = tc_nodes cfg"
      "\<forall>n\<in>{0..<tc_nodes cfg}. vlen (vat bs n) = tc_subnets cfg \<and>
        (\<forall>sn\<in>{0..<tc_subnets cfg}. bs_inv (vat (vat bs n) sn) \<and> bs_vcs (bs_core (vat (vat bs n) sn)) = cfg_num_vcs bc)"
    by blast
  obtain s where s: "new_TrafficManager cfg bc lat end_vcs = Inr s" "tm_partial_packets s = replicate (nat (tc_nodes cfg)) (replicate (nat (tc_classes cfg)) [])"
      "tm_buf_states s = bs" "tm_last_class s = replicate (nat (tc_nodes cfg)) (replicate (nat (tc_subnets cfg)) 0)"
      "tm_last_vc s = replicate (nat (tc_nodes cfg)) (replicate (nat (tc_subnets cfg)) end_vcs)" "tm_stat s = new_tm_stats cfg"
      "tm_total_in_flight s = replicate (nat (tc_classes cfg)) []" "tm_measured_in_flight s = replicate (nat (tc_classes cfg)) []"
      "tm_cur_id s = 0" "tm_cur_pid s = 0" "tm_packet_seq_no s = replicate (nat (tc_nodes cfg)) 0"
    using bs(1) c(6) q by (simp add: new_TrafficManager_def Let_def)
  have "shape_ok cfg s" using s bs c v by (simp add: shape_ok_def Let_def new_tm_stats_def vat_replicate_nat)
  moreover have "node_inv cfg (cfg_num_vcs bc) owns n s" if n: "n \<in> {0..<tc_nodes cfg}" for n
    using s(2,3) bs(3) n by (simp add: node_inv_def buf_at_def queue_at_def vat_replicate_nat queue_ok_def front_ok_def)
  moreover have "gen_ok cfg s" using s c v by (simp add: gen_ok_def list_all_iff)
  ultimately show ?thesis using s(1) by (auto simp: inj_inv_def)
qed

section \<open>Properties\<close>

text \<open>
  C14: A traffic manager whose classes have VC ranges of their own never aborts. In a good buffer configuration the
  constructor succeeds, and from then on any legal sequence of generated packets, returned credits, injection phases and
  ticks runs to the end: no assertion of the injection loop, of \<^verbatim>\<open>_GeneratePacket\<close> (its \<^verbatim>\<open>f->pri >= 0\<close> included) or of the buffer states
  fails. The mode is one of those of \<open>good_mode\<close>: not \<^verbatim>\<open>noq\<close>, not priority by network age, \<^verbatim>\<open>hold_switch_for_packet\<close> only with one subnet,
  class priorities not negative. The routing function offers one range of VCs of the class. A sequence is legal when packets have nodes and a class
  that exist, at least one flit, a number below \<open>2 ^ 31\<close> and, under priority by age, a time below \<open>2 ^ 31\<close>, and when credits return only for flits in the
  buffer.
\<close>

theorem injection_safe:
  assumes "good_config bc" "\<forall>n sn. 0 \<le> lat n sn" "0 \<le> tc_nodes cfg" "0 \<le> tc_subnets cfg" "1 \<le> tc_classes cfg" "0 < tc_inj_size cfg"
    and "vlen end_vcs = tc_classes cfg" "vlen (tc_measure_stats cfg) = tc_classes cfg"
    and g: "good_ranges cfg (cfg_num_vcs bc) owns" and r: "good_routing cfg owns ops" "good_mode cfg"
  shows "\<exists>s. new_TrafficManager cfg bc lat end_vcs = Inr s \<and>
    (\<forall>xs e. tm_legal_run cfg ops xs (s, e) \<longrightarrow> (\<exists>s' e'. for_each (tm_step cfg ops) xs (s, e) = Inr (s', e')))"
proof -
  from new_TrafficManager_inv [OF assms(1-6) _ assms(7-9)] r(2) obtain s where s: "new_TrafficManager cfg bc lat end_vcs = Inr s"
      "inj_inv cfg (cfg_num_vcs bc) owns s" "gen_ok cfg s" by (auto simp: good_mode_def)
  have "\<exists>s' e'. for_each (tm_step cfg ops) xs (s, e) = Inr (s', e')" if "tm_legal_run cfg ops xs (s, e)" for xs e
    using tm_run_ok [OF s(2,3) g r that] by blast
  then show ?thesis using s(1) by blast
qed

text \<open>The histograms are not evaluated in the runs below.\<close>

declare new_Stats_def [code del]

definition demo_run :: "tm_op list" where
  "demo_run = [Generate 0 1 3 0 0, Inject, Tick, Inject, Tick, CreditIn 0 0 (credit_of [0]), Inject, Generate 1 0 1 0 2, Inject]"

definition run_ok :: "tm_config \<Rightarrow> 'e net_ops \<Rightarrow> buf_config \<Rightarrow> int list \<Rightarrow> tm_op list \<Rightarrow> 'e \<Rightarrow> bool" where
  "run_ok cfg ops bc end_vcs xs e = (case new_TrafficManager cfg bc (\<lambda>_ _. 2) end_vcs of Inl _ \<Rightarrow> False | Inr s \<Rightarrow> tm_legal_run cfg ops xs (s, e))"

lemma demo_ranges: "good_ranges demo_cfg 2 (\<lambda>c. {0..1})"
proof -
  have "vlen (tc_subnet demo_cfg) = 1" "vat (tc_subnet demo_cfg) 0 = 0" by code_simp+
  moreover have "{0..<tc_classes demo_cfg} = {0}" by (auto simp: demo_cfg_def)
  ultimately show ?thesis unfolding good_ranges_def by (auto simp: demo_cfg_def)
qed

lemma rerouted_refl: "rerouted f f"
  unfolding rerouted_def by (intro exI [of _ "fl_intm f"] exI [of _ "fl_ph f"]) simp

lemma demo_routing: "good_routing demo_cfg (\<lambda>c. {0..1}) demo_ops"
  by (auto simp: good_routing_def demo_cfg_def demo_ops_def rerouted_refl)

theorem injection_safe_witness:
  "run_ok demo_cfg demo_ops cfg_shared [1] demo_run () \<and>
   (\<exists>s. new_TrafficManager demo_cfg cfg_shared (\<lambda>_ _. 2) [1] = Inr s \<and>
     (\<exists>s' e'. for_each (tm_step demo_cfg demo_ops) demo_run (s, ()) = Inr (s', e')))"
proof -
  have l: "run_ok demo_cfg demo_ops cfg_shared [1] demo_run ()" by code_simp
  have v: "cfg_num_vcs cfg_shared = 2" by (simp add: cfg_shared_def)
  have a: "0 \<le> tc_nodes demo_cfg" "0 \<le> tc_subnets demo_cfg" "1 \<le> tc_classes demo_cfg" "0 < tc_inj_size demo_cfg"
      "vlen [1 :: int] = tc_classes demo_cfg" "vlen (tc_measure_stats demo_cfg) = tc_classes demo_cfg" "good_mode demo_cfg"
    by (simp_all add: demo_cfg_def good_mode_def)
  obtain s where s: "new_TrafficManager demo_cfg cfg_shared (\<lambda>_ _. 2) [1] = Inr s"
      "tm_legal_run demo_cfg demo_ops demo_run (s, ()) \<longrightarrow> (\<exists>s' e'. for_each (tm_step demo_cfg demo_ops) demo_run (s, ()) = Inr (s', e'))"
    using injection_safe [OF cfg_shared_good _ a(1-6) _ demo_routing a(7), of "\<lambda>_ _. 2"] demo_ranges v by auto
  then show ?thesis using l by (auto simp: run_ok_def)
qed

lemma network_age_pri_neg: "0 \<le> t \<Longrightarrow> t < 2147483648 \<Longrightarrow> network_age_pri t = - 1 - t"
proof -
  assume t: "0 \<le> t" "t < 2147483648"
  have "9223372036854775807 - t + 2147483648 = (2147483647 - t) + 2147483648 * 4294967296" by simp
  then have "(9223372036854775807 - t + 2147483648) mod 4294967296 = (2147483647 - t) mod 4294967296" by (metis mod_mult_self1)
  with t show ?thesis by (simp add: network_age_pri_def int32_def)
qed

text \<open>A run that succeeds in one continuation and fails in another.\<close>

lemma bnd_cut: "bnd x k = Inr r \<Longrightarrow> (\<And>y. x = Inr y \<Longrightarrow> k y = Inr r \<Longrightarrow> k' y = Inl z) \<Longrightarrow> bnd x k' = Inl z"
  by (cases x) auto

lemma send_flit_network_age:
  assumes "send_flit (cfg\<lparr>tc_pri_type := PriNone, tc_hold_switch_for_packet := False\<rparr>) ops sn n c (s, e) = Inr (s', e')"
    and "tc_pri_type cfg = PriNetworkAge" "network_age_pri (tm_time s) < 0"
  shows "send_flit cfg ops sn n c (s, e) = Inl (AssertFail ''f->pri >= 0'')"
  using assms unfolding send_flit_def Let_def
  by (auto elim!: bnd_cut split: option.splits) (auto simp: bnd_Inr_iff assert_that_def split: if_splits)

text \<open>
  C32: Priority by network age cannot be used. The age is computed from the maximum of \<^verbatim>\<open>long long\<close> but stored in an
  \<^verbatim>\<open>int\<close>, where it is \<open>-1 - time\<close>: whenever a flit is selected for injection, the assertion
  \<^verbatim>\<open>f->pri >= 0\<close> aborts the simulation.
\<close>

theorem network_age_aborts:
  assumes i: "inj_inv cfg vcs owns s" and g: "good_ranges cfg vcs owns" and r: "good_routing cfg owns ops" and sel: "sel_ok cfg sn n (Some c) s"
    and n: "n \<in> {0..<tc_nodes cfg}" and sn: "sn \<in> {0..<tc_subnets cfg}"
    and pri: "tc_pri_type cfg = PriNetworkAge" "\<not> tc_noq cfg" and t: "0 \<le> tm_time s" "tm_time s < 2147483648"
  shows "send_flit cfg ops sn n c (s, e) = Inl (AssertFail ''f->pri >= 0'')"
proof -
  let ?cfg = "cfg\<lparr>tc_pri_type := PriNone, tc_hold_switch_for_packet := False\<rparr>"
  have "inj_inv ?cfg vcs owns s" "good_ranges ?cfg vcs owns" "good_routing ?cfg owns ops" "sel_ok ?cfg sn n (Some c) s" "good_mode ?cfg"
    using i g r sel pri by (simp_all add: inj_inv_def shape_ok_def node_inv_def Let_def good_ranges_def good_routing_def sel_ok_def good_mode_def)
  from send_flit_ok [OF this(1) _ this(2,3,5) _ this(4)] n sn obtain s' e' where "send_flit ?cfg ops sn n c (s, e) = Inr (s', e')"
    by (simp del: atLeastLessThan_iff) blast
  then show ?thesis by (rule send_flit_network_age) (use pri network_age_pri_neg [OF t] t in auto)
qed

definition aged_cfg :: tm_config where
  "aged_cfg = demo_cfg\<lparr>tc_pri_type := PriNetworkAge\<rparr>"

definition aged_select :: "tmw \<Rightarrow> (int option \<times> tmw \<times> unit) res" where
  "aged_select s = bnd (GeneratePacket aged_cfg demo_ops 0 1 1 0 0 s) (\<lambda>(pid, s). inject_class aged_cfg demo_ops 0 0 0 (None, s, ()))"

theorem network_age_aborts_witness:
  "\<exists>s0 s. new_TrafficManager aged_cfg cfg_shared (\<lambda>_ _. 2) [1] = Inr s0 \<and> aged_select s0 = Inr (Some 0, s, ()) \<and>
     send_flit aged_cfg demo_ops 0 0 0 (s, ()) = Inl (AssertFail ''f->pri >= 0'')"
proof -
  let ?owns = "\<lambda>c :: int. {0..1 :: int}"
  have g: "good_ranges aged_cfg 2 ?owns" "good_routing aged_cfg ?owns demo_ops"
    using demo_ranges demo_routing by (simp_all add: aged_cfg_def good_ranges_def good_routing_def)
  have c: "tc_nodes aged_cfg = 2" "tc_subnets aged_cfg = 1" "tc_classes aged_cfg = 1" "0 < tc_inj_size aged_cfg" "\<not> tc_noq aged_cfg"
      "vlen (tc_measure_stats aged_cfg) = 1" "tc_pri_type aged_cfg = PriNetworkAge" "cfg_num_vcs cfg_shared = 2"
    by (simp_all add: aged_cfg_def demo_cfg_def cfg_shared_def)
  obtain s0 where s0: "new_TrafficManager aged_cfg cfg_shared (\<lambda>_ _. 2) [1] = Inr s0" "inj_inv aged_cfg 2 ?owns s0" "gen_ok aged_cfg s0"
    using new_TrafficManager_inv [of cfg_shared "\<lambda>_ _. 2" aged_cfg "[1]" ?owns] cfg_shared_good g(1) c by auto
  have "(case new_TrafficManager aged_cfg cfg_shared (\<lambda>_ _. 2) [1] of Inl _ \<Rightarrow> False | Inr s \<Rightarrow> tm_cur_pid s = 0 \<and>
      (case aged_select s of Inl _ \<Rightarrow> False | Inr (sel, t, e) \<Rightarrow> sel = Some 0 \<and> tm_time t = 0))" by code_simp
  with s0 obtain s where s: "aged_select s0 = Inr (Some 0, s, ())" "tm_time s = 0" "tm_cur_pid s0 = 0" by (auto split: sum.splits)
  obtain r s1 where s1: "GeneratePacket aged_cfg demo_ops 0 1 1 0 0 s0 = Inr (r, s1)" "inj_inv aged_cfg 2 ?owns s1"
    using GeneratePacket_inv [OF s0(2,3), of demo_ops 0 0 1 0 0 1] c s(3) by (auto simp: demo_ops_def packet_pri_def)
  have "inj_inv aged_cfg 2 ?owns s \<and> sel_ok aged_cfg 0 0 (Some 0) s"
    using inject_class_ok [OF s1(2) _ _ g c(5), of 0 0 0 None "()"] s(1) s1(1) c by (auto simp: aged_select_def sel_ok_def)
  then have "send_flit aged_cfg demo_ops 0 0 0 (s, ()) = Inl (AssertFail ''f->pri >= 0'')"
    using network_age_aborts [OF _ g, of s 0 0 0 "()"] c s(2) by auto
  with s0(1) s(1) show ?thesis by blast
qed

definition shared_vc_cfg :: tm_config where
  "shared_vc_cfg = demo_cfg\<lparr>tc_classes := 2, tc_class_priority := [1, 0], tc_pri_type := PriClass, tc_subnet := [0, 0],
     tc_measure_stats := [True, True]\<rparr>"

definition tail_credit_cfg :: buf_config where
  "tail_credit_cfg = cfg_shared\<lparr>cfg_num_vcs := 1, cfg_wait_for_tail_credit := True\<rparr>"

definition one_vc_ops :: "unit net_ops" where
  "one_vc_ops = demo_ops\<lparr>op_rf := (\<lambda>_ f _ e. Inr ([\<lparr>vc_start = 0, vc_end = 0, se_pri = 0, output_port = - 1\<rparr>], f, e))\<rparr>"

definition stale_run :: "tm_op list" where
  "stale_run = [Generate 0 1 1 0 0, Generate 0 1 1 1 0, Inject, Tick]"

text \<open>
  C33: A head flit keeps the VC it was given in an earlier cycle, when another class was served, and availability is not checked again. In any state in
  which the front flit of a class is a head flit with a VC that is in use but not full, the loop over the classes selects it as soon as its priority is above
  that of the flit selected so far, and sending it aborts in \<^verbatim>\<open>TakeBuffer\<close>.
\<close>

theorem stale_vc_aborts:
  assumes sh: "shape_ok cfg s" and n: "n \<in> {0..<tc_nodes cfg}" and sn: "sn \<in> {0..<tc_subnets cfg}" and c: "c \<in> {0..<tc_classes cfg}"
    and sub: "vlen (tc_subnet cfg) = tc_classes cfg" "vat (tc_subnet cfg) c = sn" and q: "queue_at n c s = f # rest" "fl_cl f = c" "fl_head f"
    and v: "fl_vc f \<in> {0..<bs_vcs (bs_core (buf_at n sn s))}" "IsAvailableFor (bs_core (buf_at n sn s)) (fl_vc f) = Inr False"
      "IsFullFor (tm_time s) (buf_at n sn s) (fl_vc f) = Inr False"
    and p: "sel_pri n sel s = Inr fp" "\<forall>x. fp = Some x \<longrightarrow> x < fl_pri f"
    and rf: "tc_lookahead_routing cfg \<longrightarrow> (\<exists>os f' e'. op_rf ops (Some (sn, n)) f False e = Inr (os, f', e') \<and> rerouted f f')"
  shows "inject_class cfg ops sn n c (sel, s, e) = Inr (Some c, s, e) \<and>
    send_flit cfg ops sn n c (s, e) = Inl (ErrorMsg ''Buffer taken while in use for VC'')"
proof -
  have idx: "0 \<le> n" "n < vlen (tm_partial_packets s)" "0 \<le> c" "c < vlen (vat (tm_partial_packets s) n)" "n < vlen (tm_buf_states s)" "0 \<le> sn"
      "sn < vlen (vat (tm_buf_states s) n)" "c < vlen (tc_subnet cfg)"
    using shapeD [OF sh n] n c sn sub(1) by auto
  have fr: "front_of n c s = Inr (Some f)" using idx q(1) by (simp add: front_of_def queue_at_def)
  have "vupd (vat (tm_partial_packets s) n) c (f # rest) = vat (tm_partial_packets s) n"
    using vupd_same [of "vat (tm_partial_packets s) n" c] q(1) by (simp add: queue_at_def)
  then have set: "set_front n c f s = Inr s" using idx q(1) by (simp add: set_front_def upd_at_def queue_at_def vupd_same)
  have use: "0 \<le> vat (bs_in_use_by (bs_core (buf_at n sn s))) (fl_vc f)" using v(1,2) by (auto simp: IsAvailableFor_def)
  have "inject_class cfg ops sn n c (sel, s, e) = Inr (Some c, s, e)"
    using idx fr set q(2,3) sub(2) v p by (auto simp: inject_class_def buf_at_def split: option.splits)
  moreover have "send_flit cfg ops sn n c (s, e) = Inl (ErrorMsg ''Buffer taken while in use for VC'')"
    using idx fr q(3) v(1) use rf by (auto simp: send_flit_def buf_at_def TakeBuffer_def rerouted_def Let_def)
  ultimately show ?thesis ..
qed

text \<open>
  The state is reached: two classes share a VC under \<^verbatim>\<open>wait_for_tail_credit\<close>, a flit of each is generated and one injection phase and a tick pass.
  The second injection phase aborts.
\<close>

definition stale_state :: "tmw \<Rightarrow> bool" where
  "stale_state s \<longleftrightarrow> shape_ok shared_vc_cfg s \<and>
     (case queue_at 0 1 s of [] \<Rightarrow> False
      | f # _ \<Rightarrow> fl_cl f = 1 \<and> fl_head f \<and> fl_vc f = 0 \<and> bs_vcs (bs_core (buf_at 0 0 s)) = 1 \<and>
          IsAvailableFor (bs_core (buf_at 0 0 s)) 0 = Inr False \<and> IsFullFor (tm_time s) (buf_at 0 0 s) 0 = Inr False) \<and>
     tm_step shared_vc_cfg one_vc_ops Inject (s, ()) = Inl (ErrorMsg ''Buffer taken while in use for VC'')"

theorem stale_vc_aborts_witness:
  "\<exists>s0 s. new_TrafficManager shared_vc_cfg tail_credit_cfg (\<lambda>_ _. 2) [0, 0] = Inr s0 \<and> tm_legal_run shared_vc_cfg one_vc_ops stale_run (s0, ()) \<and>
     for_each (tm_step shared_vc_cfg one_vc_ops) stale_run (s0, ()) = Inr (s, ()) \<and>
     inject_class shared_vc_cfg one_vc_ops 0 0 1 (None, s, ()) = Inr (Some 1, s, ()) \<and>
     send_flit shared_vc_cfg one_vc_ops 0 0 1 (s, ()) = Inl (ErrorMsg ''Buffer taken while in use for VC'')"
proof -
  have "(case new_TrafficManager shared_vc_cfg tail_credit_cfg (\<lambda>_ _. 2) [0, 0] of Inl _ \<Rightarrow> False
    | Inr s0 \<Rightarrow> tm_legal_run shared_vc_cfg one_vc_ops stale_run (s0, ()) \<and>
        (case for_each (tm_step shared_vc_cfg one_vc_ops) stale_run (s0, ()) of Inl _ \<Rightarrow> False | Inr (s, _) \<Rightarrow> stale_state s))"
    by code_simp
  then obtain s0 s where s: "new_TrafficManager shared_vc_cfg tail_credit_cfg (\<lambda>_ _. 2) [0, 0] = Inr s0"
      "tm_legal_run shared_vc_cfg one_vc_ops stale_run (s0, ())" "for_each (tm_step shared_vc_cfg one_vc_ops) stale_run (s0, ()) = Inr (s, ())" "stale_state s"
    by (auto split: sum.splits)
  then obtain f rest where q: "shape_ok shared_vc_cfg s" "queue_at 0 1 s = f # rest" "fl_cl f = 1" "fl_head f" "fl_vc f = 0" "bs_vcs (bs_core (buf_at 0 0 s)) = 1"
      "IsAvailableFor (bs_core (buf_at 0 0 s)) 0 = Inr False" "IsFullFor (tm_time s) (buf_at 0 0 s) 0 = Inr False"
    by (auto simp: stale_state_def split: list.splits)
  have c: "tc_nodes shared_vc_cfg = 2" "tc_subnets shared_vc_cfg = 1" "tc_classes shared_vc_cfg = 2" "vlen (tc_subnet shared_vc_cfg) = 2"
      "vat (tc_subnet shared_vc_cfg) 1 = 0" "\<not> tc_lookahead_routing shared_vc_cfg"
    by (simp_all add: shared_vc_cfg_def demo_cfg_def vat_def)
  have "inject_class shared_vc_cfg one_vc_ops 0 0 1 (None, s, ()) = Inr (Some 1, s, ()) \<and>
     send_flit shared_vc_cfg one_vc_ops 0 0 1 (s, ()) = Inl (ErrorMsg ''Buffer taken while in use for VC'')"
    using q c by (intro stale_vc_aborts [where f = f and rest = rest and fp = None]) (simp_all add: sel_pri_def)
  with s(1-3) show ?thesis by blast
qed

end
