(* ===== verification/Net_Dest.thy ===== *)
theory Net_Dest
  imports Prelude
begin

text \<open>
  Destinations of messages: bit sets (\<^verbatim>\<open>mem/ruby/common/Set.hh\<close>) and the vector of one set per machine type
  (\<^verbatim>\<open>NetDest.cc\<close>). The numbering of the machines (\<^verbatim>\<open>MachineType_base_level\<close>, \<^verbatim>\<open>MachineType_base_number\<close>,
  \<^verbatim>\<open>MachineType_base_count\<close>) is generated when gem5 is built and is passed as a record; \<open>nbits\<close> is the build
  option \<^verbatim>\<open>NUMBER_BITS_PER_SET\<close>. An access outside a \<^verbatim>\<open>std::bitset\<close> is \<open>OutOfBounds\<close>.
\<close>

section \<open>Bit sets\<close>

record gset =
  gs_size :: int
  gs_bits :: "bool list"

definition Set_new :: "int \<Rightarrow> gset" where
  "Set_new nbits = \<lparr>gs_size = 0, gs_bits = replicate (nat nbits) False\<rparr>"

definition Set_setSize :: "int \<Rightarrow> int \<Rightarrow> gset \<Rightarrow> gset res" where
  "Set_setSize nbits n s =
     (if n > nbits then Inl (ErrorMsg ''Number of bits < size specified'')
      else Inr (s\<lparr>gs_size := n, gs_bits := replicate (nat nbits) False\<rparr>))"

definition Set_add :: "int \<Rightarrow> gset \<Rightarrow> gset res" where
  "Set_add i s = bnd (vset (gs_bits s) i True) (\<lambda>b. Inr (s\<lparr>gs_bits := b\<rparr>))"

definition Set_remove :: "int \<Rightarrow> gset \<Rightarrow> gset res" where
  "Set_remove i s = bnd (vset (gs_bits s) i False) (\<lambda>b. Inr (s\<lparr>gs_bits := b\<rparr>))"

definition same_size :: "gset \<Rightarrow> gset \<Rightarrow> unit res" where
  "same_size s t = assert_that (gs_size s = gs_size t) ''m_nSize == obj.m_nSize''"

definition Set_addSet :: "gset \<Rightarrow> gset \<Rightarrow> gset res" where
  "Set_addSet s t = bnd (same_size s t) (\<lambda>_. Inr (s\<lparr>gs_bits := map2 (\<or>) (gs_bits s) (gs_bits t)\<rparr>))"

definition Set_removeSet :: "gset \<Rightarrow> gset \<Rightarrow> gset res" where
  "Set_removeSet s t = bnd (same_size s t) (\<lambda>_. Inr (s\<lparr>gs_bits := map2 (\<lambda>a b. a \<and> \<not> b) (gs_bits s) (gs_bits t)\<rparr>))"

definition Set_clear :: "gset \<Rightarrow> gset" where
  "Set_clear s = s\<lparr>gs_bits := map (\<lambda>_. False) (gs_bits s)\<rparr>"

definition Set_broadcast :: "gset \<Rightarrow> gset" where
  "Set_broadcast s = s\<lparr>gs_bits := map (\<lambda>j. j < gs_size s) (range0 (vlen (gs_bits s)))\<rparr>"

definition Set_count :: "gset \<Rightarrow> int" where
  "Set_count s = vlen (filter (\<lambda>b. b) (gs_bits s))"

definition Set_isEqual :: "gset \<Rightarrow> gset \<Rightarrow> bool res" where
  "Set_isEqual s t = bnd (same_size s t) (\<lambda>_. Inr (gs_bits s = gs_bits t))"

definition Set_OR :: "gset \<Rightarrow> gset \<Rightarrow> gset res" where
  "Set_OR s t = bnd (same_size s t) (\<lambda>_. Inr \<lparr>gs_size = gs_size s, gs_bits = map2 (\<or>) (gs_bits s) (gs_bits t)\<rparr>)"

definition Set_AND :: "gset \<Rightarrow> gset \<Rightarrow> gset res" where
  "Set_AND s t = bnd (same_size s t) (\<lambda>_. Inr \<lparr>gs_size = gs_size s, gs_bits = map2 (\<and>) (gs_bits s) (gs_bits t)\<rparr>)"

definition Set_intersectionIsEmpty :: "gset \<Rightarrow> gset \<Rightarrow> bool" where
  "Set_intersectionIsEmpty s t \<longleftrightarrow> list_all (\<lambda>b. \<not> b) (map2 (\<and>) (gs_bits s) (gs_bits t))"

definition Set_isSuperset :: "gset \<Rightarrow> gset \<Rightarrow> bool res" where
  "Set_isSuperset s t = bnd (same_size s t) (\<lambda>_. Inr (map2 (\<or>) (gs_bits s) (gs_bits t) = gs_bits s))"

definition Set_isElement :: "int \<Rightarrow> gset \<Rightarrow> bool res" where
  "Set_isElement i s = vget (gs_bits s) i"

definition Set_isBroadcast :: "gset \<Rightarrow> bool" where
  "Set_isBroadcast s \<longleftrightarrow> Set_count s = gs_size s"

definition Set_isEmpty :: "gset \<Rightarrow> bool" where
  "Set_isEmpty s \<longleftrightarrow> list_all (\<lambda>b. \<not> b) (gs_bits s)"

section \<open>Machines and destinations\<close>

record machines =
  mt_num :: int
  mt_level :: "int \<Rightarrow> int"
  mt_base :: "int \<Rightarrow> int"
  mt_count :: "int \<Rightarrow> int"

record machine_id =
  mi_type :: int
  mi_num :: int

type_synonym net_dest = "gset list"

text \<open>\<^verbatim>\<open>for (i...) m_bits[i].op(netDest.m_bits[i])\<close> and the loops that give up at the first index.\<close>

fun zip_res :: "('a \<Rightarrow> 'b \<Rightarrow> 'c res) \<Rightarrow> 'a list \<Rightarrow> 'b list \<Rightarrow> 'c list res" where
  "zip_res f (x # xs) (y # ys) = bnd (f x y) (\<lambda>z. bnd (zip_res f xs ys) (\<lambda>zs. Inr (z # zs)))"
| "zip_res f _ _ = Inr []"

fun all_res :: "('a \<Rightarrow> 'b \<Rightarrow> bool res) \<Rightarrow> 'a list \<Rightarrow> 'b list \<Rightarrow> bool res" where
  "all_res f (x # xs) (y # ys) = bnd (f x y) (\<lambda>b. if b then all_res f xs ys else Inr False)"
| "all_res f _ _ = Inr True"

definition NetDest_new :: "machines \<Rightarrow> int \<Rightarrow> net_dest res" where
  "NetDest_new mt nbits =
     (let n = mt_level mt (mt_num mt) in
      bnd (assert_that (n = mt_num mt) ''m_bits.size() == MachineType_NUM'') (\<lambda>_.
      for_each (\<lambda>i d. bnd (Set_setSize nbits (mt_count mt i) (Set_new nbits)) (\<lambda>s. Inr (d @ [s]))) (range0 n) []))"

definition vecIndex :: "machines \<Rightarrow> machine_id \<Rightarrow> net_dest \<Rightarrow> int res" where
  "vecIndex mt m d =
     (let i = mt_level mt (mi_type m) in bnd (assert_that (i < vlen d) ''vec_index < m_bits.size()'') (\<lambda>_. Inr i))"

definition NetDest_add :: "machines \<Rightarrow> machine_id \<Rightarrow> net_dest \<Rightarrow> net_dest res" where
  "NetDest_add mt m d =
     bnd (vecIndex mt m d) (\<lambda>i. bnd (vget d i) (\<lambda>s.
     bnd (assert_that (mi_num m < gs_size s) ''bitIndex(newElement.num) < getSize()'') (\<lambda>_.
     bnd (Set_add (mi_num m) s) (\<lambda>s. Inr (vupd d i s)))))"

definition NetDest_remove :: "machines \<Rightarrow> machine_id \<Rightarrow> net_dest \<Rightarrow> net_dest res" where
  "NetDest_remove mt m d =
     bnd (vecIndex mt m d) (\<lambda>i. bnd (vget d i) (\<lambda>s. bnd (Set_remove (mi_num m) s) (\<lambda>s. Inr (vupd d i s))))"

definition same_width :: "net_dest \<Rightarrow> net_dest \<Rightarrow> unit res" where
  "same_width d e = assert_that (vlen d = vlen e) ''m_bits.size() == netDest.getSize()''"

definition NetDest_addNetDest :: "net_dest \<Rightarrow> net_dest \<Rightarrow> net_dest res" where
  "NetDest_addNetDest e d = bnd (same_width d e) (\<lambda>_. zip_res Set_addSet d e)"

definition NetDest_removeNetDest :: "net_dest \<Rightarrow> net_dest \<Rightarrow> net_dest res" where
  "NetDest_removeNetDest e d = bnd (same_width d e) (\<lambda>_. zip_res Set_removeSet d e)"

definition NetDest_setNetDest :: "machines \<Rightarrow> int \<Rightarrow> gset \<Rightarrow> net_dest \<Rightarrow> net_dest res" where
  "NetDest_setNetDest mt m s d =
     bnd (assert_that (mt_level mt (m + 1) - mt_level mt m = 1) ''one set per machine'') (\<lambda>_. vset d (mt_level mt m) s)"

definition NetDest_clear :: "net_dest \<Rightarrow> net_dest" where
  "NetDest_clear d = map Set_clear d"

definition NetDest_broadcast_type :: "machines \<Rightarrow> int \<Rightarrow> net_dest \<Rightarrow> net_dest res" where
  "NetDest_broadcast_type mt m d = for_each (\<lambda>i. NetDest_add mt \<lparr>mi_type = m, mi_num = i\<rparr>) (range0 (mt_count mt m)) d"

definition NetDest_broadcast :: "machines \<Rightarrow> net_dest \<Rightarrow> net_dest res" where
  "NetDest_broadcast mt d = for_each (NetDest_broadcast_type mt) (range0 (mt_num mt)) d"

text \<open>The node numbers of the elements, by machine type and then by machine.\<close>

definition NetDest_getAllDest :: "machines \<Rightarrow> net_dest \<Rightarrow> int list res" where
  "NetDest_getAllDest mt d =
     for_each (\<lambda>i ids.
       for_each (\<lambda>j ids. bnd (Set_isElement j (vat d i)) (\<lambda>b. Inr (if b then ids @ [mt_base mt i + j] else ids)))
         (range0 (gs_size (vat d i))) ids) (range0 (vlen d)) []"

definition NetDest_count :: "net_dest \<Rightarrow> int" where
  "NetDest_count d = sum_list (map Set_count d)"

definition NetDest_isBroadcast :: "net_dest \<Rightarrow> bool" where
  "NetDest_isBroadcast d \<longleftrightarrow> list_all Set_isBroadcast d"

definition NetDest_isEmpty :: "net_dest \<Rightarrow> bool" where
  "NetDest_isEmpty d \<longleftrightarrow> list_all Set_isEmpty d"

definition NetDest_OR :: "net_dest \<Rightarrow> net_dest \<Rightarrow> net_dest res" where
  "NetDest_OR d e = bnd (same_width d e) (\<lambda>_. zip_res Set_OR d e)"

definition NetDest_AND :: "net_dest \<Rightarrow> net_dest \<Rightarrow> net_dest res" where
  "NetDest_AND d e = bnd (same_width d e) (\<lambda>_. zip_res Set_AND d e)"

definition NetDest_intersectionIsNotEmpty :: "net_dest \<Rightarrow> net_dest \<Rightarrow> bool res" where
  "NetDest_intersectionIsNotEmpty d e =
     bnd (same_width d e) (\<lambda>_. Inr (list_ex (\<lambda>(s, t). \<not> Set_intersectionIsEmpty s t) (zip d e)))"

definition NetDest_isSuperset :: "net_dest \<Rightarrow> net_dest \<Rightarrow> bool res" where
  "NetDest_isSuperset d e = bnd (same_width d e) (\<lambda>_. all_res Set_isSuperset d e)"

definition NetDest_isElement :: "machines \<Rightarrow> machine_id \<Rightarrow> net_dest \<Rightarrow> bool res" where
  "NetDest_isElement mt m d = bnd (vecIndex mt m d) (\<lambda>i. bnd (vget d i) (Set_isElement (mi_num m)))"

definition NetDest_isEqual :: "net_dest \<Rightarrow> net_dest \<Rightarrow> bool res" where
  "NetDest_isEqual d e = bnd (same_width d e) (\<lambda>_. all_res Set_isEqual d e)"

section \<open>Sets of machines\<close>

text \<open>What the generated functions are documented to return: types are numbered from zero, machines consecutively by type.\<close>

definition machines_ok :: "machines \<Rightarrow> int \<Rightarrow> bool" where
  "machines_ok mt nbits \<longleftrightarrow> 0 \<le> mt_num mt \<and> (\<forall>m\<in>{0..mt_num mt}. mt_level mt m = m) \<and>
     (\<forall>m\<in>{0..<mt_num mt}. 0 \<le> mt_count mt m \<and> mt_count mt m \<le> nbits \<and> mt_base mt (m + 1) = mt_base mt m + mt_count mt m)"

definition dest_ok :: "machines \<Rightarrow> int \<Rightarrow> net_dest \<Rightarrow> bool" where
  "dest_ok mt nbits d \<longleftrightarrow> vlen d = mt_num mt \<and>
     (\<forall>i\<in>{0..<mt_num mt}. gs_size (vat d i) = mt_count mt i \<and> vlen (gs_bits (vat d i)) = nbits \<and>
        (\<forall>j\<in>{0..<nbits}. vat (gs_bits (vat d i)) j \<longrightarrow> j < mt_count mt i))"

definition elems :: "net_dest \<Rightarrow> (int \<times> int) set" where
  "elems d = {(i, j). 0 \<le> i \<and> i < vlen d \<and> 0 \<le> j \<and> j < vlen (gs_bits (vat d i)) \<and> vat (gs_bits (vat d i)) j}"

lemma vlen_zip [simp]: "vlen xs = vlen ys \<Longrightarrow> vlen (zip xs ys) = vlen xs"
  by (simp add: vlen_def)

lemma vat_zip [simp]: "vlen xs = vlen ys \<Longrightarrow> 0 \<le> i \<Longrightarrow> i < vlen xs \<Longrightarrow> vat (zip xs ys) i = (vat xs i, vat ys i)"
  by (simp add: vlen_def vat_def)

lemma zip_ball:
  assumes "vlen xs = vlen ys"
  shows "(\<forall>(x, y)\<in>set (zip xs ys). P x y) \<longleftrightarrow> (\<forall>i\<in>{0..<vlen xs}. P (vat xs i) (vat ys i))"
proof -
  have l: "length xs = length ys" using assms by (simp add: vlen_def)
  have "(\<forall>(x, y)\<in>set (zip xs ys). P x y) \<longleftrightarrow> (\<forall>k<length xs. P (xs ! k) (ys ! k))" using l by (auto simp: set_zip)
  also have "\<dots> \<longleftrightarrow> (\<forall>i\<in>{0..<vlen xs}. P (vat xs i) (vat ys i))"
  proof (intro iffI ballI allI impI)
    fix k assume "\<forall>i\<in>{0..<vlen xs}. P (vat xs i) (vat ys i)" "k < length xs"
    then show "P (xs ! k) (ys ! k)" by (auto simp: vat_def vlen_def dest: bspec [of _ _ "int k"])
  qed (auto simp: vat_def vlen_def)
  finally show ?thesis .
qed

lemma zip_res_map2: "\<forall>(x, y)\<in>set (zip xs ys). f x y = Inr (g x y) \<Longrightarrow> zip_res f xs ys = Inr (map2 g xs ys)"
  by (induction f xs ys rule: zip_res.induct) auto

lemma all_res_zip: "\<forall>(x, y)\<in>set (zip xs ys). f x y = Inr (p x y) \<Longrightarrow> all_res f xs ys = Inr (\<forall>(x, y)\<in>set (zip xs ys). p x y)"
  by (induction f xs ys rule: all_res.induct) auto

lemma dest_okD:
  assumes "dest_ok mt n d" "0 \<le> i" "i < vlen d"
  shows "gs_size (vat d i) = mt_count mt i" "vlen (gs_bits (vat d i)) = n"
    "0 \<le> j \<Longrightarrow> j < n \<Longrightarrow> vat (gs_bits (vat d i)) j \<Longrightarrow> j < mt_count mt i"
  using assms by (auto simp: dest_ok_def)

lemma dest_ok_len: "dest_ok mt n d \<Longrightarrow> vlen d = mt_num mt"
  by (simp add: dest_ok_def)

lemma elems_iff: "dest_ok mt n d \<Longrightarrow> 0 \<le> i \<Longrightarrow> i < mt_num mt \<Longrightarrow> 0 \<le> j \<Longrightarrow> j < n \<Longrightarrow> (i, j) \<in> elems d \<longleftrightarrow> vat (gs_bits (vat d i)) j"
  using dest_okD(2) [of mt n d i] by (auto simp: elems_def dest_ok_len)

lemma elems_range: "dest_ok mt n d \<Longrightarrow> (i, j) \<in> elems d \<Longrightarrow> 0 \<le> i \<and> i < mt_num mt \<and> 0 \<le> j \<and> j < n \<and> j < mt_count mt i"
  using dest_okD [of mt n d i] by (auto simp: elems_def dest_ok_len)

text \<open>A loop over two destinations that combines their bits.\<close>

lemma zip_bits:
  fixes f :: "gset \<Rightarrow> gset \<Rightarrow> gset res"
  assumes d: "dest_ok mt n d" and e: "dest_ok mt n e"
    and f: "\<And>s t. gs_size s = gs_size t \<Longrightarrow> f s t = Inr (s\<lparr>gs_bits := map2 h (gs_bits s) (gs_bits t)\<rparr>)" and h: "\<not> h False False"
  shows "\<exists>u. bnd (same_width d e) (\<lambda>_. zip_res f d e) = Inr u \<and> dest_ok mt n u \<and>
    (\<forall>i\<in>{0..<mt_num mt}. \<forall>j\<in>{0..<n}. (i, j) \<in> elems u \<longleftrightarrow> h ((i, j) \<in> elems d) ((i, j) \<in> elems e))"
proof -
  let ?g = "\<lambda>s t. s\<lparr>gs_bits := map2 h (gs_bits s) (gs_bits t)\<rparr>"
  have l: "vlen d = vlen e" using d e by (simp add: dest_ok_def)
  have "\<forall>(x, y)\<in>set (zip d e). f x y = Inr (?g x y)"
    unfolding zip_ball [OF l] using f dest_okD(1) [OF d] dest_okD(1) [OF e] l by auto
  then have z: "bnd (same_width d e) (\<lambda>_. zip_res f d e) = Inr (map2 ?g d e)" using l by (simp add: zip_res_map2 same_width_def)
  have sz: "vlen (gs_bits (vat (map2 ?g d e) i)) = n" "gs_size (vat (map2 ?g d e) i) = mt_count mt i"
    and bit: "0 \<le> j \<Longrightarrow> j < n \<Longrightarrow> vat (gs_bits (vat (map2 ?g d e) i)) j \<longleftrightarrow> h (vat (gs_bits (vat d i)) j) (vat (gs_bits (vat e i)) j)"
    if "0 \<le> i" "i < mt_num mt" for i j
    using that l dest_okD(1,2) [OF d, of i] dest_okD(1,2) [OF e, of i] dest_ok_len [OF d] by simp_all
  have u: "dest_ok mt n (map2 ?g d e)"
    unfolding dest_ok_def
  proof (intro conjI ballI impI)
    fix i j assume i: "i \<in> {0..<mt_num mt}" and j: "j \<in> {0..<n}" and v: "vat (gs_bits (vat (map2 ?g d e) i)) j"
    then have "h (vat (gs_bits (vat d i)) j) (vat (gs_bits (vat e i)) j)" using bit [of i j] by simp
    then have "vat (gs_bits (vat d i)) j \<or> vat (gs_bits (vat e i)) j" using h by (metis (full_types))
    then show "j < mt_count mt i" using dest_okD(3) [OF d, of i j] dest_okD(3) [OF e, of i j] i j l dest_ok_len [OF d] by auto
  qed (use sz dest_ok_len [OF d] l in auto)
  have "(i, j) \<in> elems (map2 ?g d e) \<longleftrightarrow> h ((i, j) \<in> elems d) ((i, j) \<in> elems e)" if "i \<in> {0..<mt_num mt}" "j \<in> {0..<n}" for i j
    using that bit [of i j] elems_iff [OF u, of i j] elems_iff [OF d, of i j] elems_iff [OF e, of i j] by simp
  then show ?thesis using z u by blast
qed

lemma elems_sub: "dest_ok mt n d \<Longrightarrow> elems d \<subseteq> {0..<mt_num mt} \<times> {0..<n}"
  using elems_range by auto

lemma elems_eqI:
  assumes u: "dest_ok mt n u" and A: "A \<subseteq> {0..<mt_num mt} \<times> {0..<n}"
    and eq: "\<forall>i\<in>{0..<mt_num mt}. \<forall>j\<in>{0..<n}. (i, j) \<in> elems u \<longleftrightarrow> (i, j) \<in> A"
  shows "elems u = A"
proof (rule set_eqI)
  fix x :: "int \<times> int"
  obtain i j where x: "x = (i, j)" by (cases x)
  show "x \<in> elems u \<longleftrightarrow> x \<in> A"
  proof (cases "i \<in> {0..<mt_num mt} \<and> j \<in> {0..<n}")
    case True
    then show ?thesis using eq unfolding x by blast
  next
    case False
    then show ?thesis using A elems_sub [OF u] unfolding x by blast
  qed
qed

text \<open>One bit is written.\<close>

lemma vupd_bit:
  fixes b :: bool
  assumes d: "dest_ok mt n d" and m: "0 \<le> i" "i < mt_num mt" "0 \<le> j" "j < mt_count mt i" "mt_count mt i \<le> n"
  defines "u \<equiv> vupd d i ((vat d i)\<lparr>gs_bits := vupd (gs_bits (vat d i)) j b\<rparr>)"
  shows "dest_ok mt n u" "elems u = (if b then insert (i, j) (elems d) else elems d - {(i, j)})"
proof -
  have l: "vlen d = mt_num mt" by (rule dest_ok_len [OF d])
  have v: "gs_size (vat u k) = gs_size (vat d k)" "vlen (gs_bits (vat u k)) = vlen (gs_bits (vat d k))"
      "vat (gs_bits (vat u k)) h \<longleftrightarrow> (if k = i \<and> h = j then b else vat (gs_bits (vat d k)) h)" if "0 \<le> k" "k < mt_num mt" "0 \<le> h" "h < n" for k h
    using that m l dest_okD(2) [OF d, of i] by (simp_all add: u_def)
  have sz: "gs_size (vat u k) = gs_size (vat d k)" "vlen (gs_bits (vat u k)) = vlen (gs_bits (vat d k))" if "0 \<le> k" "k < mt_num mt" for k
    using that m l by (simp_all add: u_def)
  show u: "dest_ok mt n u"
    unfolding dest_ok_def
  proof (intro conjI ballI impI)
    fix k h assume k: "k \<in> {0..<mt_num mt}" "h \<in> {0..<n}" and "vat (gs_bits (vat u k)) h"
    then show "h < mt_count mt k" using v(3) [of k h] dest_okD(3) [OF d, of k h] m l by (auto split: if_splits)
  qed (use sz dest_okD(1,2) [OF d] l in \<open>auto simp: u_def\<close>)
  show "elems u = (if b then insert (i, j) (elems d) else elems d - {(i, j)})"
  proof (rule elems_eqI [OF u], goal_cases)
    case 1
    then show ?case using elems_sub [OF d] m by auto
  next
    case 2
    have "(k, h) \<in> elems u \<longleftrightarrow> (if k = i \<and> h = j then b else (k, h) \<in> elems d)" if "k \<in> {0..<mt_num mt}" "h \<in> {0..<n}" for k h
      using that v(3) [of k h] elems_iff [OF u, of k h] elems_iff [OF d, of k h] by simp
    then show ?case by auto
  qed
qed

lemma NetDest_add_ok:
  assumes mo: "machines_ok mt n" and d: "dest_ok mt n d" and m: "0 \<le> mi_type m" "mi_type m < mt_num mt" "0 \<le> mi_num m" "mi_num m < mt_count mt (mi_type m)"
  shows "\<exists>u. NetDest_add mt m d = Inr u \<and> dest_ok mt n u \<and> elems u = insert (mi_type m, mi_num m) (elems d)"
proof -
  let ?i = "mi_type m" and ?u = "vupd d (mi_type m) ((vat d (mi_type m))\<lparr>gs_bits := vupd (gs_bits (vat d (mi_type m))) (mi_num m) True\<rparr>)"
  have c: "mt_level mt ?i = ?i" "mt_count mt ?i \<le> n" using mo m by (auto simp: machines_ok_def)
  have "NetDest_add mt m d = Inr ?u"
    using c m dest_okD(1,2) [OF d, of ?i] dest_ok_len [OF d] by (simp add: NetDest_add_def vecIndex_def Set_add_def)
  then show ?thesis using vupd_bit [OF d m(1,2,3,4) c(2), of True] by simp
qed

lemma NetDest_remove_ok:
  assumes mo: "machines_ok mt n" and d: "dest_ok mt n d" and m: "0 \<le> mi_type m" "mi_type m < mt_num mt" "0 \<le> mi_num m" "mi_num m < mt_count mt (mi_type m)"
  shows "\<exists>u. NetDest_remove mt m d = Inr u \<and> dest_ok mt n u \<and> elems u = elems d - {(mi_type m, mi_num m)}"
proof -
  let ?i = "mi_type m" and ?u = "vupd d (mi_type m) ((vat d (mi_type m))\<lparr>gs_bits := vupd (gs_bits (vat d (mi_type m))) (mi_num m) False\<rparr>)"
  have c: "mt_level mt ?i = ?i" "mt_count mt ?i \<le> n" using mo m by (auto simp: machines_ok_def)
  have "NetDest_remove mt m d = Inr ?u"
    using c m dest_okD(2) [OF d, of ?i] dest_ok_len [OF d] by (simp add: NetDest_remove_def vecIndex_def Set_remove_def)
  then show ?thesis using vupd_bit [OF d m(1,2,3,4) c(2), of False] by simp
qed

section \<open>Comparisons and enumeration\<close>

lemma all_bits:
  assumes d: "dest_ok mt n d" and e: "dest_ok mt n e"
    and f: "\<And>s t. gs_size s = gs_size t \<Longrightarrow> vlen (gs_bits s) = vlen (gs_bits t) \<Longrightarrow>
      f s t = Inr (\<forall>j\<in>{0..<vlen (gs_bits s)}. h (vat (gs_bits s) j) (vat (gs_bits t) j))"
  shows "bnd (same_width d e) (\<lambda>_. all_res f d e) =
    Inr (\<forall>i\<in>{0..<mt_num mt}. \<forall>j\<in>{0..<n}. h ((i, j) \<in> elems d) ((i, j) \<in> elems e))"
proof -
  let ?p = "\<lambda>s t. \<forall>j\<in>{0..<vlen (gs_bits s)}. h (vat (gs_bits s) j) (vat (gs_bits t) j)"
  have l: "vlen d = vlen e" "vlen d = mt_num mt" using d e by (simp_all add: dest_ok_def)
  have "\<forall>(x, y)\<in>set (zip d e). f x y = Inr (?p x y)"
    unfolding zip_ball [OF l(1)] using f dest_okD(1,2) [OF d] dest_okD(1,2) [OF e] l by auto
  note all_res_zip [OF this, unfolded zip_ball [OF l(1)]]
  then have "bnd (same_width d e) (\<lambda>_. all_res f d e) = Inr (\<forall>i\<in>{0..<vlen d}. ?p (vat d i) (vat e i))"
    using l by (simp add: same_width_def)
  also have "(\<forall>i\<in>{0..<vlen d}. ?p (vat d i) (vat e i)) \<longleftrightarrow> (\<forall>i\<in>{0..<mt_num mt}. \<forall>j\<in>{0..<n}. h ((i, j) \<in> elems d) ((i, j) \<in> elems e))"
    unfolding l(2)
  proof (intro ball_cong refl)
    fix i j assume i: "i \<in> {0..<mt_num mt}"
    show "{0..<vlen (gs_bits (vat d i))} = {0..<n}" using dest_okD(2) [OF d, of i] i l by simp
    assume j: "j \<in> {0..<n}"
    show "h (vat (gs_bits (vat d i)) j) (vat (gs_bits (vat e i)) j) \<longleftrightarrow> h ((i, j) \<in> elems d) ((i, j) \<in> elems e)"
      using i j elems_iff [OF d, of i j] elems_iff [OF e, of i j] by simp
  qed
  finally show ?thesis .
qed

lemma isSuperset_bits:
  assumes "gs_size s = gs_size t" "vlen (gs_bits s) = vlen (gs_bits t)"
  shows "Set_isSuperset s t = Inr (\<forall>j\<in>{0..<vlen (gs_bits s)}. vat (gs_bits t) j \<longrightarrow> vat (gs_bits s) j)"
proof -
  have "map2 (\<or>) (gs_bits s) (gs_bits t) = gs_bits s \<longleftrightarrow> (\<forall>j\<in>{0..<vlen (gs_bits s)}. vat (gs_bits t) j \<longrightarrow> vat (gs_bits s) j)"
  proof
    assume a: "map2 (\<or>) (gs_bits s) (gs_bits t) = gs_bits s"
    show "\<forall>j\<in>{0..<vlen (gs_bits s)}. vat (gs_bits t) j \<longrightarrow> vat (gs_bits s) j"
    proof
      fix j assume j: "j \<in> {0..<vlen (gs_bits s)}"
      from a have "vat (map2 (\<or>) (gs_bits s) (gs_bits t)) j = vat (gs_bits s) j" by (rule arg_cong)
      then show "vat (gs_bits t) j \<longrightarrow> vat (gs_bits s) j" using j assms(2) by auto
    qed
  next
    assume "\<forall>j\<in>{0..<vlen (gs_bits s)}. vat (gs_bits t) j \<longrightarrow> vat (gs_bits s) j"
    then show "map2 (\<or>) (gs_bits s) (gs_bits t) = gs_bits s" using assms(2) by (intro vec_eqI) auto
  qed
  then show ?thesis using assms(1) by (simp add: Set_isSuperset_def same_size_def)
qed

lemma isEqual_bits:
  assumes "gs_size s = gs_size t" "vlen (gs_bits s) = vlen (gs_bits t)"
  shows "Set_isEqual s t = Inr (\<forall>j\<in>{0..<vlen (gs_bits s)}. vat (gs_bits s) j = vat (gs_bits t) j)"
proof -
  have "gs_bits s = gs_bits t \<longleftrightarrow> (\<forall>j\<in>{0..<vlen (gs_bits s)}. vat (gs_bits s) j = vat (gs_bits t) j)"
    using assms(2) vec_eqI [of "gs_bits s" "gs_bits t"] by auto
  then show ?thesis using assms(1) by (simp add: Set_isEqual_def same_size_def)
qed

lemma for_each_snoc_if:
  assumes "\<forall>j\<in>set xs. p j = Inr (q j)"
  shows "for_each (\<lambda>j ids. bnd (p j) (\<lambda>b. Inr (if b then ids @ [g j] else ids))) xs ids = Inr (ids @ map g (filter q xs))"
  using assms by (induction xs arbitrary: ids) auto

lemma for_each_concat:
  assumes "\<And>i ids. i \<in> set xs \<Longrightarrow> f i ids = Inr (ids @ g i)"
  shows "for_each f xs ids = Inr (ids @ concat (map g xs))"
  using assms by (induction xs arbitrary: ids) auto

definition ids_of :: "machines \<Rightarrow> net_dest \<Rightarrow> int list" where
  "ids_of mt d = concat (map (\<lambda>i. map (\<lambda>j. mt_base mt i + j) (filter (\<lambda>j. (i, j) \<in> elems d) (range0 (mt_count mt i)))) (range0 (mt_num mt)))"

lemma getAllDest_ids:
  assumes mo: "machines_ok mt n" and d: "dest_ok mt n d"
  shows "NetDest_getAllDest mt d = Inr (ids_of mt d)"
proof -
  have l: "vlen d = mt_num mt" by (rule dest_ok_len [OF d])
  have "for_each (\<lambda>j ids. bnd (Set_isElement j (vat d i)) (\<lambda>b. Inr (if b then ids @ [mt_base mt i + j] else ids))) (range0 (gs_size (vat d i))) ids =
      Inr (ids @ map (\<lambda>j. mt_base mt i + j) (filter (\<lambda>j. (i, j) \<in> elems d) (range0 (mt_count mt i))))" if i: "i \<in> set (range0 (mt_num mt))" for i ids
  proof -
    have c: "mt_count mt i \<le> n" "gs_size (vat d i) = mt_count mt i" "vlen (gs_bits (vat d i)) = n"
      using mo i dest_okD(1,2) [OF d, of i] l by (auto simp: machines_ok_def)
    have "\<forall>j\<in>set (range0 (mt_count mt i)). Set_isElement j (vat d i) = Inr ((i, j) \<in> elems d)"
      using c i elems_iff [OF d, of i] by (auto simp: Set_isElement_def)
    then show ?thesis unfolding c(2) by (rule for_each_snoc_if)
  qed
  then show ?thesis unfolding NetDest_getAllDest_def l ids_of_def by (subst for_each_concat) auto
qed

lemma base_mono:
  assumes mo: "machines_ok mt n" and ab: "0 \<le> a" "a \<le> b" "b \<le> mt_num mt"
  shows "mt_base mt a \<le> mt_base mt b"
  using ab(2,3)
proof (induction b rule: int_ge_induct)
  case (step b)
  then have "b \<in> {0..<mt_num mt}" using ab(1) by simp
  then have "mt_base mt b \<le> mt_base mt (b + 1)" using mo by (auto simp: machines_ok_def)
  then show ?case using step by simp
qed simp

text \<open>The loop that finds the type of a node from its number.\<close>

definition find_machine :: "machines \<Rightarrow> int \<Rightarrow> int option" where
  "find_machine mt x = List.find (\<lambda>m. mt_base mt m \<le> x \<and> x < mt_base mt (m + 1)) (range0 (mt_num mt))"

lemma machine_unique:
  assumes mo: "machines_ok mt n" and i: "0 \<le> i" "i < mt_num mt" and k: "0 \<le> k" "k < mt_num mt"
    and x: "mt_base mt i \<le> x" "x < mt_base mt (i + 1)" "mt_base mt k \<le> x" "x < mt_base mt (k + 1)"
  shows "i = k"
proof (rule ccontr)
  assume "i \<noteq> k"
  then have "i + 1 \<le> k \<or> k + 1 \<le> i" by linarith
  then show False using base_mono [OF mo, of "i + 1" k] base_mono [OF mo, of "k + 1" i] i k x by auto
qed

lemma find_machine_ok:
  assumes mo: "machines_ok mt n" and i: "0 \<le> i" "i < mt_num mt" and j: "0 \<le> j" "j < mt_count mt i"
  shows "find_machine mt (mt_base mt i + j) = Some i"
proof -
  let ?x = "mt_base mt i + j" and ?P = "\<lambda>m. mt_base mt m \<le> mt_base mt i + j \<and> mt_base mt i + j < mt_base mt (m + 1)"
  have P: "?P i" using mo i j by (auto simp: machines_ok_def)
  have "\<exists>m. m \<in> set (range0 (mt_num mt)) \<and> ?P m" using P i by (intro exI [of _ i]) simp
  then have "List.find ?P (range0 (mt_num mt)) \<noteq> None" unfolding find_None_iff by blast
  then obtain k where k: "List.find ?P (range0 (mt_num mt)) = Some k" by blast
  from find_SomeD [OF k] have "k = i" using machine_unique [OF mo, of k i ?x] P i by auto
  then show ?thesis using k by (simp add: find_machine_def)
qed

lemma ids_of_iff:
  assumes mo: "machines_ok mt n" and d: "dest_ok mt n d"
  shows "x \<in> set (ids_of mt d) \<longleftrightarrow> (\<exists>(i, j)\<in>elems d. x = mt_base mt i + j)"
proof -
  have "x \<in> set (ids_of mt d) \<longleftrightarrow> (\<exists>i j. 0 \<le> i \<and> i < mt_num mt \<and> 0 \<le> j \<and> j < mt_count mt i \<and> (i, j) \<in> elems d \<and> x = mt_base mt i + j)"
    by (auto simp: ids_of_def) blast
  also have "\<dots> \<longleftrightarrow> (\<exists>i j. (i, j) \<in> elems d \<and> x = mt_base mt i + j)" using elems_range [OF d] by blast
  finally show ?thesis by auto
qed

lemma set_concat_map: "set (concat (map g xs)) = (\<Union>k\<in>set xs. set (g k))"
  by simp

lemma distinct_ids_of:
  assumes mo: "machines_ok mt n" and d: "dest_ok mt n d"
  shows "distinct (ids_of mt d)"
proof -
  let ?g = "\<lambda>i. map (\<lambda>j. mt_base mt i + j) (filter (\<lambda>j. (i, j) \<in> elems d) (range0 (mt_count mt i)))"
  have g: "mt_base mt i \<le> x \<and> x < mt_base mt (i + 1)" if "i \<in> {0..<mt_num mt}" "x \<in> set (?g i)" for i x
  proof -
    have "mt_base mt (i + 1) = mt_base mt i + mt_count mt i" using mo that(1) unfolding machines_ok_def by blast
    then show ?thesis using that(2) by auto
  qed
  have dj: "set (?g i) \<inter> set (?g k) = {}" if "i \<in> {0..<mt_num mt}" "k \<in> {0..<mt_num mt}" "i \<noteq> k" for i k
  proof (rule equals0I)
    fix x assume "x \<in> set (?g i) \<inter> set (?g k)"
    then show False using g [OF that(1), of x] g [OF that(2), of x] machine_unique [OF mo, of i k x] that by simp
  qed
  have "distinct (concat (map ?g xs))" if "distinct xs" "set xs \<subseteq> {0..<mt_num mt}" for xs
    using that
  proof (induction xs)
    case (Cons x xs)
    have "distinct (?g x)" by (simp add: distinct_map inj_on_def)
    moreover have "set (?g x) \<inter> set (concat (map ?g xs)) = {}"
    proof (rule equals0I)
      fix y assume y: "y \<in> set (?g x) \<inter> set (concat (map ?g xs))"
      then obtain k where k: "k \<in> set xs" "y \<in> set (?g k)" unfolding set_concat_map by blast
      then have "set (?g x) \<inter> set (?g k) = {}" using Cons.prems by (intro dj) auto
      then show False using y k by blast
    qed
    ultimately show ?case using Cons by simp
  qed simp
  then show ?thesis unfolding ids_of_def by simp
qed

lemma NetDest_new_ok:
  assumes mo: "machines_ok mt n"
  shows "\<exists>d. NetDest_new mt n = Inr d \<and> dest_ok mt n d \<and> elems d = {}"
proof -
  let ?d = "map (\<lambda>i. \<lparr>gs_size = mt_count mt i, gs_bits = replicate (nat n) False\<rparr>) (range0 (mt_num mt))"
  have c: "mt_count mt i \<le> n" if "i \<in> {0..<mt_num mt}" for i using mo that unfolding machines_ok_def by blast
  have "for_each (\<lambda>i d. bnd (Set_setSize n (mt_count mt i) (Set_new n)) (\<lambda>s. Inr (d @ [s]))) (range0 (mt_num mt)) [] =
      Inr ([] @ concat (map (\<lambda>i. [\<lparr>gs_size = mt_count mt i, gs_bits = replicate (nat n) False\<rparr>]) (range0 (mt_num mt))))"
    by (rule for_each_concat) (use c in \<open>simp add: Set_setSize_def Set_new_def not_less\<close>)
  then have "NetDest_new mt n = Inr ?d" using mo by (simp add: NetDest_new_def machines_ok_def concat_map_singleton)
  moreover have "dest_ok mt n ?d"
    using mo by (force simp: dest_ok_def machines_ok_def vat_range0)
  moreover have "elems ?d = {}" using mo by (auto simp: elems_def machines_ok_def vat_range0)
  ultimately show ?thesis by blast
qed

section \<open>Properties\<close>

lemma addNetDest_ok:
  assumes d: "dest_ok mt n d" and e: "dest_ok mt n e"
  shows "\<exists>u. NetDest_addNetDest e d = Inr u \<and> dest_ok mt n u \<and> elems u = elems d \<union> elems e"
    "\<exists>u. NetDest_OR d e = Inr u \<and> dest_ok mt n u \<and> elems u = elems d \<union> elems e"
    "\<exists>u. NetDest_removeNetDest e d = Inr u \<and> dest_ok mt n u \<and> elems u = elems d - elems e"
    "\<exists>u. NetDest_AND d e = Inr u \<and> dest_ok mt n u \<and> elems u = elems d \<inter> elems e"
proof -
  note sub = elems_sub [OF d] elems_sub [OF e]
  have eqs: "elems u = elems d \<union> elems e" if "dest_ok mt n u" "\<forall>i\<in>{0..<mt_num mt}. \<forall>j\<in>{0..<n}. (i, j) \<in> elems u \<longleftrightarrow> (i, j) \<in> elems d \<or> (i, j) \<in> elems e" for u
    by (rule elems_eqI [OF that(1)]) (use that(2) sub in auto)
  have eqd: "elems u = elems d - elems e" if "dest_ok mt n u" "\<forall>i\<in>{0..<mt_num mt}. \<forall>j\<in>{0..<n}. (i, j) \<in> elems u \<longleftrightarrow> (i, j) \<in> elems d \<and> (i, j) \<notin> elems e" for u
    by (rule elems_eqI [OF that(1)]) (use that(2) sub in auto)
  have eqa: "elems u = elems d \<inter> elems e" if "dest_ok mt n u" "\<forall>i\<in>{0..<mt_num mt}. \<forall>j\<in>{0..<n}. (i, j) \<in> elems u \<longleftrightarrow> (i, j) \<in> elems d \<and> (i, j) \<in> elems e" for u
    by (rule elems_eqI [OF that(1)]) (use that(2) sub in auto)
  show "\<exists>u. NetDest_addNetDest e d = Inr u \<and> dest_ok mt n u \<and> elems u = elems d \<union> elems e"
    using zip_bits [OF d e, of Set_addSet "(\<or>)"] eqs unfolding NetDest_addNetDest_def by (auto simp: Set_addSet_def same_size_def)
  show "\<exists>u. NetDest_OR d e = Inr u \<and> dest_ok mt n u \<and> elems u = elems d \<union> elems e"
    using zip_bits [OF d e, of Set_OR "(\<or>)"] eqs unfolding NetDest_OR_def by (auto simp: Set_OR_def same_size_def)
  show "\<exists>u. NetDest_removeNetDest e d = Inr u \<and> dest_ok mt n u \<and> elems u = elems d - elems e"
    using zip_bits [OF d e, of Set_removeSet "\<lambda>a b. a \<and> \<not> b"] eqd unfolding NetDest_removeNetDest_def by (auto simp: Set_removeSet_def same_size_def)
  show "\<exists>u. NetDest_AND d e = Inr u \<and> dest_ok mt n u \<and> elems u = elems d \<inter> elems e"
    using zip_bits [OF d e, of Set_AND "(\<and>)"] eqa unfolding NetDest_AND_def by (auto simp: Set_AND_def same_size_def)
qed

lemma elems_subset_iff:
  assumes "dest_ok mt n e"
  shows "elems e \<subseteq> A \<longleftrightarrow> (\<forall>i\<in>{0..<mt_num mt}. \<forall>j\<in>{0..<n}. (i, j) \<in> elems e \<longrightarrow> (i, j) \<in> A)"
  using elems_sub [OF assms] by blast

lemma compare_ok:
  assumes d: "dest_ok mt n d" and e: "dest_ok mt n e"
  shows "NetDest_isSuperset d e = Inr (elems e \<subseteq> elems d)" "NetDest_isEqual d e = Inr (elems d = elems e)"
proof -
  show "NetDest_isSuperset d e = Inr (elems e \<subseteq> elems d)"
    unfolding NetDest_isSuperset_def elems_subset_iff [OF e] by (rule all_bits [OF d e, where h = "\<lambda>a b. b \<longrightarrow> a"]) (rule isSuperset_bits)
  have "NetDest_isEqual d e = Inr (\<forall>i\<in>{0..<mt_num mt}. \<forall>j\<in>{0..<n}. ((i, j) \<in> elems d) = ((i, j) \<in> elems e))"
    unfolding NetDest_isEqual_def by (rule all_bits [OF d e, where h = "(=)"]) (rule isEqual_bits)
  then show "NetDest_isEqual d e = Inr (elems d = elems e)"
    using elems_eqI [OF d elems_sub [OF e]] by auto
qed

text \<open>
  C19: A \<^verbatim>\<open>NetDest\<close> is a set of machines. A new one is empty, \<^verbatim>\<open>add\<close> and \<^verbatim>\<open>remove\<close> insert and delete one machine, \<^verbatim>\<open>addNetDest\<close>,
  \<^verbatim>\<open>removeNetDest\<close>, \<^verbatim>\<open>OR\<close> and \<^verbatim>\<open>AND\<close> are union, difference, union and intersection, \<^verbatim>\<open>isSuperset\<close> and \<^verbatim>\<open>isEqual\<close> compare, and
  \<^verbatim>\<open>getAllDest\<close> lists the node number of every machine in the set once. None of them aborts on well-formed arguments.
\<close>

theorem NetDest_refines_sets:
  assumes mo: "machines_ok mt n" and d: "dest_ok mt n d" and e: "dest_ok mt n e"
    and m: "0 \<le> mi_type m" "mi_type m < mt_num mt" "0 \<le> mi_num m" "mi_num m < mt_count mt (mi_type m)"
  shows "(\<exists>u. NetDest_new mt n = Inr u \<and> dest_ok mt n u \<and> elems u = {}) \<and>
    (\<exists>u. NetDest_add mt m d = Inr u \<and> dest_ok mt n u \<and> elems u = insert (mi_type m, mi_num m) (elems d)) \<and>
    (\<exists>u. NetDest_remove mt m d = Inr u \<and> dest_ok mt n u \<and> elems u = elems d - {(mi_type m, mi_num m)}) \<and>
    (\<exists>u. NetDest_addNetDest e d = Inr u \<and> dest_ok mt n u \<and> elems u = elems d \<union> elems e) \<and>
    (\<exists>u. NetDest_removeNetDest e d = Inr u \<and> dest_ok mt n u \<and> elems u = elems d - elems e) \<and>
    (\<exists>u. NetDest_OR d e = Inr u \<and> dest_ok mt n u \<and> elems u = elems d \<union> elems e) \<and>
    (\<exists>u. NetDest_AND d e = Inr u \<and> dest_ok mt n u \<and> elems u = elems d \<inter> elems e) \<and>
    NetDest_isSuperset d e = Inr (elems e \<subseteq> elems d) \<and> NetDest_isEqual d e = Inr (elems d = elems e) \<and>
    (\<exists>ids. NetDest_getAllDest mt d = Inr ids \<and> distinct ids \<and> set ids = (\<lambda>(i, j). mt_base mt i + j) ` elems d)"
proof -
  have "set (ids_of mt d) = (\<lambda>(i, j). mt_base mt i + j) ` elems d" using ids_of_iff [OF mo d] by force
  then have "\<exists>ids. NetDest_getAllDest mt d = Inr ids \<and> distinct ids \<and> set ids = (\<lambda>(i, j). mt_base mt i + j) ` elems d"
    using getAllDest_ids [OF mo d] distinct_ids_of [OF mo d] by blast
  then show ?thesis
    using NetDest_new_ok [OF mo] NetDest_add_ok [OF mo d m] NetDest_remove_ok [OF mo d m] addNetDest_ok [OF d e] compare_ok [OF d e] by blast
qed

definition two_types :: machines where
  "two_types = \<lparr>mt_num = 2, mt_level = (\<lambda>m. m), mt_base = (\<lambda>m. if m = 0 then 0 else if m = 1 then 3 else 5), mt_count = (\<lambda>m. if m = 0 then 3 else 2)\<rparr>"

lemma two_types_ok: "machines_ok two_types 4"
proof -
  have "{0..<mt_num two_types} = {0, 1}" by (auto simp: two_types_def)
  then show ?thesis unfolding machines_ok_def by (simp add: two_types_def)
qed

definition dest_of :: "(int \<times> int) list \<Rightarrow> net_dest" where
  "dest_of xs = map (\<lambda>i. \<lparr>gs_size = (if i = 0 then 3 else 2), gs_bits = map (\<lambda>j. (i, j) \<in> set xs) [0, 1, 2, 3]\<rparr>) [0, 1]"

theorem NetDest_refines_sets_witness:
  "\<exists>u. NetDest_removeNetDest (dest_of [(1, 0)]) (dest_of [(0, 2), (1, 0)]) = Inr u \<and>
     elems u = elems (dest_of [(0, 2), (1, 0)]) - elems (dest_of [(1, 0)])"
proof -
  have s: "{0..<mt_num two_types} = {0, 1}" "{0..<4 :: int} = {0, 1, 2, 3}" by (auto simp: two_types_def)
  have "dest_ok two_types 4 (dest_of [(0, 2), (1, 0)])" "dest_ok two_types 4 (dest_of [(1, 0)])"
    unfolding dest_ok_def s by (simp_all add: dest_of_def two_types_def vat_def)
  from NetDest_refines_sets [OF two_types_ok this, of "\<lparr>mi_type = 0, mi_num = 1\<rparr>"] show ?thesis by (auto simp: two_types_def)
qed

end
