(* ===== verification/Message_Buffer.thy ===== *)
theory Message_Buffer
  imports Net_Dest "HOL-Library.Multiset"
begin

text \<open>
  Messages (\<^verbatim>\<open>mem/ruby/slicc_interface/Message.hh\<close>) and the buffers between the cache controllers and the network
  (\<^verbatim>\<open>mem/ruby/network/MessageBuffer.cc\<close>). The heap \<^verbatim>\<open>m_prio_heap\<close> is kept as the list of its messages in the order of
  \<^verbatim>\<open>operator>\<close>, so that its front is the head; the maps by address are association lists. What the consumer is asked
  to do is recorded: the ticks passed to \<^verbatim>\<open>scheduleEventAbsolute\<close> and whether it was woken for the next cycle.
  Statistics and the dequeue callback are left out.
\<close>

section \<open>Messages\<close>

text \<open>\<open>mg_bytes\<close> is \<^verbatim>\<open>MessageSizeType_to_int(getMessageSize())\<close>; \<open>mg_data\<close> is what the protocol's message class adds.\<close>

record 'p message =
  mg_time :: int
  mg_LastEnqueueTime :: int
  mg_DelayedTicks :: int
  mg_msg_counter :: int
  mg_Destination :: net_dest
  mg_bytes :: int
  mg_data :: 'p

definition updateDelayedTicks :: "int \<Rightarrow> 'p message \<Rightarrow> 'p message res" where
  "updateDelayedTicks now m =
     bnd (assert_that (mg_LastEnqueueTime m \<le> now) ''m_LastEnqueueTime <= curTime'') (\<lambda>_.
     Inr (m\<lparr>mg_DelayedTicks := mg_DelayedTicks m + (now - mg_LastEnqueueTime m)\<rparr>))"

definition msg_greater :: "'p message \<Rightarrow> 'p message \<Rightarrow> bool" where
  "msg_greater l r \<longleftrightarrow>
     (if mg_LastEnqueueTime l = mg_LastEnqueueTime r then mg_msg_counter l > mg_msg_counter r
      else mg_LastEnqueueTime l > mg_LastEnqueueTime r)"

section \<open>Buffers\<close>

record 'p mbuf =
  mb_prio_heap :: "'p message list"
  mb_stall_msg_map :: "(int \<times> 'p message list) list"
  mb_deferred_msg_map :: "(int \<times> 'p message list) list"
  mb_stall_map_size :: int
  mb_max_size :: int
  mb_max_dequeue_rate :: int
  mb_dequeues_this_cy :: int
  mb_time_last_time_size_checked :: int
  mb_size_last_time_size_checked :: int
  mb_time_last_time_enqueue :: int
  mb_time_last_time_pop :: int
  mb_last_arrival_time :: int
  mb_size_at_cycle_start :: int
  mb_stalled_at_cycle_start :: int
  mb_msgs_this_cycle :: int
  mb_msg_counter :: int
  mb_strict_fifo :: bool
  mb_allow_zero_latency :: bool
  mb_consumer :: bool
  mb_wakeups :: "int list"
  mb_wakeup_next :: bool

text \<open>
  \<^verbatim>\<open>push_heap\<close>. The heap is kept as the list of its messages in the order in which \<^verbatim>\<open>pop_heap\<close> removes them: a message goes
  behind those that are not greater. \<^verbatim>\<open>operator>\<close> compares arrival times and then message counters, so that order is determined by the
  comparison as long as no two messages of the heap share both. Equal counters arise only from messages that were stalled or deferred across a \<^verbatim>\<open>clear\<close>,
  which restarts the counter; of two such messages the list takes the earlier first, where the C++ library leaves the order open.
\<close>

fun heap_push :: "'p message \<Rightarrow> 'p message list \<Rightarrow> 'p message list" where
  "heap_push m [] = [m]"
| "heap_push m (x # xs) = (if msg_greater x m then m # x # xs else x # heap_push m xs)"

definition schedule :: "int \<Rightarrow> 'p mbuf \<Rightarrow> 'p mbuf res" where
  "schedule t b = (if mb_consumer b then Inr (b\<lparr>mb_wakeups := mb_wakeups b @ [t]\<rparr>) else Inl NullPointer)"

definition new_MessageBuffer :: "int \<Rightarrow> int \<Rightarrow> bool \<Rightarrow> bool \<Rightarrow> 'p mbuf" where
  "new_MessageBuffer buffer_size max_dequeue_rate ordered allow_zero =
     \<lparr>mb_prio_heap = [], mb_stall_msg_map = [], mb_deferred_msg_map = [], mb_stall_map_size = 0, mb_max_size = buffer_size,
      mb_max_dequeue_rate = max_dequeue_rate, mb_dequeues_this_cy = 0, mb_time_last_time_size_checked = 0,
      mb_size_last_time_size_checked = 0, mb_time_last_time_enqueue = 0, mb_time_last_time_pop = 0, mb_last_arrival_time = 0,
      mb_size_at_cycle_start = 0, mb_stalled_at_cycle_start = 0, mb_msgs_this_cycle = 0, mb_msg_counter = 0, mb_strict_fifo = ordered,
      mb_allow_zero_latency = allow_zero, mb_consumer = False, mb_wakeups = [], mb_wakeup_next = False\<rparr>"

definition setConsumer :: "'p mbuf \<Rightarrow> 'p mbuf res" where
  "setConsumer b = (if mb_consumer b then Inl (ErrorMsg ''already connected'') else Inr (b\<lparr>mb_consumer := True\<rparr>))"

definition getSize :: "int \<Rightarrow> 'p mbuf \<Rightarrow> int \<times> 'p mbuf" where
  "getSize now b =
     (let b = (if mb_time_last_time_size_checked b \<noteq> now
               then b\<lparr>mb_time_last_time_size_checked := now, mb_size_last_time_size_checked := vlen (mb_prio_heap b)\<rparr> else b)
      in (mb_size_last_time_size_checked b, b))"

definition areNSlotsAvailable :: "int \<Rightarrow> int \<Rightarrow> 'p mbuf \<Rightarrow> bool" where
  "areNSlotsAvailable n now b =
     (if mb_max_size b = 0 then True
      else
        let (sz, stalled) =
              (if mb_time_last_time_pop b < now then (vlen (mb_prio_heap b), mb_stall_map_size b)
               else (if mb_time_last_time_enqueue b < now then mb_size_at_cycle_start b
                     else mb_size_at_cycle_start b + mb_msgs_this_cycle b, mb_stalled_at_cycle_start b))
        in sz + stalled + n \<le> mb_max_size b)"

definition isReady :: "int \<Rightarrow> 'p mbuf \<Rightarrow> (bool \<times> 'p mbuf) res" where
  "isReady now b =
     bnd (assert_that (mb_time_last_time_pop b \<le> now) ''m_time_last_time_pop <= current_time'') (\<lambda>_.
     let can_dequeue = (mb_max_dequeue_rate b = 0 \<or> mb_time_last_time_pop b < now \<or> mb_dequeues_this_cy b < mb_max_dequeue_rate b);
         is_ready = (case mb_prio_heap b of [] \<Rightarrow> False | m # _ \<Rightarrow> mg_LastEnqueueTime m \<le> now)
     in if \<not> can_dequeue \<and> is_ready then
          if mb_consumer b then Inr (False, b\<lparr>mb_wakeup_next := True\<rparr>) else Inl NullPointer
        else Inr (can_dequeue \<and> is_ready, b))"

text \<open>\<^verbatim>\<open>assert(isReady(current_time))\<close>.\<close>

definition assert_ready :: "int \<Rightarrow> 'p mbuf \<Rightarrow> 'p mbuf res" where
  "assert_ready now b = bnd (isReady now b) (\<lambda>(r, b). bnd (assert_that r ''isReady(current_time)'') (\<lambda>_. Inr b))"

definition peekMsgPtr :: "'p mbuf \<Rightarrow> 'p message res" where
  "peekMsgPtr b = (case mb_prio_heap b of [] \<Rightarrow> Inl OutOfBounds | m # _ \<Rightarrow> Inr m)"

text \<open>
  \<^verbatim>\<open>enqueue\<close>. \<open>rnd\<close> is the delay of \<^verbatim>\<open>random_time()\<close> when arrival times are randomised, \<open>warmup\<close> is
  \<^verbatim>\<open>RubySystem::getWarmupEnabled()\<close>.
\<close>

definition mb_enqueue :: "int option \<Rightarrow> bool \<Rightarrow> 'p message \<Rightarrow> int \<Rightarrow> int \<Rightarrow> 'p mbuf \<Rightarrow> 'p mbuf res" where
  "mb_enqueue rnd warmup m now delta b =
     (let b = (if mb_time_last_time_enqueue b < now then b\<lparr>mb_msgs_this_cycle := 0, mb_time_last_time_enqueue := now\<rparr> else b);
          b = b\<lparr>mb_msg_counter := mb_msg_counter b + 1, mb_msgs_this_cycle := mb_msgs_this_cycle b + 1\<rparr> in
      if delta = 0 \<and> \<not> mb_allow_zero_latency b then Inl (ErrorMsg ''Delta equals zero and allow_zero_latency is false during enqueue'')
      else
        let b = (if rnd \<noteq> None \<and> mb_strict_fifo b \<and> mb_last_arrival_time b < now then b\<lparr>mb_last_arrival_time := now\<rparr> else b);
            arrival = (case rnd of None \<Rightarrow> now + delta | Some r \<Rightarrow> if mb_strict_fifo b then mb_last_arrival_time b + r else now + r) in
        bnd (assert_that (arrival \<ge> now) ''arrival_time >= current_time'') (\<lambda>_.
        if mb_strict_fifo b \<and> arrival < mb_last_arrival_time b then Inl (ErrorMsg ''FIFO ordering violated'')
        else
          let b = (if \<not> warmup then b\<lparr>mb_last_arrival_time := arrival\<rparr> else b) in
          bnd (assert_that (now \<ge> mg_LastEnqueueTime m) ''ensure we aren't dequeued early'') (\<lambda>_.
          bnd (updateDelayedTicks now m) (\<lambda>m.
          let b = b\<lparr>mb_prio_heap := heap_push (m\<lparr>mg_LastEnqueueTime := arrival, mg_msg_counter := mb_msg_counter b\<rparr>) (mb_prio_heap b)\<rparr> in
          bnd (assert_that (mb_max_size b = 0 \<or> vlen (mb_prio_heap b) + mb_stall_map_size b \<le> mb_max_size b) ''m_max_size'') (\<lambda>_.
          bnd (assert_that (mb_consumer b) ''m_consumer != NULL'') (\<lambda>_. schedule arrival b))))))"

text \<open>\<^verbatim>\<open>dequeue\<close>, which also returns the message it removes; \<^verbatim>\<open>decrement_messages\<close> only concerns statistics.\<close>

definition mb_dequeue :: "int \<Rightarrow> 'p mbuf \<Rightarrow> ('p message \<times> 'p mbuf) res" where
  "mb_dequeue now b =
     bnd (assert_ready now b) (\<lambda>b. bnd (peekMsgPtr b) (\<lambda>m. bnd (updateDelayedTicks now m) (\<lambda>m.
     let b = (if mb_time_last_time_pop b < now
              then b\<lparr>mb_size_at_cycle_start := vlen (mb_prio_heap b), mb_stalled_at_cycle_start := mb_stall_map_size b,
                     mb_time_last_time_pop := now, mb_dequeues_this_cy := 0\<rparr> else b)
     in Inr (m, b\<lparr>mb_dequeues_this_cy := mb_dequeues_this_cy b + 1, mb_prio_heap := tl (mb_prio_heap b)\<rparr>))))"

definition mb_clear :: "'p mbuf \<Rightarrow> 'p mbuf" where
  "mb_clear b = b\<lparr>mb_prio_heap := [], mb_msg_counter := 0, mb_time_last_time_enqueue := 0, mb_time_last_time_pop := 0,
     mb_size_at_cycle_start := 0, mb_stalled_at_cycle_start := 0, mb_msgs_this_cycle := 0\<rparr>"

definition mb_recycle :: "int \<Rightarrow> int \<Rightarrow> 'p mbuf \<Rightarrow> 'p mbuf res" where
  "mb_recycle now latency b =
     bnd (assert_ready now b) (\<lambda>b. bnd (peekMsgPtr b) (\<lambda>m.
     schedule (now + latency) (b\<lparr>mb_prio_heap := heap_push (m\<lparr>mg_LastEnqueueTime := now + latency\<rparr>) (tl (mb_prio_heap b))\<rparr>)))"

definition delayHead :: "int option \<Rightarrow> bool \<Rightarrow> int \<Rightarrow> int \<Rightarrow> 'p mbuf \<Rightarrow> 'p mbuf res" where
  "delayHead rnd warmup now delta b =
     bnd (peekMsgPtr b) (\<lambda>m. mb_enqueue rnd warmup m now delta (b\<lparr>mb_prio_heap := tl (mb_prio_heap b)\<rparr>))"

section \<open>Stalled and deferred messages\<close>

fun map_append :: "int \<Rightarrow> 'a \<Rightarrow> (int \<times> 'a list) list \<Rightarrow> (int \<times> 'a list) list" where
  "map_append a x [] = [(a, [x])]"
| "map_append a x ((b, ys) # r) = (if a = b then (b, ys @ [x]) # r else if a < b then (a, [x]) # (b, ys) # r else (b, ys) # map_append a x r)"

definition map_erase :: "int \<Rightarrow> (int \<times> 'a list) list \<Rightarrow> (int \<times> 'a list) list" where
  "map_erase a m = filter (\<lambda>(b, _). b \<noteq> a) m"

definition reanalyzeList :: "'p message list \<Rightarrow> int \<Rightarrow> 'p mbuf \<Rightarrow> 'p mbuf res" where
  "reanalyzeList lt t b =
     for_each (\<lambda>m b. bnd (assert_that (mg_LastEnqueueTime m \<le> t) ''m->getLastEnqueueTime() <= schdTick'') (\<lambda>_.
       schedule t (b\<lparr>mb_prio_heap := heap_push m (mb_prio_heap b)\<rparr>))) lt b"

definition reanalyzeMessages :: "int \<Rightarrow> int \<Rightarrow> 'p mbuf \<Rightarrow> 'p mbuf res" where
  "reanalyzeMessages addr now b =
     (case map_of (mb_stall_msg_map b) addr of
        None \<Rightarrow> Inl (AssertFail ''m_stall_msg_map.count(addr) > 0'')
      | Some lt \<Rightarrow>
          let b = b\<lparr>mb_stall_map_size := mb_stall_map_size b - vlen lt\<rparr> in
          bnd (assert_that (mb_stall_map_size b \<ge> 0) ''m_stall_map_size >= 0'') (\<lambda>_.
          bnd (reanalyzeList lt now b) (\<lambda>b. Inr (b\<lparr>mb_stall_msg_map := map_erase addr (mb_stall_msg_map b)\<rparr>))))"

definition reanalyzeAllMessages :: "int \<Rightarrow> 'p mbuf \<Rightarrow> 'p mbuf res" where
  "reanalyzeAllMessages now b =
     bnd (for_each (\<lambda>(_, lt) b.
       let b = b\<lparr>mb_stall_map_size := mb_stall_map_size b - vlen lt\<rparr> in
       bnd (assert_that (mb_stall_map_size b \<ge> 0) ''m_stall_map_size >= 0'') (\<lambda>_. reanalyzeList lt now b)) (mb_stall_msg_map b) b) (\<lambda>b.
     Inr (b\<lparr>mb_stall_msg_map := []\<rparr>))"

text \<open>\<open>offset\<close> is \<^verbatim>\<open>getOffset\<close>, the offset of an address in its cache line.\<close>

definition stallMessage :: "(int \<Rightarrow> int) \<Rightarrow> int \<Rightarrow> int \<Rightarrow> 'p mbuf \<Rightarrow> 'p mbuf res" where
  "stallMessage offset addr now b =
     bnd (assert_ready now b) (\<lambda>b. bnd (assert_that (offset addr = 0) ''getOffset(addr) == 0'') (\<lambda>_.
     bnd (mb_dequeue now b) (\<lambda>(m, b).
     Inr (b\<lparr>mb_stall_msg_map := map_append addr m (mb_stall_msg_map b), mb_stall_map_size := mb_stall_map_size b + 1\<rparr>))))"

definition hasStalledMsg :: "int \<Rightarrow> 'p mbuf \<Rightarrow> bool" where
  "hasStalledMsg addr b \<longleftrightarrow> map_of (mb_stall_msg_map b) addr \<noteq> None"

definition deferEnqueueingMessage :: "int \<Rightarrow> 'p message \<Rightarrow> 'p mbuf \<Rightarrow> 'p mbuf" where
  "deferEnqueueingMessage addr m b = b\<lparr>mb_deferred_msg_map := map_append addr m (mb_deferred_msg_map b)\<rparr>"

definition isDeferredMsgMapEmpty :: "int \<Rightarrow> 'p mbuf \<Rightarrow> bool" where
  "isDeferredMsgMapEmpty addr b \<longleftrightarrow> map_of (mb_deferred_msg_map b) addr = None"

definition enqueueDeferredMessages :: "int option \<Rightarrow> bool \<Rightarrow> int \<Rightarrow> int \<Rightarrow> int \<Rightarrow> 'p mbuf \<Rightarrow> 'p mbuf res" where
  "enqueueDeferredMessages rnd warmup addr now delay b =
     (case map_of (mb_deferred_msg_map b) addr of
        None \<Rightarrow> Inl (AssertFail ''!isDeferredMsgMapEmpty(addr)'')
      | Some ms \<Rightarrow>
          bnd (assert_that (ms \<noteq> []) ''msg_vec.size() > 0'') (\<lambda>_.
          bnd (for_each (\<lambda>m. mb_enqueue rnd warmup m now delay) ms b) (\<lambda>b.
          Inr (b\<lparr>mb_deferred_msg_map := map_erase addr (mb_deferred_msg_map b)\<rparr>))))"

end
