(* ===== verification/Message_Laws.thy ===== *)
theory Message_Laws
  imports Message_Buffer
begin

text \<open>
  What the message buffers promise: an ordered buffer is a queue, and a buffer of any kind neither loses nor duplicates a
  message, whatever is stalled, recycled or deferred.
\<close>

section \<open>Ordered buffers\<close>

definition contents :: "'p mbuf \<Rightarrow> 'p list" where
  "contents b = map mg_data (mb_prio_heap b)"

definition fifo_inv :: "'p mbuf \<Rightarrow> bool" where
  "fifo_inv b \<longleftrightarrow> mb_strict_fifo b \<and> mb_consumer b \<and> mb_stall_map_size b = 0 \<and>
     (\<forall>m\<in>set (mb_prio_heap b). mg_LastEnqueueTime m \<le> mb_last_arrival_time b \<and> mg_msg_counter m \<le> mb_msg_counter b)"

lemma heap_push_last: "(\<forall>x\<in>set xs. \<not> msg_greater x m) \<Longrightarrow> heap_push m xs = xs @ [m]"
  by (induction xs) auto

definition mb_can_put :: "'p message \<Rightarrow> int \<Rightarrow> int \<Rightarrow> 'p mbuf \<Rightarrow> bool" where
  "mb_can_put m now delta b \<longleftrightarrow> 0 < delta \<and> mg_LastEnqueueTime m \<le> now \<and> mb_last_arrival_time b \<le> now + delta \<and>
     (mb_max_size b = 0 \<or> vlen (mb_prio_heap b) + 1 \<le> mb_max_size b)"

definition mb_can_get :: "int \<Rightarrow> 'p mbuf \<Rightarrow> bool" where
  "mb_can_get now b \<longleftrightarrow> mb_time_last_time_pop b \<le> now \<and>
     (mb_max_dequeue_rate b = 0 \<or> mb_time_last_time_pop b < now \<or> mb_dequeues_this_cy b < mb_max_dequeue_rate b) \<and>
     (case mb_prio_heap b of [] \<Rightarrow> False | m # _ \<Rightarrow> mg_LastEnqueueTime m \<le> now)"

lemma enqueue_fifo:
  assumes i: "fifo_inv b" and c: "mb_can_put m now delta b"
  shows "\<exists>b'. mb_enqueue None False m now delta b = Inr b' \<and> fifo_inv b' \<and> contents b' = contents b @ [mg_data m]"
proof -
  let ?m = "m\<lparr>mg_DelayedTicks := mg_DelayedTicks m + (now - mg_LastEnqueueTime m), mg_LastEnqueueTime := now + delta, mg_msg_counter := mb_msg_counter b + 1\<rparr>"
  have "\<forall>x\<in>set (mb_prio_heap b). \<not> msg_greater x ?m" using i c by (auto simp: fifo_inv_def mb_can_put_def msg_greater_def)
  then have p: "heap_push ?m (mb_prio_heap b) = mb_prio_heap b @ [?m]" by (rule heap_push_last)
  define b1 where "b1 = (if mb_time_last_time_enqueue b < now then b\<lparr>mb_msgs_this_cycle := 0, mb_time_last_time_enqueue := now\<rparr> else b)"
  define b' where "b' = b1\<lparr>mb_msg_counter := mb_msg_counter b + 1, mb_msgs_this_cycle := mb_msgs_this_cycle b1 + 1, mb_last_arrival_time := now + delta,
    mb_prio_heap := mb_prio_heap b @ [?m], mb_wakeups := mb_wakeups b @ [now + delta]\<rparr>"
  have b1: "mb_prio_heap b1 = mb_prio_heap b" "mb_strict_fifo b1" "mb_consumer b1" "mb_stall_map_size b1 = 0" "mb_last_arrival_time b1 = mb_last_arrival_time b"
      "mb_msg_counter b1 = mb_msg_counter b" "mb_max_size b1 = mb_max_size b" "mb_wakeups b1 = mb_wakeups b"
    using i by (simp_all add: b1_def fifo_inv_def)
  have "mb_enqueue None False m now delta b = Inr b'"
    using b1 c p unfolding mb_enqueue_def b1_def [symmetric] b'_def
    by (auto simp: Let_def mb_can_put_def updateDelayedTicks_def schedule_def)
  moreover have "fifo_inv b'" using i c b1 by (auto simp: fifo_inv_def b'_def mb_can_put_def)
  ultimately show ?thesis by (simp add: contents_def b'_def)
qed

lemma assert_ready_ok: "mb_can_get now b \<Longrightarrow> assert_ready now b = Inr b"
  by (auto simp: assert_ready_def isReady_def mb_can_get_def Let_def)

lemma dequeue_fifo:
  assumes i: "fifo_inv b" and c: "mb_can_get now b"
  shows "\<exists>m b'. mb_dequeue now b = Inr (m, b') \<and> fifo_inv b' \<and> contents b = mg_data m # contents b'"
proof -
  obtain m r where h: "mb_prio_heap b = m # r" "mg_LastEnqueueTime m \<le> now" using c by (auto simp: mb_can_get_def split: list.splits)
  define b1 where "b1 = (if mb_time_last_time_pop b < now
    then b\<lparr>mb_size_at_cycle_start := vlen (mb_prio_heap b), mb_stalled_at_cycle_start := mb_stall_map_size b, mb_time_last_time_pop := now, mb_dequeues_this_cy := 0\<rparr> else b)"
  have "mb_dequeue now b = Inr (m\<lparr>mg_DelayedTicks := mg_DelayedTicks m + (now - mg_LastEnqueueTime m)\<rparr>,
      b1\<lparr>mb_dequeues_this_cy := mb_dequeues_this_cy b1 + 1, mb_prio_heap := r\<rparr>)" (is "_ = Inr (?m, ?b)")
    using h unfolding mb_dequeue_def assert_ready_ok [OF c] b1_def by (simp add: peekMsgPtr_def updateDelayedTicks_def Let_def)
  moreover have "fifo_inv ?b" using i h by (auto simp: fifo_inv_def b1_def)
  moreover have "contents b = mg_data ?m # contents ?b" using h by (simp add: contents_def)
  ultimately show ?thesis by blast
qed

datatype 'p mb_op = Put "'p message" int int | Get int

fun mb_step :: "'p mb_op \<Rightarrow> 'p list \<times> 'p mbuf \<Rightarrow> ('p list \<times> 'p mbuf) res" where
  "mb_step (Put m now delta) (out, b) = bnd (mb_enqueue None False m now delta b) (\<lambda>b. Inr (out, b))"
| "mb_step (Get now) (out, b) = bnd (mb_dequeue now b) (\<lambda>(m, b). Inr (out @ [mg_data m], b))"

fun mb_legal :: "'p mb_op \<Rightarrow> 'p mbuf \<Rightarrow> bool" where
  "mb_legal (Put m now delta) b = mb_can_put m now delta b"
| "mb_legal (Get now) b = mb_can_get now b"

fun mb_legal_run :: "'p mb_op list \<Rightarrow> 'p list \<times> 'p mbuf \<Rightarrow> bool" where
  "mb_legal_run [] st \<longleftrightarrow> True"
| "mb_legal_run (x # xs) st \<longleftrightarrow> mb_legal x (snd st) \<and> (case mb_step x st of Inl _ \<Rightarrow> True | Inr st' \<Rightarrow> mb_legal_run xs st')"

fun puts_of :: "'p mb_op list \<Rightarrow> 'p list" where
  "puts_of [] = []"
| "puts_of (Put m _ _ # xs) = mg_data m # puts_of xs"
| "puts_of (Get _ # xs) = puts_of xs"

lemma mb_step_ok:
  assumes "fifo_inv b" "mb_legal x b"
  shows "\<exists>out' b'. mb_step x (out, b) = Inr (out', b') \<and> fifo_inv b' \<and> out' @ contents b' = out @ contents b @ puts_of [x]"
proof (cases x)
  case (Put m now delta)
  then show ?thesis using enqueue_fifo [of b m now delta] assms by auto
next
  case (Get now)
  then show ?thesis using dequeue_fifo [of b now] assms by auto
qed

lemma puts_of_Cons: "puts_of (x # xs) = puts_of [x] @ puts_of xs"
  by (cases x) simp_all

lemma mb_run_ok:
  assumes "fifo_inv b" "mb_legal_run xs (out, b)"
  shows "\<exists>out' b'. for_each mb_step xs (out, b) = Inr (out', b') \<and> fifo_inv b' \<and> out' @ contents b' = out @ contents b @ puts_of xs"
  using assms
proof (induction xs arbitrary: out b)
  case (Cons x xs)
  then obtain out1 b1 where s: "mb_step x (out, b) = Inr (out1, b1)" "fifo_inv b1" "out1 @ contents b1 = out @ contents b @ puts_of [x]"
    using mb_step_ok [of b x out] by auto
  from Cons.IH [OF s(2), of out1] Cons.prems(2) s obtain out' b' where t: "for_each mb_step xs (out1, b1) = Inr (out', b')" "fifo_inv b'"
      "out' @ contents b' = out1 @ contents b1 @ puts_of xs" by auto
  have "out' @ contents b' = out @ contents b @ puts_of (x # xs)" unfolding puts_of_Cons [of x xs] using t(3) s(3) by (metis append.assoc)
  then show ?case using s(1) t by simp
qed simp

section \<open>Conservation\<close>

definition map_data :: "(int \<times> 'p message list) list \<Rightarrow> 'p multiset" where
  "map_data m = mset (map mg_data (concat (map snd m)))"

definition held :: "'p mbuf \<Rightarrow> 'p multiset" where
  "held b = mset (contents b) + map_data (mb_stall_msg_map b) + map_data (mb_deferred_msg_map b)"

definition keys_ok :: "'p mbuf \<Rightarrow> bool" where
  "keys_ok b \<longleftrightarrow> sorted_wrt (<) (map fst (mb_stall_msg_map b)) \<and> sorted_wrt (<) (map fst (mb_deferred_msg_map b))"

lemma heap_push_mset [simp]: "mset (heap_push m xs) = add_mset m (mset xs)"
  by (induction xs) auto

lemma push_contents [simp]: "mset (map mg_data (heap_push m xs)) = add_mset (mg_data m) (mset (map mg_data xs))"
  by (metis heap_push_mset image_mset_add_mset mset_map)

lemma map_append_data: "map_data (map_append a x m) = add_mset (mg_data x) (map_data m)"
  by (induction m) (auto simp: map_data_def)

lemma map_append_keys: "set (map fst (map_append a x m)) = insert a (set (map fst m))"
  by (induction a x m rule: map_append.induct) (simp_all add: insert_commute)

lemma map_append_sorted: "sorted_wrt (<) (map fst m) \<Longrightarrow> sorted_wrt (<) (map fst (map_append a x m))"
proof (induction m)
  case (Cons p m)
  obtain b ys where p: "p = (b, ys)" by (cases p)
  have "\<forall>k\<in>set (map fst (map_append a x m)). b < k" if "b < a" using that Cons.prems unfolding map_append_keys by (auto simp: p)
  then show ?case using Cons by (auto simp: p)
qed simp

lemma map_erase_data:
  assumes "sorted_wrt (<) (map fst m)" "map_of m a = Some xs"
  shows "map_data m = mset (map mg_data xs) + map_data (map_erase a m)"
  using assms
proof (induction m)
  case (Cons p m)
  obtain b ys where p: "p = (b, ys)" by (cases p)
  show ?case
  proof (cases "a = b")
    case True
    have "map_erase a m = m" unfolding map_erase_def using Cons.prems(1) True by (intro filter_True) (auto simp: p)
    then show ?thesis using Cons.prems True by (simp add: p map_erase_def map_data_def)
  next
    case False
    then show ?thesis using Cons by (simp add: p map_erase_def map_data_def)
  qed
qed simp

lemma map_erase_sorted: "sorted_wrt (<) (map fst m) \<Longrightarrow> sorted_wrt (<) (map fst (map_erase a m))"
  by (induction m) (auto simp: map_erase_def)

lemma enqueue_held:
  assumes "mb_enqueue rnd w m now delta b = Inr b'"
  shows "mset (contents b') = add_mset (mg_data m) (mset (contents b)) \<and> mb_stall_msg_map b' = mb_stall_msg_map b \<and> mb_deferred_msg_map b' = mb_deferred_msg_map b"
  using assms unfolding mb_enqueue_def
  by (auto simp: Let_def bnd_Inr_iff schedule_def updateDelayedTicks_def contents_def split: if_splits option.splits)

lemma assert_ready_same: "assert_ready now b = Inr b' \<Longrightarrow> b' = b"
  by (auto simp: assert_ready_def isReady_def bnd_Inr_iff Let_def split: if_splits)

lemma peekMsgPtr_Inr_iff: "peekMsgPtr b = Inr m \<longleftrightarrow> (\<exists>r. mb_prio_heap b = m # r)"
  by (cases "mb_prio_heap b") (auto simp: peekMsgPtr_def)

lemma dequeue_held:
  assumes "mb_dequeue now b = Inr (m, b')"
  shows "held b = add_mset (mg_data m) (held b') \<and> mb_stall_msg_map b' = mb_stall_msg_map b \<and> mb_deferred_msg_map b' = mb_deferred_msg_map b"
proof -
  obtain x r where "mb_prio_heap b = x # r" "mg_data m = mg_data x" "mb_prio_heap b' = r" "mb_stall_msg_map b' = mb_stall_msg_map b" "mb_deferred_msg_map b' = mb_deferred_msg_map b"
    using assms unfolding mb_dequeue_def
    by (auto simp: bnd_Inr_iff peekMsgPtr_Inr_iff updateDelayedTicks_def Let_def dest!: assert_ready_same split: if_splits)
  then show ?thesis by (simp add: held_def contents_def)
qed

lemma recycle_held:
  assumes "mb_recycle now l b = Inr b'"
  shows "held b' = held b \<and> mb_stall_msg_map b' = mb_stall_msg_map b \<and> mb_deferred_msg_map b' = mb_deferred_msg_map b"
  using assms by (auto simp: mb_recycle_def bnd_Inr_iff peekMsgPtr_Inr_iff schedule_def held_def contents_def dest!: assert_ready_same split: if_splits)

lemma reanalyzeList_held:
  assumes "reanalyzeList lt t b = Inr b'"
  shows "mset (contents b') = mset (map mg_data lt) + mset (contents b) \<and> mb_stall_msg_map b' = mb_stall_msg_map b \<and> mb_deferred_msg_map b' = mb_deferred_msg_map b"
  using assms
proof (induction lt arbitrary: b)
  case (Cons m lt)
  then obtain b1 where "b1 = b\<lparr>mb_prio_heap := heap_push m (mb_prio_heap b), mb_wakeups := mb_wakeups b @ [t]\<rparr>" "reanalyzeList lt t b1 = Inr b'"
    by (auto simp: reanalyzeList_def bnd_Inr_iff schedule_def split: if_splits)
  then show ?case using Cons.IH [of b1] by (simp add: contents_def)
qed (simp add: reanalyzeList_def)

lemma reanalyze_held:
  assumes "reanalyzeMessages addr now b = Inr b'" "keys_ok b"
  shows "held b' = held b \<and> keys_ok b'"
proof -
  obtain lt b1 where lt: "map_of (mb_stall_msg_map b) addr = Some lt" "reanalyzeList lt now (b\<lparr>mb_stall_map_size := mb_stall_map_size b - vlen lt\<rparr>) = Inr b1"
      "b' = b1\<lparr>mb_stall_msg_map := map_erase addr (mb_stall_msg_map b1)\<rparr>"
    using assms(1) by (auto simp: reanalyzeMessages_def bnd_Inr_iff Let_def split: option.splits)
  from reanalyzeList_held [OF lt(2)] have c: "mset (contents b1) = mset (map mg_data lt) + mset (contents b)" "mb_stall_msg_map b1 = mb_stall_msg_map b"
      "mb_deferred_msg_map b1 = mb_deferred_msg_map b" by (simp_all add: contents_def)
  have "map_data (mb_stall_msg_map b) = mset (map mg_data lt) + map_data (map_erase addr (mb_stall_msg_map b))"
    using assms(2) lt(1) by (intro map_erase_data) (simp_all add: keys_ok_def)
  then show ?thesis using c lt(3) assms(2) by (simp add: held_def contents_def keys_ok_def map_erase_sorted)
qed

lemma reanalyzeAll_held:
  assumes "reanalyzeAllMessages now b = Inr b'"
  shows "held b' = held b \<and> mb_stall_msg_map b' = [] \<and> mb_deferred_msg_map b' = mb_deferred_msg_map b"
proof -
  let ?f = "\<lambda>(_ :: int, lt) b. let b = b\<lparr>mb_stall_map_size := mb_stall_map_size b - vlen lt\<rparr> in
    bnd (assert_that (mb_stall_map_size b \<ge> 0) ''m_stall_map_size >= 0'') (\<lambda>_. reanalyzeList lt now b)"
  have loop: "mset (contents b2) = map_data ms + mset (contents b1) \<and> mb_deferred_msg_map b2 = mb_deferred_msg_map b1"
    if "for_each ?f ms b1 = Inr b2" for ms and b1 b2 :: "'a mbuf"
    using that
  proof (induction ms arbitrary: b1)
    case (Cons p ms)
    obtain a lt where p: "p = (a, lt)" by (cases p)
    obtain b3 where b3: "reanalyzeList lt now (b1\<lparr>mb_stall_map_size := mb_stall_map_size b1 - vlen lt\<rparr>) = Inr b3" "for_each ?f ms b3 = Inr b2"
      using Cons.prems by (auto simp: p Let_def bnd_Inr_iff)
    from reanalyzeList_held [OF b3(1)] Cons.IH [OF b3(2)] show ?case by (simp add: p map_data_def contents_def)
  qed (simp add: map_data_def)
  obtain b2 where "for_each ?f (mb_stall_msg_map b) b = Inr b2" "b' = b2\<lparr>mb_stall_msg_map := []\<rparr>"
    using assms unfolding reanalyzeAllMessages_def by (auto simp: bnd_Inr_iff)
  with loop [OF this(1)] show ?thesis by (simp add: held_def map_data_def contents_def)
qed

lemma stall_held:
  assumes "stallMessage offset addr now b = Inr b'" "keys_ok b"
  shows "held b' = held b \<and> keys_ok b'"
proof -
  obtain m b1 where d: "mb_dequeue now b = Inr (m, b1)"
      "b' = b1\<lparr>mb_stall_msg_map := map_append addr m (mb_stall_msg_map b1), mb_stall_map_size := mb_stall_map_size b1 + 1\<rparr>"
    using assms(1) by (auto simp: stallMessage_def bnd_Inr_iff dest!: assert_ready_same)
  from dequeue_held [OF d(1)] show ?thesis using d(2) assms(2)
    by (simp add: held_def map_append_data contents_def keys_ok_def map_append_sorted)
qed

lemma enqueue_all_held:
  assumes "for_each (\<lambda>m. mb_enqueue rnd w m now delta) ms b = Inr b'"
  shows "mset (contents b') = mset (map mg_data ms) + mset (contents b) \<and> mb_stall_msg_map b' = mb_stall_msg_map b \<and> mb_deferred_msg_map b' = mb_deferred_msg_map b"
  using assms
proof (induction ms arbitrary: b)
  case (Cons m ms)
  then obtain b1 where b1: "mb_enqueue rnd w m now delta b = Inr b1" "for_each (\<lambda>m. mb_enqueue rnd w m now delta) ms b1 = Inr b'"
    by (auto simp: bnd_Inr_iff)
  from enqueue_held [OF b1(1)] Cons.IH [OF b1(2)] show ?case by simp
qed simp

lemma enqueueDeferred_held:
  assumes "enqueueDeferredMessages rnd w addr now delta b = Inr b'" "keys_ok b"
  shows "held b' = held b \<and> keys_ok b'"
proof -
  obtain ms b1 where ms: "map_of (mb_deferred_msg_map b) addr = Some ms" "for_each (\<lambda>m. mb_enqueue rnd w m now delta) ms b = Inr b1"
      "b' = b1\<lparr>mb_deferred_msg_map := map_erase addr (mb_deferred_msg_map b1)\<rparr>"
    using assms(1) by (auto simp: enqueueDeferredMessages_def bnd_Inr_iff split: option.splits)
  have "map_data (mb_deferred_msg_map b) = mset (map mg_data ms) + map_data (map_erase addr (mb_deferred_msg_map b))"
    using assms(2) ms(1) by (intro map_erase_data) (simp_all add: keys_ok_def)
  then show ?thesis using enqueue_all_held [OF ms(2)] ms(3) assms(2) by (simp add: held_def contents_def keys_ok_def map_erase_sorted)
qed

lemma delayHead_held:
  assumes "delayHead rnd w now delta b = Inr b'"
  shows "held b' = held b \<and> mb_stall_msg_map b' = mb_stall_msg_map b \<and> mb_deferred_msg_map b' = mb_deferred_msg_map b"
proof -
  obtain m r where m: "mb_prio_heap b = m # r" "mb_enqueue rnd w m now delta (b\<lparr>mb_prio_heap := r\<rparr>) = Inr b'"
    using assms by (auto simp: delayHead_def bnd_Inr_iff peekMsgPtr_Inr_iff)
  from enqueue_held [OF m(2)] m(1) show ?thesis by (simp add: held_def contents_def)
qed

datatype 'p mb_call =
    Enqueue "int option" bool "'p message" int int
  | Dequeue int
  | Recycle int int
  | DelayHead "int option" bool int int
  | StallMsg int int
  | Reanalyze int int
  | ReanalyzeAll int
  | Defer int "'p message"
  | EnqueueDeferred "int option" bool int int int
  | Clear

text \<open>The state of a run: the messages taken out, those that \<^verbatim>\<open>clear\<close> dropped, and the buffer.\<close>

fun mb_call_step :: "(int \<Rightarrow> int) \<Rightarrow> 'p mb_call \<Rightarrow> 'p list \<times> 'p list \<times> 'p mbuf \<Rightarrow> ('p list \<times> 'p list \<times> 'p mbuf) res" where
  "mb_call_step off (Enqueue rnd w m now delta) (out, lost, b) = bnd (mb_enqueue rnd w m now delta b) (\<lambda>b. Inr (out, lost, b))"
| "mb_call_step off (Dequeue now) (out, lost, b) = bnd (mb_dequeue now b) (\<lambda>(m, b). Inr (out @ [mg_data m], lost, b))"
| "mb_call_step off (Recycle now l) (out, lost, b) = bnd (mb_recycle now l b) (\<lambda>b. Inr (out, lost, b))"
| "mb_call_step off (DelayHead rnd w now delta) (out, lost, b) = bnd (delayHead rnd w now delta b) (\<lambda>b. Inr (out, lost, b))"
| "mb_call_step off (StallMsg addr now) (out, lost, b) = bnd (stallMessage off addr now b) (\<lambda>b. Inr (out, lost, b))"
| "mb_call_step off (Reanalyze addr now) (out, lost, b) = bnd (reanalyzeMessages addr now b) (\<lambda>b. Inr (out, lost, b))"
| "mb_call_step off (ReanalyzeAll now) (out, lost, b) = bnd (reanalyzeAllMessages now b) (\<lambda>b. Inr (out, lost, b))"
| "mb_call_step off (Defer addr m) (out, lost, b) = Inr (out, lost, deferEnqueueingMessage addr m b)"
| "mb_call_step off (EnqueueDeferred rnd w addr now delta) (out, lost, b) = bnd (enqueueDeferredMessages rnd w addr now delta b) (\<lambda>b. Inr (out, lost, b))"
| "mb_call_step off Clear (out, lost, b) = Inr (out, lost @ contents b, mb_clear b)"

fun entered :: "'p mb_call list \<Rightarrow> 'p multiset" where
  "entered [] = {#}"
| "entered (Enqueue _ _ m _ _ # xs) = add_mset (mg_data m) (entered xs)"
| "entered (Defer _ m # xs) = add_mset (mg_data m) (entered xs)"
| "entered (_ # xs) = entered xs"

lemma mb_call_step_held:
  assumes "mb_call_step off x (out, lost, b) = Inr (out', lost', b')" "keys_ok b"
  shows "mset out' + mset lost' + held b' = mset out + mset lost + held b + entered [x] \<and> keys_ok b' \<and> (x \<noteq> Clear \<longrightarrow> lost' = lost)"
proof (cases x)
  case (Enqueue rnd w m now delta)
  then show ?thesis using assms enqueue_held [of rnd w m now delta b b'] by (auto simp: bnd_Inr_iff held_def keys_ok_def)
next
  case (Dequeue now)
  then obtain m where m: "mb_dequeue now b = Inr (m, b')" "out' = out @ [mg_data m]" "lost' = lost" using assms by (auto simp: bnd_Inr_iff)
  then show ?thesis using assms dequeue_held [OF m(1)] Dequeue by (simp add: keys_ok_def)
next
  case (Recycle now l)
  then show ?thesis using assms recycle_held [of now l b b'] by (auto simp: bnd_Inr_iff keys_ok_def)
next
  case (DelayHead rnd w now delta)
  then show ?thesis using assms delayHead_held [of rnd w now delta b b'] by (auto simp: bnd_Inr_iff keys_ok_def)
next
  case (StallMsg addr now)
  then show ?thesis using assms stall_held [of off addr now b b'] by (auto simp: bnd_Inr_iff)
next
  case (Reanalyze addr now)
  then show ?thesis using assms reanalyze_held [of addr now b b'] by (auto simp: bnd_Inr_iff)
next
  case (ReanalyzeAll now)
  then show ?thesis using assms reanalyzeAll_held [of now b b'] by (auto simp: bnd_Inr_iff keys_ok_def)
next
  case (Defer addr m)
  then show ?thesis using assms by (auto simp: deferEnqueueingMessage_def held_def map_append_data contents_def keys_ok_def map_append_sorted)
next
  case (EnqueueDeferred rnd w addr now delta)
  then show ?thesis using assms enqueueDeferred_held [of rnd w addr now delta b b'] by (auto simp: bnd_Inr_iff)
next
  case Clear
  then show ?thesis using assms by (auto simp: mb_clear_def held_def contents_def keys_ok_def)
qed

lemma entered_Cons: "entered (x # xs) = entered [x] + entered xs"
  by (cases x) simp_all

lemma mb_calls_held:
  assumes "for_each (mb_call_step off) xs (out, lost, b) = Inr (out', lost', b')" "keys_ok b"
  shows "mset out' + mset lost' + held b' = mset out + mset lost + held b + entered xs \<and> keys_ok b' \<and> (Clear \<notin> set xs \<longrightarrow> lost' = lost)"
  using assms
proof (induction xs arbitrary: out lost b)
  case (Cons x xs)
  then obtain out1 lost1 b1 where s: "mb_call_step off x (out, lost, b) = Inr (out1, lost1, b1)" "for_each (mb_call_step off) xs (out1, lost1, b1) = Inr (out', lost', b')"
    by (auto simp: bnd_Inr_iff)
  have k: "mset out1 + mset lost1 + held b1 = mset out + mset lost + held b + entered [x]" "keys_ok b1" "x \<noteq> Clear \<longrightarrow> lost1 = lost" using mb_call_step_held [OF s(1) Cons.prems(2)] by auto
  from Cons.IH [OF s(2) k(2)] show ?case unfolding entered_Cons [of x xs] using k by (auto simp: add.assoc)
qed simp

section \<open>Properties\<close>

text \<open>
  C17: An ordered message buffer is a queue. Messages are put in with positive delays that do not overtake and while there is room, and
  taken when the head is ready. No such run aborts, and the messages taken followed by those still inside are the messages put in, in
  order.
\<close>

theorem MessageBuffer_fifo:
  assumes b: "setConsumer (new_MessageBuffer sz rate True zl) = Inr b" and r: "mb_legal_run xs ([], b)"
  shows "\<exists>out b'. for_each mb_step xs ([], b) = Inr (out, b') \<and> puts_of xs = out @ contents b'"
proof -
  have "fifo_inv b" "contents b = []" using b by (auto simp: setConsumer_def new_MessageBuffer_def fifo_inv_def contents_def split: if_splits)
  from mb_run_ok [OF this(1) r] this(2) show ?thesis by fastforce
qed

definition msg_of :: "'p \<Rightarrow> 'p message" where
  "msg_of x = \<lparr>mg_time = 0, mg_LastEnqueueTime = 0, mg_DelayedTicks = 0, mg_msg_counter = 0, mg_Destination = [], mg_bytes = 8, mg_data = x\<rparr>"

definition fifo_ops :: "int mb_op list" where
  "fifo_ops = [Put (msg_of 7) 1 1, Put (msg_of 8) 1 1, Get 2, Put (msg_of 9) 2 3, Get 2]"

definition fifo_buf :: "int mbuf" where
  "fifo_buf = (new_MessageBuffer 2 0 True False)\<lparr>mb_consumer := True\<rparr>"

theorem MessageBuffer_fifo_witness:
  "mb_legal_run fifo_ops ([], fifo_buf) \<and> (\<exists>out b'. for_each mb_step fifo_ops ([], fifo_buf) = Inr (out, b') \<and> [7, 8, 9] = out @ contents b')"
proof -
  have l: "mb_legal_run fifo_ops ([], fifo_buf)" by code_simp
  have b: "setConsumer (new_MessageBuffer 2 0 True False) = Inr fifo_buf" by (simp add: setConsumer_def fifo_buf_def new_MessageBuffer_def)
  have "puts_of fifo_ops = [7, 8, 9]" by (simp add: fifo_ops_def msg_of_def)
  with MessageBuffer_fifo [OF b l] l show ?thesis by simp
qed

text \<open>
  C18: A message buffer neither loses nor duplicates messages, except what \<^verbatim>\<open>clear\<close> drops. Whatever is enqueued, dequeued, recycled, delayed,
  stalled, reanalysed, deferred or cleared, with or without randomised delays, the messages handed over are those taken out together with those
  that were in the heap at a \<^verbatim>\<open>clear\<close> and those in the heap, in the stall map and in the map of deferred messages. In a run without
  \<^verbatim>\<open>clear\<close> nothing is dropped.
\<close>

theorem MessageBuffer_conserves:
  assumes "for_each (mb_call_step off) xs ([], [], new_MessageBuffer sz rate ord zl\<lparr>mb_consumer := c\<rparr>) = Inr (out, lost, b)"
  shows "entered xs = mset out + mset lost + held b \<and> (Clear \<notin> set xs \<longrightarrow> lost = [])"
proof -
  have "keys_ok (new_MessageBuffer sz rate ord zl\<lparr>mb_consumer := c\<rparr>)" "held (new_MessageBuffer sz rate ord zl\<lparr>mb_consumer := c\<rparr>) = {#}"
    by (simp_all add: new_MessageBuffer_def keys_ok_def held_def contents_def map_data_def)
  from mb_calls_held [OF assms this(1)] this(2) show ?thesis by simp
qed

definition stall_calls :: "int mb_call list" where
  "stall_calls = [Enqueue None False (msg_of 7) 1 1, Defer 64 (msg_of 8), StallMsg 128 2, EnqueueDeferred None False 64 2 1, Dequeue 3, Reanalyze 128 3,
     Clear, Enqueue None False (msg_of 9) 4 1]"

theorem MessageBuffer_conserves_witness:
  "\<exists>b. for_each (mb_call_step (\<lambda>a. a mod 64)) stall_calls ([], [], new_MessageBuffer 4 0 False False\<lparr>mb_consumer := True\<rparr>) = Inr ([8], [7], b) \<and>
     {#7, 8, 9#} = {#8#} + {#7#} + held b"
proof -
  have "(case for_each (mb_call_step (\<lambda>a. a mod 64)) stall_calls ([], [], new_MessageBuffer 4 0 False False\<lparr>mb_consumer := True\<rparr>) of
      Inl _ \<Rightarrow> False | Inr (out, lost, _) \<Rightarrow> out = [8] \<and> lost = [7])"
    by code_simp
  then obtain b where r: "for_each (mb_call_step (\<lambda>a. a mod 64)) stall_calls ([], [], new_MessageBuffer 4 0 False False\<lparr>mb_consumer := True\<rparr>) = Inr ([8], [7], b)"
    by (auto split: sum.splits)
  have "entered stall_calls = {#7, 8, 9#}" by (simp add: stall_calls_def msg_of_def)
  with MessageBuffer_conserves [OF r] r show ?thesis by simp
qed

end
