(* ===== verification/Bridge.thy ===== *)
theory Bridge
  imports Message_Laws Packets
begin

text \<open>
  The bridge between gem5 and BookSim (\<^verbatim>\<open>mem/ruby/network/booksim\<close>): switches that turn messages into packets
  (\<^verbatim>\<open>NetworkSwitch.cc\<close>), the network object that remembers which message a packet carries (\<^verbatim>\<open>BooksimNetwork\<close>) and the
  interface that runs it (\<^verbatim>\<open>NetworkInterface.cc\<close>). Switches are known by their index; a message buffer belongs to one
  port of one switch and is kept there. The clock of the switch is a record, and debug output is left out.
\<close>

section \<open>State\<close>

definition int64 :: "int \<Rightarrow> int" where
  "int64 x = (x + 9223372036854775808) mod 18446744073709551616 - 9223372036854775808"

record clock =
  ck_edge :: int
  ck_cycle :: int
  ck_period :: int

definition ticksToCycles :: "clock \<Rightarrow> int \<Rightarrow> int" where
  "ticksToCycles ck t = (t + ck_period ck - 1) div ck_period ck"

record 'p nswitch =
  sw_in_buffers :: "'p mbuf option list list"
  sw_out_buffers :: "'p mbuf list list"
  sw_dest_port :: "(int \<times> int) list"
  sw_last_port :: int

record 'p BooksimMessage =
  bm_network_switch :: int
  bm_dest :: int
  bm_subnet :: int
  bm_msg :: "'p message"

record bn_stats =
  total_packet_lat :: int
  total_network_lat :: int
  total_hops :: int
  total_cycles :: int
  total_inject_flits :: int
  total_accept_flits :: int
  total_inject_packets :: int
  total_accept_packets :: int
  total_node_to_node_latency :: "int list list"
  total_node_to_node_packets :: "int list list"

record ('p, 'e) bnet =
  bn_switches :: "'p nswitch list"
  bn_switchID :: "int list"
  bn_packet_map :: "(int \<times> 'p BooksimMessage) list"
  bn_internal_speedup :: int
  bn_internal_cycles :: int
  bn_wakeup_cycles :: int
  bn_stat :: bn_stats
  bn_tm :: tmw
  bn_env :: 'e

text \<open>What the bridge is configured with: the machine numbering, the bits per set, the traffic manager's configuration and its network.\<close>

record 'e bcfg =
  bc_machines :: machines
  bc_nbits :: int
  bc_tm :: tm_config
  bc_ops :: "'e net_ops"

section \<open>Links\<close>

definition addInPort :: "'p mbuf option list \<Rightarrow> 'p nswitch \<Rightarrow> 'p nswitch res" where
  "addInPort bufs sw =
     bnd (for_each (\<lambda>b bs. case b of None \<Rightarrow> Inr (bs @ [None]) | Some b \<Rightarrow> bnd (setConsumer b) (\<lambda>b. Inr (bs @ [Some b]))) bufs []) (\<lambda>bs.
     Inr (sw\<lparr>sw_in_buffers := sw_in_buffers sw @ [bs]\<rparr>))"

definition map_put :: "int \<Rightarrow> 'a \<Rightarrow> (int \<times> 'a) list \<Rightarrow> (int \<times> 'a) list" where
  "map_put k v m = (k, v) # filter (\<lambda>(j, _). j \<noteq> k) m"

text \<open>For switch 3 the source prints the first destination, which it reads without asking whether there is one.\<close>

definition addOutPort :: "machines \<Rightarrow> int \<Rightarrow> 'p mbuf list \<Rightarrow> net_dest list \<Rightarrow> 'p nswitch \<Rightarrow> 'p nswitch res" where
  "addOutPort mt m_id bufs routing sw =
     (let sw = sw\<lparr>sw_out_buffers := sw_out_buffers sw @ [bufs]\<rparr> in
      bnd (for_each (\<lambda>d ids. bnd (NetDest_getAllDest mt d) (\<lambda>x. Inr (ids @ x))) routing []) (\<lambda>all_dest.
      bnd (if m_id = 3 then bnd (vget all_dest 0) (\<lambda>_. Inr ()) else Inr ()) (\<lambda>_.
      Inr (sw\<lparr>sw_dest_port := fold (\<lambda>dest m. map_put dest (vlen (sw_out_buffers sw) - 1) m) all_dest (sw_dest_port sw)\<rparr>))))"

text \<open>The queues of the nodes, \<^verbatim>\<open>m_toNetQueues\<close> and \<^verbatim>\<open>m_fromNetQueues\<close>, are arguments; there is one per node.\<close>

definition makeExtInLink :: "'p mbuf option list list \<Rightarrow> int \<Rightarrow> int \<Rightarrow> ('p, 'e) bnet \<Rightarrow> ('p, 'e) bnet res" where
  "makeExtInLink toNetQueues src dest net =
     bnd (assert_that (src < vlen toNetQueues) ''src < m_nodes'') (\<lambda>_. bnd (vget toNetQueues src) (\<lambda>bufs.
     bnd (vset (bn_switchID net) src dest) (\<lambda>ids. bnd (upd_at dest (addInPort bufs) (bn_switches net)) (\<lambda>sws.
     Inr (net\<lparr>bn_switchID := ids, bn_switches := sws\<rparr>)))))"

definition makeExtOutLink :: "machines \<Rightarrow> 'p mbuf list list \<Rightarrow> int \<Rightarrow> int \<Rightarrow> net_dest list \<Rightarrow> ('p, 'e) bnet \<Rightarrow> ('p, 'e) bnet res" where
  "makeExtOutLink mt fromNetQueues src dest routing net =
     bnd (assert_that (dest < vlen fromNetQueues) ''dest < m_nodes'') (\<lambda>_.
     bnd (assert_that (src < vlen (bn_switches net)) ''src < m_switches.size()'') (\<lambda>_.
     bnd (vget fromNetQueues dest) (\<lambda>bufs.
     bnd (upd_at src (addOutPort mt src bufs routing) (bn_switches net)) (\<lambda>sws. Inr (net\<lparr>bn_switches := sws\<rparr>)))))"

section \<open>Delivering messages\<close>

text \<open>\<^verbatim>\<open>m_dest_port[dest]\<close> of a \<^verbatim>\<open>std::map\<close>: a missing key is port 0.\<close>

definition EnqueueMessage :: "clock \<Rightarrow> int \<Rightarrow> int \<Rightarrow> 'p message \<Rightarrow> 'p nswitch \<Rightarrow> 'p nswitch res" where
  "EnqueueMessage ck dest subnet m sw =
     (let port = (case map_of (sw_dest_port sw) dest of Some p \<Rightarrow> p | None \<Rightarrow> 0) in
      bnd (upd_at port (upd_at subnet (mb_enqueue None False m (ck_edge ck) (ck_period ck))) (sw_out_buffers sw)) (\<lambda>bs.
      Inr (sw\<lparr>sw_out_buffers := bs\<rparr>)))"

definition putBooksimMessage :: "int \<Rightarrow> int \<Rightarrow> int \<Rightarrow> 'p message \<Rightarrow> int \<Rightarrow> ('p, 'e) bnet \<Rightarrow> ('p, 'e) bnet res" where
  "putBooksimMessage pid destID subnet m packet_dest net =
     bnd (vget (bn_switches net) packet_dest) (\<lambda>_.
     Inr (net\<lparr>bn_packet_map := map_put pid \<lparr>bm_network_switch = packet_dest, bm_dest = destID, bm_subnet = subnet, bm_msg = m\<rparr> (bn_packet_map net)\<rparr>))"

text \<open>The parameter is an \<^verbatim>\<open>int\<close>; a packet that is not in the map gives a record with a null switch, which is skipped.\<close>

definition enqueueBooksimMessage :: "clock \<Rightarrow> int \<Rightarrow> ('p, 'e) bnet \<Rightarrow> ('p, 'e) bnet res" where
  "enqueueBooksimMessage ck long_pid net =
     (let pid = int32 long_pid in
      bnd (case map_of (bn_packet_map net) pid of
             None \<Rightarrow> Inr net
           | Some bm \<Rightarrow> bnd (upd_at (bm_network_switch bm) (EnqueueMessage ck (bm_dest bm) (bm_subnet bm) (bm_msg bm)) (bn_switches net)) (\<lambda>sws.
               Inr (net\<lparr>bn_switches := sws\<rparr>))) (\<lambda>net.
      Inr (net\<lparr>bn_packet_map := filter (\<lambda>(j, _). j \<noteq> pid) (bn_packet_map net)\<rparr>)))"

definition updateInjectStats :: "int \<Rightarrow> ('p, 'e) bnet \<Rightarrow> ('p, 'e) bnet" where
  "updateInjectStats packet_size net =
     net\<lparr>bn_stat := (bn_stat net)\<lparr>total_inject_flits := total_inject_flits (bn_stat net) + packet_size,
       total_inject_packets := total_inject_packets (bn_stat net) + 1\<rparr>\<rparr>"

definition updatePacketStats :: "int \<Rightarrow> int \<Rightarrow> int \<Rightarrow> int \<Rightarrow> int \<Rightarrow> int \<Rightarrow> ('p, 'e) bnet \<Rightarrow> ('p, 'e) bnet res" where
  "updatePacketStats p_lat n_lat hops packet_size src dest net =
     (if bn_internal_speedup net = 0 then Inl DivByZero
      else
        let sp = bn_internal_speedup net; st = bn_stat net; pl = (p_lat + sp - 1) sdiv sp; nl = (n_lat + sp - 1) sdiv sp in
        bnd (upd_at src (upd_at dest (\<lambda>x. Inr (x + pl))) (total_node_to_node_latency st)) (\<lambda>lats.
        bnd (upd_at src (upd_at dest (\<lambda>x. Inr (x + 1))) (total_node_to_node_packets st)) (\<lambda>pkts.
        Inr (net\<lparr>bn_stat := st\<lparr>total_packet_lat := total_packet_lat st + pl, total_network_lat := total_network_lat st + nl,
          total_hops := total_hops st + hops, total_accept_flits := total_accept_flits st + packet_size,
          total_accept_packets := total_accept_packets st + 1, total_node_to_node_latency := lats, total_node_to_node_packets := pkts\<rparr>\<rparr>))))"

section \<open>Reading messages\<close>

text \<open>\<^verbatim>\<open>ceil(bytes * 8 / 128)\<close>.\<close>

definition flits_of :: "int \<Rightarrow> int" where
  "flits_of bytes = (bytes * 8 + 127) div 128"

text \<open>The destination of the copy that goes to one node of several.\<close>

definition personal :: "'e bcfg \<Rightarrow> int list \<Rightarrow> int \<Rightarrow> net_dest res" where
  "personal bc all_dest destID =
     bnd (NetDest_new (bc_machines bc) (bc_nbits bc)) (\<lambda>d0.
     if vlen all_dest > 1 then
       case find_machine (bc_machines bc) destID of
         None \<Rightarrow> Inr d0
       | Some m \<Rightarrow> NetDest_add (bc_machines bc) \<lparr>mi_type = m, mi_num = destID - mt_base (bc_machines bc) m\<rparr> (NetDest_clear d0)
     else Inr d0)"

definition copy_for :: "'e bcfg \<Rightarrow> int list \<Rightarrow> int \<Rightarrow> net_dest \<Rightarrow> 'p message \<Rightarrow> 'p message" where
  "copy_for bc all_dest destID pd m =
     (if vlen all_dest > 1 \<and> find_machine (bc_machines bc) destID \<noteq> None then m\<lparr>mg_Destination := pd\<rparr> else m)"

text \<open>The age of the message in cycles of BookSim; \<^verbatim>\<open>Cycles::operator-\<close> throws when the difference is negative.\<close>

definition inject_time :: "clock \<Rightarrow> int \<Rightarrow> 'p message \<Rightarrow> int res" where
  "inject_time ck speedup m =
     (let t = ticksToCycles ck (mg_time m) in
      if t > ck_cycle ck then Inl (ErrorMsg ''RHS cycle value larger than LHS'') else Inr (int64 ((ck_cycle ck - t) * speedup)))"

text \<open>
  One iteration of the loop over the destinations. The message at the head of the buffer, whose destination is cut down, and
  \<^verbatim>\<open>dequeue_msg\<close> are threaded through.
\<close>

definition send_copy ::
    "clock \<Rightarrow> 'e bcfg \<Rightarrow> int \<Rightarrow> int \<Rightarrow> int list \<Rightarrow> int \<Rightarrow> bool \<times> 'p message \<times> ('p, 'e) bnet \<Rightarrow> (bool \<times> 'p message \<times> ('p, 'e) bnet) res" where
  "send_copy ck bc sid vn all_dest destID st =
     (let (dq, m, net) = st; sz = flits_of (mg_bytes m) in
      bnd (personal bc all_dest destID) (\<lambda>pd.
      let new_msg = copy_for bc all_dest destID pd m in
      bnd (vget (bn_switchID net) destID) (\<lambda>packet_dest.
      bnd (inject_time ck (bn_internal_speedup net) m) (\<lambda>time.
      bnd (if sid \<noteq> packet_dest then
             bnd (Wrapper_GeneratePacket (bc_tm bc) (bc_ops bc) sid packet_dest sz vn time (bn_tm net)) (\<lambda>(pid, tm).
             Inr (pid, net\<lparr>bn_tm := tm\<rparr>))
           else Inr (1, net)) (\<lambda>(pid, net).
      if pid > - 1 then
        bnd (NetDest_removeNetDest pd (mg_Destination m)) (\<lambda>d.
        bnd (if sid \<noteq> packet_dest then putBooksimMessage pid destID vn new_msg packet_dest (updateInjectStats sz net)
             else bnd (upd_at sid (EnqueueMessage ck destID vn new_msg) (bn_switches net)) (\<lambda>sws. Inr (net\<lparr>bn_switches := sws\<rparr>))) (\<lambda>net.
        Inr (True, m\<lparr>mg_Destination := d\<rparr>, net)))
      else Inr (dq, m, net))))))"

definition set_in_buffer :: "int \<Rightarrow> int \<Rightarrow> int \<Rightarrow> 'p mbuf \<Rightarrow> ('p, 'e) bnet \<Rightarrow> ('p, 'e) bnet res" where
  "set_in_buffer sid port vn b net =
     bnd (upd_at sid (\<lambda>sw. bnd (upd_at port (upd_at vn (\<lambda>_. Inr (Some b))) (sw_in_buffers sw)) (\<lambda>bs. Inr (sw\<lparr>sw_in_buffers := bs\<rparr>)))
       (bn_switches net)) (\<lambda>sws. Inr (net\<lparr>bn_switches := sws\<rparr>))"

definition in_buffer :: "int \<Rightarrow> int \<Rightarrow> int \<Rightarrow> ('p, 'e) bnet \<Rightarrow> 'p mbuf option res" where
  "in_buffer sid port vn net = bnd (vget (bn_switches net) sid) (\<lambda>sw. bnd (vget (sw_in_buffers sw) port) (\<lambda>row. vget row vn))"

text \<open>One input buffer: the head message, if it is ready, is sent to all its destinations.\<close>

definition read_buffer :: "clock \<Rightarrow> 'e bcfg \<Rightarrow> int \<Rightarrow> int \<Rightarrow> int \<Rightarrow> ('p, 'e) bnet \<Rightarrow> ('p, 'e) bnet res" where
  "read_buffer ck bc sid port vn net =
     bnd (in_buffer sid port vn net) (\<lambda>ob. case ob of None \<Rightarrow> Inr net | Some b \<Rightarrow>
     bnd (isReady (ck_edge ck) b) (\<lambda>(ready, b).
     bnd (set_in_buffer sid port vn b net) (\<lambda>net.
     if \<not> ready then Inr net
     else
       bnd (peekMsgPtr b) (\<lambda>m.
       bnd (NetDest_getAllDest (bc_machines bc) (mg_Destination m)) (\<lambda>all_dest.
       bnd (for_each (send_copy ck bc sid vn all_dest) all_dest (all_dest = [], m, net)) (\<lambda>(dq, m, net).
       let b = b\<lparr>mb_prio_heap := m # tl (mb_prio_heap b)\<rparr> in
       if dq then
         bnd (mb_dequeue (ck_edge ck) b) (\<lambda>(_, b).
         bnd (set_in_buffer sid port vn b net) (\<lambda>net.
         bnd (upd_at sid (\<lambda>sw. Inr (sw\<lparr>sw_last_port := port\<rparr>)) (bn_switches net)) (\<lambda>sws. Inr (net\<lparr>bn_switches := sws\<rparr>))))
       else set_in_buffer sid port vn b net))))))"

definition ReadMessage :: "clock \<Rightarrow> 'e bcfg \<Rightarrow> int \<Rightarrow> ('p, 'e) bnet \<Rightarrow> ('p, 'e) bnet res" where
  "ReadMessage ck bc sid net =
     bnd (vget (bn_switches net) sid) (\<lambda>sw.
     let n = vlen (sw_in_buffers sw) in
     if n > 0 then
       for_each (\<lambda>i net.
         let port = (sw_last_port sw + 1 + i) smod n in
         bnd (vget (sw_in_buffers sw) port) (\<lambda>row. for_each (read_buffer ck bc sid port) (range0 (vlen row)) net)) (range0 n) net
     else Inr net)"

section \<open>Running the network\<close>

record RetiredPacket =
  rp_pid :: int
  rp_src :: int
  rp_dest :: int
  rp_cl :: int
  rp_psize :: int
  rp_plat :: int
  rp_nlat :: int
  rp_hops :: int

definition Wrapper_RetirePacket :: "'e net_ops \<Rightarrow> tmw \<Rightarrow> RetiredPacket \<times> tmw" where
  "Wrapper_RetirePacket ops s =
     (let ((h, t), s) = RetirePacket ops s in
      (\<lparr>rp_pid = fl_pid h, rp_src = fl_src h, rp_dest = fl_dest h, rp_cl = fl_cl h, rp_psize = fl_packet_size h,
        rp_plat = int32 (fl_atime t - fl_ctime h), rp_nlat = int32 (fl_atime t - fl_itime h), rp_hops = fl_hops h\<rparr>, s))"

text \<open>The packets that wait in the ejection queues, which is how often the loop of \<^verbatim>\<open>RetirePackets\<close> can run.\<close>

definition ejected :: "tmw \<Rightarrow> nat" where
  "ejected s = length (concat (concat (tw_ejection_queue s)))"

lemma pop_first_len: "pop_first qs = Some (x, r) \<Longrightarrow> length (concat qs) = Suc (length (concat r))"
  by (induction qs arbitrary: r rule: pop_first.induct) (auto simp: map_option_case split: option.splits)

lemma pop_class_len: "pop_class qs = Some (x, r) \<Longrightarrow> length (concat (concat qs)) = Suc (length (concat (concat r)))"
  by (induction qs arbitrary: r) (auto simp: map_option_case dest!: pop_first_len split: option.splits prod.splits)

lemma RetirePacket_len:
  assumes "RetirePacket ops s = ((h, t), s')" "fl_pid h \<noteq> - 1"
  shows "ejected s' < ejected s"
  using assms by (auto simp: RetirePacket_def ejected_def dest!: pop_class_len split: option.splits prod.splits)

lemma updatePacketStats_tm: "updatePacketStats a b c d e f net = Inr net' \<Longrightarrow> bn_tm net' = bn_tm net \<and> bn_packet_map net' = bn_packet_map net \<and> bn_switches net' = bn_switches net"
  by (auto simp: updatePacketStats_def Let_def bnd_Inr_iff split: if_splits)

lemma enqueueBooksimMessage_tm: "enqueueBooksimMessage ck pid net = Inr net' \<Longrightarrow> bn_tm net' = bn_tm net"
  by (auto simp: enqueueBooksimMessage_def Let_def bnd_Inr_iff split: option.splits)

function RetirePackets :: "clock \<Rightarrow> 'e bcfg \<Rightarrow> ('p, 'e) bnet \<Rightarrow> ('p, 'e) bnet res" where
  "RetirePackets ck bc net =
     (let (rp, tm) = Wrapper_RetirePacket (bc_ops bc) (bn_tm net); net = net\<lparr>bn_tm := tm\<rparr> in
      if rp_pid rp = - 1 then Inr net
      else
        bnd (if rp_pid rp > - 1 then
               bnd (updatePacketStats (rp_plat rp) (rp_nlat rp) (rp_hops rp) (rp_psize rp) (rp_src rp) (rp_dest rp) net)
                 (enqueueBooksimMessage ck (rp_pid rp))
             else Inr net) (RetirePackets ck bc))"
  by pat_completeness auto
termination
proof (relation "measure (\<lambda>(ck, bc, net). ejected (bn_tm net))", goal_cases)
  case (2 ck bc net x rp tm net1 net2)
  obtain h t s where r: "RetirePacket (bc_ops bc) (bn_tm net) = ((h, t), s)" by (metis surj_pair)
  have "bn_tm net2 = s" "fl_pid h \<noteq> - 1"
    using 2 r by (auto simp: Wrapper_RetirePacket_def bnd_Inr_iff dest!: updatePacketStats_tm enqueueBooksimMessage_tm split: if_splits)
  then show ?case using RetirePacket_len [OF r] by simp
qed simp

declare RetirePackets.simps [simp del]

text \<open>One call of \<^verbatim>\<open>RunNetwork\<close>; \<^verbatim>\<open>_internal_cycles\<close> is changed by the loop only.\<close>

definition network_cycle :: "clock \<Rightarrow> 'e bcfg \<Rightarrow> ('p, 'e) bnet \<Rightarrow> ('p, 'e) bnet res" where
  "network_cycle ck bc net =
     (let net = net\<lparr>bn_stat := (bn_stat net)\<lparr>total_cycles := total_cycles (bn_stat net) + 1\<rparr>\<rparr> in
      bnd (for_each (ReadMessage ck bc) (range0 (vlen (bn_switches net))) net) (\<lambda>net.
      bnd (RunCycles (bc_tm bc) (bc_ops bc) 1 (bn_tm net, bn_env net)) (\<lambda>(tm, e).
      bnd (RetirePackets ck bc (net\<lparr>bn_tm := tm, bn_env := e\<rparr>)) (\<lambda>net.
      Inr (net\<lparr>bn_internal_cycles := bn_internal_cycles net - 1\<rparr>)))))"

definition RunNetwork :: "clock \<Rightarrow> 'e bcfg \<Rightarrow> ('p, 'e) bnet \<Rightarrow> ('p, 'e) bnet res" where
  "RunNetwork ck bc net =
     (let net = net\<lparr>bn_internal_cycles := bn_internal_cycles net + bn_internal_speedup net\<rparr> in
      for_each (\<lambda>_. network_cycle ck bc) (range0 (bn_internal_cycles net)) net)"

text \<open>\<^verbatim>\<open>NetworkInterface::wakeup\<close>; the flag says whether the interface asks to be woken in the next cycle.\<close>

definition wakeup :: "clock \<Rightarrow> 'e bcfg \<Rightarrow> ('p, 'e) bnet \<Rightarrow> (bool \<times> ('p, 'e) bnet) res" where
  "wakeup ck bc net =
     (if bn_wakeup_cycles net \<le> ck_edge ck then
        bnd (RunNetwork ck bc net) (\<lambda>net. Inr (CheckInFlightPackets (bn_tm net), net\<lparr>bn_wakeup_cycles := ck_edge ck + 1\<rparr>))
      else Inr (False, net))"

end
