(* ===== verification/Bridge_Delivery.thy ===== *)
theory Bridge_Delivery
  imports Bridge
begin

text \<open>
  A message for one node crosses the bridge: it is taken from the input buffer, registered under the number of the packet that stands
  for it, and when that packet is retired it is put into the output buffer of its destination. A message for several nodes can lose
  copies when the injection queue fills up.
\<close>

section \<open>Sending\<close>

definition sendable :: "clock \<Rightarrow> 'e bcfg \<Rightarrow> int \<Rightarrow> int \<Rightarrow> int \<Rightarrow> 'p message \<Rightarrow> ('p, 'e) bnet \<Rightarrow> bool" where
  "sendable ck bc sid vn node m net \<longleftrightarrow>
     (let cfg = bc_tm bc; ops = bc_ops bc; s = bn_tm net; v = op_GetVirtualNode ops sid; d = op_GetActualNode ops node in
      tm_wf cfg s \<and> 0 \<le> v \<and> v < tc_nodes cfg \<and> op_GetActualNode ops v = sid \<and> 0 \<le> node \<and> node < tc_nodes cfg \<and> d \<noteq> - 1 \<and> d \<noteq> sid \<and>
      0 \<le> vn \<and> vn < tc_classes cfg \<and> vlen (queue_at v vn s) < tc_inj_size cfg \<and> 1 \<le> flits_of (mg_bytes m) \<and>
      ticksToCycles ck (mg_time m) \<le> ck_cycle ck \<and>
      (\<exists>p. packet_pri cfg v vn (tm_time s - int64 ((ck_cycle ck - ticksToCycles ck (mg_time m)) * bn_internal_speedup net)) s = Inr p) \<and>
      map_of (vat (tm_retired_packets s) vn) (tm_cur_pid s) = None \<and> list_all (list_all (\<lambda>q. q = [])) (tw_ejection_queue s) \<and>
      tm_cur_pid s < 2147483648 \<and> map_of (bn_packet_map net) (tm_cur_pid s) = None)"

text \<open>The flits that a packet adds to the injection queue of its source.\<close>

definition new_flits :: "'e bcfg \<Rightarrow> int \<Rightarrow> int \<Rightarrow> tmw \<Rightarrow> tmw \<Rightarrow> flit list" where
  "new_flits bc sid vn s s1 =
     drop (length (queue_at (op_GetVirtualNode (bc_ops bc) sid) vn s)) (queue_at (op_GetVirtualNode (bc_ops bc) sid) vn s1)"

lemma sendable_generate:
  fixes net :: "('p, 'e) bnet"
  assumes "sendable ck bc sid vn node m net"
  shows "\<exists>t s1. inject_time ck (bn_internal_speedup net) m = Inr t \<and>
    Wrapper_GeneratePacket (bc_tm bc) (bc_ops bc) sid (op_GetActualNode (bc_ops bc) node) (flits_of (mg_bytes m)) vn t (bn_tm net) = Inr (tm_cur_pid (bn_tm net), s1) \<and>
    0 \<le> tm_cur_pid (bn_tm net) \<and>
    (\<forall>gs. list_all2 carried (new_flits bc sid vn (bn_tm net) s1) gs \<longrightarrow>
      (\<exists>s2 h tl s3. for_each (RetireFlit (bc_tm bc) (bc_ops bc) RetirePacket_wrapper node) gs s1 = Inr s2 \<and> RetirePacket (bc_ops bc) s2 = ((h, tl), s3) \<and>
        fl_pid h = tm_cur_pid (bn_tm net) \<and> fl_src h = sid \<and> fl_dest h = op_GetActualNode (bc_ops bc) node \<and>
        list_all (list_all (\<lambda>q. q = [])) (tw_ejection_queue s3)))"
proof -
  let ?cfg = "bc_tm bc" and ?ops = "bc_ops bc" and ?s = "bn_tm net" and ?v = "op_GetVirtualNode (bc_ops bc) sid" and ?d = "op_GetActualNode (bc_ops bc) node"
  define t where "t = int64 ((ck_cycle ck - ticksToCycles ck (mg_time m)) * bn_internal_speedup net)"
  have h: "tm_wf ?cfg ?s" "0 \<le> ?v" "?v < tc_nodes ?cfg" "0 \<le> vn" "vn < tc_classes ?cfg" "vlen (queue_at ?v vn ?s) < tc_inj_size ?cfg" "?d \<noteq> - 1"
      "1 \<le> flits_of (mg_bytes m)" "0 \<le> node" "node < tc_nodes ?cfg" "op_GetActualNode ?ops ?v = sid"
      "map_of (vat (tm_retired_packets ?s) vn) (tm_cur_pid ?s) = None" "list_all (list_all (\<lambda>q. q = [])) (tw_ejection_queue ?s)"
      "ticksToCycles ck (mg_time m) \<le> ck_cycle ck"
    using assms unfolding sendable_def Let_def by auto
  obtain p where p: "packet_pri ?cfg ?v vn (tm_time ?s - t) ?s = Inr p" using assms unfolding sendable_def Let_def t_def by blast
  have it: "inject_time ck (bn_internal_speedup net) m = Inr t" using h(14) by (simp add: inject_time_def t_def Let_def)
  obtain pid s1 where g: "GeneratePacket ?cfg ?ops sid ?d (flits_of (mg_bytes m)) vn (tm_time ?s - t) ?s = Inr (pid, s1)" "0 \<le> pid" "pid = tm_cur_pid ?s"
      "\<And>gs. list_all2 carried (new_flits bc sid vn ?s s1) gs \<Longrightarrow>
        (\<exists>s2 h t s3. for_each (RetireFlit ?cfg ?ops RetirePacket_wrapper node) gs s1 = Inr s2 \<and> RetirePacket ?ops s2 = ((h, t), s3) \<and>
        fl_pid h = pid \<and> fl_src h = sid \<and> fl_dest h = ?d \<and> tw_ejection_queue s3 = tw_ejection_queue ?s)"
    using packet_returns [OF h(1-8) p h(9,10) refl h(11,12,13)] unfolding new_flits_def by metis
  have "\<exists>s2 h tl s3. for_each (RetireFlit ?cfg ?ops RetirePacket_wrapper node) gs s1 = Inr s2 \<and> RetirePacket ?ops s2 = ((h, tl), s3) \<and>
      fl_pid h = tm_cur_pid ?s \<and> fl_src h = sid \<and> fl_dest h = ?d \<and> list_all (list_all (\<lambda>q. q = [])) (tw_ejection_queue s3)"
    if "list_all2 carried (new_flits bc sid vn ?s s1) gs" for gs
    using g(4) [OF that] g(3) h(13) by metis
  then show ?thesis using it g(1-3) by (intro exI [of _ t] exI [of _ s1]) (simp add: Wrapper_GeneratePacket_def)
qed

lemma personal_unicast:
  assumes "machines_ok (bc_machines bc) (bc_nbits bc)"
  shows "\<exists>d0. personal bc [x] x = Inr d0 \<and> dest_ok (bc_machines bc) (bc_nbits bc) d0 \<and> elems d0 = {}"
  using NetDest_new_ok [OF assms] by (auto simp: personal_def)

lemma send_copy_unicast:
  fixes net :: "('p, 'e) bnet"
  assumes mo: "machines_ok (bc_machines bc) (bc_nbits bc)" and d: "dest_ok (bc_machines bc) (bc_nbits bc) (mg_Destination m)"
    and id: "vget (bn_switchID net) x = Inr pd" "pd \<noteq> sid" "0 \<le> pd" "pd < vlen (bn_switches net)"
    and t: "inject_time ck (bn_internal_speedup net) m = Inr t"
    and g: "Wrapper_GeneratePacket (bc_tm bc) (bc_ops bc) sid pd (flits_of (mg_bytes m)) vn t (bn_tm net) = Inr (pid, s1)" "0 \<le> pid"
  shows "\<exists>d'. send_copy ck bc sid vn [x] x (dq, m, net) = Inr (True, m\<lparr>mg_Destination := d'\<rparr>,
    (updateInjectStats (flits_of (mg_bytes m)) (net\<lparr>bn_tm := s1\<rparr>))\<lparr>bn_packet_map :=
      map_put pid \<lparr>bm_network_switch = pd, bm_dest = x, bm_subnet = vn, bm_msg = m\<rparr> (bn_packet_map net)\<rparr>)"
proof -
  obtain d0 where d0: "personal bc [x] x = Inr d0" "dest_ok (bc_machines bc) (bc_nbits bc) d0" using personal_unicast [OF mo] by blast
  obtain d' where "NetDest_removeNetDest d0 (mg_Destination m) = Inr d'" using addNetDest_ok(3) [OF d d0(2)] by blast
  then show ?thesis using id t g d0(1)
    by (intro exI [of _ d']) (simp add: send_copy_def Let_def copy_for_def putBooksimMessage_def updateInjectStats_def)
qed

text \<open>Replacing an input buffer.\<close>

definition put_in :: "int \<Rightarrow> int \<Rightarrow> int \<Rightarrow> 'p mbuf \<Rightarrow> ('p, 'e) bnet \<Rightarrow> ('p, 'e) bnet" where
  "put_in sid port vn b net =
     (let sw = vat (bn_switches net) sid; bs = sw_in_buffers sw in
      net\<lparr>bn_switches := vupd (bn_switches net) sid (sw\<lparr>sw_in_buffers := vupd bs port (vupd (vat bs port) vn (Some b))\<rparr>)\<rparr>)"

definition in_at :: "int \<Rightarrow> int \<Rightarrow> int \<Rightarrow> ('p, 'e) bnet \<Rightarrow> 'p mbuf option" where
  "in_at sid port vn net = vat (vat (sw_in_buffers (vat (bn_switches net) sid)) port) vn"

definition has_in :: "int \<Rightarrow> int \<Rightarrow> int \<Rightarrow> ('p, 'e) bnet \<Rightarrow> bool" where
  "has_in sid port vn net \<longleftrightarrow> 0 \<le> sid \<and> sid < vlen (bn_switches net) \<and> 0 \<le> port \<and> port < vlen (sw_in_buffers (vat (bn_switches net) sid)) \<and>
     0 \<le> vn \<and> vn < vlen (vat (sw_in_buffers (vat (bn_switches net) sid)) port)"

lemma in_buffer_at: "has_in sid port vn net \<Longrightarrow> in_buffer sid port vn net = Inr (in_at sid port vn net)"
  by (simp add: has_in_def in_buffer_def in_at_def)

lemma set_in_buffer_put: "has_in sid port vn net \<Longrightarrow> set_in_buffer sid port vn b net = Inr (put_in sid port vn b net)"
  by (simp add: has_in_def set_in_buffer_def put_in_def upd_at_def Let_def)

lemma put_in_fields [simp]:
  "bn_tm (put_in sid port vn b net) = bn_tm net" "bn_packet_map (put_in sid port vn b net) = bn_packet_map net"
  "bn_switchID (put_in sid port vn b net) = bn_switchID net" "bn_stat (put_in sid port vn b net) = bn_stat net"
  "bn_internal_speedup (put_in sid port vn b net) = bn_internal_speedup net" "vlen (bn_switches (put_in sid port vn b net)) = vlen (bn_switches net)"
  by (simp_all add: put_in_def Let_def)

lemma has_in_put [simp]: "has_in sid port vn net \<Longrightarrow> has_in sid port vn (put_in sid port vn b net)"
  by (simp add: has_in_def put_in_def Let_def)

lemma in_at_put [simp]: "has_in sid port vn net \<Longrightarrow> in_at sid port vn (put_in sid port vn b net) = Some b"
  by (simp add: has_in_def in_at_def put_in_def Let_def)

lemma switch_put:
  "has_in sid port vn net \<Longrightarrow> 0 \<le> k \<Longrightarrow> k \<noteq> sid \<Longrightarrow> vat (bn_switches (put_in sid port vn b net)) k = vat (bn_switches net) k"
  by (simp add: has_in_def put_in_def Let_def)

lemma has_in_cong: "bn_switches net = bn_switches net' \<Longrightarrow> has_in sid port vn net = has_in sid port vn net'"
  by (simp add: has_in_def)

lemma isReady_ok: "mb_can_get now b \<Longrightarrow> isReady now b = Inr (True, b)"
  by (auto simp: isReady_def mb_can_get_def Let_def)

text \<open>The network after the message at the head of an input buffer was sent as packet \<open>pid\<close>.\<close>

definition sent :: "int \<Rightarrow> int \<Rightarrow> int \<Rightarrow> int \<Rightarrow> 'p message list \<Rightarrow> int \<Rightarrow> 'p BooksimMessage \<Rightarrow> tmw \<Rightarrow> ('p, 'e) bnet \<Rightarrow> ('p, 'e) bnet \<Rightarrow> bool" where
  "sent sid port vn other rest pid bm s1 net net1 \<longleftrightarrow>
     has_in sid port vn net1 \<and> (\<exists>b1. in_at sid port vn net1 = Some b1 \<and> mb_prio_heap b1 = rest) \<and>
     bn_packet_map net1 = map_put pid bm (bn_packet_map net) \<and> bn_tm net1 = s1 \<and> bn_internal_speedup net1 = bn_internal_speedup net \<and>
     vlen (bn_switches net1) = vlen (bn_switches net) \<and> vat (bn_switches net1) other = vat (bn_switches net) other \<and>
     total_node_to_node_latency (bn_stat net1) = total_node_to_node_latency (bn_stat net) \<and>
     total_node_to_node_packets (bn_stat net1) = total_node_to_node_packets (bn_stat net)"

lemma dequeue_head:
  assumes "mb_can_get now b" "mb_prio_heap b = m # rest"
  shows "\<exists>m' b1. mb_dequeue now (b\<lparr>mb_prio_heap := m\<lparr>mg_Destination := d\<rparr> # rest\<rparr>) = Inr (m', b1) \<and> mb_prio_heap b1 = rest"
proof -
  have "mb_can_get now (b\<lparr>mb_prio_heap := m\<lparr>mg_Destination := d\<rparr> # rest\<rparr>)" "mg_LastEnqueueTime m \<le> now" using assms by (simp_all add: mb_can_get_def)
  then show ?thesis by (simp add: mb_dequeue_def assert_ready_ok peekMsgPtr_def updateDelayedTicks_def Let_def)
qed

lemma last_port_in:
  assumes "has_in sid port vn net" "0 \<le> other" "other \<noteq> sid"
  defines "net' \<equiv> net\<lparr>bn_switches := vupd (bn_switches net) sid ((vat (bn_switches net) sid)\<lparr>sw_last_port := port\<rparr>)\<rparr>"
  shows "has_in sid port vn net'" "in_at sid port vn net' = in_at sid port vn net" "vat (bn_switches net') other = vat (bn_switches net) other"
  using assms by (simp_all add: has_in_def in_at_def)

text \<open>The end of the body of \<^verbatim>\<open>ReadMessage\<close> for one buffer, when some copy was sent.\<close>

lemma read_buffer_sent:
  fixes net :: "('p, 'e) bnet"
  assumes i: "has_in sid port vn net" "in_at sid port vn net = Some b" and r: "mb_can_get (ck_edge ck) b" "mb_prio_heap b = m # rest"
    and all: "NetDest_getAllDest (bc_machines bc) (mg_Destination m) = Inr all_dest"
    and loop: "for_each (send_copy ck bc sid vn all_dest) all_dest (all_dest = [], m, put_in sid port vn b net) = Inr (True, m\<lparr>mg_Destination := d\<rparr>, n2)"
    and n2: "bn_switches n2 = bn_switches (put_in sid port vn b net)"
  shows "\<exists>net1. read_buffer ck bc sid port vn net = Inr net1 \<and> has_in sid port vn net1 \<and>
    (\<exists>b1. in_at sid port vn net1 = Some b1 \<and> mb_prio_heap b1 = rest) \<and> (\<exists>sws. net1 = n2\<lparr>bn_switches := sws\<rparr> \<and> vlen sws = vlen (bn_switches net)) \<and>
    (\<forall>k. 0 \<le> k \<and> k \<noteq> sid \<longrightarrow> vat (bn_switches net1) k = vat (bn_switches net) k)"
proof -
  obtain m' b1 where q: "mb_dequeue (ck_edge ck) (b\<lparr>mb_prio_heap := m\<lparr>mg_Destination := d\<rparr> # rest\<rparr>) = Inr (m', b1)" "mb_prio_heap b1 = rest"
    using dequeue_head [OF r] by blast
  have h2: "has_in sid port vn n2" using has_in_put [OF i(1), of b] has_in_cong [OF n2] by blast
  let ?n3 = "put_in sid port vn b1 n2"
  let ?n4 = "?n3\<lparr>bn_switches := vupd (bn_switches ?n3) sid ((vat (bn_switches ?n3) sid)\<lparr>sw_last_port := port\<rparr>)\<rparr>"
  have h3: "has_in sid port vn ?n3" by (rule has_in_put [OF h2])
  have "upd_at sid (\<lambda>sw. Inr (sw\<lparr>sw_last_port := port\<rparr>)) (bn_switches ?n3) = Inr (vupd (bn_switches ?n3) sid ((vat (bn_switches ?n3) sid)\<lparr>sw_last_port := port\<rparr>))"
    using h3 by (simp add: upd_at_def has_in_def)
  then have run: "read_buffer ck bc sid port vn net = Inr ?n4"
    using i r(2) isReady_ok [OF r(1)] all loop q(1) set_in_buffer_put [OF i(1)] set_in_buffer_put [OF h2]
    by (simp add: read_buffer_def in_buffer_at peekMsgPtr_def Let_def)
  have oth: "vat (bn_switches ?n4) k = vat (bn_switches net) k" if "0 \<le> k" "k \<noteq> sid" for k
    using last_port_in(3) [OF h3 that] switch_put [OF h2 that] n2 switch_put [OF i(1) that] by simp
  have "sid + 1 \<noteq> sid" "0 \<le> sid + 1" using i(1) by (simp_all add: has_in_def)
  then have "has_in sid port vn ?n4" "in_at sid port vn ?n4 = Some b1" using last_port_in(1,2) [OF h3, of "sid + 1"] in_at_put [OF h2] by simp_all
  moreover have "\<exists>sws. ?n4 = n2\<lparr>bn_switches := sws\<rparr> \<and> vlen sws = vlen (bn_switches net)"
    by (intro exI [of _ "bn_switches ?n4"]) (use n2 in \<open>simp add: put_in_def Let_def\<close>)
  ultimately show ?thesis using run q(2) oth by blast
qed

lemma read_unicast:
  fixes net :: "('p, 'e) bnet"
  assumes mo: "machines_ok (bc_machines bc) (bc_nbits bc)" and d: "dest_ok (bc_machines bc) (bc_nbits bc) (mg_Destination m)"
    and one: "NetDest_getAllDest (bc_machines bc) (mg_Destination m) = Inr [x]"
    and id: "vget (bn_switchID net) x = Inr pd" "pd \<noteq> sid" "0 \<le> pd" "pd < vlen (bn_switches net)"
    and t: "inject_time ck (bn_internal_speedup net) m = Inr t"
    and g: "Wrapper_GeneratePacket (bc_tm bc) (bc_ops bc) sid pd (flits_of (mg_bytes m)) vn t (bn_tm net) = Inr (pid, s1)" "0 \<le> pid"
    and i: "has_in sid port vn net" "in_at sid port vn net = Some b" and r: "mb_can_get (ck_edge ck) b" "mb_prio_heap b = m # rest"
  shows "\<exists>net1. read_buffer ck bc sid port vn net = Inr net1 \<and>
    sent sid port vn pd rest pid \<lparr>bm_network_switch = pd, bm_dest = x, bm_subnet = vn, bm_msg = m\<rparr> s1 net net1"
proof -
  let ?net = "put_in sid port vn b net" and ?bm = "\<lparr>bm_network_switch = pd, bm_dest = x, bm_subnet = vn, bm_msg = m\<rparr>"
  obtain d' where s: "send_copy ck bc sid vn [x] x (False, m, ?net) = Inr (True, m\<lparr>mg_Destination := d'\<rparr>,
      (updateInjectStats (flits_of (mg_bytes m)) (?net\<lparr>bn_tm := s1\<rparr>))\<lparr>bn_packet_map := map_put pid ?bm (bn_packet_map ?net)\<rparr>)"
      (is "_ = Inr (True, _, ?n2)")
    using send_copy_unicast [OF mo d, of ?net x pd sid ck t vn pid s1 False] id t g by auto
  have sw: "bn_switches ?n2 = bn_switches ?net" by (simp add: updateInjectStats_def)
  have l: "for_each (send_copy ck bc sid vn [x]) [x] ([x] = [], m, ?net) = Inr (True, m\<lparr>mg_Destination := d'\<rparr>, ?n2)" using s by simp
  obtain net1 sws where n1: "read_buffer ck bc sid port vn net = Inr net1" "has_in sid port vn net1" "\<exists>b1. in_at sid port vn net1 = Some b1 \<and> mb_prio_heap b1 = rest"
      "net1 = ?n2\<lparr>bn_switches := sws\<rparr>" "vlen sws = vlen (bn_switches net)" "vat (bn_switches net1) pd = vat (bn_switches net) pd"
    using read_buffer_sent [OF i r one l sw] id(2,3) by blast
  have "bn_packet_map net1 = map_put pid ?bm (bn_packet_map net)" "bn_tm net1 = s1" "bn_internal_speedup net1 = bn_internal_speedup net"
      "vlen (bn_switches net1) = vlen (bn_switches net)" "total_node_to_node_latency (bn_stat net1) = total_node_to_node_latency (bn_stat net)"
      "total_node_to_node_packets (bn_stat net1) = total_node_to_node_packets (bn_stat net)"
    unfolding n1(4) using n1(5) by (simp_all add: updateInjectStats_def)
  then show ?thesis using n1(1,2,3,6) unfolding sent_def by blast
qed

section \<open>Delivering\<close>

definition out_port :: "int \<Rightarrow> 'p nswitch \<Rightarrow> int" where
  "out_port x sw = (case map_of (sw_dest_port sw) x of Some p \<Rightarrow> p | None \<Rightarrow> 0)"

definition out_at :: "int \<Rightarrow> int \<Rightarrow> 'p nswitch \<Rightarrow> 'p mbuf" where
  "out_at x vn sw = vat (vat (sw_out_buffers sw) (out_port x sw)) vn"

definition has_out :: "int \<Rightarrow> int \<Rightarrow> 'p nswitch \<Rightarrow> bool" where
  "has_out x vn sw \<longleftrightarrow> 0 \<le> out_port x sw \<and> out_port x sw < vlen (sw_out_buffers sw) \<and> 0 \<le> vn \<and> vn < vlen (vat (sw_out_buffers sw) (out_port x sw))"

lemma EnqueueMessage_ok:
  assumes "has_out x vn sw" "fifo_inv (out_at x vn sw)" "mb_can_put m (ck_edge ck) (ck_period ck) (out_at x vn sw)"
  shows "\<exists>sw'. EnqueueMessage ck x vn m sw = Inr sw' \<and> contents (out_at x vn sw') = contents (out_at x vn sw) @ [mg_data m] \<and>
    sw_in_buffers sw' = sw_in_buffers sw"
proof -
  let ?p = "out_port x sw"
  obtain b where b: "mb_enqueue None False m (ck_edge ck) (ck_period ck) (out_at x vn sw) = Inr b" "contents b = contents (out_at x vn sw) @ [mg_data m]"
    using enqueue_fifo [OF assms(2,3)] by blast
  let ?sw = "sw\<lparr>sw_out_buffers := vupd (sw_out_buffers sw) ?p (vupd (vat (sw_out_buffers sw) ?p) vn b)\<rparr>"
  have "EnqueueMessage ck x vn m sw = Inr ?sw"
    using assms(1) b(1) by (simp add: EnqueueMessage_def out_port_def [symmetric] upd_at_def has_out_def out_at_def Let_def)
  moreover have "out_at x vn ?sw = b" using assms(1) by (simp add: out_at_def out_port_def [symmetric] has_out_def) (simp add: out_port_def)
  ultimately show ?thesis using b(2) by (intro exI [of _ ?sw]) simp
qed

lemma pop_none: "list_all (list_all (\<lambda>q. q = [])) rows \<Longrightarrow> pop_class rows = None"
proof (induction rows)
  case (Cons row rows)
  have "list_all (\<lambda>q. q = []) row \<Longrightarrow> pop_first row = None" by (induction row) auto
  then show ?case using Cons by simp
qed simp

lemma RetirePackets_idle:
  assumes "list_all (list_all (\<lambda>q. q = [])) (tw_ejection_queue (bn_tm net))"
  shows "RetirePackets ck bc net = Inr net"
  by (subst RetirePackets.simps) (simp add: Wrapper_RetirePacket_def RetirePacket_def pop_none [OF assms])

definition stats_for :: "int \<Rightarrow> int \<Rightarrow> bn_stats \<Rightarrow> bool" where
  "stats_for src dest st \<longleftrightarrow> 0 \<le> src \<and> 0 \<le> dest \<and>
     src < vlen (total_node_to_node_latency st) \<and> dest < vlen (vat (total_node_to_node_latency st) src) \<and>
     src < vlen (total_node_to_node_packets st) \<and> dest < vlen (vat (total_node_to_node_packets st) src)"

lemma updatePacketStats_ok:
  assumes "stats_for src dest (bn_stat net)" "bn_internal_speedup net \<noteq> 0"
  shows "\<exists>st. updatePacketStats a b c e src dest net = Inr (net\<lparr>bn_stat := st\<rparr>)"
  using assms by (simp add: updatePacketStats_def stats_for_def upd_at_def Let_def) blast

lemma map_put_same [simp]: "map_of (map_put k v m) k = Some v"
  by (simp add: map_put_def)

lemma filter_no_key: "map_of m k = None \<Longrightarrow> filter (\<lambda>(j, _). j \<noteq> k) m = m"
  by (rule filter_True) (auto simp: map_of_eq_None_iff image_iff)

lemma map_put_erase: "map_of m k = None \<Longrightarrow> filter (\<lambda>(j, _). j \<noteq> k) (map_put k v m) = m"
  by (simp add: map_put_def filter_no_key)

lemma retire_one:
  fixes net :: "('p, 'e) bnet"
  assumes rp: "RetirePacket (bc_ops bc) (bn_tm net) = ((h, f), s3)" "fl_pid h = pid" "fl_src h = sid" "fl_dest h = pd"
      "list_all (list_all (\<lambda>q. q = [])) (tw_ejection_queue s3)"
    and pid: "0 \<le> pid" "pid < 2147483648" and pm: "bn_packet_map net = map_put pid \<lparr>bm_network_switch = pd, bm_dest = x, bm_subnet = vn, bm_msg = m\<rparr> pm" "map_of pm pid = None"
    and st: "stats_for sid pd (bn_stat net)" "bn_internal_speedup net \<noteq> 0" and sw: "0 \<le> pd" "pd < vlen (bn_switches net)" "sw = vat (bn_switches net) pd"
    and out: "has_out x vn sw" "fifo_inv (out_at x vn sw)" "mb_can_put m (ck_edge ck) (ck_period ck) (out_at x vn sw)"
  shows "\<exists>net2 sw2. RetirePackets ck bc net = Inr net2 \<and> bn_packet_map net2 = pm \<and> bn_switches net2 = vupd (bn_switches net) pd sw2 \<and>
    contents (out_at x vn sw2) = contents (out_at x vn sw) @ [mg_data m]"
proof -
  obtain st' where u: "updatePacketStats (int32 (fl_atime f - fl_ctime h)) (int32 (fl_atime f - fl_itime h)) (fl_hops h) (fl_packet_size h) sid pd
      (net\<lparr>bn_tm := s3\<rparr>) = Inr (net\<lparr>bn_tm := s3, bn_stat := st'\<rparr>)"
    using updatePacketStats_ok [of sid pd "net\<lparr>bn_tm := s3\<rparr>"] st by (simp, blast)
  obtain sw2 where e: "EnqueueMessage ck x vn m sw = Inr sw2" "contents (out_at x vn sw2) = contents (out_at x vn sw) @ [mg_data m]"
    using EnqueueMessage_ok [OF out] by blast
  let ?net2 = "net\<lparr>bn_tm := s3, bn_stat := st', bn_switches := vupd (bn_switches net) pd sw2, bn_packet_map := pm\<rparr>"
  have "enqueueBooksimMessage ck pid (net\<lparr>bn_tm := s3, bn_stat := st'\<rparr>) = Inr ?net2"
    using pid pm sw e(1) by (simp add: enqueueBooksimMessage_def upd_at_def map_put_erase Let_def)
  then have "RetirePackets ck bc net = RetirePackets ck bc ?net2"
    using rp pid u by (subst RetirePackets.simps) (simp add: Wrapper_RetirePacket_def Let_def)
  also have "\<dots> = Inr ?net2" by (rule RetirePackets_idle) (use rp(5) in simp)
  finally show ?thesis using e(2) by (intro exI [of _ ?net2] exI [of _ sw2]) simp
qed

section \<open>Several destinations\<close>

lemma NetDest_clear_ok: "dest_ok mt n d \<Longrightarrow> dest_ok mt n (NetDest_clear d) \<and> elems (NetDest_clear d) = {}"
  by (auto simp: dest_ok_def elems_def NetDest_clear_def Set_clear_def)

lemma member_range:
  assumes "machines_ok mt n" "dest_ok mt n d" "x \<in> set (ids_of mt d)"
  shows "\<exists>i j. x = mt_base mt i + j \<and> 0 \<le> i \<and> i < mt_num mt \<and> 0 \<le> j \<and> j < mt_count mt i"
  using assms elems_range [OF assms(2)] by (fastforce simp: ids_of_iff [OF assms(1,2)])

lemma getAllDest_single:
  assumes mo: "machines_ok mt n" and d: "dest_ok mt n d" and e: "elems d = {(i, j)}" and x: "x = mt_base mt i + j"
  shows "NetDest_getAllDest mt d = Inr [x]"
proof -
  have "set (ids_of mt d) = {x}" using ids_of_iff [OF mo d] e x by auto
  then show ?thesis using distinct_ids_of [OF mo d] getAllDest_ids [OF mo d] by (cases "ids_of mt d") (auto simp: subset_singleton_iff)
qed

lemma personal_member:
  assumes mo: "machines_ok (bc_machines bc) (bc_nbits bc)" and x: "x = mt_base (bc_machines bc) i + j" "0 \<le> i" "i < mt_num (bc_machines bc)" "0 \<le> j" "j < mt_count (bc_machines bc) i"
    and l: "1 < vlen all_dest"
  shows "\<exists>pd. personal bc all_dest x = Inr pd \<and> dest_ok (bc_machines bc) (bc_nbits bc) pd \<and> elems pd = {(i, j)} \<and>
    copy_for bc all_dest x pd m = m\<lparr>mg_Destination := pd\<rparr>"
proof -
  let ?mt = "bc_machines bc" and ?n = "bc_nbits bc"
  obtain d0 where d0: "NetDest_new ?mt ?n = Inr d0" "dest_ok ?mt ?n d0" using NetDest_new_ok [OF mo] by blast
  have c: "dest_ok ?mt ?n (NetDest_clear d0)" "elems (NetDest_clear d0) = {}" using NetDest_clear_ok [OF d0(2)] by auto
  have f: "find_machine ?mt x = Some i" unfolding x(1) by (rule find_machine_ok [OF mo x(2-5)])
  obtain pd where "NetDest_add ?mt \<lparr>mi_type = i, mi_num = j\<rparr> (NetDest_clear d0) = Inr pd" "dest_ok ?mt ?n pd" "elems pd = {(i, j)}"
    using NetDest_add_ok [OF mo c(1), of "\<lparr>mi_type = i, mi_num = j\<rparr>"] x c(2) by auto
  then show ?thesis using d0(1) f l x(1) by (simp add: personal_def copy_for_def)
qed

lemma send_copy_accepted:
  fixes net :: "('p, 'e) bnet"
  assumes mo: "machines_ok (bc_machines bc) (bc_nbits bc)" and d: "dest_ok (bc_machines bc) (bc_nbits bc) (mg_Destination m)"
    and x: "x = mt_base (bc_machines bc) i + j" "0 \<le> i" "i < mt_num (bc_machines bc)" "0 \<le> j" "j < mt_count (bc_machines bc) i" and l: "1 < vlen all_dest"
    and id: "vget (bn_switchID net) x = Inr px" "px \<noteq> sid" "0 \<le> px" "px < vlen (bn_switches net)"
    and t: "inject_time ck (bn_internal_speedup net) m = Inr t"
    and g: "Wrapper_GeneratePacket (bc_tm bc) (bc_ops bc) sid px (flits_of (mg_bytes m)) vn t (bn_tm net) = Inr (pid, s1)" "0 \<le> pid"
  shows "\<exists>pd d'. dest_ok (bc_machines bc) (bc_nbits bc) pd \<and> elems pd = {(i, j)} \<and> dest_ok (bc_machines bc) (bc_nbits bc) d' \<and> elems d' = elems (mg_Destination m) - {(i, j)} \<and>
    send_copy ck bc sid vn all_dest x (dq, m, net) = Inr (True, m\<lparr>mg_Destination := d'\<rparr>,
      (updateInjectStats (flits_of (mg_bytes m)) (net\<lparr>bn_tm := s1\<rparr>))\<lparr>bn_packet_map :=
        map_put pid \<lparr>bm_network_switch = px, bm_dest = x, bm_subnet = vn, bm_msg = m\<lparr>mg_Destination := pd\<rparr>\<rparr> (bn_packet_map net)\<rparr>)"
proof -
  obtain pd where pd: "personal bc all_dest x = Inr pd" "dest_ok (bc_machines bc) (bc_nbits bc) pd" "elems pd = {(i, j)}"
      "copy_for bc all_dest x pd m = m\<lparr>mg_Destination := pd\<rparr>" using personal_member [OF mo x l, of m] by blast
  obtain d' where d': "NetDest_removeNetDest pd (mg_Destination m) = Inr d'" "dest_ok (bc_machines bc) (bc_nbits bc) d'"
      "elems d' = elems (mg_Destination m) - {(i, j)}" using addNetDest_ok(3) [OF d pd(2)] pd(3) by auto
  have "send_copy ck bc sid vn all_dest x (dq, m, net) = Inr (True, m\<lparr>mg_Destination := d'\<rparr>,
      (updateInjectStats (flits_of (mg_bytes m)) (net\<lparr>bn_tm := s1\<rparr>))\<lparr>bn_packet_map :=
        map_put pid \<lparr>bm_network_switch = px, bm_dest = x, bm_subnet = vn, bm_msg = m\<lparr>mg_Destination := pd\<rparr>\<rparr> (bn_packet_map net)\<rparr>)"
    using id t g pd(1,4) d'(1) by (simp add: send_copy_def Let_def putBooksimMessage_def updateInjectStats_def)
  then show ?thesis using pd(2,3) d'(2,3) by blast
qed

lemma send_copy_refused:
  fixes net :: "('p, 'e) bnet"
  assumes mo: "machines_ok (bc_machines bc) (bc_nbits bc)"
    and x: "x = mt_base (bc_machines bc) i + j" "0 \<le> i" "i < mt_num (bc_machines bc)" "0 \<le> j" "j < mt_count (bc_machines bc) i" and l: "1 < vlen all_dest"
    and id: "vget (bn_switchID net) x = Inr px" "px \<noteq> sid" and t: "inject_time ck (bn_internal_speedup net) m = Inr t"
    and g: "Wrapper_GeneratePacket (bc_tm bc) (bc_ops bc) sid px (flits_of (mg_bytes m)) vn t (bn_tm net) = Inr (- 1, s1)"
  shows "send_copy ck bc sid vn all_dest x (dq, m, net) = Inr (dq, m, net\<lparr>bn_tm := s1\<rparr>)"
proof -
  obtain pd where "personal bc all_dest x = Inr pd" using personal_member [OF mo x l] by blast
  then show ?thesis using id t g by (simp add: send_copy_def Let_def)
qed

declare demo_stats_def [code del]

text \<open>Two switches with the nodes 0 to 4 of \<open>two_types\<close>; a message with number 7 waits at the first switch, the second has one output port.\<close>

definition mail_bc :: "int \<Rightarrow> unit bcfg" where
  "mail_bc inj_size = \<lparr>bc_machines = two_types, bc_nbits = 4, bc_tm = demo_cfg\<lparr>tc_inj_size := inj_size\<rparr>, bc_ops = demo_ops\<rparr>"

definition mail_msg :: "(int \<times> int) list \<Rightarrow> int message" where
  "mail_msg ds = \<lparr>mg_time = 10, mg_LastEnqueueTime = 20, mg_DelayedTicks = 0, mg_msg_counter = 1, mg_Destination = dest_of ds, mg_bytes = 72, mg_data = 7\<rparr>"

definition mail_out :: "int mbuf" where
  "mail_out = new_MessageBuffer 0 0 True False\<lparr>mb_consumer := True\<rparr>"

definition mail_net :: "(int \<times> int) list \<Rightarrow> (int, unit) bnet" where
  "mail_net ds = \<lparr>bn_switches =
       [\<lparr>sw_in_buffers = [[Some (new_MessageBuffer 0 0 True False\<lparr>mb_consumer := True, mb_prio_heap := [mail_msg ds]\<rparr>)]], sw_out_buffers = [],
          sw_dest_port = [], sw_last_port = 0\<rparr>,
        \<lparr>sw_in_buffers = [], sw_out_buffers = [[mail_out]], sw_dest_port = [(1, 0), (2, 0)], sw_last_port = 0\<rparr>],
     bn_switchID = [0, 1, 1, 0, 1], bn_packet_map = [], bn_internal_speedup = 1, bn_internal_cycles = 0, bn_wakeup_cycles = 0,
     bn_stat = \<lparr>total_packet_lat = 0, total_network_lat = 0, total_hops = 0, total_cycles = 0, total_inject_flits = 0, total_accept_flits = 0,
       total_inject_packets = 0, total_accept_packets = 0, total_node_to_node_latency = [[0, 0], [0, 0]], total_node_to_node_packets = [[0, 0], [0, 0]]\<rparr>,
     bn_tm = demo_tm, bn_env = ()\<rparr>"

definition mail_ck :: clock where
  "mail_ck = \<lparr>ck_edge = 40, ck_cycle = 4, ck_period = 10\<rparr>"

lemma result_pairE: "(case x of Inl _ \<Rightarrow> False | Inr (a, b) \<Rightarrow> P a b) \<Longrightarrow> (\<And>a b. x = Inr (a, b) \<Longrightarrow> P a b \<Longrightarrow> R) \<Longrightarrow> R"
  by (auto split: sum.splits prod.splits)

lemma mail_ok:
  "machines_ok (bc_machines (mail_bc n)) (bc_nbits (mail_bc n))"
  "dest_ok (bc_machines (mail_bc n)) (bc_nbits (mail_bc n)) (mg_Destination (mail_msg [(0, 1), (0, 2)]))"
  "dest_ok (bc_machines (mail_bc n)) (bc_nbits (mail_bc n)) (mg_Destination (mail_msg [(0, 2)]))"
proof -
  have s: "{0..<mt_num two_types} = {0, 1}" "{0..<4 :: int} = {0, 1, 2, 3}" by (auto simp: two_types_def)
  show "dest_ok (bc_machines (mail_bc n)) (bc_nbits (mail_bc n)) (mg_Destination (mail_msg [(0, 1), (0, 2)]))"
      "dest_ok (bc_machines (mail_bc n)) (bc_nbits (mail_bc n)) (mg_Destination (mail_msg [(0, 2)]))"
    unfolding dest_ok_def mail_bc_def bcfg.select_convs s by (simp_all add: dest_of_def two_types_def mail_msg_def vat_def)
qed (simp add: mail_bc_def two_types_ok)

lemma mail_in:
  "has_in 0 0 0 (mail_net ds)" "in_at 0 0 0 (mail_net ds) = Some (new_MessageBuffer 0 0 True False\<lparr>mb_consumer := True, mb_prio_heap := [mail_msg ds]\<rparr>)"
  "mb_can_get (ck_edge mail_ck) (new_MessageBuffer 0 0 True False\<lparr>mb_consumer := True, mb_prio_heap := [mail_msg ds]\<rparr>)"
  by (simp_all add: has_in_def in_at_def mail_net_def vat_def mb_can_get_def mail_ck_def mail_msg_def new_MessageBuffer_def)

lemma mail_sendable: "sendable mail_ck (mail_bc 10) 0 0 1 (mail_msg [(0, 2)]) (mail_net [(0, 2)])"
proof -
  have c: "bc_tm (mail_bc 10) = demo_cfg" "bc_ops (mail_bc 10) = demo_ops" "bn_tm (mail_net ds) = demo_tm" for ds
    by (simp_all add: mail_bc_def demo_cfg_def mail_net_def)
  have q: "vlen (queue_at 0 0 demo_tm) < tc_inj_size demo_cfg" "map_of (vat (tm_retired_packets demo_tm) 0) (tm_cur_pid demo_tm) = None"
      "list_all (list_all (\<lambda>q. q = [])) (tw_ejection_queue demo_tm)" "tm_cur_pid demo_tm = 0" by code_simp+
  have "packet_pri demo_cfg 0 0 t demo_tm = Inr 0" for t by (simp add: packet_pri_def demo_cfg_def)
  moreover have "flits_of 72 = 5" "ticksToCycles mail_ck 10 = 1" by code_simp+
  ultimately show ?thesis using q demo_tm_wf
    by (simp add: sendable_def c Let_def) (simp add: demo_ops_def demo_cfg_def mail_msg_def mail_ck_def mail_net_def)
qed

section \<open>Properties\<close>

text \<open>
  C16: A message for a node at another switch is delivered. When it is the ready head of an input buffer, the body of \<^verbatim>\<open>ReadMessage\<close> for that
  buffer takes it out and injects a packet for it; when the flits of that packet have arrived in order and were retired, \<^verbatim>\<open>RetirePackets\<close> puts the message behind the
  others in the output buffer of its node, on its virtual network, and the packet map is what it was before. Nothing aborts on the
  way.
\<close>

theorem message_delivered:
  fixes net :: "('p, 'e) bnet"
  assumes mo: "machines_ok (bc_machines bc) (bc_nbits bc)" and d: "dest_ok (bc_machines bc) (bc_nbits bc) (mg_Destination m)"
    and one: "NetDest_getAllDest (bc_machines bc) (mg_Destination m) = Inr [x]"
    and i: "has_in sid port vn net" "in_at sid port vn net = Some b" "mb_can_get (ck_edge ck) b" "mb_prio_heap b = m # rest"
    and s: "sendable ck bc sid vn node m net"
    and pd: "pd = op_GetActualNode (bc_ops bc) node" "vget (bn_switchID net) x = Inr pd" "pd < vlen (bn_switches net)"
    and st: "stats_for sid pd (bn_stat net)" "bn_internal_speedup net \<noteq> 0"
    and out: "has_out x vn (vat (bn_switches net) pd)" "fifo_inv (out_at x vn (vat (bn_switches net) pd))"
  shows "\<exists>net1. read_buffer ck bc sid port vn net = Inr net1 \<and> (\<exists>b1. in_at sid port vn net1 = Some b1 \<and> mb_prio_heap b1 = rest) \<and>
    (\<forall>gs ck2. list_all2 carried (new_flits bc sid vn (bn_tm net) (bn_tm net1)) gs \<and>
        mb_can_put m (ck_edge ck2) (ck_period ck2) (out_at x vn (vat (bn_switches net) pd)) \<longrightarrow>
      (\<exists>tm2 net2. for_each (RetireFlit (bc_tm bc) (bc_ops bc) RetirePacket_wrapper node) gs (bn_tm net1) = Inr tm2 \<and>
        RetirePackets ck2 bc (net1\<lparr>bn_tm := tm2\<rparr>) = Inr net2 \<and> bn_packet_map net2 = bn_packet_map net \<and>
        contents (out_at x vn (vat (bn_switches net2) pd)) = contents (out_at x vn (vat (bn_switches net) pd)) @ [mg_data m]))"
proof -
  let ?pid = "tm_cur_pid (bn_tm net)" and ?sw = "vat (bn_switches net) pd"
  have sd: "pd \<noteq> sid" "?pid < 2147483648" "map_of (bn_packet_map net) ?pid = None" using s unfolding sendable_def pd(1) Let_def by auto
  have p0: "0 \<le> pd" using st(1) by (simp add: stats_for_def)
  obtain t s1 where g: "inject_time ck (bn_internal_speedup net) m = Inr t"
      "Wrapper_GeneratePacket (bc_tm bc) (bc_ops bc) sid pd (flits_of (mg_bytes m)) vn t (bn_tm net) = Inr (?pid, s1)" "0 \<le> ?pid"
      "\<And>gs. list_all2 carried (new_flits bc sid vn (bn_tm net) s1) gs \<Longrightarrow>
        \<exists>s2 h f s3. for_each (RetireFlit (bc_tm bc) (bc_ops bc) RetirePacket_wrapper node) gs s1 = Inr s2 \<and> RetirePacket (bc_ops bc) s2 = ((h, f), s3) \<and>
          fl_pid h = ?pid \<and> fl_src h = sid \<and> fl_dest h = pd \<and> list_all (list_all (\<lambda>q. q = [])) (tw_ejection_queue s3)"
    using sendable_generate [OF s] unfolding pd(1) by metis
  let ?bm = "\<lparr>bm_network_switch = pd, bm_dest = x, bm_subnet = vn, bm_msg = m\<rparr>"
  obtain net1 where n1: "read_buffer ck bc sid port vn net = Inr net1" "sent sid port vn pd rest ?pid ?bm s1 net net1"
    using read_unicast [OF mo d one pd(2) sd(1) p0 pd(3) g(1,2,3) i] by blast
  have f1: "bn_tm net1 = s1" "bn_packet_map net1 = map_put ?pid ?bm (bn_packet_map net)" "vat (bn_switches net1) pd = ?sw"
      "vlen (bn_switches net1) = vlen (bn_switches net)" "stats_for sid pd (bn_stat net1)" "bn_internal_speedup net1 \<noteq> 0"
    using n1(2) st by (simp_all add: sent_def stats_for_def)
  have deliver: "\<exists>tm2 net2. for_each (RetireFlit (bc_tm bc) (bc_ops bc) RetirePacket_wrapper node) gs s1 = Inr tm2 \<and>
        RetirePackets ck2 bc (net1\<lparr>bn_tm := tm2\<rparr>) = Inr net2 \<and> bn_packet_map net2 = bn_packet_map net \<and>
        contents (out_at x vn (vat (bn_switches net2) pd)) = contents (out_at x vn ?sw) @ [mg_data m]"
    if gs: "list_all2 carried (new_flits bc sid vn (bn_tm net) s1) gs" and room: "mb_can_put m (ck_edge ck2) (ck_period ck2) (out_at x vn ?sw)" for gs ck2
  proof -
    obtain s2 h f s3 where r: "for_each (RetireFlit (bc_tm bc) (bc_ops bc) RetirePacket_wrapper node) gs s1 = Inr s2" "RetirePacket (bc_ops bc) s2 = ((h, f), s3)"
        "fl_pid h = ?pid" "fl_src h = sid" "fl_dest h = pd" "list_all (list_all (\<lambda>q. q = [])) (tw_ejection_queue s3)" using g(4) [OF gs] by blast
    have "\<exists>net2 sw2. RetirePackets ck2 bc (net1\<lparr>bn_tm := s2\<rparr>) = Inr net2 \<and> bn_packet_map net2 = bn_packet_map net \<and>
        bn_switches net2 = vupd (bn_switches (net1\<lparr>bn_tm := s2\<rparr>)) pd sw2 \<and> contents (out_at x vn sw2) = contents (out_at x vn ?sw) @ [mg_data m]"
      by (rule retire_one [where h = h and f = f and ?s3.0 = s3 and pid = ?pid and sid = sid]) (use r f1 sd g(3) p0 pd(3) out room in simp_all)
    then show ?thesis using r(1) f1(4) p0 pd(3) by auto
  qed
  show ?thesis
  proof (intro exI [of _ net1] conjI allI impI)
    show "\<exists>b1. in_at sid port vn net1 = Some b1 \<and> mb_prio_heap b1 = rest" using n1(2) by (simp add: sent_def)
  qed (use n1(1) deliver in \<open>simp_all add: f1(1)\<close>)
qed

theorem message_delivered_witness:
  "\<exists>net1. read_buffer mail_ck (mail_bc 10) 0 0 0 (mail_net [(0, 2)]) = Inr net1 \<and> (\<exists>b1. in_at 0 0 0 net1 = Some b1 \<and> mb_prio_heap b1 = [])"
proof -
  let ?n = "mail_net [(0, 2)]"
  have all: "NetDest_getAllDest (bc_machines (mail_bc 10)) (mg_Destination (mail_msg [(0, 2)])) = Inr [2]" by code_simp
  have o: "vget (bn_switchID ?n) 2 = Inr 1" "1 < vlen (bn_switches ?n)" "stats_for 0 1 (bn_stat ?n)" "bn_internal_speedup ?n \<noteq> 0"
      "has_out 2 0 (vat (bn_switches ?n) 1)" "out_at 2 0 (vat (bn_switches ?n) 1) = mail_out" by code_simp+
  have a: "1 = op_GetActualNode (bc_ops (mail_bc 10)) 1" by (simp add: mail_bc_def demo_ops_def)
  have f: "fifo_inv (out_at 2 0 (vat (bn_switches ?n) 1))" unfolding o(6) by (simp add: fifo_inv_def mail_out_def new_MessageBuffer_def)
  have h: "mb_prio_heap (new_MessageBuffer 0 0 True False\<lparr>mb_consumer := True, mb_prio_heap := [mail_msg [(0, 2)]]\<rparr>) = mail_msg [(0, 2)] # []" by simp
  show ?thesis using message_delivered [OF mail_ok(1,3) all mail_in h mail_sendable a o(1-5) f] by blast
qed

text \<open>
  C20: A message for two nodes at other switches loses a copy when the injection queue has room for the first packet only. The second
  packet is refused, but the message is taken out of the buffer because the first was accepted: the packet map gains the entry of the
  first copy and nothing else, no other switch changes, and the second node is not among the destinations of the copy.
\<close>

theorem multicast_copy_lost:
  fixes net :: "('p, 'e) bnet"
  assumes mo: "machines_ok (bc_machines bc) (bc_nbits bc)" and d: "dest_ok (bc_machines bc) (bc_nbits bc) (mg_Destination m)"
    and two: "NetDest_getAllDest (bc_machines bc) (mg_Destination m) = Inr [x, y]"
    and i: "has_in sid port vn net" "in_at sid port vn net = Some b" "mb_can_get (ck_edge ck) b" "mb_prio_heap b = m # rest"
    and px: "vget (bn_switchID net) x = Inr px" "px \<noteq> sid" "0 \<le> px" "px < vlen (bn_switches net)" and py: "vget (bn_switchID net) y = Inr py" "py \<noteq> sid"
    and t: "inject_time ck (bn_internal_speedup net) m = Inr t"
    and g: "Wrapper_GeneratePacket (bc_tm bc) (bc_ops bc) sid px (flits_of (mg_bytes m)) vn t (bn_tm net) = Inr (pid, s1)" "0 \<le> pid"
      "Wrapper_GeneratePacket (bc_tm bc) (bc_ops bc) sid py (flits_of (mg_bytes m)) vn t s1 = Inr (- 1, s2)"
  shows "\<exists>net1 pd. read_buffer ck bc sid port vn net = Inr net1 \<and> (\<exists>b1. in_at sid port vn net1 = Some b1 \<and> mb_prio_heap b1 = rest) \<and>
    bn_packet_map net1 =
      map_put pid \<lparr>bm_network_switch = px, bm_dest = x, bm_subnet = vn, bm_msg = m\<lparr>mg_Destination := pd\<rparr>\<rparr> (bn_packet_map net) \<and>
    NetDest_getAllDest (bc_machines bc) pd = Inr [x] \<and> (\<forall>k. 0 \<le> k \<and> k \<noteq> sid \<longrightarrow> vat (bn_switches net1) k = vat (bn_switches net) k)"
proof -
  let ?net = "put_in sid port vn b net"
  have ids: "ids_of (bc_machines bc) (mg_Destination m) = [x, y]" using two getAllDest_ids [OF mo d] by simp
  obtain i1 j1 where x: "x = mt_base (bc_machines bc) i1 + j1" "0 \<le> i1" "i1 < mt_num (bc_machines bc)" "0 \<le> j1" "j1 < mt_count (bc_machines bc) i1"
    using member_range [OF mo d, of x] ids by auto
  obtain i2 j2 where y: "y = mt_base (bc_machines bc) i2 + j2" "0 \<le> i2" "i2 < mt_num (bc_machines bc)" "0 \<le> j2" "j2 < mt_count (bc_machines bc) i2"
    using member_range [OF mo d, of y] ids by auto
  obtain pd d' where a: "dest_ok (bc_machines bc) (bc_nbits bc) pd" "elems pd = {(i1, j1)}"
      "send_copy ck bc sid vn [x, y] x (False, m, ?net) = Inr (True, m\<lparr>mg_Destination := d'\<rparr>,
        (updateInjectStats (flits_of (mg_bytes m)) (?net\<lparr>bn_tm := s1\<rparr>))\<lparr>bn_packet_map :=
          map_put pid \<lparr>bm_network_switch = px, bm_dest = x, bm_subnet = vn, bm_msg = m\<lparr>mg_Destination := pd\<rparr>\<rparr> (bn_packet_map ?net)\<rparr>)"
      (is "_ = Inr (True, _, ?n1)")
    using send_copy_accepted [OF mo d x, of "[x, y]" ?net px sid ck t vn pid s1 False] px t g(1,2) by auto
  have sw: "bn_switches (?n1\<lparr>bn_tm := s2\<rparr>) = bn_switches ?net"
    by (simp add: updateInjectStats_def)
  have c: "send_copy ck bc sid vn [x, y] y (True, m\<lparr>mg_Destination := d'\<rparr>, ?n1) = Inr (True, m\<lparr>mg_Destination := d'\<rparr>, ?n1\<lparr>bn_tm := s2\<rparr>)"
    by (rule send_copy_refused [OF mo y]) (use py t g(3) in \<open>simp_all add: updateInjectStats_def inject_time_def\<close>)
  have l: "for_each (send_copy ck bc sid vn [x, y]) [x, y] ([x, y] = [], m, ?net) = Inr (True, m\<lparr>mg_Destination := d'\<rparr>, ?n1\<lparr>bn_tm := s2\<rparr>)"
    using a(3) c by simp
  obtain net1 sws where n1: "read_buffer ck bc sid port vn net = Inr net1" "\<exists>b1. in_at sid port vn net1 = Some b1 \<and> mb_prio_heap b1 = rest"
      "net1 = ?n1\<lparr>bn_tm := s2, bn_switches := sws\<rparr>" "\<forall>k. 0 \<le> k \<and> k \<noteq> sid \<longrightarrow> vat (bn_switches net1) k = vat (bn_switches net) k"
    using read_buffer_sent [OF i two l sw] by auto
  have "NetDest_getAllDest (bc_machines bc) pd = Inr [x]" by (rule getAllDest_single [OF mo a(1,2) x(1)])
  then show ?thesis using n1(1,2,4) by (intro exI [of _ net1] exI [of _ pd]) (simp add: n1(3))
qed

theorem multicast_copy_lost_witness:
  "\<exists>net1 pd. read_buffer mail_ck (mail_bc 3) 0 0 0 (mail_net [(0, 1), (0, 2)]) = Inr net1 \<and>
     (\<exists>b1. in_at 0 0 0 net1 = Some b1 \<and> mb_prio_heap b1 = []) \<and>
     bn_packet_map net1 = [(0, \<lparr>bm_network_switch = 1, bm_dest = 1, bm_subnet = 0, bm_msg = mail_msg [(0, 1), (0, 2)]\<lparr>mg_Destination := pd\<rparr>\<rparr>)]"
proof -
  let ?n = "mail_net [(0, 1), (0, 2)]" and ?m = "mail_msg [(0, 1), (0, 2)]" and ?bc = "mail_bc 3"
  have all: "NetDest_getAllDest (bc_machines ?bc) (mg_Destination ?m) = Inr [1, 2]" by code_simp
  have o: "vget (bn_switchID ?n) 1 = Inr 1" "(1 :: int) \<noteq> 0" "(0 :: int) \<le> 1" "1 < vlen (bn_switches ?n)" "vget (bn_switchID ?n) 2 = Inr 1" "(1 :: int) \<noteq> 0"
      "inject_time mail_ck (bn_internal_speedup ?n) ?m = Inr 3" by code_simp+
  have "(case Wrapper_GeneratePacket (bc_tm ?bc) (bc_ops ?bc) 0 1 (flits_of (mg_bytes ?m)) 0 3 (bn_tm ?n) of
      Inr (pid, s1) \<Rightarrow> pid = 0 \<and> (case Wrapper_GeneratePacket (bc_tm ?bc) (bc_ops ?bc) 0 1 (flits_of (mg_bytes ?m)) 0 3 s1 of Inr (r, _) \<Rightarrow> r = - 1 | _ \<Rightarrow> False)
      | _ \<Rightarrow> False)" by code_simp
  then obtain s1 s2 where g1: "Wrapper_GeneratePacket (bc_tm ?bc) (bc_ops ?bc) 0 1 (flits_of (mg_bytes ?m)) 0 3 (bn_tm ?n) = Inr (0, s1)"
      and g2: "Wrapper_GeneratePacket (bc_tm ?bc) (bc_ops ?bc) 0 1 (flits_of (mg_bytes ?m)) 0 3 s1 = Inr (- 1, s2)"
    by (elim result_pairE conjE) simp
  have h: "mb_prio_heap (new_MessageBuffer 0 0 True False\<lparr>mb_consumer := True, mb_prio_heap := [?m]\<rparr>) = ?m # []" by simp
  have p: "bn_packet_map ?n = []" "map_put 0 v [] = [(0, v)]" for v :: "int BooksimMessage" by (simp_all add: mail_net_def map_put_def)
  from multicast_copy_lost [OF mail_ok(1,2) all mail_in h o(1-7) g1 order_refl g2] show ?thesis unfolding p by blast
qed

end
