(* ===== verification/Spec2Isabelle.thy ===== *)
theory Spec2Isabelle
  imports Arbiter_Factory Islip Pim Loa Wavefront Rng Deadlock Link Injection_Safety Bridge_Delivery
begin

text \<open>
  This development models the network-on-chip simulator BookSim as it is vendored in \<^verbatim>\<open>src/booksim2/src\<close> and the bridge that
  lets gem5 use it as its interconnect, \<^verbatim>\<open>src/gem5/src/mem/ruby/network/booksim\<close>. File names below are relative to
  \<^verbatim>\<open>src/booksim2/src\<close>, and to \<^verbatim>\<open>src/gem5/src/mem/ruby\<close> where they begin with \<^verbatim>\<open>common\<close>, \<^verbatim>\<open>network\<close> or \<^verbatim>\<open>slicc_interface\<close>.

  \<^bold>\<open>The program.\<close> A cache controller of gem5 puts a message into a message buffer. A network switch reads it, looks up the
  nodes it is for, and asks BookSim's traffic manager for one packet per node. The traffic manager cuts a packet into flits and injects them,
  one per cycle and node, under credit-based flow control: a buffer state counts the free slots of the buffer at the other end of
  the channel. Routers hold flits in virtual channels (VCs), ask a routing function for the outputs a packet may take, and use allocators, which
  are built from arbiters, to give outputs to inputs. Flits that arrive are retired, and when a packet is complete the message it stands for is
  put into the message buffer of its destination.

  \<^bold>\<open>Conventions.\<close> \<open>Prelude\<close> has the result type \<open>err + 'a\<close>: every \<^verbatim>\<open>assert\<close>, \<^verbatim>\<open>Error\<close>, \<^verbatim>\<open>exit\<close> and every access outside a vector is
  an error value, so \<open>f x = Inr y\<close> says that the code neither aborts nor is undefined. Loops are \<open>for_each\<close> (or \<open>fold\<close>, where the body cannot
  fail) over the indices the code visits. \<open>Containers\<close> has ordered maps and sets. A class is a record, a subclass extends it, and a virtual call is a case distinction over a
  datatype. Integers are mathematical integers, with \<open>int32\<close> and \<open>int64\<close> where the code stores a value in a narrower type and
  it matters; \<open>sdiv\<close> and \<open>smod\<close> are C++'s division. Pointers that are only followed are values; flits and credits, whose pools are about
  identity, have an explicit store in \<open>Flits\<close>.

  \<^bold>\<open>Theories, what they model and what is proved.\<close>

  \<^item> \<open>Arbiters\<close>, \<open>Arbiter_Factory\<close>: \<^verbatim>\<open>arbiters/*.cpp\<close> with the factory \<^verbatim>\<open>NewArbiter\<close>, which parses strings such as \<^verbatim>\<open>tree(2,matrix)\<close>.
    \<open>Arbiter_Laws\<close> states the contract \<open>arbiter_contract\<close> (a requester of the highest priority is granted), \<open>Tree_Arbiter\<close> proves it for every arbiter the factory
    builds, and \<open>Arbiter_Fairness\<close> has the contract \<open>fair_arbiter\<close> with the bound after which no top-priority requester starves.

  \<^item> \<open>Allocators\<close>, \<open>Islip\<close>, \<open>Pim\<close>, \<open>Loa\<close>, \<open>Wavefront\<close>: \<^verbatim>\<open>allocators/allocator.cpp\<close> and four allocators. \<open>Allocator_Laws\<close> has the contracts: the result is a matching of
    the requests (\<open>allocator_contract\<close>), which cannot be extended when there are enough iterations (\<open>maximal_allocator\<close>). \<open>Rng\<close> is the integer random number generator that PIM draws from, bit by bit; the bounds of its results and that
    restoring a saved state does not rewind the stream of draws while values are buffered.

  \<^item> \<open>Digits\<close>, \<open>Wiring\<close>, \<open>Cube\<close>: \<^verbatim>\<open>misc_utils.cpp\<close>, the part of \<^verbatim>\<open>networks/network.cpp\<close> and \<^verbatim>\<open>routers/router.cpp\<close> that connects channels, and \<^verbatim>\<open>networks/kncube.cpp\<close>. The locale \<open>topology\<close>
    says what a builder has to do for every channel to have exactly one source and one sink; \<open>Cube\<close> interprets it.

  \<^item> \<open>Flits\<close>, \<open>Routing\<close>, \<open>Mesh\<close>, \<open>Deadlock\<close>: \<^verbatim>\<open>flit.cpp\<close>, \<^verbatim>\<open>credit.cpp\<close>, \<^verbatim>\<open>outputset.cpp\<close> and \<^verbatim>\<open>routefunc.cpp\<close> with its table of functions. The locales \<open>minimal_routing\<close> and \<open>mesh_router\<close> give delivery in exactly the
    distance many hops, for five routing functions; two are shown free of deadlock by a numbering of the channels.

  \<^item> \<open>Buffer_State\<close>: \<^verbatim>\<open>buffer_state.cpp\<close> with its seven buffer policies. \<open>Buffer_Laws\<close>, \<open>Credit_Protocol\<close> and \<open>Buffer_Safety\<close> interpret the contract \<open>buffer_policy\<close> for each of
    them and for the virtual dispatch: under the credit protocol nothing aborts.

  \<^item> \<open>Channels\<close>, \<open>Vc\<close>, \<open>Link\<close>: \<^verbatim>\<open>channel.hpp\<close>, \<^verbatim>\<open>flitchannel.cpp\<close>, \<^verbatim>\<open>pipefifo.hpp\<close>, \<^verbatim>\<open>vc.cpp\<close> and \<^verbatim>\<open>buffer.cpp\<close>. Channels and pipeline registers refine the locale \<open>delay_line\<close>; \<open>Link\<close> composes a buffer state, two
    channels, an input buffer and the queues at both ends into a link, with a router or the traffic manager as the sender, and shows that it never aborts and that slots are conserved.

  \<^item> \<open>Stats\<close>, \<open>Traffic_Manager\<close>: \<^verbatim>\<open>stats.cpp\<close>, \<^verbatim>\<open>trafficmanager.cpp\<close> and \<^verbatim>\<open>trafficmanager_wrapper.cpp\<close>. Samples are recorded with exact numbers, which is shown to be what the
    \<^verbatim>\<open>int\<close> and \<^verbatim>\<open>double\<close> arithmetic of the code computes as long as bins and counts fit an \<^verbatim>\<open>int\<close> and sums stay below \<open>2\<^sup>53\<close>. The network is a record of operations (\<open>net_ops\<close>) with an environment. \<open>Packets\<close> shows that the flits of a packet give the packet back when they are
    retired; \<open>Injection\<close> and \<open>Injection_Safety\<close> that the injection loop keeps to the credit protocol.

  \<^item> \<open>Net_Dest\<close>, \<open>Message_Buffer\<close>, \<open>Message_Laws\<close>: \<^verbatim>\<open>common/Set.hh\<close>, \<^verbatim>\<open>common/NetDest.cc\<close>, \<^verbatim>\<open>slicc_interface/Message.hh\<close> and \<^verbatim>\<open>network/MessageBuffer.cc\<close>. Destinations refine sets of
    machines; ordered buffers refine queues, and no buffer loses or duplicates a message, but for those that \<^verbatim>\<open>clear\<close> drops.

  \<^item> \<open>Bridge\<close>, \<open>Bridge_Delivery\<close>: \<^verbatim>\<open>network/booksim\<close>. A message crosses the bridge and arrives; a multicast message can lose a copy.

  \<^bold>\<open>Errors in the code.\<close> Several theorems are about failures: overflow of packet numbers and of the simulation time, buffers of size 0, VCs shared between
  classes, priority by network age, the variance of the statistics, double deletion of flits, random link faults, adaptive routing that is not adaptive, and lost copies of multicast messages.

  \<^bold>\<open>Bounds and fuel.\<close> No definition has fuel. \<open>RetirePackets\<close> loops while there are packets in the ejection queues and terminates because each round takes one;
  \<open>log_two\<close> is a partial function that does not return on negative arguments, which is proved of exactly those. The loops of the arbiter factory recurse on shorter strings. Starvation bounds are the numbers of inputs. Packet numbers are assumed below
  \<open>2\<^sup>31\<close> where the code stores them in an \<^verbatim>\<open>int\<close>; what happens beyond is stated. The theorems about packets and messages record latencies with the exact statistics, so they speak of runs
  in which no latency reaches \<open>2\<^sup>31\<close> cycles.

  \<^bold>\<open>Parameters.\<close> The traffic manager takes the network as \<open>net_ops\<close>; the theorems assume of it that flits of a packet arrive in order and unchanged but for the fields a router
  writes (\<open>carried\<close>), and that routing at injection offers VCs of the class. The numbering of machine types, which gem5 generates from a protocol, is the record \<open>machines\<close> with the hypothesis \<open>machines_ok\<close> that base numbers
  add up. Numbers drawn for random delays are arguments.

  \<^bold>\<open>Not modelled.\<close> The pipelines of the routers (\<^verbatim>\<open>routers/iq_router.cpp\<close> and the event and chaos routers), of which only the parts are
  modelled; topologies other than meshes and tori; the separable, maximum-size and selective allocators; synthetic traffic, injection processes and
  the batch mode, which the bridge does not use; floating-point random numbers and averages, since they round; configuration files, \<^verbatim>\<open>main\<close>, power and area models, and printing. Of gem5 only what the bridge calls is modelled.
\<close>

end
